(* ===== verification/Prelude.thy ===== *)
theory Prelude
  imports Main "HOL-Library.Word"
begin

text \<open>
  Shared vocabulary of the development: C's integer types, the outcomes of kernel code
  that does not return a value, sequencing of fallible steps, and the generic lemmas on
  lists, words and bounded scans that the component theories use.
\<close>

unbundle bit_operations_syntax

section \<open>Machine types\<close>

text \<open>\<open>types.h\<close>: \<open>uchar\<close>, \<open>ushort\<close> and \<open>uint\<close> are words of 8, 16 and 32 bits.\<close>

type_synonym uchar = "8 word"
type_synonym ushort = "16 word"
type_synonym uint = "32 word"

text \<open>Byte-addressed memory of the 32-bit machine.\<close>

type_synonym memory = "uint \<Rightarrow> uchar"

section \<open>Outcomes\<close>

text \<open>
  What a kernel operation does when it does not return: \<open>Panic\<close> is a call of \<open>panic\<close>
  with its message, \<open>Blocks\<close> means that the caller went to sleep (or spins) and another
  process has to run first, \<open>Fault\<close> is an access the C program must not make (a null
  pointer, an array index out of range).
\<close>

datatype error = Panic string | Blocks string | Fault string

type_synonym 'a res = "error + 'a"

text \<open>Sequencing: the first error ends the operation.\<close>

definition bind_res :: "'a res \<Rightarrow> ('a \<Rightarrow> 'b res) \<Rightarrow> 'b res" where
  "bind_res m f = (case m of Inl e \<Rightarrow> Inl e | Inr x \<Rightarrow> f x)"

named_theorems res_simps \<open>evaluation of sequenced fallible steps\<close>

lemma bind_res_Inr [simp, res_simps]: "bind_res (Inr x) f = f x"
  by (simp add: bind_res_def)

lemma bind_res_Inl [simp, res_simps]: "bind_res (Inl e) f = Inl e"
  by (simp add: bind_res_def)

lemma bind_res_eq_Inr: "bind_res m f = Inr y \<longleftrightarrow> (\<exists>x. m = Inr x \<and> f x = Inr y)"
  by (cases m) auto

lemma bind_res_InrE [elim]:
  assumes "bind_res m f = Inr y"
  obtains x where "m = Inr x" "f x = Inr y"
  using assms by (cases m) auto

lemma bind_res_assoc: "bind_res (bind_res m f) g = bind_res m (\<lambda>x. bind_res (f x) g)"
  by (cases m) auto

text \<open>A guard: \<open>if(c) panic(msg);\<close>\<close>

definition panic_if :: "bool \<Rightarrow> string \<Rightarrow> unit res" where
  "panic_if c msg = (if c then Inl (Panic msg) else Inr ())"

lemma panic_if_simps [simp, res_simps]:
  "panic_if False msg = Inr ()" "panic_if True msg = Inl (Panic msg)"
  by (simp_all add: panic_if_def)

lemma panic_if_eq_Inr [simp]: "panic_if c msg = Inr u \<longleftrightarrow> \<not> c"
  by (simp add: panic_if_def)

section \<open>Loops over an index range\<close>

text \<open>\<open>for(i = lo; i < lo + n; i++) body(i)\<close> over a state, stopping at the first error.\<close>

fun for_res :: "nat \<Rightarrow> nat \<Rightarrow> (nat \<Rightarrow> 's \<Rightarrow> 's res) \<Rightarrow> 's \<Rightarrow> 's res" where
  "for_res i 0 body s = Inr s"
| "for_res i (Suc n) body s = bind_res (body i s) (for_res (Suc i) n body)"

lemma for_res_rule:
  assumes step: "\<And>k t. \<lbrakk>i \<le> k; k < i + n; I k t\<rbrakk> \<Longrightarrow> \<exists>t'. body k t = Inr t' \<and> I (Suc k) t'"
    and init: "I i s"
  shows "\<exists>s'. for_res i n body s = Inr s' \<and> I (i + n) s'"
  using assms
proof (induction n arbitrary: i s)
  case 0
  then show ?case by simp
next
  case (Suc n)
  from Suc.prems(1)[of i s] Suc.prems(2) obtain t
    where t: "body i s = Inr t" "I (Suc i) t" by auto
  have "\<exists>s'. for_res (Suc i) n body t = Inr s' \<and> I (Suc i + n) s'"
    using Suc.prems(1) t(2) by (intro Suc.IH) auto
  then show ?case using t(1) by simp
qed

lemma for_res_partial:
  assumes "for_res i n body s = Inr s'"
    and "\<And>k t t'. \<lbrakk>i \<le> k; k < i + n; I k t; body k t = Inr t'\<rbrakk> \<Longrightarrow> I (Suc k) t'"
    and "I i s"
  shows "I (i + n) s'"
  using assms
proof (induction n arbitrary: i s)
  case 0
  then show ?case by simp
next
  case (Suc n)
  from Suc.prems(1) obtain t where t: "body i s = Inr t" "for_res (Suc i) n body t = Inr s'"
    by auto
  have "I (Suc i) t" using Suc.prems(2)[of i s t] Suc.prems(3) t(1) by simp
  then have "I (Suc i + n) s'" using Suc.prems(2) t(2) by (intro Suc.IH[of "Suc i" t]) auto
  then show ?case by simp
qed

section \<open>Flag bits\<close>

text \<open>Setting and clearing one mask does not disturb another.\<close>

lemma and_or_not_mask:
  fixes f m k :: "'a::len word"
  shows "m AND k = 0 \<Longrightarrow> (f OR m) AND k = f AND k"
    and "m AND k = 0 \<Longrightarrow> (f AND NOT m) AND k = f AND k"
proof -
  assume mk: "m AND k = 0"
  have "\<not> (bit m n \<and> bit k n)" for n
  proof -
    have "bit (m AND k) n = False" using mk by simp
    then show ?thesis by (simp add: bit_and_iff)
  qed
  then show "(f OR m) AND k = f AND k" "(f AND NOT m) AND k = f AND k"
    by (auto intro!: bit_word_eqI simp: bit_and_iff bit_or_iff bit_not_iff)
qed

lemma or_mask_same [simp]: "(f OR m) AND m = (m :: 'a::len word)"
  by (auto intro!: bit_word_eqI simp: bit_and_iff bit_or_iff)

lemma and_not_mask_same [simp]: "(f AND NOT m) AND m = (0 :: 'a::len word)"
  by (auto intro!: bit_word_eqI simp: bit_and_iff bit_not_iff)

lemma and_minus5 [simp]: "(f AND - 5) AND 4 = (0 :: uint)"
  using and_not_mask_same[of f 4] by simp

section \<open>Small words\<close>

lemma unat_small: "n < 2 ^ LENGTH('a) \<Longrightarrow> unat (of_nat n :: 'a::len word) = n"
  by (simp add: unat_of_nat take_bit_nat_eq_self)

lemma uint_small: "n < 2 ^ LENGTH('a) \<Longrightarrow> uint (of_nat n :: 'a::len word) = int n"
  by (simp add: unsigned_of_nat take_bit_nat_eq_self)

section \<open>Little-endian fields\<close>

text \<open>A 32-bit value in memory or in a disk block is four bytes, least significant first.\<close>

definition le32 :: "uint \<Rightarrow> uchar list" where
  "le32 w = map (\<lambda>k. ucast (drop_bit (8 * k) w)) [0, 1, 2, 3]"

definition word32 :: "uchar list \<Rightarrow> uint" where
  "word32 bs = ucast (bs ! 0) OR push_bit 8 (ucast (bs ! 1))
     OR push_bit 16 (ucast (bs ! 2)) OR push_bit 24 (ucast (bs ! 3))"

lemma length_le32 [simp]: "length (le32 w) = 4"
  by (simp add: le32_def)

lemma bit_byte_high [simp]: "8 \<le> n \<Longrightarrow> bit (b :: uchar) n = False"
  by (auto dest: bit_imp_le_length)

lemma word32_le32 [simp]: "word32 (le32 w) = w"
proof (rule bit_word_eqI)
  fix n assume n: "n < LENGTH(32)"
  then have "n < 8 \<or> 8 \<le> n \<and> n < 16 \<or> 16 \<le> n \<and> n < 24 \<or> 24 \<le> n \<and> n < 32"
    by simp linarith
  then consider "n < 8" | "8 \<le> n" "n < 16" | "16 \<le> n" "n < 24" | "24 \<le> n" "n < 32"
    by blast
  then show "bit (word32 (le32 w)) n = bit w n"
    by cases (auto simp add: word32_def le32_def bit_or_iff bit_push_bit_iff bit_drop_bit_eq
        bit_unsigned_iff less_diff_conv2)
qed

lemma le32_word32 [simp]: "length bs = 4 \<Longrightarrow> le32 (word32 bs) = bs"
proof -
  assume "length bs = 4"
  then obtain a b c d where bs: "bs = [a, b, c, d]"
    by (auto simp: numeral_eq_Suc length_Suc_conv)
  have "ucast (word32 [a, b, c, d]) = a" "ucast (drop_bit 8 (word32 [a, b, c, d])) = b"
    "ucast (drop_bit 16 (word32 [a, b, c, d])) = c" "ucast (drop_bit 24 (word32 [a, b, c, d])) = d"
    by (auto intro!: bit_word_eqI simp: word32_def bit_simps)
  then show ?thesis by (simp add: bs le32_def)
qed

section \<open>Replacing a slice of a list\<close>

text \<open>\<open>memmove(xs + k, ys, n)\<close> where \<open>xs\<close> and \<open>ys\<close> are different arrays.\<close>

definition blit :: "'a list \<Rightarrow> nat \<Rightarrow> 'a list \<Rightarrow> 'a list" where
  "blit xs k ys = take k xs @ ys @ drop (k + length ys) xs"

lemma length_blit [simp]: "k + length ys \<le> length xs \<Longrightarrow> length (blit xs k ys) = length xs"
  by (simp add: blit_def)

lemma blit_read [simp]:
  "k + length ys \<le> length xs \<Longrightarrow> take (length ys) (drop k (blit xs k ys)) = ys"
  by (simp add: blit_def)

lemma nth_blit:
  "k + length ys \<le> length xs \<Longrightarrow> i < length xs \<Longrightarrow>
    blit xs k ys ! i = (if k \<le> i \<and> i < k + length ys then ys ! (i - k) else xs ! i)"
  by (auto simp: blit_def nth_append min_def)

lemma blit_Nil [simp]: "blit xs k [] = xs"
  by (simp add: blit_def)

lemma blit_whole [simp]: "length ys = length xs \<Longrightarrow> blit xs 0 ys = ys"
  by (simp add: blit_def)

section \<open>Circular buffers\<close>

text \<open>Fewer than \<open>m\<close> successive positions of a ring of \<open>m\<close> slots are different slots.\<close>

lemma ring_distinct: "\<lbrakk>j < m; k < m; (n + j) mod m = (n + k) mod m\<rbrakk> \<Longrightarrow> j = (k :: nat)"
proof (induction j k rule: linorder_wlog)
  case (le j k)
  then have "m dvd (n + k) - (n + j)" using mod_eq_dvd_iff_nat[of "n + j" "n + k" m] by simp
  then have "m dvd k - j" by simp
  then show ?case using le by (meson diff_is_0_eq dvd_imp_le le_antisym less_imp_diff_less not_le zero_less_diff)
qed simp

end
