(* ===== verification/Proc.thy ===== *)
theory Proc
  imports Prelude
begin

text \<open>
  Processes and blocking (\<open>proc.h\<close>, \<open>proc.c\<close>), over the part of the kernel state every
  other component extends: the spin locks the running CPU holds, the process table and the
  current process. \<open>acquire\<close> and \<open>release\<close> are the calls of \<open>spinlock.c\<close> as their callers
  see them; theory \<open>Spinlock\<close> models their bodies and proves that they implement these.
\<close>

section \<open>Locks and channels by address\<close>

text \<open>
  A spin lock and a sleep channel are addresses in the code. Each lock of the kernel has a
  name here; a channel is the address a process sleeps on (\<open>Nochan\<close> is 0).
\<close>

datatype lockid =
    L_ptable | L_kmem | L_bcache | L_buf nat | L_ide | L_log | L_icache | L_inode nat
  | L_ftable | L_cons | L_ticks | L_pipe uint

datatype chan =
    Nochan | Ch_bufio nat | Ch_buf nat | Ch_log | Ch_inode nat | Ch_input | Ch_ticks
  | Ch_nread uint | Ch_nwrite uint

section \<open>Process table\<close>

datatype procstate = UNUSED | EMBRYO | SLEEPING | RUNNABLE | RUNNING | ZOMBIE

record proc =
  p_state :: procstate
  p_pid :: int
  p_chan :: chan
  p_killed :: bool
  p_cwd :: nat
  p_name :: string

abbreviation NPROC :: nat where "NPROC \<equiv> 64"

text \<open>
  \<open>held\<close> are the spin locks held by this CPU, \<open>ptable\<close> the array \<open>ptable.proc\<close> and
  \<open>curproc\<close> the per-CPU pointer \<open>proc\<close> (\<open>None\<close> for the null pointer).
\<close>

record kcore =
  held :: "lockid set"
  ptable :: "proc list"
  curproc :: "nat option"

lemma kcore_held_id [simp]: "s\<lparr>held := held s\<rparr> = s"
  by (cases s) simp

lemma kcore_held_same [simp]: "held s = H \<Longrightarrow> s\<lparr>held := H\<rparr> = s"
  by auto

lemma kcore_ptable_id [simp]: "s\<lparr>ptable := ptable s\<rparr> = s"
  by (cases s) simp

text \<open>\<open>acquire\<close> panics when this CPU already holds the lock, \<open>release\<close> when it does not.\<close>

definition acquire :: "lockid \<Rightarrow> 'a kcore_scheme \<Rightarrow> 'a kcore_scheme res" where
  "acquire l s = (if l \<in> held s then Inl (Panic ''acquire'')
     else Inr (s\<lparr>held := insert l (held s)\<rparr>))"

definition release :: "lockid \<Rightarrow> 'a kcore_scheme \<Rightarrow> 'a kcore_scheme res" where
  "release l s = (if l \<notin> held s then Inl (Panic ''release'')
     else Inr (s\<lparr>held := held s - {l}\<rparr>))"

lemma acquire_ok [simp]: "l \<notin> held s \<Longrightarrow> acquire l s = Inr (s\<lparr>held := insert l (held s)\<rparr>)"
  by (simp add: acquire_def)

lemma release_ok [simp]: "l \<in> held s \<Longrightarrow> release l s = Inr (s\<lparr>held := held s - {l}\<rparr>)"
  by (simp add: release_def)

lemma acquire_eq_Inr: "acquire l s = Inr t \<longleftrightarrow> l \<notin> held s \<and> t = s\<lparr>held := insert l (held s)\<rparr>"
  by (auto simp: acquire_def)

lemma release_eq_Inr: "release l s = Inr t \<longleftrightarrow> l \<in> held s \<and> t = s\<lparr>held := held s - {l}\<rparr>"
  by (auto simp: release_def)

section \<open>Waking processes\<close>

text \<open>\<open>wakeup1\<close>: every process asleep on the channel becomes runnable.\<close>

definition wake_proc :: "chan \<Rightarrow> proc \<Rightarrow> proc" where
  "wake_proc c p = (if p_state p = SLEEPING \<and> p_chan p = c then p\<lparr>p_state := RUNNABLE\<rparr> else p)"

definition wakeup1 :: "chan \<Rightarrow> 'a kcore_scheme \<Rightarrow> 'a kcore_scheme" where
  "wakeup1 c s = s\<lparr>ptable := map (wake_proc c) (ptable s)\<rparr>"

definition wakeup :: "chan \<Rightarrow> 'a kcore_scheme \<Rightarrow> 'a kcore_scheme res" where
  "wakeup c s =
     bind_res (acquire L_ptable s) (\<lambda>s.
     release L_ptable (wakeup1 c s))"

lemma wakeup_ok [simp]: "L_ptable \<notin> held s \<Longrightarrow> wakeup c s = Inr (wakeup1 c s)"
  by (simp add: wakeup_def wakeup1_def)

lemma wakeup1_frame [simp]:
  "held (wakeup1 c s) = held s" "curproc (wakeup1 c s) = curproc s"
  "kcore.more (wakeup1 c s) = kcore.more s"
  by (simp_all add: wakeup1_def)

section \<open>Going to sleep\<close>

text \<open>The current process's entry, and its update; a null \<open>proc\<close> is a fault.\<close>

definition myproc :: "'a kcore_scheme \<Rightarrow> proc res" where
  "myproc s = (case curproc s of None \<Rightarrow> Inl (Fault ''proc'') | Some i \<Rightarrow>
     if i < length (ptable s) then Inr (ptable s ! i) else Inl (Fault ''proc''))"

definition set_myproc :: "(proc \<Rightarrow> proc) \<Rightarrow> 'a kcore_scheme \<Rightarrow> 'a kcore_scheme" where
  "set_myproc f s = (case curproc s of None \<Rightarrow> s
     | Some i \<Rightarrow> s\<lparr>ptable := (ptable s)[i := f (ptable s ! i)]\<rparr>)"

text \<open>
  \<open>sched\<close> as it stands in the file: its checks, then saving and restoring
  \<open>cpu->intena\<close> around a context switch that is still a comment, so control comes straight
  back. \<open>cpu->ncli\<close> counts the spin locks held. The fourth check (\<open>sched interruptible\<close>) is left out: the interrupt
  flag is no part of this state (theory \<open>Spinlock\<close> has it), and \<open>acquire\<close> has cleared it while a lock is held.
\<close>

definition sched :: "'a kcore_scheme \<Rightarrow> 'a kcore_scheme res" where
  "sched s =
     bind_res (panic_if (L_ptable \<notin> held s) ''sched ptable.lock'') (\<lambda>_.
     bind_res (panic_if (card (held s) \<noteq> 1) ''sched locks'') (\<lambda>_.
     bind_res (myproc s) (\<lambda>p.
     bind_res (panic_if (p_state p = RUNNING) ''sched running'') (\<lambda>_.
     Inr s))))"

text \<open>\<open>sleep(chan, lock)\<close>; the lock is an address, \<open>None\<close> for a null pointer.\<close>

definition sleep :: "chan \<Rightarrow> lockid option \<Rightarrow> 'a kcore_scheme \<Rightarrow> 'a kcore_scheme res" where
  "sleep c lk s =
     bind_res (panic_if (curproc s = None) ''sleep'') (\<lambda>_.
     case lk of None \<Rightarrow> Inl (Panic ''sleep without lock'')
     | Some l \<Rightarrow>
       bind_res (if l \<noteq> L_ptable then bind_res (acquire L_ptable s) (release l) else Inr s) (\<lambda>s.
       bind_res (sched (set_myproc (\<lambda>p. p\<lparr>p_chan := c, p_state := SLEEPING\<rparr>) s)) (\<lambda>s.
       let s = set_myproc (\<lambda>p. p\<lparr>p_chan := Nochan\<rparr>) s in
       if l \<noteq> L_ptable then bind_res (release L_ptable s) (acquire l) else Inr s)))"

lemma set_myproc_frame [simp]:
  "held (set_myproc f s) = held s" "curproc (set_myproc f s) = curproc s"
  "kcore.more (set_myproc f s) = kcore.more s"
  "length (ptable (set_myproc f s)) = length (ptable s)"
  by (simp_all add: set_myproc_def split: option.split)

lemma set_myproc_ptable:
  "curproc s = Some i \<Longrightarrow> ptable (set_myproc f s) = (ptable s)[i := f (ptable s ! i)]"
  by (simp add: set_myproc_def)

lemma sleep_ok:
  assumes "curproc s = Some i" "i < length (ptable s)" "held s = {l}" "l \<noteq> L_ptable"
  shows "sleep c (Some l) s =
    Inr (s\<lparr>ptable := (ptable s)[i := (ptable s ! i)\<lparr>p_state := SLEEPING, p_chan := Nochan\<rparr>]\<rparr>)"
proof -
  have "insert L_ptable {l} - {l} = {L_ptable}" using assms(4) by auto
  then show ?thesis
    using assms by (cases s) (simp add: sleep_def sched_def myproc_def set_myproc_def)
qed

text \<open>
  A loop whose body is \<open>sleep\<close> and whose condition only another process can change: the call
  of \<open>sleep\<close> with its checks, and then the caller waits.
\<close>

definition block_on :: "chan \<Rightarrow> lockid \<Rightarrow> string \<Rightarrow> 'a kcore_scheme \<Rightarrow> 'b res" where
  "block_on c l who s = bind_res (sleep c (Some l) s) (\<lambda>_. Inl (Blocks who))"

lemma block_on_ok:
  assumes "curproc s = Some i" "i < length (ptable s)" "held s = {l}" "l \<noteq> L_ptable"
  shows "block_on c l who s = Inl (Blocks who)"
  using sleep_ok[OF assms] by (simp add: block_on_def)

end
