(* ===== verification/Sleeplock.thy ===== *)
theory Sleeplock
  imports Proc
begin

text \<open>
  Sleep locks (\<open>sleeplock.h\<close>, \<open>sleeplock.c\<close>). A sleep lock is a field of a buffer or of an
  inode; its inner spin lock and its address as a channel are passed along, and each
  operation returns the lock as it leaves it.
\<close>

record sleeplock =
  sl_locked :: bool
  sl_name :: string
  sl_pid :: int

definition initsleeplock :: "string \<Rightarrow> sleeplock" where
  "initsleeplock nm = \<lparr>sl_locked = False, sl_name = nm, sl_pid = 0\<rparr>"

text \<open>
  \<open>acquiresleep\<close>. While the lock is taken the caller loops in \<open>sleep\<close>; only another process's
  \<open>releasesleep\<close> can end the loop.
\<close>

definition acquiresleep ::
  "lockid \<Rightarrow> chan \<Rightarrow> sleeplock \<Rightarrow> 'a kcore_scheme \<Rightarrow> (sleeplock \<times> 'a kcore_scheme) res" where
  "acquiresleep inner c lk s =
     bind_res (acquire inner s) (\<lambda>s.
     if sl_locked lk then block_on c inner ''acquiresleep'' s
     else
       bind_res (myproc s) (\<lambda>p.
       bind_res (release inner s) (\<lambda>s.
       Inr (lk\<lparr>sl_locked := True, sl_pid := p_pid p\<rparr>, s))))"

definition releasesleep ::
  "lockid \<Rightarrow> chan \<Rightarrow> sleeplock \<Rightarrow> 'a kcore_scheme \<Rightarrow> (sleeplock \<times> 'a kcore_scheme) res" where
  "releasesleep inner c lk s =
     bind_res (acquire inner s) (\<lambda>s.
     bind_res (wakeup c s) (\<lambda>s.
     bind_res (release inner s) (\<lambda>s.
     Inr (lk\<lparr>sl_locked := False, sl_pid := 0\<rparr>, s))))"

definition holdingsleep ::
  "lockid \<Rightarrow> sleeplock \<Rightarrow> 'a kcore_scheme \<Rightarrow> (bool \<times> 'a kcore_scheme) res" where
  "holdingsleep inner lk s =
     bind_res (acquire inner s) (\<lambda>s.
     bind_res (release inner s) (\<lambda>s.
     Inr (sl_locked lk, s)))"

text \<open>There is a current process, so that \<open>proc->pid\<close> can be read.\<close>

definition has_proc :: "'a kcore_scheme \<Rightarrow> bool" where
  "has_proc s \<longleftrightarrow> (\<exists>i. curproc s = Some i \<and> i < length (ptable s))"

definition curpid :: "'a kcore_scheme \<Rightarrow> int" where
  "curpid s = (case curproc s of None \<Rightarrow> 0 | Some i \<Rightarrow> p_pid (ptable s ! i))"

lemma myproc_ok: "has_proc s \<Longrightarrow> \<exists>p. myproc s = Inr p \<and> p_pid p = curpid s"
  by (auto simp: has_proc_def myproc_def curpid_def)

lemma has_proc_frame [simp]:
  "has_proc (s\<lparr>held := H\<rparr>) = has_proc s" "has_proc (wakeup1 c s) = has_proc s"
  by (simp_all add: has_proc_def wakeup1_def)

lemma p_pid_wake_proc [simp]: "p_pid (wake_proc c p) = p_pid p"
  by (simp add: wake_proc_def)

lemma curpid_frame [simp]:
  "curpid (s\<lparr>held := H\<rparr>) = curpid s"
  "has_proc s \<Longrightarrow> curpid (wakeup1 c s) = curpid s"
  by (auto simp: curpid_def wakeup1_def has_proc_def split: option.splits)

lemma acquiresleep_ok [simp]:
  assumes "inner \<notin> held s" "\<not> sl_locked lk" "has_proc s"
  shows "acquiresleep inner c lk s = Inr (lk\<lparr>sl_locked := True, sl_pid := curpid s\<rparr>, s)"
  using assms myproc_ok[of "s\<lparr>held := insert inner (held s)\<rparr>"]
  by (auto simp: acquiresleep_def)

lemma acquiresleep_taken:
  assumes "held s = {}" "sl_locked lk" "has_proc s" "inner \<noteq> L_ptable"
  shows "acquiresleep inner c lk s = Inl (Blocks ''acquiresleep'')"
proof -
  obtain i where "curproc s = Some i" "i < length (ptable s)"
    using assms(3) by (auto simp: has_proc_def)
  then show ?thesis
    using assms block_on_ok[of "s\<lparr>held := {inner}\<rparr>" i inner c "''acquiresleep''"]
    by (simp add: acquiresleep_def)
qed

lemma releasesleep_ok [simp]:
  assumes "inner \<notin> held s" "L_ptable \<notin> held s" "inner \<noteq> L_ptable"
  shows "releasesleep inner c lk s = Inr (lk\<lparr>sl_locked := False, sl_pid := 0\<rparr>, wakeup1 c s)"
  using assms by (simp add: releasesleep_def wakeup1_def)

lemma holdingsleep_ok [simp]:
  "inner \<notin> held s \<Longrightarrow> holdingsleep inner lk s = Inr (sl_locked lk, s)"
  by (simp add: holdingsleep_def)

end
