(* ===== verification/Dll.thy ===== *)
theory Dll
  imports Prelude
begin

text \<open>
  Circular doubly linked lists with a sentinel, as \<open>bio.c\<close> keeps its buffers: nodes are
  numbers, \<open>nx\<close> and \<open>pv\<close> are the two pointer fields and \<open>h\<close> is the sentinel. The theory
  relates the pointers to the list of nodes they spell (\<open>circ\<close>), and gives the effect of
  unlinking a node, of inserting one after the sentinel and of a bounded scan.
\<close>

fun chain :: "('n \<Rightarrow> 'n) \<Rightarrow> 'n \<Rightarrow> 'n list \<Rightarrow> 'n \<Rightarrow> bool" where
  "chain f a [] b \<longleftrightarrow> f a = b"
| "chain f a (x # xs) b \<longleftrightarrow> f a = x \<and> chain f x xs b"

definition circ :: "('n \<Rightarrow> 'n) \<Rightarrow> ('n \<Rightarrow> 'n) \<Rightarrow> 'n \<Rightarrow> 'n list \<Rightarrow> bool" where
  "circ nx pv h xs \<longleftrightarrow> chain nx h xs h \<and> chain pv h (rev xs) h \<and> distinct (h # xs)"

text \<open>Following a pointer from \<open>b\<close> until the sentinel or a node that satisfies \<open>p\<close>.\<close>

fun scan :: "nat \<Rightarrow> 'n \<Rightarrow> ('n \<Rightarrow> 'n) \<Rightarrow> ('n \<Rightarrow> bool) \<Rightarrow> 'n \<Rightarrow> 'n option res" where
  "scan 0 h f p b = Inl (Blocks ''scan'')"
| "scan (Suc fuel) h f p b =
     (if b = h then Inr None else if p b then Inr (Some b) else scan fuel h f p (f b))"

section \<open>Chains\<close>

lemma chain_append: "chain f a (xs @ y # ys) b \<longleftrightarrow> chain f a xs y \<and> chain f y ys b"
  by (induction xs arbitrary: a) auto

lemma chain_upd [simp]:
  "u \<notin> set (a # xs) \<Longrightarrow> chain (f(u := v)) a xs b = chain f a xs b"
  by (induction xs arbitrary: a) auto

lemma chain_redirect:
  "chain f a xs b \<Longrightarrow> distinct (a # xs) \<Longrightarrow> chain (f(last (a # xs) := c)) a xs c"
proof (induction xs arbitrary: a)
  case Nil
  then show ?case by simp
next
  case (Cons x xs)
  then have "last (x # xs) \<noteq> a" by (auto dest: last_in_set split: if_splits)
  with Cons show ?case by simp
qed

lemma chain_last: "chain f a xs b \<Longrightarrow> f (last (a # xs)) = b"
  by (induction xs arbitrary: a) auto

lemma chain_hd: "chain f a xs b \<Longrightarrow> f a = hd (xs @ [b])"
  by (cases xs) auto

lemma scan_chain:
  assumes "chain f a xs h" "h \<notin> set xs" "length xs < fuel"
  shows "scan fuel h f p (f a) = Inr (find p xs)"
  using assms
proof (induction xs arbitrary: a fuel)
  case Nil
  then show ?case by (cases fuel) auto
next
  case (Cons x xs)
  then obtain n where "fuel = Suc n" by (cases fuel) auto
  with Cons show ?case by auto
qed

section \<open>Unlinking and inserting\<close>

lemma circ_split:
  assumes "circ nx pv h (ys @ b # zs)"
  shows "chain nx h ys b" "chain nx b zs h" "chain pv h (rev zs) b" "chain pv b (rev ys) h"
    "distinct (h # ys @ b # zs)"
  using assms by (auto simp: circ_def chain_append)

lemma circ_neighbours:
  assumes "circ nx pv h (ys @ b # zs)"
  shows "pv b = last (h # ys)" "nx b = last (h # rev zs)"
  using chain_hd[OF circ_split(4)[OF assms]] chain_hd[OF circ_split(2)[OF assms]]
  by (simp_all add: hd_append hd_rev last_rev)

text \<open>One direction of the unlinking, for either pointer field.\<close>

lemma chain_skip:
  assumes "chain f h ys b" "chain f b zs h" "distinct (h # ys @ b # zs)"
  shows "chain (f(last (h # ys) := f b)) h (ys @ zs) h"
proof -
  have d: "distinct (h # ys)" and l: "last (h # ys) \<in> set (h # ys)"
    using assms(3) by auto
  have red: "chain (f(last (h # ys) := f b)) h ys (f b)"
    using chain_redirect[OF assms(1) d] .
  show ?thesis
  proof (cases zs)
    case Nil
    then show ?thesis using red assms(2) by simp
  next
    case (Cons z zs')
    have "last (h # ys) \<notin> set (z # zs')" using assms(3) Cons l by auto
    then have "chain (f(last (h # ys) := f b)) z zs' h" using assms(2) Cons by simp
    then show ?thesis using red assms(2) Cons by (simp add: chain_append)
  qed
qed

lemma circ_unlink:
  assumes c: "circ nx pv h (ys @ b # zs)"
  shows "circ (nx(pv b := nx b)) (pv(nx b := pv b)) h (ys @ zs)"
proof -
  note s = circ_split[OF c] and n = circ_neighbours[OF c]
  have "chain (nx(pv b := nx b)) h (ys @ zs) h"
    using chain_skip[OF s(1,2,5)] n(1) by simp
  moreover have "chain (pv(nx b := pv b)) h (rev zs @ rev ys) h"
    using chain_skip[OF s(3,4)] s(5) n(2) by (auto simp: Int_commute)
  ultimately show ?thesis using s(5) by (simp add: circ_def)
qed

lemma circ_front:
  assumes c: "circ nx pv h xs" and b: "b \<notin> set (h # xs)"
  shows "circ (nx(b := nx h, h := b)) (pv(b := h, nx h := b)) h (b # xs)"
proof (cases xs)
  case Nil
  then show ?thesis using assms by (auto simp: circ_def)
next
  case (Cons x xs')
  then have nh: "nx h = x" using c by (simp add: circ_def)
  have "chain nx x xs' h" "h \<notin> set (x # xs')" using c Cons by (auto simp: circ_def)
  then have f: "chain (nx(b := x, h := b)) h (b # xs) h"
    using b Cons by simp
  have "chain pv h (rev xs' @ [x]) h" using c Cons by (simp add: circ_def)
  then have "chain pv h (rev xs') x" by (simp add: chain_append)
  then have "chain (pv(b := h, x := b)) h (rev xs') x"
    using b Cons c by (subst chain_upd; (subst chain_upd)?) (auto simp: circ_def)
  then have "chain (pv(b := h, x := b)) h (rev (b # xs)) h"
    using b Cons by (simp add: chain_append)
  then show ?thesis using f b c Cons nh by (auto simp: circ_def)
qed

text \<open>
  Moving a node to the front: what \<open>brelse\<close> does with a buffer nobody uses any more.
\<close>

lemma circ_move_front:
  assumes "circ nx pv h xs" "b \<in> set xs"
    and "nx1 = nx(pv b := nx b)" "pv1 = pv(nx b := pv b)"
  shows "circ (nx1(b := nx1 h, h := b)) (pv1(b := h, nx1 h := b)) h (b # remove1 b xs)"
proof -
  obtain ys zs where xs: "xs = ys @ b # zs" "b \<notin> set ys"
    using split_list_first[OF assms(2)] by blast
  have d: "distinct (h # xs)" using assms(1) by (simp add: circ_def)
  have "circ nx1 pv1 h (ys @ zs)"
    using circ_unlink[of nx pv h ys b zs] assms(1,3,4) xs by simp
  moreover have "b \<notin> set (h # ys @ zs)" using d xs by auto
  moreover have "remove1 b xs = ys @ zs" using xs by (simp add: remove1_append)
  ultimately show ?thesis using circ_front by metis
qed

end
