(* ===== verification/Memory.thy ===== *)
theory Memory
  imports Prelude
begin

text \<open>
  Byte-addressed memory: 32-bit loads and stores, fills and ranges, with the facts about
  disjoint addresses that the allocator, the page tables and the string functions use.
\<close>

definition rd32 :: "memory \<Rightarrow> uint \<Rightarrow> uint" where
  "rd32 m a = word32 [m a, m (a + 1), m (a + 2), m (a + 3)]"

definition wr32 :: "memory \<Rightarrow> uint \<Rightarrow> uint \<Rightarrow> memory" where
  "wr32 m a w = m(a := le32 w ! 0, a + 1 := le32 w ! 1, a + 2 := le32 w ! 2, a + 3 := le32 w ! 3)"

lemma rd32_wr32 [simp]: "rd32 (wr32 m a w) a = w"
proof -
  have "[le32 w ! 0, le32 w ! 1, le32 w ! 2, le32 w ! 3] = le32 w"
    by (simp add: le32_def)
  then show ?thesis by (simp add: rd32_def wr32_def)
qed

text \<open>Address \<open>a\<close> lies in the \<open>n\<close> bytes from \<open>b\<close>; the range may not wrap around.\<close>

definition in_range :: "uint \<Rightarrow> nat \<Rightarrow> uint \<Rightarrow> bool" where
  "in_range b n a \<longleftrightarrow> unat b \<le> unat a \<and> unat a < unat b + n"

lemma unat_add_small: "unat b + n < 2 ^ 32 \<Longrightarrow> unat (b + of_nat n :: uint) = unat b + n"
  by (simp add: unat_word_ariths unat_of_nat take_bit_nat_eq_self)

lemma wr32_other:
  assumes "unat a + 4 \<le> 2 ^ 32" "\<not> in_range a 4 x"
  shows "wr32 m a w x = m x"
proof -
  have "unat (a + 1) = unat a + 1" "unat (a + 2) = unat a + 2" "unat (a + 3) = unat a + 3"
    using assms(1) unat_add_small[of a 1] unat_add_small[of a 2] unat_add_small[of a 3] by simp_all
  then show ?thesis using assms(2) by (auto simp: wr32_def in_range_def)
qed

lemma rd32_cong:
  assumes "unat a + 4 \<le> 2 ^ 32" "\<And>x. in_range a 4 x \<Longrightarrow> m x = m' x"
  shows "rd32 m a = rd32 m' a"
proof -
  have "unat (a + 1) = unat a + 1" "unat (a + 2) = unat a + 2" "unat (a + 3) = unat a + 3"
    using assms(1) unat_add_small[of a 1] unat_add_small[of a 2] unat_add_small[of a 3] by simp_all
  then show ?thesis by (simp add: rd32_def assms(2) in_range_def)
qed

lemma rd32_wr32_other:
  assumes "unat a + 4 \<le> 2 ^ 32" "unat b + 4 \<le> 2 ^ 32" "unat a + 4 \<le> unat b \<or> unat b + 4 \<le> unat a"
  shows "rd32 (wr32 m a w) b = rd32 m b"
  using assms by (intro rd32_cong wr32_other) (auto simp: in_range_def)

text \<open>\<open>memset(b, c, n)\<close> as the bytes it leaves; theory \<open>Cstring\<close> shows that the loop does this.\<close>

definition fill :: "memory \<Rightarrow> uint \<Rightarrow> nat \<Rightarrow> uchar \<Rightarrow> memory" where
  "fill m b n c = (\<lambda>a. if in_range b n a then c else m a)"

lemma fill_in [simp]: "in_range b n a \<Longrightarrow> fill m b n c a = c"
  and fill_out [simp]: "\<not> in_range b n a \<Longrightarrow> fill m b n c a = m a"
  by (simp_all add: fill_def)

end
