(* ===== verification/Cstring.thy ===== *)
theory Cstring
  imports Memory
begin

text \<open>
  The kernel's string functions (\<open>string.c\<close>, with \<open>stosb\<close> and \<open>stosl\<close> of \<open>x86.h\<close>) on byte
  memory, loop for loop, and what they compute as functions of the memory.
\<close>

section \<open>Functions\<close>

text \<open>\<open>rep stosb\<close> and \<open>rep stosl\<close> with the direction flag clear.\<close>

fun stosb :: "memory \<Rightarrow> uint \<Rightarrow> uchar \<Rightarrow> nat \<Rightarrow> memory" where
  "stosb m a c 0 = m"
| "stosb m a c (Suc n) = stosb (m(a := c)) (a + 1) c n"

fun stosl :: "memory \<Rightarrow> uint \<Rightarrow> uint \<Rightarrow> nat \<Rightarrow> memory" where
  "stosl m a w 0 = m"
| "stosl m a w (Suc n) = stosl (wr32 m a w) (a + 4) w n"

definition memset :: "memory \<Rightarrow> uint \<Rightarrow> uint \<Rightarrow> uint \<Rightarrow> memory" where
  "memset m dst c n =
     (if dst mod 4 = 0 \<and> n mod 4 = 0 then
        (let c = c AND 0xFF in
         stosl m dst (push_bit 24 c OR push_bit 16 c OR push_bit 8 c OR c) (unat (n div 4)))
      else stosb m dst (ucast c) (unat n))"

text \<open>The result of \<open>memcmp\<close> is a difference of bytes cast to a pointer.\<close>

fun memcmp_loop :: "memory \<Rightarrow> uint \<Rightarrow> uint \<Rightarrow> nat \<Rightarrow> uint" where
  "memcmp_loop m s1 s2 0 = 0"
| "memcmp_loop m s1 s2 (Suc n) =
     (if m s1 \<noteq> m s2 then ucast (m s1) - ucast (m s2) else memcmp_loop m (s1 + 1) (s2 + 1) n)"

definition memcmp :: "memory \<Rightarrow> uint \<Rightarrow> uint \<Rightarrow> uint \<Rightarrow> uint" where
  "memcmp m v1 v2 n = memcmp_loop m v1 v2 (unat n)"

fun copy_up :: "memory \<Rightarrow> uint \<Rightarrow> uint \<Rightarrow> nat \<Rightarrow> memory" where
  "copy_up m d s 0 = m"
| "copy_up m d s (Suc n) = copy_up (m(d := m s)) (d + 1) (s + 1) n"

text \<open>\<open>*--d = *--s\<close>\<close>

fun copy_down :: "memory \<Rightarrow> uint \<Rightarrow> uint \<Rightarrow> nat \<Rightarrow> memory" where
  "copy_down m d s 0 = m"
| "copy_down m d s (Suc n) = copy_down (m(d - 1 := m (s - 1))) (d - 1) (s - 1) n"

definition memmove :: "memory \<Rightarrow> uint \<Rightarrow> uint \<Rightarrow> uint \<Rightarrow> memory" where
  "memmove m dst src n =
     (if src < dst \<and> src + n > dst then copy_down m (dst + n) (src + n) (unat n)
      else copy_up m dst src (unat n))"

fun strncmp_loop :: "memory \<Rightarrow> uint \<Rightarrow> uint \<Rightarrow> nat \<Rightarrow> int" where
  "strncmp_loop m p q 0 = 0"
| "strncmp_loop m p q (Suc n) =
     (if m p \<noteq> 0 \<and> m p = m q then strncmp_loop m (p + 1) (q + 1) n
      else uint (m p) - uint (m q))"

definition strncmp :: "memory \<Rightarrow> uint \<Rightarrow> uint \<Rightarrow> uint \<Rightarrow> int" where
  "strncmp m p q n = strncmp_loop m p q (unat n)"

text \<open>The two loops of \<open>strncpy\<close>; \<open>n\<close> is a signed count.\<close>

fun strncpy_pad :: "memory \<Rightarrow> uint \<Rightarrow> nat \<Rightarrow> memory" where
  "strncpy_pad m s 0 = m"
| "strncpy_pad m s (Suc n) = strncpy_pad (m(s := 0)) (s + 1) n"

fun strncpy_loop :: "memory \<Rightarrow> uint \<Rightarrow> uint \<Rightarrow> nat \<Rightarrow> memory" where
  "strncpy_loop m s t 0 = m"
| "strncpy_loop m s t (Suc n) =
     (if m t \<noteq> 0 then strncpy_loop (m(s := m t)) (s + 1) (t + 1) n
      else strncpy_pad (m(s := 0)) (s + 1) n)"

definition strncpy :: "memory \<Rightarrow> uint \<Rightarrow> uint \<Rightarrow> int \<Rightarrow> memory" where
  "strncpy m s t n = strncpy_loop m s t (nat n)"

section \<open>Addresses without wrap-around\<close>

lemma unat_add1: "unat a + 1 < 2 ^ 32 \<Longrightarrow> unat (a + 1 :: uint) = unat a + 1"
  using unat_add_small[of a 1] by simp

lemma in_range_Suc:
  "unat a + Suc n < 2 ^ 32 \<Longrightarrow> in_range a (Suc n) x \<longleftrightarrow> x = a \<or> in_range (a + 1) n x"
  using unat_add1[of a] by (auto simp: in_range_def word_unat_eq_iff)

section \<open>Filling\<close>

lemma fill_zero [simp]: "fill m a 0 c = m"
  by (auto simp: fill_def in_range_def fun_eq_iff)

lemma stosb_fill: "unat a + n < 2 ^ 32 \<Longrightarrow> stosb m a c n = fill m a n c"
proof (induction n arbitrary: m a)
  case 0
  then show ?case by simp
next
  case (Suc n)
  then show ?case
    using in_range_Suc[OF Suc.prems] unat_add1[of a] by (auto simp: fill_def fun_eq_iff)
qed

lemma byte_of_masked: "c AND 0xFF = (ucast (ucast c :: uchar) :: uint)"
proof -
  have "(0xFF :: uint) = mask 8" by (simp add: mask_eq_exp_minus_1)
  then have "c AND 0xFF = c AND mask 8" by simp
  also have "\<dots> = ucast (ucast c :: uchar)" by (auto intro!: bit_word_eqI simp: bit_simps)
  finally show ?thesis .
qed

lemma le32_four: "le32 (push_bit 24 (ucast b) OR push_bit 16 (ucast b) OR push_bit 8 (ucast b) OR ucast b)
    = [b, b, b, b]"
proof -
  have "push_bit 24 (ucast b) OR push_bit 16 (ucast b) OR push_bit 8 (ucast b) OR ucast b
      = word32 [b, b, b, b]"
    by (rule bit_word_eqI) (auto simp: word32_def bit_simps)
  then show ?thesis by simp
qed

lemma wr32_fill:
  assumes "le32 w = [b, b, b, b]" "unat a + 4 < 2 ^ 32"
  shows "wr32 m a w = fill m a 4 b"
proof
  fix x
  have "unat (a + 1) = unat a + 1" "unat (a + 2) = unat a + 2" "unat (a + 3) = unat a + 3"
    using assms(2) unat_add_small[of a 1] unat_add_small[of a 2] unat_add_small[of a 3] by simp_all
  then have "in_range a 4 x \<longleftrightarrow> x = a \<or> x = a + 1 \<or> x = a + 2 \<or> x = a + 3"
    by (auto simp: in_range_def word_unat_eq_iff)
  then show "wr32 m a w x = fill m a 4 b x"
    by (auto simp: wr32_def assms(1) fill_def)
qed

lemma fill_fill:
  assumes "unat a + 4 < 2 ^ 32"
  shows "fill (fill m a 4 c) (a + 4) n c = fill m a (4 + n) c"
proof -
  have "unat (a + 4) = unat a + 4" using assms unat_add_small[of a 4] by simp
  then show ?thesis by (auto simp: fill_def in_range_def fun_eq_iff)
qed

lemma stosl_fill:
  "le32 w = [b, b, b, b] \<Longrightarrow> unat a + 4 * n < 2 ^ 32 \<Longrightarrow> stosl m a w n = fill m a (4 * n) b"
proof (induction n arbitrary: m a)
  case 0
  then show ?case by simp
next
  case (Suc n)
  have a: "unat a + 4 < 2 ^ 32" and a4: "unat (a + 4) = unat a + 4"
    using Suc.prems(2) unat_add_small[of a 4] by simp_all
  have "stosl m a w (Suc n) = fill (fill m a 4 b) (a + 4) (4 * n) b"
    using Suc a4 wr32_fill[OF Suc.prems(1) a] by simp
  then show ?case using fill_fill[OF a] by simp
qed

text \<open>Both ways of \<open>memset\<close> store the low byte of \<open>c\<close> in exactly the \<open>n\<close> bytes from \<open>dst\<close>.\<close>

lemma memset_fill:
  assumes "unat dst + unat n < 2 ^ 32"
  shows "memset m dst c n = fill m dst (unat n) (ucast c)"
proof (cases "dst mod 4 = 0 \<and> n mod 4 = 0")
  case True
  have "unat (n mod 4) = 0" using True by simp
  then have d: "4 * unat (n div 4) = unat n" by (simp add: unat_div unat_mod) presburger
  show ?thesis
    using True stosl_fill[OF le32_four, of dst "unat (n div 4)" m "ucast c"] d assms
    by (simp add: memset_def byte_of_masked Let_def)
next
  case False
  then show ?thesis using stosb_fill[OF assms] by (auto simp: memset_def)
qed

section \<open>Moving\<close>

lemma unat_offset:
  assumes "unat d \<le> unat x" "unat s + (unat x - unat d) < 2 ^ 32"
  shows "unat (s + (x - d) :: uint) = unat s + (unat x - unat d)"
proof -
  have "x - d = of_nat (unat x - unat d)"
    using assms(1) by (simp add: of_nat_diff)
  then show ?thesis using unat_add_small[OF assms(2)] by simp
qed

lemma copy_up_spec:
  assumes "unat d + n < 2 ^ 32" "unat s + n < 2 ^ 32" "unat d \<le> unat s \<or> unat s + n \<le> unat d"
  shows "copy_up m d s n x = (if in_range d n x then m (s + (x - d)) else m x)"
  using assms
proof (induction n arbitrary: m d s)
  case 0
  then show ?case by (auto simp: in_range_def)
next
  case (Suc n)
  have u: "unat (d + 1) = unat d + 1" "unat (s + 1) = unat s + 1"
    using Suc.prems unat_add1[of d] unat_add1[of s] by simp_all
  have IH: "copy_up (m(d := m s)) (d + 1) (s + 1) n x
      = (if in_range (d + 1) n x then (m(d := m s)) (s + 1 + (x - (d + 1))) else (m(d := m s)) x)"
    using Suc.prems by (intro Suc.IH) (auto simp: u)
  have "s + 1 + (x - (d + 1)) = s + (x - d)" by simp
  moreover have "s + (x - d) \<noteq> d" if "in_range (d + 1) n x"
  proof -
    have r: "unat d + 1 \<le> unat x" "unat x < unat d + 1 + n" using that u by (auto simp: in_range_def)
    then have "unat (s + (x - d)) = unat s + (unat x - unat d)"
      using Suc.prems by (intro unat_offset) auto
    then show ?thesis using Suc.prems(3) r by (auto simp: word_unat_eq_iff)
  qed
  ultimately show ?case
    using IH in_range_Suc[of d n x] Suc.prems(1) u by (auto simp: in_range_def)
qed

lemma copy_down_spec:
  assumes "n \<le> unat s" "unat s \<le> unat d"
  shows "copy_down m d s n x = (if unat d - n \<le> unat x \<and> unat x < unat d then m (s + (x - d)) else m x)"
  using assms
proof (induction n arbitrary: m d s)
  case 0
  then show ?case by auto
next
  case (Suc n)
  have sub1: "unat (a - 1 :: uint) = unat a - 1" if "0 < unat a" for a
    using that by (simp add: unat_gt_0 unat_minus_one)
  have u: "unat (d - 1) = unat d - 1" "unat (s - 1) = unat s - 1"
    using Suc.prems sub1[of d] sub1[of s] by auto
  have IH: "copy_down (m(d - 1 := m (s - 1))) (d - 1) (s - 1) n x
      = (if unat (d - 1) - n \<le> unat x \<and> unat x < unat (d - 1)
         then (m(d - 1 := m (s - 1))) (s - 1 + (x - (d - 1))) else (m(d - 1 := m (s - 1))) x)"
    using Suc.prems by (intro Suc.IH) (auto simp: u)
  have "s - 1 + (x - (d - 1)) = s + (x - d)" by simp
  moreover have "s + (x - d) \<noteq> d - 1" if x: "unat d - Suc n \<le> unat x" "unat x < unat d - 1"
  proof -
    have dx: "unat (d - x) = unat d - unat x" using x by (intro unat_sub) (simp add: word_le_nat_alt)
    then have "unat (s - (d - x)) = unat s - (unat d - unat x)"
      using x Suc.prems by (subst unat_sub) (auto simp: word_le_nat_alt)
    moreover have "s - (d - x) = s + (x - d)" by simp
    ultimately show ?thesis using x u Suc.prems by (auto simp: word_unat_eq_iff)
  qed
  moreover have "x = d - 1 \<longleftrightarrow> unat x = unat d - 1" by (simp add: word_unat_eq_iff u)
  ultimately show ?case using IH u Suc.prems by auto
qed

text \<open>
  \<open>memmove\<close> copies the old bytes of the source whether or not the two ranges overlap.
\<close>

lemma memmove_copies:
  assumes "unat dst + unat n < 2 ^ 32" "unat src + unat n < 2 ^ 32"
  shows "memmove m dst src n x = (if in_range dst (unat n) x then m (src + (x - dst)) else m x)"
proof -
  have e: "unat (src + n) = unat src + unat n" "unat (dst + n) = unat dst + unat n"
    using assms unat_add_small[of src "unat n"] unat_add_small[of dst "unat n"] by simp_all
  show ?thesis
  proof (cases "src < dst \<and> src + n > dst")
    case True
    have "src + n + (x - (dst + n)) = src + (x - dst)" by simp
    then show ?thesis
      using True e copy_down_spec[of "unat n" "src + n" "dst + n" m x]
      by (auto simp: memmove_def in_range_def word_less_nat_alt)
  next
    case False
    then have "unat dst \<le> unat src \<or> unat src + unat n \<le> unat dst"
      using e(1) by (auto simp: word_less_nat_alt)
    moreover have "memmove m dst src n = copy_up m dst src (unat n)"
      using False by (auto simp: memmove_def)
    ultimately show ?thesis using copy_up_spec[OF assms] by simp
  qed
qed

section \<open>Comparing\<close>

lemma memcmp_zero:
  assumes "unat a + n < 2 ^ 32" "unat b + n < 2 ^ 32"
  shows "memcmp_loop m a b n = 0 \<longleftrightarrow> (\<forall>k<n. m (a + of_nat k) = m (b + of_nat k))"
  using assms
proof (induction n arbitrary: a b)
  case 0
  then show ?case by simp
next
  case (Suc n)
  have d: "ucast x - ucast y = (0 :: uint) \<longleftrightarrow> x = y" for x y :: uchar
  proof -
    have "x = y" if "ucast x = (ucast y :: uint)"
    proof (rule bit_word_eqI)
      fix n assume "n < LENGTH(8)"
      then have "bit x n = bit (ucast x :: uint) n" "bit y n = bit (ucast y :: uint) n"
        by (simp_all add: bit_simps)
      then show "bit x n = bit y n" using that by simp
    qed
    then show ?thesis by auto
  qed
  have IH: "memcmp_loop m (a + 1) (b + 1) n = 0
      \<longleftrightarrow> (\<forall>k<n. m (a + 1 + of_nat k) = m (b + 1 + of_nat k))"
    using Suc.prems unat_add1[of a] unat_add1[of b] by (intro Suc.IH) auto
  have "(\<forall>k<Suc n. m (a + of_nat k) = m (b + of_nat k))
      \<longleftrightarrow> m a = m b \<and> (\<forall>k<n. m (a + 1 + of_nat k) = m (b + 1 + of_nat k))"
    by (simp add: All_less_Suc2 add.assoc)
  then show ?case using IH d by simp
qed

text \<open>A zero-terminated string in memory.\<close>

fun str_at :: "memory \<Rightarrow> uint \<Rightarrow> uchar list \<Rightarrow> bool" where
  "str_at m a [] \<longleftrightarrow> m a = 0"
| "str_at m a (c # cs) \<longleftrightarrow> c \<noteq> 0 \<and> m a = c \<and> str_at m (a + 1) cs"

lemma strncmp_zero:
  "str_at m p cs \<Longrightarrow> str_at m q ds \<Longrightarrow> strncmp_loop m p q n = 0 \<longleftrightarrow> take n cs = take n ds"
proof (induction n arbitrary: p q cs ds)
  case 0
  then show ?case by simp
next
  case (Suc n)
  have eq: "uint (x :: uchar) = uint y \<longleftrightarrow> x = y" for x y by (simp add: word_uint_eq_iff)
  show ?case
    using Suc.prems Suc.IH by (cases cs; cases ds) (auto simp: eq uint_0_iff)
qed

text \<open>The bytes that \<open>strncpy\<close> leaves: the string cut or padded with zeros to \<open>n\<close> bytes.\<close>

definition padded :: "nat \<Rightarrow> uchar list \<Rightarrow> uchar list" where
  "padded n cs = take n (cs @ replicate n 0)"

lemma strncpy_pad_spec:
  assumes "unat s + n < 2 ^ 32"
  shows "strncpy_pad m s n = fill m s n 0"
proof -
  have "strncpy_pad m s n = stosb m s 0 n" for m s n by (induction n arbitrary: m s) auto
  then show ?thesis using stosb_fill[OF assms] by simp
qed

lemma str_at_upd:
  assumes "str_at m t cs" "unat t + length cs < 2 ^ 32" "\<not> in_range t (Suc (length cs)) a"
  shows "str_at (m(a := b)) t cs"
  using assms
proof (induction cs arbitrary: t)
  case Nil
  then show ?case by (auto simp: in_range_def)
next
  case (Cons c cs)
  then have "unat (t + 1) = unat t + 1" using unat_add1[of t] by simp
  with Cons show ?case by (auto simp: in_range_def)
qed

lemma strncpy_loop_spec:
  assumes "str_at m t cs" "unat s + n < 2 ^ 32" "unat t + length cs < 2 ^ 32"
    and "unat s + n \<le> unat t \<or> unat t + Suc (length cs) \<le> unat s"
  shows "strncpy_loop m s t n x = (if in_range s n x then padded n cs ! (unat x - unat s) else m x)"
  using assms
proof (induction n arbitrary: m s t cs)
  case 0
  then show ?case by (auto simp: in_range_def)
next
  case (Suc n)
  have u: "unat (s + 1) = unat s + 1" using Suc.prems(2) unat_add1[of s] by simp
  show ?case
  proof (cases cs)
    case Nil
    then have "strncpy_loop m s t (Suc n) = fill (m(s := 0)) (s + 1) n 0"
      using Suc.prems strncpy_pad_spec[of "s + 1" n "m(s := 0)"] u by simp
    then show ?thesis
      using Nil in_range_Suc[of s n x] Suc.prems(2) u
      by (auto simp: fill_def padded_def in_range_def word_unat_eq_iff)
  next
    case (Cons c cs')
    have ut: "unat (t + 1) = unat t + 1" using Suc.prems(3) unat_add1[of t] Cons by simp
    have c: "c \<noteq> 0" "m t = c" "str_at m (t + 1) cs'" using Suc.prems(1) Cons by auto
    have s': "str_at (m(s := c)) (t + 1) cs'"
      using c(3) Suc.prems(3,4) Cons ut by (intro str_at_upd) (auto simp: in_range_def)
    have IH: "strncpy_loop (m(s := c)) (s + 1) (t + 1) n x
        = (if in_range (s + 1) n x then padded n cs' ! (unat x - unat (s + 1)) else (m(s := c)) x)"
      using Suc.prems Cons u ut by (intro Suc.IH[OF s']) auto
    have "padded (Suc n) cs = c # padded n cs'"
      using Cons by (simp add: padded_def replicate_append_same[symmetric] take_add)
    moreover have "x = s \<longleftrightarrow> unat x = unat s" by (simp add: word_unat_eq_iff)
    ultimately show ?thesis
      using IH c in_range_Suc[of s n x] Suc.prems(2) u
      by (auto simp: in_range_def nth_Cons')
  qed
qed

section \<open>Properties\<close>

text \<open>
  C34 (\<open>memmove\<close> with overlap). The code moves bytes from \<open>src\<close> to \<open>dst\<close>, as its callers expect; the comment above it
  (\<open>string.c:32\<close>, from \<open>dst\<close> to \<open>src\<close>) has the direction the wrong way round. For two ranges that do not wrap around the address space,
  overlapping or not, every byte of the destination gets the byte the source had before the
  call, and no other byte changes.
\<close>

theorem memmove_moves_old_bytes:
  assumes "unat dst + unat n < 2 ^ 32" "unat src + unat n < 2 ^ 32"
  shows "(\<forall>k < unat n. memmove m dst src n (dst + of_nat k) = m (src + of_nat k))
    \<and> (\<forall>x. \<not> in_range dst (unat n) x \<longrightarrow> memmove m dst src n x = m x)"
proof -
  have "in_range dst (unat n) (dst + of_nat k)" if "k < unat n" for k
    using that assms(1) unat_add_small[of dst k] by (simp add: in_range_def)
  then show ?thesis using memmove_copies[OF assms] by simp
qed

lemma memmove_moves_old_bytes_witness:
  "memmove (\<lambda>a. ucast a) 0x101 0x100 8 0x103 = 2"
  using memmove_moves_old_bytes[of "0x101" 8 "0x100" "\<lambda>a. ucast a"]
  by (auto dest!: spec[of _ "2 :: nat"])

text \<open>
  \<open>strncpy\<close>. Copying a zero-terminated string that does not overlap the target leaves in
  the \<open>n\<close> bytes of the target the string cut to \<open>n\<close> bytes and padded with zeros, and touches
  nothing else.
\<close>

theorem strncpy_pads:
  assumes "str_at m t cs" "unat s + n < 2 ^ 32" "unat t + length cs < 2 ^ 32"
    and "unat s + n \<le> unat t \<or> unat t + Suc (length cs) \<le> unat s"
  shows "(\<forall>k < n. strncpy m s t (int n) (s + of_nat k) = (if k < length cs then cs ! k else 0))
    \<and> (\<forall>x. \<not> in_range s n x \<longrightarrow> strncpy m s t (int n) x = m x)"
proof -
  have "unat (s + of_nat k) = unat s + k" if "k < n" for k
    using that assms(2) by (intro unat_add_small) simp
  moreover have "padded n cs ! k = (if k < length cs then cs ! k else 0)" if "k < n" for k
    using that by (simp add: padded_def nth_append)
  ultimately show ?thesis
    using strncpy_loop_spec[OF assms] by (simp add: strncpy_def in_range_def)
qed

lemma strncpy_pads_witness:
  "strncpy ((\<lambda>_. 7)(0x100 := 65, 0x101 := 66, 0x102 := 0)) 0x200 0x100 14 0x20d = 0"
proof -
  let ?m = "((\<lambda>_. 7)(0x100 := 65, 0x101 := 66, 0x102 := 0)) :: memory"
  have "str_at ?m 0x100 [65, 66]" by simp
  from strncpy_pads[OF this, of "0x200" 14] have
    "strncpy ?m 0x200 0x100 (int 14) (0x200 + of_nat 13) = 0"
    by (auto dest!: spec[of _ "13 :: nat"])
  then show ?thesis by simp
qed

end
