(* ===== verification/Mmu.thy ===== *)
theory Mmu
  imports Memory
begin

text \<open>
  The memory-management constants and macros (\<open>mmu.h\<close>, \<open>memlayout.h\<close>): splitting and rounding
  addresses, page-table entries, segment and gate descriptors.
\<close>

section \<open>Address layout\<close>

abbreviation PGSIZE :: uint where "PGSIZE \<equiv> 4096"
abbreviation PTE_P :: uint where "PTE_P \<equiv> 1"
abbreviation PTE_W :: uint where "PTE_W \<equiv> 2"
abbreviation PTE_U :: uint where "PTE_U \<equiv> 4"
abbreviation EXTMEM :: uint where "EXTMEM \<equiv> 0x100000"
abbreviation PHYSTOP :: uint where "PHYSTOP \<equiv> 0xE000000"
abbreviation DEVSPACE :: uint where "DEVSPACE \<equiv> 0xFE000000"
abbreviation KBASE :: uint where "KBASE \<equiv> 0x80000000"
abbreviation KERNLINK :: uint where "KERNLINK \<equiv> 0x80100000"

definition V2P :: "uint \<Rightarrow> uint" where "V2P a = a - KBASE"
definition P2V :: "uint \<Rightarrow> uint" where "P2V a = a + KBASE"

definition PDX :: "uint \<Rightarrow> uint" where "PDX va = drop_bit 22 va AND 0x3FF"
definition PTX :: "uint \<Rightarrow> uint" where "PTX va = drop_bit 12 va AND 0x3FF"
definition PGADDR :: "uint \<Rightarrow> uint \<Rightarrow> uint \<Rightarrow> uint" where
  "PGADDR d t off = push_bit 22 d OR push_bit 12 t OR off"
definition PGROUNDUP :: "uint \<Rightarrow> uint" where "PGROUNDUP sz = (sz + PGSIZE - 1) AND NOT (PGSIZE - 1)"
definition PGROUNDDOWN :: "uint \<Rightarrow> uint" where "PGROUNDDOWN a = a AND NOT (PGSIZE - 1)"
definition PTE_ADDR :: "uint \<Rightarrow> uint" where "PTE_ADDR pte = pte AND NOT 0xFFF"
definition PTE_FLAGS :: "uint \<Rightarrow> uint" where "PTE_FLAGS pte = pte AND 0xFFF"

lemma masks: "(0xFFF :: uint) = mask 12" "(0x3FF :: uint) = mask 10" "(PGSIZE - 1 :: uint) = mask 12"
  by (simp_all add: mask_eq_exp_minus_1)

lemma P2V_V2P [simp]: "P2V (V2P a) = a" "V2P (P2V a) = a"
  by (simp_all add: P2V_def V2P_def)

text \<open>The three parts of an address determine it.\<close>

lemma pgaddr_parts: "PGADDR (PDX va) (PTX va) (PTE_FLAGS va) = va"
proof (rule bit_word_eqI)
  fix n assume "n < LENGTH(32)"
  then show "bit (PGADDR (PDX va) (PTX va) (PTE_FLAGS va)) n = bit va n"
    unfolding PGADDR_def PDX_def PTX_def PTE_FLAGS_def masks
    by (cases "n < 22") (auto simp: bit_simps not_less)
qed

lemma pgrounddown_unat: "unat (PGROUNDDOWN a) = unat a - unat a mod 4096"
proof -
  have "PGROUNDDOWN a = drop_bit 12 a * 4096"
  proof -
    have "PGROUNDDOWN a = push_bit 12 (drop_bit 12 a)"
      unfolding PGROUNDDOWN_def masks
    proof (rule bit_word_eqI)
      fix n assume "n < LENGTH(32)"
      then show "bit (a AND NOT (mask 12)) n = bit (push_bit 12 (drop_bit 12 a)) n"
        by (cases "n < 12") (auto simp: bit_simps not_less)
    qed
    then show ?thesis by (simp add: push_bit_eq_mult)
  qed
  moreover have "unat (drop_bit 12 a) = unat a div 4096"
    by (simp add: drop_bit_eq_div unat_div)
  moreover have "unat a div 4096 * 4096 \<le> unat a" by (rule div_times_less_eq_dividend)
  moreover have "unat a < 2 ^ LENGTH(32)" by (rule unsigned_less)
  ultimately have "unat a div 4096 * 4096 < 2 ^ LENGTH(32)" "unat (drop_bit 12 a) = unat a div 4096"
    "PGROUNDDOWN a = drop_bit 12 a * 4096"
    by (auto intro: order_le_less_trans)
  then have "unat (PGROUNDDOWN a) = unat a div 4096 * 4096"
    by (simp add: unat_word_ariths)
  then show ?thesis by (simp add: minus_mod_eq_div_mult)
qed

lemma pgroundup_unat:
  assumes "unat a + 4095 < 2 ^ 32"
  shows "unat (PGROUNDUP a) = (unat a + 4095) div 4096 * 4096"
proof -
  have "PGROUNDUP a = PGROUNDDOWN (a + 4095)" by (simp add: PGROUNDUP_def PGROUNDDOWN_def add.commute)
  moreover have "unat (a + 4095) = unat a + 4095" using unat_add_small[of a 4095] assms by simp
  ultimately show ?thesis by (simp add: pgrounddown_unat minus_mod_eq_div_mult)
qed

section \<open>Descriptors\<close>

record segdesc =
  lim_15_0 :: "16 word"
  base_15_0 :: "16 word"
  base_23_16 :: "8 word"
  sg_type :: "4 word"
  sg_s :: bool
  sg_dpl :: "2 word"
  sg_p :: bool
  lim_19_16 :: "4 word"
  sg_avl :: bool
  sg_rsv1 :: bool
  sg_db :: bool
  sg_g :: bool
  base_31_24 :: "8 word"

definition SEG :: "4 word \<Rightarrow> uint \<Rightarrow> uint \<Rightarrow> 2 word \<Rightarrow> segdesc" where
  "SEG ty base lim dpl = \<lparr>lim_15_0 = ucast (drop_bit 12 lim AND 0xffff), base_15_0 = ucast (base AND 0xffff),
     base_23_16 = ucast (drop_bit 16 base AND 0xff), sg_type = ty, sg_s = True, sg_dpl = dpl, sg_p = True,
     lim_19_16 = ucast (drop_bit 28 lim), sg_avl = False, sg_rsv1 = False, sg_db = True, sg_g = True,
     base_31_24 = ucast (drop_bit 24 base)\<rparr>"

definition SEG16 :: "4 word \<Rightarrow> uint \<Rightarrow> uint \<Rightarrow> 2 word \<Rightarrow> segdesc" where
  "SEG16 ty base lim dpl = \<lparr>lim_15_0 = ucast (lim AND 0xffff), base_15_0 = ucast (base AND 0xffff),
     base_23_16 = ucast (drop_bit 16 base AND 0xff), sg_type = ty, sg_s = True, sg_dpl = dpl, sg_p = True,
     lim_19_16 = ucast (drop_bit 16 lim), sg_avl = False, sg_rsv1 = False, sg_db = True, sg_g = False,
     base_31_24 = ucast (drop_bit 24 base)\<rparr>"

record gatedesc =
  off_15_0 :: "16 word"
  gt_cs :: "16 word"
  gt_args :: "5 word"
  gt_rsv1 :: "3 word"
  gt_type :: "4 word"
  gt_s :: bool
  gt_dpl :: "2 word"
  gt_p :: bool
  off_31_16 :: "16 word"

definition SETGATE :: "bool \<Rightarrow> 16 word \<Rightarrow> uint \<Rightarrow> 2 word \<Rightarrow> gatedesc" where
  "SETGATE istrap sel off d = \<lparr>off_15_0 = ucast (off AND 0xffff), gt_cs = sel, gt_args = 0, gt_rsv1 = 0,
     gt_type = (if istrap then 0xF else 0xE), gt_s = False, gt_dpl = d, gt_p = True,
     off_31_16 = ucast (drop_bit 16 off)\<rparr>"

text \<open>What the processor reads back: base, limit in units of the granularity, handler offset.\<close>

definition seg_base :: "segdesc \<Rightarrow> uint" where
  "seg_base g = ucast (base_15_0 g) OR push_bit 16 (ucast (base_23_16 g)) OR push_bit 24 (ucast (base_31_24 g))"

definition seg_limit :: "segdesc \<Rightarrow> uint" where
  "seg_limit g = ucast (lim_15_0 g) OR push_bit 16 (ucast (lim_19_16 g))"

definition gate_offset :: "gatedesc \<Rightarrow> uint" where
  "gate_offset g = ucast (off_15_0 g) OR push_bit 16 (ucast (off_31_16 g))"

lemma more_masks: "(0xffff :: uint) = mask 16" "(0xff :: uint) = mask 8"
  by (simp_all add: mask_eq_exp_minus_1)

lemma descriptor_fields:
  "seg_base (SEG ty base lim dpl) = base" "seg_limit (SEG ty base lim dpl) = drop_bit 12 lim"
  "seg_base (SEG16 ty base lim dpl) = base" "gate_offset (SETGATE tr sel off d) = off"
proof -
  have b: "ucast (ucast (base AND mask 16) :: 16 word) OR push_bit 16 (ucast (ucast (drop_bit 16 base AND mask 8) :: 8 word))
      OR push_bit 24 (ucast (ucast (drop_bit 24 base) :: 8 word)) = (base :: uint)"
  proof (rule bit_word_eqI)
    fix n assume "n < LENGTH(32)"
    then show "bit (ucast (ucast (base AND mask 16) :: 16 word) OR push_bit 16 (ucast (ucast (drop_bit 16 base AND mask 8) :: 8 word))
      OR push_bit 24 (ucast (ucast (drop_bit 24 base) :: 8 word)) :: uint) n = bit base n"
      by (cases "n < 24") (auto simp: bit_simps not_less)
  qed
  show "seg_base (SEG ty base lim dpl) = base" "seg_base (SEG16 ty base lim dpl) = base"
    using b by (simp_all add: seg_base_def SEG_def SEG16_def more_masks)
  show "seg_limit (SEG ty base lim dpl) = drop_bit 12 lim"
  proof (rule bit_word_eqI)
    fix n assume "n < LENGTH(32)"
    then show "bit (seg_limit (SEG ty base lim dpl)) n = bit (drop_bit 12 lim) n"
      unfolding seg_limit_def SEG_def more_masks
      by (cases "n < 16") (auto simp: bit_simps not_less dest: bit_imp_le_length)
  qed
  show "gate_offset (SETGATE tr sel off d) = off"
  proof (rule bit_word_eqI)
    fix n assume "n < LENGTH(32)"
    then show "bit (gate_offset (SETGATE tr sel off d)) n = bit off n"
      unfolding gate_offset_def SETGATE_def more_masks
      by (cases "n < 16") (auto simp: bit_simps not_less)
  qed
qed

end
