(* ===== verification/Kalloc.thy ===== *)
theory Kalloc
  imports Proc Cstring Mmu
begin

text \<open>
  The physical page allocator (\<open>kalloc.c\<close>): free pages linked through their first word. The
  theory also states the allocator's interface, which the page tables and the pipes use.
\<close>

section \<open>State and operations\<close>

record kmem = kcore +
  mem :: memory
  use_lock :: bool
  freelist :: uint

text \<open>\<open>kend\<close> is the linker's symbol \<open>end\<close>, the first address after the kernel.\<close>

definition kfree :: "uint \<Rightarrow> uint \<Rightarrow> 'a kmem_scheme \<Rightarrow> 'a kmem_scheme res" where
  "kfree kend v s =
     bind_res (panic_if (v mod PGSIZE \<noteq> 0 \<or> v < kend \<or> V2P v \<ge> PHYSTOP) ''kfree'') (\<lambda>_.
     let s = s\<lparr>mem := memset (mem s) v 1 PGSIZE\<rparr> in
     bind_res (if use_lock s then acquire L_kmem s else Inr s) (\<lambda>s.
     let s = s\<lparr>mem := wr32 (mem s) v (freelist s)\<rparr>;
         s = s\<lparr>freelist := v\<rparr>
     in if use_lock s then release L_kmem s else Inr s))"

definition kalloc :: "'a kmem_scheme \<Rightarrow> (uint \<times> 'a kmem_scheme) res" where
  "kalloc s =
     bind_res (if use_lock s then acquire L_kmem s else Inr s) (\<lambda>s.
     let r = freelist s;
         s = (if r \<noteq> 0 then s\<lparr>freelist := rd32 (mem s) r\<rparr> else s)
     in bind_res (if use_lock s then release L_kmem s else Inr s) (\<lambda>s. Inr (r, s)))"

text \<open>The loop of \<open>freerange\<close>; there are \<open>2 ^ 20\<close> pages, and every turn frees one or panics.\<close>

fun freerange_loop :: "nat \<Rightarrow> uint \<Rightarrow> uint \<Rightarrow> uint \<Rightarrow> 'a kmem_scheme \<Rightarrow> 'a kmem_scheme res" where
  "freerange_loop 0 kend p vend s = Inl (Blocks ''freerange'')"
| "freerange_loop (Suc fuel) kend p vend s =
     (if p + PGSIZE \<le> vend then
        bind_res (kfree kend p s) (freerange_loop fuel kend (p + PGSIZE) vend)
      else Inr s)"

definition freerange :: "uint \<Rightarrow> uint \<Rightarrow> uint \<Rightarrow> 'a kmem_scheme \<Rightarrow> 'a kmem_scheme res" where
  "freerange kend vstart vend s = freerange_loop (2 ^ 20) kend (PGROUNDUP vstart) vend s"

definition kinit1 :: "uint \<Rightarrow> uint \<Rightarrow> uint \<Rightarrow> 'a kmem_scheme \<Rightarrow> 'a kmem_scheme res" where
  "kinit1 kend vstart vend s = freerange kend vstart vend (s\<lparr>use_lock := False\<rparr>)"

section \<open>The free list\<close>

fun flist :: "memory \<Rightarrow> uint \<Rightarrow> uint list \<Rightarrow> bool" where
  "flist m a [] \<longleftrightarrow> a = 0"
| "flist m a (x # xs) \<longleftrightarrow> a = x \<and> x \<noteq> 0 \<and> flist m (rd32 m x) xs"

text \<open>A page the allocator may own: aligned, after the kernel, below \<open>PHYSTOP\<close>.\<close>

definition page_ok :: "uint \<Rightarrow> uint \<Rightarrow> bool" where
  "page_ok kend v \<longleftrightarrow> v mod PGSIZE = 0 \<and> kend \<le> v \<and> V2P v < PHYSTOP"

definition kmem_inv :: "uint \<Rightarrow> 'a kmem_scheme \<Rightarrow> uint list \<Rightarrow> bool" where
  "kmem_inv kend s xs \<longleftrightarrow> flist (mem s) (freelist s) xs \<and> distinct xs
     \<and> (\<forall>x\<in>set xs. page_ok kend x) \<and> L_kmem \<notin> held s"

lemma page_bounds:
  assumes "page_ok kend v"
  shows "0x80000000 \<le> unat v" "unat v + 4096 \<le> 0x8E000000" "v \<noteq> 0"
proof -
  have d: "V2P v < PHYSTOP" and "unat v mod 4096 = 0"
    using assms unat_mod[of v PGSIZE] by (auto simp: page_ok_def)
  then obtain k where k: "unat v = 4096 * k" by (metis dvdE mod_0_imp_dvd)
  have lt: "unat (v - KBASE) < 0xE000000" using d by (simp add: V2P_def word_less_nat_alt)
  show ge: "0x80000000 \<le> unat v"
  proof (rule ccontr)
    assume "\<not> ?thesis"
    then have "unat (v - KBASE) = unat v + (2 ^ 32 - 0x80000000)"
      by (simp add: unat_sub_if_size word_size word_le_nat_alt)
    then show False using lt by simp
  qed
  then have "unat (v - KBASE) = unat v - 0x80000000" by (simp add: unat_sub word_le_nat_alt)
  then have "4096 * k < 4096 * 0x8E000" using lt ge k by linarith
  then have "k < 0x8E000" by (rule mult_less_cancel1[THEN iffD1, THEN conjunct2])
  then show "unat v + 4096 \<le> 0x8E000000" using k by linarith
  show "v \<noteq> 0" using ge by auto
qed

lemma pages_disjoint:
  assumes "v mod PGSIZE = 0" "w mod PGSIZE = 0" "v \<noteq> w"
  shows "unat v + 4096 \<le> unat w \<or> unat w + 4096 \<le> unat v"
proof -
  have "unat v mod 4096 = 0" "unat w mod 4096 = 0"
    using assms(1,2) unat_mod[of v PGSIZE] unat_mod[of w PGSIZE] by auto
  then obtain j k where jk: "unat v = 4096 * j" "unat w = 4096 * k"
    by (metis dvdE mod_0_imp_dvd)
  have "unat v \<noteq> unat w" using assms(3) by (simp add: word_unat_eq_iff)
  then have "Suc j \<le> k \<or> Suc k \<le> j" using jk by auto
  then show ?thesis using jk by linarith
qed

lemma flist_cong:
  assumes "\<And>x. x \<in> set xs \<Longrightarrow> rd32 m' x = rd32 m x"
  shows "flist m' a xs = flist m a xs"
  using assms by (induction xs arbitrary: a) auto

lemma flist_unique: "flist m a xs \<Longrightarrow> flist m a ys \<Longrightarrow> xs = ys"
proof (induction xs arbitrary: a ys)
  case Nil
  then show ?case by (cases ys) auto
next
  case (Cons x xs)
  then show ?case by (cases ys) auto
qed

text \<open>Changing memory outside a page keeps the word at its start.\<close>

lemma rd32_page_cong:
  assumes "page_ok kend v" "\<And>a. in_range v 4096 a \<Longrightarrow> m' a = m a"
  shows "rd32 m' v = rd32 m v"
proof (rule rd32_cong)
  show "unat v + 4 \<le> 2 ^ 32" using page_bounds(2)[OF assms(1)] by simp
  fix x assume "in_range v 4 x"
  then show "m' x = m x" by (intro assms(2)) (auto simp: in_range_def)
qed

lemma kmem_inv_write:
  assumes "kmem_inv kend s xs" "\<And>p a. p \<in> set xs \<Longrightarrow> in_range p 4096 a \<Longrightarrow> m a = mem s a"
  shows "kmem_inv kend (s\<lparr>mem := m\<rparr>) xs"
proof -
  have "flist m (freelist s) xs = flist (mem s) (freelist s) xs"
    using assms by (intro flist_cong rd32_page_cong) (auto simp: kmem_inv_def)
  then show ?thesis using assms(1) by (simp add: kmem_inv_def)
qed

lemma kfree_ok:
  assumes inv: "kmem_inv kend s xs" and v: "page_ok kend v" "v \<notin> set xs"
  shows "\<exists>t. kfree kend v s = Inr t \<and> kmem_inv kend t (v # xs) \<and> held t = held s
    \<and> use_lock t = use_lock s \<and> (\<forall>a. \<not> in_range v 4096 a \<longrightarrow> mem t a = mem s a)
    \<and> (\<forall>a. in_range v 4096 a \<and> \<not> in_range v 4 a \<longrightarrow> mem t a = 1)"
proof -
  note b = page_bounds[OF v(1)]
  let ?m = "fill (mem s) v 4096 1"
  let ?t = "s\<lparr>mem := wr32 ?m v (freelist s), freelist := v\<rparr>"
  have ms: "memset (mem s) v 1 PGSIZE = ?m"
    using memset_fill[of v PGSIZE "mem s" 1] b by simp
  have nl: "L_kmem \<notin> held s" using inv by (simp add: kmem_inv_def)
  have "\<not> (v mod PGSIZE \<noteq> 0 \<or> v < kend \<or> V2P v \<ge> PHYSTOP)"
    using v(1) by (auto simp: page_ok_def not_le not_less)
  then have e: "kfree kend v s = Inr ?t"
    using nl by (simp add: kfree_def ms Let_def)
  have w: "wr32 ?m v (freelist s) a = ?m a" if "\<not> in_range v 4 a" for a
    using that b by (intro wr32_other) auto
  have o: "wr32 ?m v (freelist s) a = mem s a" if "\<not> in_range v 4096 a" for a
    using w[of a] that by (auto simp: in_range_def)
  have "flist (wr32 ?m v (freelist s)) (freelist s) xs = flist (mem s) (freelist s) xs"
  proof (rule flist_cong)
    fix x assume x: "x \<in> set xs"
    then have px: "page_ok kend x" "x \<noteq> v" using inv v(2) by (auto simp: kmem_inv_def)
    then have "unat v + 4096 \<le> unat x \<or> unat x + 4096 \<le> unat v"
      using pages_disjoint v(1) by (auto simp: page_ok_def)
    then show "rd32 (wr32 ?m v (freelist s)) x = rd32 (mem s) x"
      by (intro rd32_page_cong[OF px(1)] o) (auto simp: in_range_def)
  qed
  then have "kmem_inv kend ?t (v # xs)" using inv v b(3) by (simp add: kmem_inv_def)
  moreover have "wr32 ?m v (freelist s) a = 1" if "in_range v 4096 a" "\<not> in_range v 4 a" for a
    using w[OF that(2)] that(1) by simp
  ultimately show ?thesis using e o by auto
qed

lemma kalloc_ok:
  assumes "kmem_inv kend s (x # xs)"
  shows "\<exists>t. kalloc s = Inr (x, t) \<and> kmem_inv kend t xs \<and> held t = held s
    \<and> use_lock t = use_lock s \<and> mem t = mem s"
  using assms by (auto simp: kalloc_def kmem_inv_def Let_def)

lemma kalloc_empty:
  assumes "kmem_inv kend s []"
  shows "kalloc s = Inr (0, s)"
  using assms by (cases s) (auto simp: kalloc_def kmem_inv_def Let_def)

section \<open>Freeing a range\<close>

definition pages_from :: "uint \<Rightarrow> nat \<Rightarrow> uint list" where
  "pages_from p n = map (\<lambda>k. p + of_nat (4096 * k)) [0..<n]"

lemma pages_from_Suc: "pages_from p (Suc n) = p # pages_from (p + PGSIZE) n"
  by (simp add: pages_from_def upt_conv_Cons map_Suc_upt[symmetric] algebra_simps del: upt_Suc)

lemma page_okI:
  assumes "p mod PGSIZE = 0" "kend \<le> p" "0x80000000 \<le> unat p" "unat p + 4096 \<le> 0x8E000000"
  shows "page_ok kend p"
proof -
  have "unat (p - KBASE) = unat p - 0x80000000" using assms(3) by (simp add: unat_sub word_le_nat_alt)
  then show ?thesis using assms by (simp add: page_ok_def V2P_def word_less_nat_alt)
qed

lemma freerange_loop_ok:
  assumes "kmem_inv kend s xs" "p mod PGSIZE = 0" "kend \<le> p" "0x80000000 \<le> unat p"
    and "unat p + 4096 * n \<le> unat vend" "unat vend < unat p + 4096 * n + 4096"
    and "unat vend \<le> 0x8E000000" "n < fuel" "\<And>x. x \<in> set xs \<Longrightarrow> unat x < unat p"
  shows "\<exists>t. freerange_loop fuel kend p vend s = Inr t
    \<and> kmem_inv kend t (rev (pages_from p n) @ xs) \<and> use_lock t = use_lock s"
  using assms
proof (induction n arbitrary: fuel p s xs)
  case 0
  then obtain f where f: "fuel = Suc f" by (cases fuel) auto
  have "unat (p + PGSIZE) = unat p + 4096" using 0 unat_add_small[of p 4096] by simp
  then have "\<not> p + PGSIZE \<le> vend" using 0 by (simp add: word_le_nat_alt)
  then show ?case using 0 f by (auto simp: pages_from_def)
next
  case (Suc n)
  then obtain f where f: "fuel = Suc f" "n < f" by (cases fuel) auto
  have u: "unat (p + PGSIZE) = unat p + 4096" using Suc.prems unat_add_small[of p 4096] by simp
  have c: "p + PGSIZE \<le> vend" using Suc.prems u by (simp add: word_le_nat_alt)
  have pg: "page_ok kend p" using Suc.prems by (intro page_okI) auto
  have "p \<notin> set xs" using Suc.prems(9) by blast
  from kfree_ok[OF Suc.prems(1) pg this] obtain t
    where t: "kfree kend p s = Inr t" "kmem_inv kend t (p # xs)" "use_lock t = use_lock s" by blast
  have m: "(p + PGSIZE) mod PGSIZE = 0"
    using Suc.prems(2) by (simp add: word_unat_eq_iff unat_mod u mod_simps)
  have k: "kend \<le> p + PGSIZE" using Suc.prems(3) u by (simp add: word_le_nat_alt)
  have x: "\<And>x. x \<in> set (p # xs) \<Longrightarrow> unat x < unat (p + PGSIZE)"
    using Suc.prems(9) u by fastforce
  have "\<exists>t'. freerange_loop f kend (p + PGSIZE) vend t = Inr t'
      \<and> kmem_inv kend t' (rev (pages_from (p + PGSIZE) n) @ p # xs) \<and> use_lock t' = use_lock t"
    using Suc.prems(4-8) u f(2) x by (intro Suc.IH[OF t(2) m k]) auto
  then show ?case using f(1) c t by (auto simp: pages_from_Suc)
qed

section \<open>The allocator's interface\<close>

text \<open>
  What the clients of \<open>kalloc\<close> rely on: a page it returns was free and is no longer, memory is
  untouched, 0 comes back exactly when nothing is free, and writing outside the free pages
  disturbs nothing.
\<close>

locale page_allocator =
  fixes alloc :: "'a kmem_scheme \<Rightarrow> (uint \<times> 'a kmem_scheme) res"
    and free_pages :: "'a kmem_scheme \<Rightarrow> uint set"
    and wf :: "'a kmem_scheme \<Rightarrow> bool"
  assumes alloc_page: "\<lbrakk>wf s; free_pages s \<noteq> {}\<rbrakk> \<Longrightarrow> \<exists>p t. alloc s = Inr (p, t) \<and> p \<in> free_pages s
      \<and> free_pages t = free_pages s - {p} \<and> wf t \<and> mem t = mem s"
    and alloc_none: "\<lbrakk>wf s; free_pages s = {}\<rbrakk> \<Longrightarrow> alloc s = Inr (0, s)"
    and free_page_ok: "\<lbrakk>wf s; p \<in> free_pages s\<rbrakk> \<Longrightarrow> page_ok 0 p"
    and write_outside: "\<lbrakk>wf s; \<And>p a. \<lbrakk>p \<in> free_pages s; in_range p 4096 a\<rbrakk> \<Longrightarrow> m a = mem s a\<rbrakk> \<Longrightarrow>
      wf (s\<lparr>mem := m\<rparr>) \<and> free_pages (s\<lparr>mem := m\<rparr>) = free_pages s"
begin

lemma alloc_result:
  assumes "wf s"
  obtains p t where "alloc s = Inr (p, t)" "wf t" "mem t = mem s"
    "p = 0 \<and> free_pages s = {} \<and> t = s \<or> p \<in> free_pages s \<and> free_pages t = free_pages s - {p}"
  using alloc_page[OF assms] alloc_none[OF assms] assms by (cases "free_pages s = {}") blast+

end

definition kmem_wf :: "'a kmem_scheme \<Rightarrow> bool" where
  "kmem_wf s \<longleftrightarrow> (\<exists>xs. kmem_inv 0 s xs)"

definition kmem_free :: "'a kmem_scheme \<Rightarrow> uint set" where
  "kmem_free s = {x. \<exists>xs. kmem_inv 0 s xs \<and> x \<in> set xs}"

lemma kmem_free_eq: "kmem_inv 0 s xs \<Longrightarrow> kmem_free s = set xs"
proof -
  assume a: "kmem_inv 0 s xs"
  have "ys = xs" if "kmem_inv 0 s ys" for ys
    using flist_unique[of "mem s" "freelist s" ys xs] that a unfolding kmem_inv_def by blast
  then show ?thesis using a unfolding kmem_free_def by blast
qed

lemma kmem_inv_end: "kmem_inv kend s xs \<Longrightarrow> kmem_inv 0 s xs"
  by (auto simp: kmem_inv_def page_ok_def)

interpretation ka: page_allocator kalloc kmem_free kmem_wf
proof
  fix s :: "'a kmem_scheme"
  assume w: "kmem_wf s"
  then obtain xs where inv: "kmem_inv 0 s xs" by (auto simp: kmem_wf_def)
  note f = kmem_free_eq[OF inv]
  show "kalloc s = Inr (0, s)" if "kmem_free s = {}"
    using that f inv kalloc_empty by auto
  show "page_ok 0 p" if "p \<in> kmem_free s" for p
    using that f inv by (simp add: kmem_inv_def)
  show "kmem_wf (s\<lparr>mem := m\<rparr>) \<and> kmem_free (s\<lparr>mem := m\<rparr>) = kmem_free s"
    if "\<And>p a. \<lbrakk>p \<in> kmem_free s; in_range p 4096 a\<rbrakk> \<Longrightarrow> m a = mem s a" for m
  proof -
    have "kmem_inv 0 (s\<lparr>mem := m\<rparr>) xs" using inv that f by (intro kmem_inv_write) auto
    then show ?thesis using kmem_free_eq f by (auto simp: kmem_wf_def)
  qed
  show "\<exists>p t. kalloc s = Inr (p, t) \<and> p \<in> kmem_free s \<and> kmem_free t = kmem_free s - {p}
      \<and> kmem_wf t \<and> mem t = mem s" if "kmem_free s \<noteq> {}"
  proof -
    have "xs \<noteq> []" using that f by auto
    then obtain x ys where xs: "xs = x # ys" by (auto simp: neq_Nil_conv)
    obtain t where t: "kalloc s = Inr (x, t)" "kmem_inv 0 t ys" "mem t = mem s"
      using kalloc_ok inv xs by blast
    have "x \<notin> set ys" using inv xs by (simp add: kmem_inv_def)
    then show ?thesis using t f kmem_free_eq[OF t(2)] xs by (auto simp: kmem_wf_def)
  qed
qed

section \<open>Properties\<close>

text \<open>
  C35 (page allocator). With a well-formed free list, \<open>kfree\<close> of a page that is not on it
  succeeds, fills the page with junk and changes no other byte; the next \<open>kalloc\<close> returns
  that page and restores the list. \<open>kfree\<close> of anything else but a page panics.
\<close>

theorem kfree_kalloc:
  assumes "kmem_inv kend s xs" "v \<notin> set xs"
  shows "if page_ok kend v then
      (\<exists>t u. kfree kend v s = Inr t \<and> kmem_inv kend t (v # xs)
        \<and> (\<forall>a. \<not> in_range v 4096 a \<longrightarrow> mem t a = mem s a)
        \<and> (\<forall>a. in_range v 4096 a \<and> \<not> in_range v 4 a \<longrightarrow> mem t a = 1)
        \<and> kalloc t = Inr (v, u) \<and> kmem_inv kend u xs)
    else kfree kend v s = Inl (Panic ''kfree'')"
proof (cases "page_ok kend v")
  case True
  from kfree_ok[OF assms(1) True assms(2)] obtain t
    where t: "kfree kend v s = Inr t" "kmem_inv kend t (v # xs)"
      "\<forall>a. \<not> in_range v 4096 a \<longrightarrow> mem t a = mem s a"
      "\<forall>a. in_range v 4096 a \<and> \<not> in_range v 4 a \<longrightarrow> mem t a = 1" by blast
  then show ?thesis using True kalloc_ok[OF t(2)] by auto
next
  case False
  then have "v mod PGSIZE \<noteq> 0 \<or> v < kend \<or> V2P v \<ge> PHYSTOP"
    by (auto simp: page_ok_def not_le not_less)
  then show ?thesis using False by (simp add: kfree_def)
qed

definition empty_kmem :: kmem where
  "empty_kmem = \<lparr>held = {}, ptable = [], curproc = None, mem = \<lambda>_. 0, use_lock = False, freelist = 0\<rparr>"

lemma empty_kmem_inv: "kmem_inv kend empty_kmem []"
  by (simp add: kmem_inv_def empty_kmem_def)

lemma kfree_kalloc_witness:
  "\<exists>t u. kfree 0x80110000 0x80400000 empty_kmem = Inr t \<and> kalloc t = Inr (0x80400000, u)"
proof -
  have "page_ok 0x80110000 0x80400000" by (simp add: page_ok_def V2P_def)
  then show ?thesis using kfree_kalloc[OF empty_kmem_inv, of "0x80400000" "0x80110000"] by auto
qed

text \<open>
  Building the free list: \<open>kinit1\<close> over a range that lies between the kernel's end and
  \<open>PHYSTOP\<close> frees every whole page of the range, exactly once and nothing else.
\<close>

theorem kinit1_frees_pages:
  fixes s :: "'a kmem_scheme"
  assumes "L_kmem \<notin> held s" "freelist s = 0" "kend \<le> PGROUNDUP vstart"
    and "0x80000000 \<le> unat vstart" "unat vstart \<le> unat vend" "unat (PGROUNDUP vstart) \<le> unat vend" "unat vend \<le> 0x8E000000"
  shows "\<exists>t. kinit1 kend vstart vend s = Inr t \<and> \<not> use_lock t
    \<and> kmem_inv kend t (rev (pages_from (PGROUNDUP vstart)
        ((unat vend - unat (PGROUNDUP vstart)) div 4096)))"
proof -
  let ?p = "PGROUNDUP vstart"
  let ?n = "(unat vend - unat ?p) div 4096"
  have inv: "kmem_inv kend (s\<lparr>use_lock := False\<rparr>) []" using assms by (simp add: kmem_inv_def)
  have "?p AND mask 12 = 0"
    unfolding PGROUNDUP_def masks by (rule bit_word_eqI) (auto simp: bit_simps)
  then have al: "?p mod PGSIZE = 0" by (simp add: take_bit_eq_mask[symmetric] take_bit_eq_mod)
  have ge: "0x80000000 \<le> unat ?p"
  proof -
    have "unat vstart + 4095 < 2 ^ 32" using assms(5,7) by simp
    moreover have "unat vstart \<le> (unat vstart + 4095) div 4096 * 4096"
      using div_mult_mod_eq[of "unat vstart + 4095" 4096] mod_less_divisor[of 4096 "unat vstart + 4095"]
      by linarith
    ultimately show ?thesis using pgroundup_unat assms(4) by simp
  qed
  have "?n < 2 ^ 20" using assms(7) ge by simp
  moreover have "unat ?p + 4096 * ?n \<le> unat vend" "unat vend < unat ?p + 4096 * ?n + 4096"
    using assms(6) div_mult_mod_eq[of "unat vend - unat ?p" 4096]
      mod_less_divisor[of 4096 "unat vend - unat ?p"] by linarith+
  ultimately show ?thesis
    using freerange_loop_ok[OF inv al assms(3) ge, of ?n vend "2 ^ 20"] assms(7)
    by (auto simp: kinit1_def freerange_def)
qed

lemma kinit1_frees_pages_witness:
  "\<exists>t. kinit1 0x80110000 0x80110123 0x80113000 empty_kmem = Inr t
    \<and> kmem_inv 0x80110000 t [0x80112000, 0x80111000]"
proof -
  have p: "PGROUNDUP 0x80110123 = 0x80111000" by (simp add: PGROUNDUP_def)
  have "pages_from 0x80111000 2 = [0x80111000, 0x80112000]"
    by (simp add: pages_from_def numeral_2_eq_2)
  then show ?thesis
    using kinit1_frees_pages[of empty_kmem "0x80110000" "0x80110123" "0x80113000"]
    by (auto simp: p empty_kmem_def)
qed

end
