(* ===== verification/Bio.thy ===== *)
theory Bio
  imports Sleeplock Dll Kalloc
begin

text \<open>
  The buffer cache (\<open>buf.h\<close>, \<open>bio.c\<close>): thirty buffers on a circular list ordered by last
  use, each protected by a sleep lock. The disk driver's \<open>iderw\<close> is a parameter, since the
  Makefile links either \<open>ide.c\<close> or \<open>memide.c\<close>.
\<close>

section \<open>State\<close>

abbreviation BSIZE :: nat where "BSIZE \<equiv> 512"
abbreviation NBUF :: nat where "NBUF \<equiv> 30"
abbreviation ROOTDEV :: uint where "ROOTDEV \<equiv> 1"
abbreviation B_VALID :: uint where "B_VALID \<equiv> 2"
abbreviation B_DIRTY :: uint where "B_DIRTY \<equiv> 4"

text \<open>A disk block: \<open>BSIZE\<close> bytes.\<close>

type_synonym block = "uchar list"

text \<open>
  \<open>struct buf\<close>; the pointers \<open>prev\<close>, \<open>next\<close> and \<open>qnext\<close> are indices into the array
  \<open>bcache.buf\<close>, and index \<open>NBUF\<close> (\<open>HEAD\<close>) is the sentinel \<open>bcache.head\<close>.
\<close>

record buf =
  b_flags :: uint
  b_dev :: uint
  b_blockno :: uint
  b_lock :: sleeplock
  b_refcnt :: uint
  b_prev :: nat
  b_next :: nat
  b_qnext :: "nat option"
  b_data :: block

abbreviation HEAD :: nat where "HEAD \<equiv> NBUF"

record bcache = kmem +
  bufs :: "nat \<Rightarrow> buf"

definition upd_buf :: "nat \<Rightarrow> (buf \<Rightarrow> buf) \<Rightarrow> 'a bcache_scheme \<Rightarrow> 'a bcache_scheme" where
  "upd_buf i f s = s\<lparr>bufs := (bufs s)(i := f (bufs s i))\<rparr>"

definition b_valid :: "buf \<Rightarrow> bool" where "b_valid b \<longleftrightarrow> b_flags b AND B_VALID \<noteq> 0"
definition b_dirty :: "buf \<Rightarrow> bool" where "b_dirty b \<longleftrightarrow> b_flags b AND B_DIRTY \<noteq> 0"
definition b_locked :: "buf \<Rightarrow> bool" where "b_locked b \<longleftrightarrow> sl_locked (b_lock b)"

section \<open>Operations\<close>

text \<open>\<open>b->next = head.next; b->prev = &head; head.next->prev = b; head.next = b;\<close>\<close>

definition link_front :: "nat \<Rightarrow> 'a bcache_scheme \<Rightarrow> 'a bcache_scheme" where
  "link_front i s =
     (let s = upd_buf i (\<lambda>b. b\<lparr>b_next := b_next (bufs s HEAD)\<rparr>) s;
          s = upd_buf i (\<lambda>b. b\<lparr>b_prev := HEAD\<rparr>) s;
          s = upd_buf (b_next (bufs s HEAD)) (\<lambda>b. b\<lparr>b_prev := i\<rparr>) s
      in upd_buf HEAD (\<lambda>b. b\<lparr>b_next := i\<rparr>) s)"

text \<open>\<open>b->next->prev = b->prev; b->prev->next = b->next;\<close>\<close>

definition unlink_buf :: "nat \<Rightarrow> 'a bcache_scheme \<Rightarrow> 'a bcache_scheme" where
  "unlink_buf i s =
     (let s = upd_buf (b_next (bufs s i)) (\<lambda>b. b\<lparr>b_prev := b_prev (bufs s i)\<rparr>) s
      in upd_buf (b_prev (bufs s i)) (\<lambda>b. b\<lparr>b_next := b_next (bufs s i)\<rparr>) s)"

definition binit_step :: "nat \<Rightarrow> 'a bcache_scheme \<Rightarrow> 'a bcache_scheme" where
  "binit_step i s = link_front i (upd_buf i (\<lambda>b. b\<lparr>b_lock := initsleeplock ''buffer''\<rparr>) s)"

definition binit :: "'a bcache_scheme \<Rightarrow> 'a bcache_scheme" where
  "binit s = fold binit_step [0..<NBUF]
     (upd_buf HEAD (\<lambda>b. b\<lparr>b_prev := HEAD, b_next := HEAD\<rparr>) s)"

text \<open>The sleep lock of buffer \<open>i\<close>.\<close>

definition lock_buf :: "nat \<Rightarrow> 'a bcache_scheme \<Rightarrow> 'a bcache_scheme res" where
  "lock_buf i s =
     bind_res (acquiresleep (L_buf i) (Ch_buf i) (b_lock (bufs s i)) s) (\<lambda>(lk, s).
     Inr (upd_buf i (\<lambda>b. b\<lparr>b_lock := lk\<rparr>) s))"

definition unlock_buf :: "nat \<Rightarrow> 'a bcache_scheme \<Rightarrow> 'a bcache_scheme res" where
  "unlock_buf i s =
     bind_res (releasesleep (L_buf i) (Ch_buf i) (b_lock (bufs s i)) s) (\<lambda>(lk, s).
     Inr (upd_buf i (\<lambda>b. b\<lparr>b_lock := lk\<rparr>) s))"

definition holding_buf :: "nat \<Rightarrow> 'a bcache_scheme \<Rightarrow> (bool \<times> 'a bcache_scheme) res" where
  "holding_buf i s = holdingsleep (L_buf i) (b_lock (bufs s i)) s"

text \<open>The two loops of \<open>bget\<close>: forwards for a cached copy, backwards for a free buffer.\<close>

definition bget_hit :: "uint \<Rightarrow> uint \<Rightarrow> buf \<Rightarrow> bool" where
  "bget_hit dev blockno b \<longleftrightarrow> b_dev b = dev \<and> b_blockno b = blockno"

definition bget_free :: "buf \<Rightarrow> bool" where
  "bget_free b \<longleftrightarrow> b_refcnt b = 0 \<and> b_flags b AND B_DIRTY = 0"

definition bget :: "uint \<Rightarrow> uint \<Rightarrow> 'a bcache_scheme \<Rightarrow> (nat \<times> 'a bcache_scheme) res" where
  "bget dev blockno s =
     bind_res (acquire L_bcache s) (\<lambda>s.
     bind_res (scan (Suc NBUF) HEAD (\<lambda>i. b_next (bufs s i))
         (\<lambda>i. bget_hit dev blockno (bufs s i)) (b_next (bufs s HEAD))) (\<lambda>hit.
     case hit of
       Some i \<Rightarrow>
         bind_res (release L_bcache (upd_buf i (\<lambda>b. b\<lparr>b_refcnt := b_refcnt b + 1\<rparr>) s)) (\<lambda>s.
         bind_res (lock_buf i s) (\<lambda>s. Inr (i, s)))
     | None \<Rightarrow>
         bind_res (scan (Suc NBUF) HEAD (\<lambda>i. b_prev (bufs s i))
             (\<lambda>i. bget_free (bufs s i)) (b_prev (bufs s HEAD))) (\<lambda>victim.
         case victim of
           Some i \<Rightarrow>
             bind_res (release L_bcache (upd_buf i (\<lambda>b. b\<lparr>b_dev := dev, b_blockno := blockno,
                 b_flags := 0, b_refcnt := 1\<rparr>) s)) (\<lambda>s.
             bind_res (lock_buf i s) (\<lambda>s. Inr (i, s)))
         | None \<Rightarrow> Inl (Panic ''bget: no buffers''))))"

definition bread ::
  "(nat \<Rightarrow> 'a bcache_scheme \<Rightarrow> 'a bcache_scheme res) \<Rightarrow> uint \<Rightarrow> uint \<Rightarrow> 'a bcache_scheme \<Rightarrow>
   (nat \<times> 'a bcache_scheme) res" where
  "bread iderw dev blockno s =
     bind_res (bget dev blockno s) (\<lambda>(i, s).
     if b_flags (bufs s i) AND B_VALID = 0 then bind_res (iderw i s) (\<lambda>s. Inr (i, s))
     else Inr (i, s))"

text \<open>\<open>b->flags |= B_DIRTY\<close>, by the holder of the buffer.\<close>

definition mark_dirty :: "nat \<Rightarrow> 'a bcache_scheme \<Rightarrow> 'a bcache_scheme" where
  "mark_dirty i = upd_buf i (\<lambda>b. b\<lparr>b_flags := b_flags b OR B_DIRTY\<rparr>)"

definition bwrite ::
  "(nat \<Rightarrow> 'a bcache_scheme \<Rightarrow> 'a bcache_scheme res) \<Rightarrow> nat \<Rightarrow> 'a bcache_scheme \<Rightarrow>
   'a bcache_scheme res" where
  "bwrite iderw i s =
     bind_res (holding_buf i s) (\<lambda>(held_lk, s).
     bind_res (panic_if (\<not> held_lk) ''bwrite'') (\<lambda>_.
     iderw i (mark_dirty i s)))"

definition brelse :: "nat \<Rightarrow> 'a bcache_scheme \<Rightarrow> 'a bcache_scheme res" where
  "brelse i s =
     bind_res (holding_buf i s) (\<lambda>(held_lk, s).
     bind_res (panic_if (\<not> held_lk) ''brelse'') (\<lambda>_.
     bind_res (unlock_buf i s) (\<lambda>s.
     bind_res (acquire L_bcache s) (\<lambda>s.
     let s = upd_buf i (\<lambda>b. b\<lparr>b_refcnt := b_refcnt b - 1\<rparr>) s;
         s = (if b_refcnt (bufs s i) = 0 then link_front i (unlink_buf i s) else s)
     in release L_bcache s))))"

text \<open>The holder of a buffer's lock changes the buffer's bytes in place.\<close>

definition set_data :: "nat \<Rightarrow> block \<Rightarrow> 'a bcache_scheme \<Rightarrow> 'a bcache_scheme" where
  "set_data i d = upd_buf i (\<lambda>b. b\<lparr>b_data := d\<rparr>)"

section \<open>Frame facts\<close>

named_theorems bio_simps \<open>what each elementary update of the buffer table leaves alone\<close>

lemma upd_buf_simps [simp, bio_simps]:
  "bufs (upd_buf i f s) = (bufs s)(i := f (bufs s i))"
  "held (upd_buf i f s) = held s" "ptable (upd_buf i f s) = ptable s"
  "curproc (upd_buf i f s) = curproc s" "bcache.more (upd_buf i f s) = bcache.more s"
  by (simp_all add: upd_buf_def)

lemma has_proc_upd_buf [simp]:
  "has_proc (upd_buf i f s) = has_proc s" "curpid (upd_buf i f s) = curpid s"
  by (simp_all add: has_proc_def curpid_def split: option.split)

lemma curpid_bufs [simp]: "curpid (s\<lparr>bufs := B\<rparr>) = curpid s" "has_proc (s\<lparr>bufs := B\<rparr>) = has_proc s"
  by (simp_all add: has_proc_def curpid_def split: option.split)

lemma bufs_held_upd [simp]:
  "bufs (s\<lparr>held := H\<rparr>) = bufs s" "bufs (wakeup1 c s) = bufs s"
  "bcache.more (wakeup1 c s) = bcache.more s"
  by (simp_all add: wakeup1_def)

lemma upd_buf_held [simp]: "(upd_buf i f s)\<lparr>held := H\<rparr> = upd_buf i f (s\<lparr>held := H\<rparr>)"
  by (simp add: upd_buf_def)

text \<open>The payload of a buffer: everything but its place on the lists.\<close>

definition payload :: "buf \<Rightarrow> uint \<times> uint \<times> uint \<times> sleeplock \<times> uint \<times> block" where
  "payload b = (b_flags b, b_dev b, b_blockno b, b_lock b, b_refcnt b, b_data b)"

lemma payload_links [simp]:
  "payload (b\<lparr>b_next := n\<rparr>) = payload b" "payload (b\<lparr>b_prev := p\<rparr>) = payload b"
  "payload (b\<lparr>b_qnext := q\<rparr>) = payload b"
  by (simp_all add: payload_def)

lemma payload_eqD:
  assumes "payload b = payload c"
  shows "b_flags b = b_flags c" "b_dev b = b_dev c" "b_blockno b = b_blockno c"
    "b_lock b = b_lock c" "b_refcnt b = b_refcnt c" "b_data b = b_data c"
    "b_valid b = b_valid c" "b_dirty b = b_dirty c" "b_locked b = b_locked c"
  using assms by (simp_all add: payload_def b_valid_def b_dirty_def b_locked_def)

lemma link_front_frame [simp]:
  "payload (bufs (link_front i s) j) = payload (bufs s j)"
  "held (link_front i s) = held s" "curproc (link_front i s) = curproc s"
  "ptable (link_front i s) = ptable s" "bcache.more (link_front i s) = bcache.more s"
  by (simp_all add: link_front_def Let_def)

lemma unlink_buf_frame [simp]:
  "payload (bufs (unlink_buf i s) j) = payload (bufs s j)"
  "held (unlink_buf i s) = held s" "curproc (unlink_buf i s) = curproc s"
  "ptable (unlink_buf i s) = ptable s" "bcache.more (unlink_buf i s) = bcache.more s"
  by (simp_all add: unlink_buf_def Let_def)

lemma links_held [simp]:
  "(link_front i s)\<lparr>held := H\<rparr> = link_front i (s\<lparr>held := H\<rparr>)"
  "(unlink_buf i s)\<lparr>held := H\<rparr> = unlink_buf i (s\<lparr>held := H\<rparr>)"
  "has_proc (link_front i s) = has_proc s" "has_proc (unlink_buf i s) = has_proc s"
  by (simp_all add: link_front_def unlink_buf_def Let_def)

section \<open>The list of buffers\<close>

text \<open>The pointers spell a circular list of all the buffers, most recently used first.\<close>

definition blist :: "'a bcache_scheme \<Rightarrow> nat list \<Rightarrow> bool" where
  "blist s xs \<longleftrightarrow> circ (\<lambda>i. b_next (bufs s i)) (\<lambda>i. b_prev (bufs s i)) HEAD xs
     \<and> set xs = {..<NBUF}"

lemma blist_cong:
  "(\<And>j. b_next (bufs t j) = b_next (bufs s j)) \<Longrightarrow> (\<And>j. b_prev (bufs t j) = b_prev (bufs s j)) \<Longrightarrow>
   blist t xs = blist s xs"
  by (simp add: blist_def)

lemma blist_length: "blist s xs \<Longrightarrow> length xs = NBUF"
  unfolding blist_def circ_def
  by (metis card_lessThan distinct.simps(2) distinct_card)

lemma next_prev_funs:
  "(\<lambda>j. b_next (bufs (unlink_buf i s) j)) =
     (\<lambda>j. b_next (bufs s j))(b_prev (bufs s i) := b_next (bufs s i))"
  "(\<lambda>j. b_prev (bufs (unlink_buf i s) j)) =
     (\<lambda>j. b_prev (bufs s j))(b_next (bufs s i) := b_prev (bufs s i))"
  if "b_next (bufs s i) \<noteq> i" "b_prev (bufs s i) \<noteq> i"
  using that by (auto simp: unlink_buf_def Let_def fun_eq_iff)

lemma link_front_funs:
  "(\<lambda>j. b_next (bufs (link_front i s) j)) =
     (\<lambda>j. b_next (bufs s j))(i := b_next (bufs s HEAD), HEAD := i)"
  "(\<lambda>j. b_prev (bufs (link_front i s) j)) =
     (\<lambda>j. b_prev (bufs s j))(i := HEAD, b_next (bufs s HEAD) := i)"
  if "i \<noteq> HEAD"
  using that by (auto simp: link_front_def Let_def fun_eq_iff)

text \<open>Recycling order: a buffer nobody uses any more moves to the front.\<close>

lemma blist_move_front:
  assumes "blist s xs" "i < NBUF"
  shows "blist (link_front i (unlink_buf i s)) (i # remove1 i xs)"
proof -
  let ?nx = "\<lambda>j. b_next (bufs s j)" and ?pv = "\<lambda>j. b_prev (bufs s j)"
  have c: "circ ?nx ?pv HEAD xs" and xs: "set xs = {..<NBUF}" and ix: "i \<in> set xs"
    using assms by (auto simp: blist_def)
  obtain ys zs where split: "xs = ys @ i # zs" using split_list[OF ix] by blast
  have d: "distinct (HEAD # ys @ i # zs)" using c split by (simp add: circ_def)
  have "last (HEAD # ys) \<in> set (HEAD # ys)" "last (HEAD # rev zs) \<in> set (HEAD # rev zs)"
    by (rule last_in_set, simp)+
  then have l: "last (HEAD # ys) \<noteq> i" "last (HEAD # rev zs) \<noteq> i"
    using d by (auto simp del: last.simps)
  have n: "?nx i \<noteq> i" "?pv i \<noteq> i"
    using circ_neighbours[of ?nx ?pv HEAD ys i zs] c split l by auto
  let ?N = "\<lambda>j. b_next (bufs (unlink_buf i s) j)" and ?P = "\<lambda>j. b_prev (bufs (unlink_buf i s) j)"
  have "circ (?N(i := ?N HEAD, HEAD := i)) (?P(i := HEAD, ?N HEAD := i)) HEAD (i # remove1 i xs)"
    by (rule circ_move_front[OF c ix next_prev_funs(1)[OF n] next_prev_funs(2)[OF n]])
  then have "circ (\<lambda>j. b_next (bufs (link_front i (unlink_buf i s)) j))
      (\<lambda>j. b_prev (bufs (link_front i (unlink_buf i s)) j)) HEAD (i # remove1 i xs)"
    using assms(2) by (simp only: link_front_funs)
  moreover have "set (i # remove1 i xs) = {..<NBUF}"
    using xs ix c by (auto simp: circ_def)
  ultimately show ?thesis by (simp add: blist_def)
qed

text \<open>The two scans of \<open>bget\<close> visit every buffer, from either end.\<close>

lemma bget_scans:
  assumes "blist s xs"
  shows "scan (Suc NBUF) HEAD (\<lambda>i. b_next (bufs s i)) p (b_next (bufs s HEAD)) = Inr (find p xs)"
    and "scan (Suc NBUF) HEAD (\<lambda>i. b_prev (bufs s i)) p (b_prev (bufs s HEAD)) = Inr (find p (rev xs))"
proof -
  have c: "chain (\<lambda>i. b_next (bufs s i)) HEAD xs HEAD"
    "chain (\<lambda>i. b_prev (bufs s i)) HEAD (rev xs) HEAD" "HEAD \<notin> set xs"
    using assms by (auto simp: blist_def circ_def)
  show "scan (Suc NBUF) HEAD (\<lambda>i. b_next (bufs s i)) p (b_next (bufs s HEAD)) = Inr (find p xs)"
    using scan_chain[OF c(1,3), of "Suc NBUF" p] blist_length[OF assms] by simp
  show "scan (Suc NBUF) HEAD (\<lambda>i. b_prev (bufs s i)) p (b_prev (bufs s HEAD)) = Inr (find p (rev xs))"
    using scan_chain[OF c(2), of "Suc NBUF" p] c(3) blist_length[OF assms] by simp
qed

text \<open>\<open>binit\<close> puts every buffer on the list, the last one first.\<close>

lemma binit_steps:
  assumes "circ (\<lambda>j. b_next (bufs s j)) (\<lambda>j. b_prev (bufs s j)) HEAD []" "n \<le> NBUF"
  shows "circ (\<lambda>j. b_next (bufs (fold binit_step [0..<n] s) j))
    (\<lambda>j. b_prev (bufs (fold binit_step [0..<n] s) j)) HEAD (rev [0..<n])"
  using assms(2)
proof (induction n)
  case 0
  then show ?case using assms(1) by simp
next
  case (Suc n)
  let ?t = "fold binit_step [0..<n] s"
  let ?u = "upd_buf n (\<lambda>b. b\<lparr>b_lock := initsleeplock ''buffer''\<rparr>) ?t"
  have l: "(\<lambda>j. b_next (bufs ?u j)) = (\<lambda>j. b_next (bufs ?t j))"
    "(\<lambda>j. b_prev (bufs ?u j)) = (\<lambda>j. b_prev (bufs ?t j))" by (auto simp: fun_eq_iff)
  have "circ (\<lambda>j. b_next (bufs ?u j)) (\<lambda>j. b_prev (bufs ?u j)) HEAD (rev [0..<n])"
    using Suc by (simp only: l)
  moreover have nh: "n \<noteq> HEAD" "n \<notin> set (HEAD # rev [0..<n])" using Suc.prems by auto
  ultimately have cf: "circ ((\<lambda>j. b_next (bufs ?u j))(n := b_next (bufs ?u HEAD), HEAD := n))
      ((\<lambda>j. b_prev (bufs ?u j))(n := HEAD, b_next (bufs ?u HEAD) := n)) HEAD (n # rev [0..<n])"
    by (intro circ_front)
  have "circ (\<lambda>j. b_next (bufs (link_front n ?u) j)) (\<lambda>j. b_prev (bufs (link_front n ?u) j)) HEAD
      (n # rev [0..<n])"
    unfolding link_front_funs[OF nh(1)] by (rule cf)
  then show ?case by (simp add: binit_step_def[of n])
qed

lemma binit_blist: "blist (binit s) (rev [0..<NBUF])"
proof -
  let ?s = "upd_buf HEAD (\<lambda>b. b\<lparr>b_prev := HEAD, b_next := HEAD\<rparr>) s"
  have "circ (\<lambda>j. b_next (bufs ?s j)) (\<lambda>j. b_prev (bufs ?s j)) HEAD []"
    by (simp add: circ_def)
  from binit_steps[OF this, of NBUF] show ?thesis
    unfolding blist_def binit_def by auto
qed

lemma binit_frame_steps:
  "held (fold binit_step xs s) = held s \<and> ptable (fold binit_step xs s) = ptable s
   \<and> curproc (fold binit_step xs s) = curproc s
   \<and> bcache.more (fold binit_step xs s) = bcache.more s
   \<and> payload (bufs (fold binit_step xs s) j)
     = payload (if j \<in> set xs then (bufs s j)\<lparr>b_lock := initsleeplock ''buffer''\<rparr> else bufs s j)"
proof (induction xs arbitrary: s)
  case Nil
  then show ?case by simp
next
  case (Cons x xs)
  have "payload (bufs (binit_step x s) j)
      = payload (if j = x then (bufs s j)\<lparr>b_lock := initsleeplock ''buffer''\<rparr> else bufs s j)"
    by (simp add: binit_step_def)
  then show ?case
    using Cons[of "binit_step x s"] by (auto simp: binit_step_def payload_def)
qed

lemma binit_frame:
  "held (binit s) = held s" "ptable (binit s) = ptable s" "curproc (binit s) = curproc s"
  "bcache.more (binit s) = bcache.more s"
  "i < NBUF \<Longrightarrow> payload (bufs (binit s) i) = payload ((bufs s i)\<lparr>b_lock := initsleeplock ''buffer''\<rparr>)"
  using binit_frame_steps[of "[0..<NBUF]" "upd_buf HEAD (\<lambda>b. b\<lparr>b_prev := HEAD, b_next := HEAD\<rparr>) s" i]
  unfolding binit_def by simp_all

end
