(* ===== verification/Block_Driver.thy ===== *)
theory Block_Driver
  imports Bio
begin

text \<open>
  The contract between the buffer cache and a disk driver, as a locale, and the buffer
  cache's own specification proved once from it: the invariant of the cache, the blocks a
  reader sees through it (\<open>view\<close>), and what \<open>bread\<close>, \<open>bwrite\<close> and \<open>brelse\<close> do to the
  view, to the disk and to the set of locked buffers.
\<close>

section \<open>State below the log: the cache and the disk\<close>

text \<open>
  The in-memory disk of \<open>memide.c\<close>: \<open>disksize\<close> blocks, block \<open>b\<close> being the \<open>BSIZE\<close> bytes
  at \<open>memdisk + b*BSIZE\<close>. \<open>writes\<close> is a history variable, not in the code: the blocks written
  so far, in order. A crash leaves the effect of a prefix of it.
\<close>

record diskst = bcache +
  disksize :: uint
  memdisk :: "uint \<Rightarrow> block"
  writes :: "(uint \<times> block) list"

section \<open>What readers see\<close>

text \<open>Buffer \<open>i\<close> caches block \<open>n\<close> of the root device.\<close>

definition caches :: "'a bcache_scheme \<Rightarrow> nat \<Rightarrow> uint \<Rightarrow> bool" where
  "caches s i n \<longleftrightarrow> b_dev (bufs s i) = ROOTDEV \<and> b_blockno (bufs s i) = n \<and> b_valid (bufs s i)"

text \<open>The contents of block \<open>n\<close>: the cached copy if there is one, else the disk's.\<close>

definition view :: "(uint \<Rightarrow> block) \<Rightarrow> 'a bcache_scheme \<Rightarrow> uint \<Rightarrow> block" where
  "view d s n = (case find (\<lambda>i. caches s i n) [0..<NBUF] of Some i \<Rightarrow> b_data (bufs s i) | None \<Rightarrow> d n)"

definition locked_bufs :: "'a bcache_scheme \<Rightarrow> nat set" where
  "locked_bufs s = {i. i < NBUF \<and> b_locked (bufs s i)}"

definition dirty_bufs :: "'a bcache_scheme \<Rightarrow> nat set" where
  "dirty_bufs s = {i. i < NBUF \<and> b_dirty (bufs s i)}"

text \<open>
  Buffer \<open>b\<close> is in order, for disk contents \<open>d\<close>: used exactly while locked, valid once it
  is locked or dirty, of block size, and equal to the disk when clean and unlocked.
\<close>

definition buf_ok :: "(uint \<Rightarrow> uint \<Rightarrow> bool) \<Rightarrow> (uint \<Rightarrow> block) \<Rightarrow> buf \<Rightarrow> bool" where
  "buf_ok present d b \<longleftrightarrow>
     b_refcnt b = (if b_locked b then 1 else 0)
     \<and> (b_locked b \<or> b_dirty b \<longrightarrow> b_valid b)
     \<and> (b_valid b \<longrightarrow> b_dev b = ROOTDEV \<and> present (b_dev b) (b_blockno b) \<and> length (b_data b) = BSIZE
         \<and> (b_locked b \<or> b_dirty b \<or> b_data b = d (b_blockno b)))"

definition keys_ok :: "'a bcache_scheme \<Rightarrow> bool" where
  "keys_ok s \<longleftrightarrow> (\<forall>i<NBUF. \<forall>j<NBUF. b_dev (bufs s i) = ROOTDEV \<and> b_dev (bufs s j) = ROOTDEV
     \<and> b_blockno (bufs s i) = b_blockno (bufs s j) \<longrightarrow> i = j)"

definition binv :: "(uint \<Rightarrow> uint \<Rightarrow> bool) \<Rightarrow> (uint \<Rightarrow> block) \<Rightarrow> 'a bcache_scheme \<Rightarrow> bool" where
  "binv present d s \<longleftrightarrow> (\<exists>xs. blist s xs) \<and> keys_ok s \<and> (\<forall>i<NBUF. buf_ok present d (bufs s i))"

text \<open>A block can be brought into the cache: it is there, or some buffer can be recycled.\<close>

definition room_for :: "'a bcache_scheme \<Rightarrow> uint \<Rightarrow> bool" where
  "room_for s n \<longleftrightarrow> (\<exists>i<NBUF. b_dev (bufs s i) = ROOTDEV \<and> b_blockno (bufs s i) = n)
     \<or> (\<exists>i<NBUF. bget_free (bufs s i))"

text \<open>Nobody holds the buffer of block \<open>n\<close>.\<close>

definition unlocked_block :: "'a bcache_scheme \<Rightarrow> uint \<Rightarrow> bool" where
  "unlocked_block s n \<longleftrightarrow> (\<forall>i\<in>locked_bufs s. b_blockno (bufs s i) \<noteq> n)"

section \<open>The view\<close>

lemma caches_unique:
  "keys_ok s \<Longrightarrow> i < NBUF \<Longrightarrow> j < NBUF \<Longrightarrow> caches s i n \<Longrightarrow> caches s j n \<Longrightarrow> i = j"
  by (auto simp: keys_ok_def caches_def)

lemma view_cached:
  assumes "keys_ok s" "i < NBUF" "caches s i n"
  shows "view d s n = b_data (bufs s i)"
proof (cases "find (\<lambda>i. caches s i n) [0..<NBUF]")
  case None
  then show ?thesis using assms(2,3) by (auto simp: find_None_iff)
next
  case (Some j)
  then have "j < NBUF" "caches s j n" by (auto simp: find_Some_iff)
  then show ?thesis using Some caches_unique[OF assms(1)] assms(2,3) by (auto simp: view_def)
qed

lemma view_uncached: "(\<And>i. i < NBUF \<Longrightarrow> \<not> caches s i n) \<Longrightarrow> view d s n = d n"
  by (auto simp: view_def find_None_iff split: option.split dest!: find_Some_iff[THEN iffD1])

lemma view_cong:
  assumes "\<And>i. i < NBUF \<Longrightarrow> payload (bufs t i) = payload (bufs s i)"
  shows "view d t = view d s"
proof -
  have c: "caches t i n = caches s i n" "b_data (bufs t i) = b_data (bufs s i)" if "i < NBUF" for i n
    using payload_eqD[OF assms[OF that]] by (simp_all add: caches_def)
  have "find (\<lambda>i. caches t i n) [0..<NBUF] = find (\<lambda>i. caches s i n) [0..<NBUF]" for n
    by (rule find_cong) (use c in auto)
  then show ?thesis
    using c(2) by (auto simp: view_def fun_eq_iff split: option.split dest!: find_Some_iff[THEN iffD1])
qed

text \<open>Two caches show the same block when each cached copy of either agrees with the other.\<close>

lemma view_eqI:
  assumes k: "keys_ok s" "keys_ok t"
    and st: "\<And>i. i < NBUF \<Longrightarrow> caches s i n \<Longrightarrow> view d' t n = b_data (bufs s i)"
    and un: "(\<And>i. i < NBUF \<Longrightarrow> \<not> caches s i n) \<Longrightarrow> view d' t n = d n"
  shows "view d' t n = view d s n"
proof (cases "\<exists>i<NBUF. caches s i n")
  case True
  then show ?thesis using st view_cached[OF k(1)] by metis
next
  case False
  then show ?thesis using un view_uncached[of s n d] by metis
qed

section \<open>Finding a buffer\<close>

definition taken :: "'a kcore_scheme \<Rightarrow> buf \<Rightarrow> buf" where
  "taken s b = b\<lparr>b_lock := (b_lock b)\<lparr>sl_locked := True, sl_pid := curpid s\<rparr>\<rparr>"

lemma taken_simps [simp]:
  "b_flags (taken s b) = b_flags b" "b_dev (taken s b) = b_dev b"
  "b_blockno (taken s b) = b_blockno b" "b_refcnt (taken s b) = b_refcnt b"
  "b_data (taken s b) = b_data b" "b_next (taken s b) = b_next b" "b_prev (taken s b) = b_prev b"
  "b_locked (taken s b)" "b_valid (taken s b) = b_valid b" "b_dirty (taken s b) = b_dirty b"
  by (simp_all add: taken_def b_locked_def b_valid_def b_dirty_def)

lemma lock_buf_ok:
  assumes "held s = {}" "has_proc s" "\<not> b_locked (bufs s i)"
  shows "lock_buf i s = Inr (upd_buf i (taken s) s)"
  using assms by (simp add: lock_buf_def b_locked_def upd_buf_def taken_def)

lemma find_first:
  assumes "find p xs = Some i"
  shows "i \<in> set xs" "p i"
  using assms by (auto simp: find_Some_iff)

lemma bget_cached:
  assumes l: "blist s xs" and k: "keys_ok s" and h: "held s = {}" "has_proc s"
    and i: "i < NBUF" "bget_hit ROOTDEV n (bufs s i)" "\<not> b_locked (bufs s i)"
  shows "bget ROOTDEV n s =
    Inr (i, upd_buf i (\<lambda>b. taken s (b\<lparr>b_refcnt := b_refcnt b + 1\<rparr>)) s)"
proof -
  have "find (\<lambda>i. bget_hit ROOTDEV n (bufs s i)) xs = Some i"
  proof (cases "find (\<lambda>i. bget_hit ROOTDEV n (bufs s i)) xs")
    case None
    then show ?thesis using i l by (auto simp: find_None_iff blist_def)
  next
    case (Some j)
    then have "j < NBUF" "bget_hit ROOTDEV n (bufs s j)"
      using find_first[OF Some] l by (auto simp: blist_def)
    then show ?thesis using k i Some by (auto simp: keys_ok_def bget_hit_def)
  qed
  then have f: "scan (Suc NBUF) HEAD (\<lambda>i. b_next (bufs s i)) (\<lambda>i. bget_hit ROOTDEV n (bufs s i))
      (b_next (bufs s HEAD)) = Inr (Some i)"
    by (simp only: bget_scans(1)[OF l])
  show ?thesis using h i f
    by (simp add: bget_def lock_buf_ok b_locked_def del: scan.simps)
      (simp add: upd_buf_def taken_def)
qed

lemma bget_recycle:
  assumes l: "blist s xs" and h: "held s = {}" "has_proc s"
    and miss: "\<And>i. i < NBUF \<Longrightarrow> \<not> bget_hit dev n (bufs s i)"
    and free: "j < NBUF" "bget_free (bufs s j)"
    and unlk: "\<And>i. i < NBUF \<Longrightarrow> bget_free (bufs s i) \<Longrightarrow> \<not> b_locked (bufs s i)"
  shows "\<exists>i<NBUF. bget_free (bufs s i) \<and> find (\<lambda>i. bget_free (bufs s i)) (rev xs) = Some i \<and> bget dev n s = Inr (i, upd_buf i
     (\<lambda>b. taken s (b\<lparr>b_dev := dev, b_blockno := n, b_flags := 0, b_refcnt := 1\<rparr>)) s)"
proof -
  have "find (\<lambda>i. bget_hit dev n (bufs s i)) xs = None"
    using miss l by (auto simp: find_None_iff blist_def)
  then have f1: "scan (Suc NBUF) HEAD (\<lambda>i. b_next (bufs s i)) (\<lambda>i. bget_hit dev n (bufs s i))
      (b_next (bufs s HEAD)) = Inr None"
    by (simp only: bget_scans(1)[OF l])
  obtain i where fi: "find (\<lambda>i. bget_free (bufs s i)) (rev xs) = Some i"
    using free l by (cases "find (\<lambda>i. bget_free (bufs s i)) (rev xs)") (auto simp: find_None_iff blist_def)
  then have f2: "scan (Suc NBUF) HEAD (\<lambda>i. b_prev (bufs s i)) (\<lambda>i. bget_free (bufs s i))
      (b_prev (bufs s HEAD)) = Inr (Some i)"
    by (simp only: bget_scans(2)[OF l])
  have i: "i < NBUF" "bget_free (bufs s i)"
    using find_first[OF fi] l by (auto simp: blist_def)
  have "bget dev n s = Inr (i, upd_buf i
     (\<lambda>b. taken s (b\<lparr>b_dev := dev, b_blockno := n, b_flags := 0, b_refcnt := 1\<rparr>)) s)"
    using h i f1 f2 unlk[OF i]
    by (simp add: bget_def lock_buf_ok b_locked_def del: scan.simps)
      (simp add: upd_buf_def taken_def)
  then show ?thesis using i fi by blast
qed

text \<open>The last release of a buffer, as one update of the state.\<close>

lemma brelse_eq:
  assumes "held s = {}" "i < NBUF" "b_locked (bufs s i)" "b_refcnt (bufs s i) = 1"
  shows "brelse i s = Inr (link_front i (unlink_buf i (upd_buf i (\<lambda>_. (bufs s i)\<lparr>
     b_lock := (b_lock (bufs s i))\<lparr>sl_locked := False, sl_pid := 0\<rparr>, b_refcnt := 0\<rparr>)
     (wakeup1 (Ch_buf i) s))))"
  using assms by (simp add: brelse_def holding_buf_def unlock_buf_def b_locked_def Let_def)
    (simp add: upd_buf_def)

text \<open>The released buffer becomes the most recently used one.\<close>

lemma brelse_blist:
  assumes "blist s xs" "held s = {}" "i < NBUF" "b_locked (bufs s i)" "b_refcnt (bufs s i) = 1"
  shows "\<exists>t. brelse i s = Inr t \<and> blist t (i # remove1 i xs)"
proof -
  let ?u = "upd_buf i (\<lambda>_. (bufs s i)\<lparr>b_lock := (b_lock (bufs s i))\<lparr>sl_locked := False, sl_pid := 0\<rparr>,
     b_refcnt := 0\<rparr>) (wakeup1 (Ch_buf i) s)"
  have "blist ?u xs" using assms(1) blist_cong[of ?u s xs] by simp
  then show ?thesis using brelse_eq[OF assms(2-5)] blist_move_front assms(3) by blast
qed

section \<open>Changing one buffer\<close>

text \<open>The block numbers of the dirty buffers.\<close>

definition dirty_blocks :: "'a bcache_scheme \<Rightarrow> uint set" where
  "dirty_blocks s = {b_blockno (bufs s i) | i. i < NBUF \<and> b_dirty (bufs s i)}"

text \<open>All buffers but \<open>i\<close> are as they were, up to their links.\<close>

definition others_same :: "nat \<Rightarrow> 'a bcache_scheme \<Rightarrow> 'a bcache_scheme \<Rightarrow> bool" where
  "others_same i s t \<longleftrightarrow> (\<forall>j<NBUF. j \<noteq> i \<longrightarrow> payload (bufs t j) = payload (bufs s j))"

lemma others_sameD:
  assumes "others_same i s t" "j < NBUF" "j \<noteq> i"
  shows "b_flags (bufs t j) = b_flags (bufs s j)" "b_dev (bufs t j) = b_dev (bufs s j)"
    "b_blockno (bufs t j) = b_blockno (bufs s j)" "b_data (bufs t j) = b_data (bufs s j)"
    "b_valid (bufs t j) = b_valid (bufs s j)" "b_dirty (bufs t j) = b_dirty (bufs s j)"
    "b_locked (bufs t j) = b_locked (bufs s j)" "b_refcnt (bufs t j) = b_refcnt (bufs s j)"
  using payload_eqD[of "bufs t j" "bufs s j"] assms by (auto simp: others_same_def)

lemma others_same_upd [simp]: "others_same i s (upd_buf i f s)"
  by (simp add: others_same_def)

lemma others_same_refl [simp]: "others_same i s s"
  by (simp add: others_same_def)

lemma others_same_trans: "others_same i s t \<Longrightarrow> others_same i t u \<Longrightarrow> others_same i s u"
  by (simp add: others_same_def)

lemma others_same_bufs: "bufs t = (bufs s)(i := b) \<Longrightarrow> others_same i s t"
  by (simp add: others_same_def)

lemma locked_bufs_others:
  "others_same i s t \<Longrightarrow> i < NBUF \<Longrightarrow> locked_bufs t =
     (if b_locked (bufs t i) then insert i (locked_bufs s) else locked_bufs s - {i})"
  by (auto simp: locked_bufs_def others_same_def dest: payload_eqD(9) split: if_splits)

lemma caches_others:
  "others_same i s t \<Longrightarrow> j < NBUF \<Longrightarrow> j \<noteq> i \<Longrightarrow> caches t j n = caches s j n"
  by (simp add: caches_def others_sameD)

lemma buf_ok_payload: "payload b = payload c \<Longrightarrow> buf_ok present d b = buf_ok present d c"
  using payload_eqD[of b c] by (simp add: buf_ok_def)

lemma blist_flags_data:
  assumes "bufs t = (bufs s)(i := (bufs s i)\<lparr>b_flags := f, b_qnext := q, b_data := d\<rparr>)"
  shows "blist t xs = blist s xs"
  using assms by (intro blist_cong) simp_all

lemma binv_change:
  assumes inv: "binv present d s" and o: "others_same i s t" and l: "blist t ys"
    and b: "buf_ok present d' (bufs t i)"
    and d: "\<And>j. \<lbrakk>j < NBUF; j \<noteq> i; b_valid (bufs s j); \<not> b_locked (bufs s j); \<not> b_dirty (bufs s j)\<rbrakk> \<Longrightarrow>
      d' (b_blockno (bufs s j)) = d (b_blockno (bufs s j))"
    and k: "\<And>j. \<lbrakk>b_dev (bufs t i) = ROOTDEV; j < NBUF; j \<noteq> i; b_dev (bufs s j) = ROOTDEV\<rbrakk> \<Longrightarrow>
      b_blockno (bufs s j) \<noteq> b_blockno (bufs t i)"
  shows "binv present d' t"
proof -
  have "buf_ok present d' (bufs t j)" if "j < NBUF" for j
  proof (cases "j = i")
    case True
    then show ?thesis using b by simp
  next
    case False
    have "buf_ok present d (bufs s j)" using inv that by (simp add: binv_def)
    then show ?thesis using others_sameD[OF o that False] d[OF that False]
      by (auto simp: buf_ok_def)
  qed
  moreover have "keys_ok t"
    unfolding keys_ok_def
  proof (intro allI impI)
    fix j j' assume j: "j < NBUF" and j': "j' < NBUF"
      and e: "b_dev (bufs t j) = ROOTDEV \<and> b_dev (bufs t j') = ROOTDEV
        \<and> b_blockno (bufs t j) = b_blockno (bufs t j')"
    have ks: "keys_ok s" using inv by (simp add: binv_def)
    show "j = j'"
    proof (cases "j = i \<or> j' = i")
      case True
      then show ?thesis using e k[of j] k[of j'] others_sameD(2,3)[OF o j] others_sameD(2,3)[OF o j'] j j'
        by metis
    next
      case False
      then show ?thesis using ks e j j' others_sameD(2,3)[OF o j] others_sameD(2,3)[OF o j']
        unfolding keys_ok_def by metis
    qed
  qed
  ultimately show ?thesis using l by (auto simp: binv_def)
qed

text \<open>When the key and the validity of the buffer stay, the view changes at most there.\<close>

lemma view_change:
  assumes inv: "keys_ok s" "keys_ok t" and o: "others_same i s t" "i < NBUF"
    and c: "caches s i n" "caches t i n"
    and d: "\<And>m. m \<noteq> n \<Longrightarrow> d' m = d m"
  shows "view d' t = (view d s)(n := b_data (bufs t i))"
proof
  fix m
  show "view d' t m = ((view d s)(n := b_data (bufs t i))) m"
  proof (cases "m = n")
    case True
    then show ?thesis using view_cached[OF inv(2) o(2)] c by simp
  next
    case False
    then have n: "\<not> caches s i m" "\<not> caches t i m" using c by (auto simp: caches_def)
    have "view d' t m = view d s m"
    proof (rule view_eqI[OF inv])
      fix j assume j: "j < NBUF" "caches s j m"
      then have "j \<noteq> i" using n by auto
      then show "view d' t m = b_data (bufs s j)"
        using view_cached[OF inv(2) j(1)] caches_others[OF o(1) j(1)] j(2) others_sameD(4)[OF o(1) j(1)]
        by simp
    next
      assume "\<And>j. j < NBUF \<Longrightarrow> \<not> caches s j m"
      then show "view d' t m = d m"
        using view_uncached[of t m d'] caches_others[OF o(1)] n d[OF False] by metis
    qed
    then show ?thesis using False by simp
  qed
qed

text \<open>Filling a buffer that cached nothing visible with the disk's bytes changes no view.\<close>

lemma view_fill:
  assumes inv: "keys_ok s" "keys_ok t" and o: "others_same i s t" "i < NBUF"
    and s: "\<And>m. caches s i m \<Longrightarrow> b_data (bufs s i) = d m"
    and t: "\<And>m. caches t i m \<Longrightarrow> b_data (bufs t i) = d m"
  shows "view d t = view d s"
proof
  fix m
  show "view d t m = view d s m"
  proof (rule view_eqI[OF inv])
    fix j assume j: "j < NBUF" "caches s j m"
    show "view d t m = b_data (bufs s j)"
    proof (cases "j = i")
      case True
      have "view d t m = d m"
      proof (cases "\<exists>j<NBUF. caches t j m")
        case True
        then obtain k where k: "k < NBUF" "caches t k m" by blast
        have "k = i" using k j \<open>j = i\<close> caches_others[OF o(1) k(1)] caches_unique[OF inv(1) k(1), of i m] o(2)
          by metis
        then show ?thesis using view_cached[OF inv(2) k] t k(2) by simp
      next
        case False
        then show ?thesis using view_uncached[of t m d] by metis
      qed
      then show ?thesis using s j True by metis
    next
      case False
      then show ?thesis
        using view_cached[OF inv(2) j(1)] caches_others[OF o(1) j(1)] j(2) others_sameD(4)[OF o(1) j(1)]
        by simp
    qed
  next
    assume n: "\<And>j. j < NBUF \<Longrightarrow> \<not> caches s j m"
    show "view d t m = d m"
    proof (cases "caches t i m")
      case True
      then show ?thesis using view_cached[OF inv(2) o(2)] t by simp
    next
      case False
      then show ?thesis using view_uncached[of t m d] caches_others[OF o(1)] n by metis
    qed
  qed
qed

lemma dirty_blocksI: "i < NBUF \<Longrightarrow> b_dirty (bufs s i) \<Longrightarrow> b_blockno (bufs s i) = n \<Longrightarrow> n \<in> dirty_blocks s"
  by (auto simp: dirty_blocks_def)

lemma dirty_blocksE:
  assumes "n \<in> dirty_blocks s"
  obtains i where "i < NBUF" "b_dirty (bufs s i)" "b_blockno (bufs s i) = n"
  using assms by (auto simp: dirty_blocks_def)

lemma dirty_blocks_others:
  assumes "others_same i s t" "i < NBUF" "b_dirty (bufs t i) = b_dirty (bufs s i)"
    and "b_dirty (bufs s i) \<Longrightarrow> b_blockno (bufs t i) = b_blockno (bufs s i)"
  shows "dirty_blocks t = dirty_blocks s"
proof -
  have "b_dirty (bufs t j) = b_dirty (bufs s j) \<and>
      (b_dirty (bufs s j) \<longrightarrow> b_blockno (bufs t j) = b_blockno (bufs s j))" if "j < NBUF" for j
    using assms others_sameD(3,6)[OF assms(1) that] by (cases "j = i") auto
  then show ?thesis unfolding dirty_blocks_def by (metis (no_types, opaque_lifting))
qed

lemma dirty_blocks_iff:
  assumes "binv present d s" "i < NBUF" "caches s i n"
  shows "n \<in> dirty_blocks s \<longleftrightarrow> b_dirty (bufs s i)"
proof
  assume "n \<in> dirty_blocks s"
  then obtain j where j: "j < NBUF" "b_dirty (bufs s j)" "b_blockno (bufs s j) = n"
    by (auto simp: dirty_blocks_def)
  then have "b_dev (bufs s j) = ROOTDEV" using assms(1) by (auto simp: binv_def buf_ok_def)
  then have "j = i" using assms j by (auto simp: binv_def keys_ok_def caches_def)
  then show "b_dirty (bufs s i)" using j by simp
qed (use assms in \<open>auto simp: dirty_blocks_def caches_def\<close>)

lemma dirty_blocks_clear:
  assumes inv: "binv present d s" and i: "i < NBUF" and o: "others_same i s t"
    and n: "\<not> b_dirty (bufs t i)" "caches s i n"
  shows "dirty_blocks t = dirty_blocks s - {n}"
proof (rule set_eqI)
  fix m
  have *: "j = i" if "j < NBUF" "b_dirty (bufs s j)" "b_blockno (bufs s j) = n" for j
    using that inv i n(2) by (auto simp: binv_def keys_ok_def buf_ok_def caches_def)
  show "m \<in> dirty_blocks t \<longleftrightarrow> m \<in> dirty_blocks s - {n}"
  proof
    assume "m \<in> dirty_blocks t"
    then obtain j where j: "j < NBUF" "b_dirty (bufs t j)" "b_blockno (bufs t j) = m"
      by (auto simp: dirty_blocks_def)
    then have "j \<noteq> i" using n(1) by auto
    then show "m \<in> dirty_blocks s - {n}"
      using j others_sameD(3,6)[OF o j(1)] *[of j] by (auto simp: dirty_blocks_def)
  next
    assume "m \<in> dirty_blocks s - {n}"
    then obtain j where j: "j < NBUF" "b_dirty (bufs s j)" "b_blockno (bufs s j) = m" "m \<noteq> n"
      by (auto simp: dirty_blocks_def)
    then have "j \<noteq> i" using n(2) by (auto simp: caches_def)
    then show "m \<in> dirty_blocks t"
      using j others_sameD(3,6)[OF o j(1)] dirty_blocksI[OF j(1), of t m] by simp
  qed
qed

text \<open>A buffer is free for recycling while fewer than \<open>NBUF\<close> are locked or dirty.\<close>

lemma card_dirty:
  assumes "binv present d s"
  shows "card (dirty_bufs s) = card (dirty_blocks s)"
proof -
  have "dirty_blocks s = (\<lambda>i. b_blockno (bufs s i)) ` dirty_bufs s"
    by (auto simp: dirty_blocks_def dirty_bufs_def)
  moreover have "inj_on (\<lambda>i. b_blockno (bufs s i)) (dirty_bufs s)"
    using assms by (auto simp: inj_on_def dirty_bufs_def binv_def keys_ok_def buf_ok_def)
  ultimately show ?thesis by (simp add: card_image)
qed

lemma room_for_free:
  assumes "binv present d s" "card (dirty_blocks s) + card (locked_bufs s) < NBUF"
  shows "room_for s n"
proof -
  have "card (dirty_bufs s \<union> locked_bufs s) < NBUF"
    using card_Un_le[of "dirty_bufs s" "locked_bufs s"] assms card_dirty by fastforce
  then have "dirty_bufs s \<union> locked_bufs s \<noteq> {..<NBUF}"
    by (metis card_lessThan less_irrefl)
  then obtain i where i: "i < NBUF" "\<not> b_dirty (bufs s i)" "\<not> b_locked (bufs s i)"
    by (auto simp: dirty_bufs_def locked_bufs_def)
  have "buf_ok present d (bufs s i)" using assms(1) i(1) by (simp add: binv_def)
  then have "bget_free (bufs s i)"
    using i by (simp add: buf_ok_def bget_free_def b_dirty_def)
  then show ?thesis using i(1) by (auto simp: room_for_def)
qed

lemma room_for_dirty:
  assumes "binv present d s" "n \<in> dirty_blocks s"
  shows "room_for s n"
  using assms by (auto simp: room_for_def binv_def buf_ok_def elim!: dirty_blocksE)

text \<open>A clean unlocked block reads the same through the cache as on the disk.\<close>

lemma view_clean:
  assumes "binv present d s" "n \<notin> dirty_blocks s" "unlocked_block s n"
  shows "view d s n = d n"
proof (cases "\<exists>i<NBUF. caches s i n")
  case True
  then obtain i where i: "i < NBUF" "caches s i n" by blast
  then have "\<not> b_dirty (bufs s i)" "\<not> b_locked (bufs s i)"
    using assms(2,3) dirty_blocksI[OF i(1), of s n]
    by (auto simp: caches_def unlocked_block_def locked_bufs_def)
  moreover have "buf_ok present d (bufs s i)" using assms(1) i(1) by (simp add: binv_def)
  ultimately show ?thesis
    using view_cached[OF _ i] i(2) assms(1) by (auto simp: buf_ok_def caches_def binv_def)
next
  case False
  then show ?thesis using view_uncached by metis
qed

lemma unlocked_blockI: "locked_bufs s = {} \<Longrightarrow> unlocked_block s n"
  by (simp add: unlocked_block_def)

lemma view_length:
  assumes "binv present d s" "length (d n) = BSIZE"
  shows "length (view d s n) = BSIZE"
  using assms by (auto simp: view_def binv_def buf_ok_def caches_def split: option.split
      dest!: find_Some_iff[THEN iffD1])

section \<open>What the operations promise\<close>

text \<open>The driver is ready, this CPU holds no spin lock, a process runs, the cache is in order.\<close>

definition cache_ok ::
  "('a diskst_scheme \<Rightarrow> uint \<Rightarrow> uint \<Rightarrow> bool) \<Rightarrow> ('a diskst_scheme \<Rightarrow> uint \<Rightarrow> block) \<Rightarrow>
   ('a diskst_scheme \<Rightarrow> bool) \<Rightarrow> 'a diskst_scheme \<Rightarrow> bool" where
  "cache_ok present disk ready s \<longleftrightarrow>
     ready s \<and> held s = {} \<and> has_proc s \<and> binv (present s) (disk s) s"

text \<open>The device is as it was, and so is the state of the components above the driver.\<close>

definition device_same ::
  "('a diskst_scheme \<Rightarrow> uint \<Rightarrow> uint \<Rightarrow> bool) \<Rightarrow> ('a diskst_scheme \<Rightarrow> uint \<Rightarrow> block) \<Rightarrow>
   ('a diskst_scheme \<Rightarrow> (uint \<times> block) list) \<Rightarrow> 'a diskst_scheme \<Rightarrow> 'a diskst_scheme \<Rightarrow> bool" where
  "device_same present disk hist s s' \<longleftrightarrow> disk s' = disk s \<and> hist s' = hist s
     \<and> present s' = present s \<and> diskst.more s' = diskst.more s"

text \<open>Block \<open>n\<close> now holds \<open>d\<close> on the device and is the last entry of the history.\<close>

definition device_wrote ::
  "('a diskst_scheme \<Rightarrow> uint \<Rightarrow> uint \<Rightarrow> bool) \<Rightarrow> ('a diskst_scheme \<Rightarrow> uint \<Rightarrow> block) \<Rightarrow>
   ('a diskst_scheme \<Rightarrow> (uint \<times> block) list) \<Rightarrow> uint \<Rightarrow> block \<Rightarrow>
   'a diskst_scheme \<Rightarrow> 'a diskst_scheme \<Rightarrow> bool" where
  "device_wrote present disk hist n d s s' \<longleftrightarrow> disk s' = (disk s)(n := d)
     \<and> hist s' = hist s @ [(n, d)] \<and> present s' = present s \<and> diskst.more s' = diskst.more s"

text \<open>Buffer \<open>i\<close> is the locked buffer of block \<open>n\<close> and holds \<open>d\<close>.\<close>

definition owns :: "'a bcache_scheme \<Rightarrow> nat \<Rightarrow> uint \<Rightarrow> block \<Rightarrow> bool" where
  "owns s i n d \<longleftrightarrow> i \<in> locked_bufs s \<and> b_dev (bufs s i) = ROOTDEV \<and> b_blockno (bufs s i) = n
     \<and> b_data (bufs s i) = d"

lemma owns_others:
  assumes "others_same i s t" "j \<noteq> i"
  shows "owns t j n d = owns s j n d"
  using others_sameD[OF assms(1) _ assms(2)] by (auto simp: owns_def locked_bufs_def)

lemma ownsD:
  assumes "owns s i n d"
  shows "i < NBUF" "b_locked (bufs s i)" "b_blockno (bufs s i) = n" "b_data (bufs s i) = d"
    "i \<in> locked_bufs s"
  using assms by (auto simp: owns_def locked_bufs_def)

text \<open>The cache that \<open>binit\<close> makes of zeroed buffers.\<close>

lemma binit_binv:
  assumes "\<And>i. i < NBUF \<Longrightarrow> b_flags (bufs s i) = 0 \<and> b_dev (bufs s i) = 0 \<and> b_refcnt (bufs s i) = 0"
  shows "binv present d (binit s)" "locked_bufs (binit s) = {}" "dirty_blocks (binit s) = {}"
proof -
  have b: "b_flags (bufs (binit s) i) = 0" "b_dev (bufs (binit s) i) = 0" "b_refcnt (bufs (binit s) i) = 0"
    "\<not> b_locked (bufs (binit s) i)" if "i < NBUF" for i
    using payload_eqD[OF binit_frame(5)[OF that, of s]] assms[OF that]
    by (simp_all add: b_locked_def initsleeplock_def)
  have "keys_ok (binit s)" using b(2) by (simp add: keys_ok_def)
  moreover have "buf_ok present d (bufs (binit s) i)" if "i < NBUF" for i
    using b[OF that] by (simp add: buf_ok_def b_valid_def b_dirty_def)
  ultimately show "binv present d (binit s)" using binit_blist[of s] by (auto simp: binv_def)
  show "locked_bufs (binit s) = {}" "dirty_blocks (binit s) = {}"
    using b by (auto simp: locked_bufs_def dirty_blocks_def b_dirty_def)
qed

section \<open>The driver's contract\<close>

text \<open>The driver's own variables are as they were.\<close>

definition same_drv :: "'a diskst_scheme \<Rightarrow> 'a diskst_scheme \<Rightarrow> bool" where
  "same_drv s t \<longleftrightarrow> disksize t = disksize s \<and> memdisk t = memdisk s \<and> writes t = writes s"

lemma diskst_more_same: "bcache.more t = bcache.more s \<Longrightarrow> diskst.more t = diskst.more s"
  by (cases s; cases t) simp

lemma same_drv_more: "bcache.more t = bcache.more s \<Longrightarrow> same_drv s t"
  by (cases s; cases t) (simp add: same_drv_def)

text \<open>
  \<open>rw\<close> is the driver's \<open>iderw\<close>. It is called on a locked buffer of a present block with no spin
  lock held. It fills an invalid clean buffer from the disk, or writes a dirty one out, and
  touches nothing else. The interface speaks of \<open>disk\<close>, the device's blocks, \<open>hist\<close>, the
  blocks written so far, \<open>present\<close>, the blocks that exist,
  and \<open>ready\<close>, the driver's own invariant; they depend on the driver's variables only.
\<close>

locale block_driver =
  fixes rw :: "nat \<Rightarrow> 'a diskst_scheme \<Rightarrow> 'a diskst_scheme res"
    and disk :: "'a diskst_scheme \<Rightarrow> uint \<Rightarrow> block"
    and hist :: "'a diskst_scheme \<Rightarrow> (uint \<times> block) list"
    and present :: "'a diskst_scheme \<Rightarrow> uint \<Rightarrow> uint \<Rightarrow> bool"
    and ready :: "'a diskst_scheme \<Rightarrow> bool"
  assumes rw_read:
    "\<lbrakk>ready s; held s = {}; has_proc s; i < NBUF; b_locked (bufs s i);
      present s (b_dev (bufs s i)) (b_blockno (bufs s i));
      \<not> b_valid (bufs s i); \<not> b_dirty (bufs s i)\<rbrakk> \<Longrightarrow>
     \<exists>s' q. rw i s = Inr s' \<and> ready s' \<and> held s' = {} \<and> has_proc s' \<and> disk s' = disk s
       \<and> hist s' = hist s \<and> present s' = present s \<and> diskst.more s' = diskst.more s
       \<and> bufs s' = (bufs s)(i := (bufs s i)\<lparr>b_flags := b_flags (bufs s i) OR B_VALID,
           b_qnext := q, b_data := disk s (b_blockno (bufs s i))\<rparr>)"
    and rw_write:
    "\<lbrakk>ready s; held s = {}; has_proc s; i < NBUF; b_locked (bufs s i);
      present s (b_dev (bufs s i)) (b_blockno (bufs s i));
      b_dirty (bufs s i); length (b_data (bufs s i)) = BSIZE\<rbrakk> \<Longrightarrow>
     \<exists>s' q. rw i s = Inr s' \<and> ready s' \<and> held s' = {} \<and> has_proc s'
       \<and> disk s' = (disk s)(b_blockno (bufs s i) := b_data (bufs s i))
       \<and> hist s' = hist s @ [(b_blockno (bufs s i), b_data (bufs s i))]
       \<and> present s' = present s \<and> diskst.more s' = diskst.more s
       \<and> bufs s' = (bufs s)(i := (bufs s i)\<lparr>b_flags := b_flags (bufs s i) AND NOT B_DIRTY OR B_VALID,
           b_qnext := q\<rparr>)"
    and disk_length: "ready s \<Longrightarrow> present s ROOTDEV n \<Longrightarrow> length (disk s n) = BSIZE"
    and ready_drv: "ready s \<Longrightarrow> held s = {} \<Longrightarrow> same_drv s t \<Longrightarrow> held t = {} \<Longrightarrow> ready t"
    and disk_drv: "same_drv s t \<Longrightarrow> disk t = disk s"
    and hist_drv: "same_drv s t \<Longrightarrow> hist t = hist s"
    and present_drv: "same_drv s t \<Longrightarrow> present t = present s"
begin

abbreviation "ok \<equiv> cache_ok present disk ready"
abbreviation "same \<equiv> device_same present disk hist"
abbreviation "wrote \<equiv> device_wrote present disk hist"

lemmas ready_upd = ready_drv[OF _ _ same_drv_more]
  and disk_upd = disk_drv[OF same_drv_more]
  and hist_upd = hist_drv[OF same_drv_more]
  and present_upd = present_drv[OF same_drv_more]

lemma ok_change:
  assumes "ok s" "bcache.more t = bcache.more s" "held t = {}" "has_proc t"
    and "binv (present s) (disk s) t"
  shows "ok t" "same s t"
proof -
  note more = disk_upd[OF assms(2)] hist_upd[OF assms(2)] present_upd[OF assms(2)]
  show "ok t" using assms ready_upd[of s t] more by (simp add: cache_ok_def)
  have "diskst.more t = diskst.more s"
    using assms(2) by (cases t; cases s) simp
  then show "same s t" using more by (simp add: device_same_def)
qed

lemma bget_ok:
  assumes "ok s" and n: "present s ROOTDEV n" "unlocked_block s n" "room_for s n"
  obtains i c where "i < NBUF" "\<not> b_locked (bufs s i)"
    "bget ROOTDEV n s = Inr (i, upd_buf i (\<lambda>_. c) s)"
    "b_locked c" "b_dev c = ROOTDEV" "b_blockno c = n" "b_refcnt c = 1"
    "b_next c = b_next (bufs s i)" "b_prev c = b_prev (bufs s i)"
    "b_valid c \<and> caches s i n \<and> b_data c = b_data (bufs s i) \<and> b_dirty c = b_dirty (bufs s i)
     \<or> \<not> b_valid c \<and> \<not> b_dirty c \<and> \<not> b_dirty (bufs s i) \<and> \<not> caches s i n
       \<and> (\<forall>j<NBUF. j \<noteq> i \<longrightarrow> \<not> (b_dev (bufs s j) = ROOTDEV \<and> b_blockno (bufs s j) = n))"
proof -
  have h: "held s = {}" "has_proc s" and b: "binv (present s) (disk s) s"
    using assms(1) by (simp_all add: cache_ok_def)
  obtain xs where l: "blist s xs" and k: "keys_ok s"
    and okb: "\<And>i. i < NBUF \<Longrightarrow> buf_ok (present s) (disk s) (bufs s i)"
    using b by (auto simp: binv_def)
  show ?thesis
  proof (cases "\<exists>i<NBUF. bget_hit ROOTDEV n (bufs s i)")
    case True
    then obtain i where i: "i < NBUF" "bget_hit ROOTDEV n (bufs s i)" by blast
    have u: "\<not> b_locked (bufs s i)"
      using n(2) i by (auto simp: unlocked_block_def locked_bufs_def bget_hit_def)
    have only: "\<forall>j<NBUF. j \<noteq> i \<longrightarrow> \<not> (b_dev (bufs s j) = ROOTDEV \<and> b_blockno (bufs s j) = n)"
      using k i by (auto simp: keys_ok_def bget_hit_def)
    have g: "bget ROOTDEV n s = Inr (i, upd_buf i
        (\<lambda>_. taken s ((bufs s i)\<lparr>b_refcnt := b_refcnt (bufs s i) + 1\<rparr>)) s)"
      using bget_cached[OF l k h i u] by (simp add: upd_buf_def)
    show ?thesis
      by (rule that[OF i(1) u g])
        (use i u okb[OF i(1)] only in \<open>auto simp: buf_ok_def bget_hit_def caches_def b_valid_def b_dirty_def\<close>)
  next
    case False
    then obtain j where j: "j < NBUF" "bget_free (bufs s j)"
      using n(3) by (auto simp: room_for_def bget_hit_def)
    have ul: "\<not> b_locked (bufs s i)" if "i < NBUF" "bget_free (bufs s i)" for i
      using okb[OF that(1)] that(2) by (auto simp: buf_ok_def bget_free_def)
    obtain i where i: "i < NBUF" "bget_free (bufs s i)" and g: "bget ROOTDEV n s = Inr (i, upd_buf i
       (\<lambda>b. taken s (b\<lparr>b_dev := ROOTDEV, b_blockno := n, b_flags := 0, b_refcnt := 1\<rparr>)) s)"
      using bget_recycle[OF l h _ j ul, of ROOTDEV n] False by blast
    have g': "bget ROOTDEV n s = Inr (i, upd_buf i (\<lambda>_. taken s ((bufs s i)\<lparr>b_dev := ROOTDEV,
        b_blockno := n, b_flags := 0, b_refcnt := 1\<rparr>)) s)"
      using g by (simp add: upd_buf_def)
    show ?thesis
      by (rule that[OF i(1) ul[OF i] g'])
        (use i False in \<open>auto simp: bget_free_def bget_hit_def b_valid_def b_dirty_def caches_def\<close>)
  qed
qed

lemma same_upd: "bcache.more t = bcache.more s \<Longrightarrow> same s t"
  using disk_upd[of t s] hist_upd[of t s] present_upd[of t s]
  by (cases t; cases s) (simp add: device_same_def)

lemma same_trans: "same s t \<Longrightarrow> same t u \<Longrightarrow> same s u"
  by (simp add: device_same_def)

lemma bread_post:
  assumes ok: "ok s" and n: "present s ROOTDEV n" and i: "i < NBUF" "\<not> b_locked (bufs s i)"
    and t: "ready t" "held t = {}" "has_proc t" "same s t" "blist t xs" "others_same i s t"
    and c: "b_locked (bufs t i)" "b_valid (bufs t i)" "b_dev (bufs t i) = ROOTDEV"
      "b_blockno (bufs t i) = n" "b_refcnt (bufs t i) = 1" "b_data (bufs t i) = view (disk s) s n"
    and alt: "caches s i n \<and> b_dirty (bufs t i) = b_dirty (bufs s i)
     \<or> \<not> b_dirty (bufs t i) \<and> \<not> b_dirty (bufs s i) \<and> view (disk s) s n = disk s n
       \<and> (\<forall>j<NBUF. j \<noteq> i \<longrightarrow> \<not> (b_dev (bufs s j) = ROOTDEV \<and> b_blockno (bufs s j) = n))"
  shows "ok t \<and> locked_bufs t = insert i (locked_bufs s) \<and> owns t i n (view (disk s) s n)
    \<and> view (disk t) t = view (disk s) s \<and> dirty_blocks t = dirty_blocks s
    \<and> b_dirty (bufs t i) = (n \<in> dirty_blocks s)"
proof -
  have inv: "binv (present s) (disk s) s" and k: "keys_ok s"
    using ok by (simp_all add: cache_ok_def binv_def)
  have d: "disk t = disk s" "present t = present s" using t(4) by (simp_all add: device_same_def)
  have only: "j \<noteq> i \<Longrightarrow> j < NBUF \<Longrightarrow> b_dev (bufs s j) = ROOTDEV \<Longrightarrow> b_blockno (bufs s j) \<noteq> n" for j
    using alt k i(1) by (auto simp: caches_def keys_ok_def)
  have "length (view (disk s) s n) = BSIZE"
    using view_length[OF inv] disk_length[OF _ n] ok by (simp add: cache_ok_def)
  then have "buf_ok (present s) (disk s) (bufs t i)"
    using c n by (simp add: buf_ok_def)
  then have inv': "binv (present s) (disk s) t"
    using binv_change[OF inv t(6,5)] only c(3,4) by simp
  then have k': "keys_ok t" by (simp add: binv_def)
  have "view (disk s) t = view (disk s) s"
    using alt
  proof
    assume a: "caches s i n \<and> b_dirty (bufs t i) = b_dirty (bufs s i)"
    have "view (disk s) t = (view (disk s) s)(n := b_data (bufs t i))"
      using view_change[OF k k' t(6) i(1)] a c by (simp add: caches_def)
    then show ?thesis using c(6) by simp
  next
    assume a: "\<not> b_dirty (bufs t i) \<and> \<not> b_dirty (bufs s i) \<and> view (disk s) s n = disk s n
       \<and> (\<forall>j<NBUF. j \<noteq> i \<longrightarrow> \<not> (b_dev (bufs s j) = ROOTDEV \<and> b_blockno (bufs s j) = n))"
    have "buf_ok (present s) (disk s) (bufs s i)" using inv i(1) by (simp add: binv_def)
    then show ?thesis using a i(2) c
      by (intro view_fill[OF k k' t(6) i(1)]) (auto simp: caches_def buf_ok_def)
  qed
  moreover have "dirty_blocks t = dirty_blocks s"
    using alt c(4) by (intro dirty_blocks_others[OF t(6) i(1)]) (auto simp: caches_def)
  moreover have "b_dirty (bufs t i) = (n \<in> dirty_blocks s)"
    using dirty_blocks_iff[OF inv' i(1), of n] c calculation(2) by (simp add: caches_def)
  ultimately show ?thesis
    using t(1-3) inv' d c locked_bufs_others[OF t(6) i(1)] i
    by (auto simp: cache_ok_def owns_def locked_bufs_def)
qed

lemma bread_ok:
  assumes ok: "ok s" and n: "present s ROOTDEV n" "unlocked_block s n" "room_for s n"
  shows "\<exists>i s'. bread rw ROOTDEV n s = Inr (i, s') \<and> ok s' \<and> same s s' \<and> i < NBUF
    \<and> i \<notin> locked_bufs s \<and> locked_bufs s' = insert i (locked_bufs s)
    \<and> owns s' i n (view (disk s) s n) \<and> others_same i s s'
    \<and> view (disk s') s' = view (disk s) s \<and> dirty_blocks s' = dirty_blocks s
    \<and> b_dirty (bufs s' i) = (n \<in> dirty_blocks s)"
proof -
  obtain i c where i: "i < NBUF" "\<not> b_locked (bufs s i)"
    and g: "bget ROOTDEV n s = Inr (i, upd_buf i (\<lambda>_. c) s)"
    and c: "b_locked c" "b_dev c = ROOTDEV" "b_blockno c = n" "b_refcnt c = 1"
      "b_next c = b_next (bufs s i)" "b_prev c = b_prev (bufs s i)"
    and alt: "b_valid c \<and> caches s i n \<and> b_data c = b_data (bufs s i) \<and> b_dirty c = b_dirty (bufs s i)
     \<or> \<not> b_valid c \<and> \<not> b_dirty c \<and> \<not> b_dirty (bufs s i) \<and> \<not> caches s i n
       \<and> (\<forall>j<NBUF. j \<noteq> i \<longrightarrow> \<not> (b_dev (bufs s j) = ROOTDEV \<and> b_blockno (bufs s j) = n))"
    by (rule bget_ok[OF ok n])
  have h: "held s = {}" "has_proc s" and r: "ready s" and inv: "binv (present s) (disk s) s"
    using ok by (simp_all add: cache_ok_def)
  let ?s1 = "upd_buf i (\<lambda>_. c) s"
  have more: "bcache.more ?s1 = bcache.more s" by simp
  obtain xs where "blist s xs" using inv by (auto simp: binv_def)
  then have s1: "ready ?s1" "same s ?s1" "blist ?s1 xs"
    using ready_upd[OF r h(1) more] h(1) same_upd[OF more] blist_cong[of ?s1 s xs] c by simp_all
  from alt show ?thesis
  proof
    assume a: "b_valid c \<and> caches s i n \<and> b_data c = b_data (bufs s i) \<and> b_dirty c = b_dirty (bufs s i)"
    have "b_data c = view (disk s) s n"
      using a view_cached[of s i n "disk s"] inv i(1) by (auto simp: binv_def)
    moreover have "b_flags (bufs ?s1 i) AND B_VALID \<noteq> 0" using a by (simp add: b_valid_def)
    then have "bread rw ROOTDEV n s = Inr (i, ?s1)" by (simp add: bread_def g)
    moreover have "b_dirty (bufs ?s1 i) = b_dirty (bufs s i)" using a by simp
    ultimately show ?thesis
      using bread_post[OF ok n(1) i s1(1) _ _ s1(2,3) others_same_upd] a c h(1,2) i s1(2)
      by (fastforce simp: locked_bufs_def)
  next
    assume a: "\<not> b_valid c \<and> \<not> b_dirty c \<and> \<not> b_dirty (bufs s i) \<and> \<not> caches s i n
       \<and> (\<forall>j<NBUF. j \<noteq> i \<longrightarrow> \<not> (b_dev (bufs s j) = ROOTDEV \<and> b_blockno (bufs s j) = n))"
    then have v: "view (disk s) s n = disk s n"
      by (intro view_uncached) (metis caches_def)
    have "b_flags (bufs ?s1 i) AND B_VALID = 0" using a by (simp add: b_valid_def)
    then have b: "bread rw ROOTDEV n s = bind_res (rw i ?s1) (\<lambda>s. Inr (i, s))"
      by (simp add: bread_def g)
    obtain s' q where rd: "rw i ?s1 = Inr s'" "ready s'" "held s' = {}" "has_proc s'"
        "same ?s1 s'"
        "bufs s' = (bufs ?s1)(i := (bufs ?s1 i)\<lparr>b_flags := b_flags (bufs ?s1 i) OR B_VALID,
           b_qnext := q, b_data := disk ?s1 (b_blockno (bufs ?s1 i))\<rparr>)"
      using rw_read[of ?s1 i] s1(1) present_upd[OF more] h i(1) c n(1) a
      by (auto simp: device_same_def)
    have o: "others_same i s s'" and sm: "same s s'"
      using rd(6) same_trans[OF s1(2) rd(5)] by (simp_all add: others_same_def)
    have bi: "bufs s' i = c\<lparr>b_flags := b_flags c OR B_VALID, b_qnext := q, b_data := disk s n\<rparr>"
      using rd(6) disk_upd[OF more] c(3) by simp
    then have "b_valid (bufs s' i)" "\<not> b_dirty (bufs s' i)"
      using a and_or_not_mask(1)[of B_VALID B_DIRTY "b_flags c"] by (simp_all add: b_valid_def b_dirty_def)
    moreover have "blist s' xs"
      using s1(3) blist_cong[of s' ?s1 xs] rd(6) by simp
    moreover have "b_locked (bufs s' i)" "b_dev (bufs s' i) = ROOTDEV" "b_blockno (bufs s' i) = n"
      "b_refcnt (bufs s' i) = 1" "b_data (bufs s' i) = view (disk s) s n"
      using bi c v by (simp_all add: b_locked_def)
    ultimately show ?thesis
      using bread_post[OF ok n(1) i rd(2-4) sm _ o] a v b rd(1) sm o i
      by (fastforce simp: locked_bufs_def)
  qed
qed

text \<open>An update of the held buffer that keeps its key, lock and validity.\<close>

lemma held_update:
  assumes ok: "ok s" and i: "owns s i n d" "i < NBUF"
    and t: "ready t" "held t = {}" "has_proc t" "present t = present s" "others_same i s t"
      "disk t = disk s \<or> disk t = (disk s)(n := e)"
    and b: "b_locked (bufs t i)" "b_valid (bufs t i)" "b_dev (bufs t i) = b_dev (bufs s i)"
      "b_blockno (bufs t i) = b_blockno (bufs s i)" "b_refcnt (bufs t i) = b_refcnt (bufs s i)"
      "b_data (bufs t i) = e" "length e = BSIZE"
      "b_next (bufs t i) = b_next (bufs s i)" "b_prev (bufs t i) = b_prev (bufs s i)"
    and links: "\<And>j. j \<noteq> i \<Longrightarrow> b_next (bufs t j) = b_next (bufs s j) \<and> b_prev (bufs t j) = b_prev (bufs s j)"
  shows "ok t \<and> owns t i n e \<and> locked_bufs t = locked_bufs s
    \<and> view (disk t) t = (view (disk s) s)(n := e)"
proof -
  have inv: "binv (present s) (disk s) s" and k: "keys_ok s"
    using ok by (simp_all add: cache_ok_def binv_def)
  have si: "b_locked (bufs s i)" "b_dev (bufs s i) = ROOTDEV" "b_blockno (bufs s i) = n"
    using i by (simp_all add: owns_def locked_bufs_def)
  have bi: "buf_ok (present s) (disk s) (bufs s i)" using inv i(2) by (simp add: binv_def)
  obtain xs where "blist s xs" using inv by (auto simp: binv_def)
  then have l: "blist t xs" using blist_cong[of t s xs] links b(8,9) by metis
  have key: "j \<noteq> i \<Longrightarrow> j < NBUF \<Longrightarrow> b_dev (bufs s j) = ROOTDEV \<Longrightarrow> b_blockno (bufs s j) \<noteq> n" for j
    using k i(2) si by (auto simp: keys_ok_def)
  have "buf_ok (present s) (disk t) (bufs t i)"
    using bi si b by (auto simp: buf_ok_def)
  moreover have "disk t (b_blockno (bufs s j)) = disk s (b_blockno (bufs s j))"
    if "j < NBUF" "j \<noteq> i" "b_valid (bufs s j)" for j
  proof -
    have "b_dev (bufs s j) = ROOTDEV" using inv that by (auto simp: binv_def buf_ok_def)
    then show ?thesis using key that t(6) by auto
  qed
  ultimately have inv': "binv (present s) (disk t) t"
    using key b(3,4) si by (intro binv_change[OF inv t(5) l]) auto
  have "view (disk t) t = (view (disk s) s)(n := b_data (bufs t i))"
    using inv' k si b bi t(6)
    by (intro view_change[OF k _ t(5) i(2)]) (auto simp: binv_def caches_def buf_ok_def)
  then show ?thesis
    using inv' t b si i locked_bufs_others[OF t(5) i(2)]
    by (auto simp: cache_ok_def owns_def locked_bufs_def)
qed

lemma set_data_ok:
  assumes ok: "ok s" and i: "owns s i n d" and e: "length e = BSIZE"
  shows "ok (set_data i e s) \<and> same s (set_data i e s) \<and> owns (set_data i e s) i n e
    \<and> locked_bufs (set_data i e s) = locked_bufs s \<and> others_same i s (set_data i e s)
    \<and> view (disk s) (set_data i e s) = (view (disk s) s)(n := e)
    \<and> dirty_blocks (set_data i e s) = dirty_blocks s
    \<and> b_dirty (bufs (set_data i e s) i) = b_dirty (bufs s i)"
proof -
  let ?t = "set_data i e s"
  have i2: "i < NBUF" "b_locked (bufs s i)" using i by (simp_all add: owns_def locked_bufs_def)
  have s: "ready s" "held s = {}" "has_proc s" "buf_ok (present s) (disk s) (bufs s i)"
    using ok i2 by (simp_all add: cache_ok_def binv_def)
  have m: "bcache.more ?t = bcache.more s" by (simp add: set_data_def)
  note d = same_upd[OF m]
  have o: "others_same i s ?t" by (simp add: set_data_def)
  have "ok ?t \<and> owns ?t i n e \<and> locked_bufs ?t = locked_bufs s
      \<and> view (disk ?t) ?t = (view (disk s) s)(n := e)"
    using s i2 e ready_upd[OF s(1,2) m] d
    by (intro held_update[OF ok i i2(1) _ _ _ _ o])
      (auto simp: set_data_def b_locked_def b_valid_def device_same_def buf_ok_def)
  moreover have "dirty_blocks ?t = dirty_blocks s"
    by (rule dirty_blocks_others[OF o i2(1)]) (simp_all add: set_data_def b_dirty_def)
  ultimately show ?thesis
    using d o by (simp add: device_same_def) (simp add: set_data_def b_dirty_def)
qed

lemma mark_dirty_ok:
  assumes ok: "ok s" and i: "owns s i n d"
  shows "ok (mark_dirty i s) \<and> same s (mark_dirty i s) \<and> owns (mark_dirty i s) i n d
    \<and> locked_bufs (mark_dirty i s) = locked_bufs s \<and> others_same i s (mark_dirty i s)
    \<and> view (disk s) (mark_dirty i s) = view (disk s) s
    \<and> dirty_blocks (mark_dirty i s) = insert n (dirty_blocks s)
    \<and> b_dirty (bufs (mark_dirty i s) i)"
proof -
  let ?t = "mark_dirty i s"
  have i2: "i < NBUF" "b_locked (bufs s i)" "b_dev (bufs s i) = ROOTDEV"
    "b_blockno (bufs s i) = n" "b_data (bufs s i) = d"
    using i by (simp_all add: owns_def locked_bufs_def)
  have s: "ready s" "held s = {}" "has_proc s" "buf_ok (present s) (disk s) (bufs s i)" "keys_ok s"
    "binv (present s) (disk s) s"
    using ok i2 by (simp_all add: cache_ok_def binv_def)
  have m: "bcache.more ?t = bcache.more s" by (simp add: mark_dirty_def)
  note e = same_upd[OF m]
  have o: "others_same i s ?t" by (simp add: mark_dirty_def)
  have v: "b_valid (bufs s i)" using s(4) i2 by (simp add: buf_ok_def)
  have vt: "b_valid (bufs ?t i)"
    using v and_or_not_mask(1)[of B_DIRTY B_VALID] by (simp add: mark_dirty_def b_valid_def)
  have "view (disk s) s n = d" using view_cached[OF s(5) i2(1), of n] v i2 by (simp add: caches_def)
  moreover have "ok ?t \<and> owns ?t i n d \<and> locked_bufs ?t = locked_bufs s
      \<and> view (disk ?t) ?t = (view (disk s) s)(n := d)"
    using s i2 v vt ready_upd[OF s(1,2) m] e
    by (intro held_update[OF ok i i2(1) _ _ _ _ o])
      (auto simp: mark_dirty_def b_locked_def device_same_def buf_ok_def)
  moreover have dt: "b_dirty (bufs ?t i)" by (simp add: mark_dirty_def b_dirty_def)
  moreover have "dirty_blocks ?t = insert n (dirty_blocks s)"
  proof (rule set_eqI)
    fix m
    show "m \<in> dirty_blocks ?t \<longleftrightarrow> m \<in> insert n (dirty_blocks s)"
    proof
      assume "m \<in> dirty_blocks ?t"
      then obtain j where j: "j < NBUF" "b_dirty (bufs ?t j)" "b_blockno (bufs ?t j) = m"
        by (auto simp: dirty_blocks_def)
      then show "m \<in> insert n (dirty_blocks s)"
        using others_sameD(3,6)[OF o j(1)] i2 by (cases "j = i") (auto simp: dirty_blocks_def mark_dirty_def)
    next
      assume "m \<in> insert n (dirty_blocks s)"
      then consider "m = n" | j where "j \<noteq> i" "j < NBUF" "b_dirty (bufs s j)" "b_blockno (bufs s j) = m"
        using i2(4) by (metis dirty_blocksE insertE)
      then show "m \<in> dirty_blocks ?t"
      proof cases
        case 1
        have "b_blockno (bufs ?t i) = n" using i2 by (simp add: mark_dirty_def)
        then show ?thesis using 1 dirty_blocksI[OF i2(1) dt] by simp
      next
        case 2
        then show ?thesis using others_sameD(3,6)[OF o 2(2,1)] dirty_blocksI[OF 2(2), of ?t m] by simp
      qed
    qed
  qed
  ultimately show ?thesis using e o by (simp add: device_same_def fun_upd_idem)
qed

lemma bwrite_ok:
  assumes ok: "ok s" and i: "owns s i n d"
  shows "\<exists>s'. bwrite rw i s = Inr s' \<and> ok s' \<and> wrote n d s s' \<and> owns s' i n d
    \<and> locked_bufs s' = locked_bufs s \<and> others_same i s s'
    \<and> view (disk s') s' = view (disk s) s
    \<and> dirty_blocks s' = dirty_blocks s - {n} \<and> \<not> b_dirty (bufs s' i)"
proof -
  let ?t = "mark_dirty i s"
  have i2: "i < NBUF" "b_locked (bufs s i)" "b_blockno (bufs s i) = n" "b_data (bufs s i) = d"
    "b_dev (bufs s i) = ROOTDEV"
    using i by (simp_all add: owns_def locked_bufs_def)
  have s: "held s = {}" using ok by (simp add: cache_ok_def)
  have t: "ok ?t" "same s ?t" "owns ?t i n d" "locked_bufs ?t = locked_bufs s"
    "others_same i s ?t" "view (disk s) ?t = view (disk s) s" "b_dirty (bufs ?t i)"
    "dirty_blocks ?t = insert n (dirty_blocks s)"
    using mark_dirty_ok[OF ok i] by blast+
  have ti: "ready ?t" "held ?t = {}" "has_proc ?t" "b_locked (bufs ?t i)" "b_dev (bufs ?t i) = ROOTDEV"
    "b_blockno (bufs ?t i) = n" "b_data (bufs ?t i) = d" "buf_ok (present ?t) (disk ?t) (bufs ?t i)"
    "binv (present ?t) (disk ?t) ?t"
    using t(1) i2 by (auto simp: cache_ok_def binv_def mark_dirty_def b_locked_def)
  have tv: "b_valid (bufs ?t i)" "present ?t ROOTDEV n" "length d = BSIZE"
    using ti(4-8) by (auto simp: buf_ok_def)
  have "holding_buf i s = Inr (True, s)" using s i2 by (simp add: holding_buf_def b_locked_def)
  then have w: "bwrite rw i s = rw i ?t" by (simp add: bwrite_def)
  obtain s' q where wr: "rw i ?t = Inr s'" "ready s'" "held s' = {}" "has_proc s'"
      "disk s' = (disk ?t)(n := d)" "hist s' = hist ?t @ [(n, d)]" "present s' = present ?t"
      "diskst.more s' = diskst.more ?t"
      "bufs s' = (bufs ?t)(i := (bufs ?t i)\<lparr>b_flags := b_flags (bufs ?t i) AND NOT B_DIRTY OR B_VALID,
           b_qnext := q\<rparr>)"
    using rw_write[OF ti(1-3) i2(1) ti(4)] ti tv t(7) by auto
  have o: "others_same i ?t s'" using wr(9) by (rule others_same_bufs)
  have nd: "\<not> b_dirty (bufs s' i)"
    using wr(9) and_or_not_mask(1)[of B_VALID B_DIRTY] by (simp add: b_dirty_def)
  have fin: "ok s' \<and> owns s' i n d \<and> locked_bufs s' = locked_bufs ?t
      \<and> view (disk s') s' = (view (disk ?t) ?t)(n := d)"
    using wr ti tv by (intro held_update[OF t(1,3) i2(1) wr(2-4,7) o])
      (auto simp: b_locked_def b_valid_def)
  have "view (disk ?t) ?t n = d"
    using view_cached[of ?t i n "disk ?t"] ti tv i2(1) by (simp add: caches_def binv_def)
  moreover have "dirty_blocks s' = dirty_blocks s - {n}"
    using dirty_blocks_clear[OF ti(9) i2(1) o] nd ti(5,6) t(8) tv(1) by (auto simp: caches_def)
  ultimately show ?thesis
    using w wr(1,5-8) fin t nd others_same_trans[OF t(5) o]
    by (auto simp: device_wrote_def device_same_def)
qed

lemma brelse_ok:
  assumes ok: "ok s" and i: "owns s i n d" and clean: "b_dirty (bufs s i) \<or> d = disk s n"
  shows "\<exists>s'. brelse i s = Inr s' \<and> ok s' \<and> same s s' \<and> others_same i s s'
    \<and> locked_bufs s' = locked_bufs s - {i} \<and> view (disk s) s' = view (disk s) s
    \<and> dirty_blocks s' = dirty_blocks s"
proof -
  have i2: "i < NBUF" "b_locked (bufs s i)" "b_blockno (bufs s i) = n" "b_data (bufs s i) = d"
    "b_dev (bufs s i) = ROOTDEV"
    using i by (simp_all add: owns_def locked_bufs_def)
  have s: "ready s" "held s = {}" "has_proc s" and inv: "binv (present s) (disk s) s" and k: "keys_ok s"
    and bi: "buf_ok (present s) (disk s) (bufs s i)"
    using ok i2 by (simp_all add: cache_ok_def binv_def)
  have rc: "b_refcnt (bufs s i) = 1" and v: "b_valid (bufs s i)" using bi i2 by (simp_all add: buf_ok_def)
  let ?c = "(bufs s i)\<lparr>b_lock := (b_lock (bufs s i))\<lparr>sl_locked := False, sl_pid := 0\<rparr>, b_refcnt := 0\<rparr>"
  let ?u = "upd_buf i (\<lambda>_. ?c) (wakeup1 (Ch_buf i) s)"
  let ?t = "link_front i (unlink_buf i ?u)"
  have t: "brelse i s = Inr ?t"
    by (rule brelse_eq[OF s(2) i2(1,2) rc])
  obtain xs where xs: "blist s xs" using inv by (auto simp: binv_def)
  then have "blist ?u xs" using blist_cong[of ?u s xs] by simp
  then have l: "blist ?t (i # remove1 i xs)" using blist_move_front i2(1) by blast
  have p: "payload (bufs ?t j) = payload (bufs ?u j)" for j by simp
  have o: "others_same i s ?t" by (simp add: others_same_def)
  have pi: "payload (bufs ?t i) = payload ?c" using p[of i] by simp
  note ti = payload_eqD[OF pi]
  have m: "bcache.more ?t = bcache.more s" "held ?t = {}" "has_proc ?t"
    using s(2,3) by simp_all
  have "buf_ok (present s) (disk s) (bufs ?t i)"
    using bi v i2 clean buf_ok_payload[OF pi]
    by (auto simp: buf_ok_def b_locked_def b_valid_def b_dirty_def)
  then have inv': "binv (present s) (disk s) ?t"
    using ti i2 k by (intro binv_change[OF inv o l]) (auto simp: keys_ok_def)
  have "view (disk s) ?t = (view (disk s) s)(n := b_data (bufs ?t i))"
    using inv' i2 v ti
    by (intro view_change[OF k _ o i2(1)]) (auto simp: binv_def caches_def b_valid_def)
  moreover have "view (disk s) s n = d"
    using view_cached[OF k i2(1), of n] v i2 by (simp add: caches_def)
  moreover have "dirty_blocks ?t = dirty_blocks s"
    using ti by (intro dirty_blocks_others[OF o i2(1)]) (simp_all add: b_dirty_def)
  moreover have "locked_bufs ?t = locked_bufs s - {i}"
    using locked_bufs_others[OF o i2(1)] ti by (simp add: b_locked_def)
  ultimately show ?thesis
    using t ok_change[OF ok m inv'] o ti(6) i2(4) by (simp add: fun_upd_idem)
qed

end

end
