(* ===== verification/Memide.thy ===== *)
theory Memide
  imports Block_Driver
begin

text \<open>
  The in-memory disk (\<open>memide.c\<close>) and the proof that it meets the driver's contract.
\<close>

section \<open>The driver\<close>

text \<open>\<open>_binary_fs_img_start\<close> and \<open>_binary_fs_img_size\<close> come from the linker and are arguments.\<close>

definition ideinit :: "(uint \<Rightarrow> block) \<Rightarrow> uint \<Rightarrow> 'a diskst_scheme \<Rightarrow> 'a diskst_scheme" where
  "ideinit img_start img_size s = s\<lparr>memdisk := img_start, disksize := img_size div 512\<rparr>"

definition ideintr :: "'a diskst_scheme \<Rightarrow> 'a diskst_scheme" where
  "ideintr s = s"

definition iderw :: "nat \<Rightarrow> 'a diskst_scheme \<Rightarrow> 'a diskst_scheme res" where
  "iderw i s =
     bind_res (holding_buf i s) (\<lambda>(held_lk, s).
     bind_res (panic_if (\<not> held_lk) ''iderw: buf not locked'') (\<lambda>_.
     bind_res (panic_if (b_flags (bufs s i) AND (B_VALID OR B_DIRTY) = B_VALID)
                 ''iderw: nothing to do'') (\<lambda>_.
     bind_res (panic_if (b_dev (bufs s i) \<noteq> 1) ''iderw: request not for disk 1'') (\<lambda>_.
     bind_res (panic_if (b_blockno (bufs s i) \<ge> disksize s) ''iderw: block out of range'') (\<lambda>_.
     let p = b_blockno (bufs s i);
         s = (if b_flags (bufs s i) AND B_DIRTY \<noteq> 0 then
                (let s = upd_buf i (\<lambda>b. b\<lparr>b_flags := b_flags b AND NOT B_DIRTY\<rparr>) s
                 in s\<lparr>memdisk := (memdisk s)(p := b_data (bufs s i)),
                      writes := writes s @ [(p, b_data (bufs s i))]\<rparr>)
              else set_data i (memdisk s p) s)
     in Inr (upd_buf i (\<lambda>b. b\<lparr>b_flags := b_flags b OR B_VALID\<rparr>) s))))))"

section \<open>The contract\<close>

text \<open>The blocks of disk 1 below \<open>disksize\<close> exist, and each holds \<open>BSIZE\<close> bytes.\<close>

definition mem_present :: "'a diskst_scheme \<Rightarrow> uint \<Rightarrow> uint \<Rightarrow> bool" where
  "mem_present s dev n \<longleftrightarrow> dev = ROOTDEV \<and> n < disksize s"

definition mem_ready :: "'a diskst_scheme \<Rightarrow> bool" where
  "mem_ready s \<longleftrightarrow> (\<forall>n<disksize s. length (memdisk s n) = BSIZE)"

lemma upd_buf_driver [simp]:
  "disksize (upd_buf i f s) = disksize s" "memdisk (upd_buf i f s) = memdisk s"
  "writes (upd_buf i f s) = writes s" "diskst.more (upd_buf i f s) = diskst.more s"
  by (simp_all add: upd_buf_def)

lemma has_proc_driver [simp]:
  "has_proc (s\<lparr>memdisk := m\<rparr>) = has_proc s" "has_proc (s\<lparr>writes := w\<rparr>) = has_proc s"
  "has_proc (s\<lparr>disksize := z\<rparr>) = has_proc s"
  by (simp_all add: has_proc_def)

lemma buf_qnext_id: "b = b\<lparr>b_qnext := b_qnext b\<rparr>"
  by simp

lemma iderw_read:
  assumes "mem_ready s" "held s = {}" "has_proc s" "b_locked (bufs s i)"
    and "mem_present s (b_dev (bufs s i)) (b_blockno (bufs s i))"
    and "\<not> b_valid (bufs s i)" "\<not> b_dirty (bufs s i)"
  shows "iderw i s = Inr (s\<lparr>bufs := (bufs s)(i := (bufs s i)\<lparr>b_data := memdisk s (b_blockno (bufs s i)),
    b_flags := b_flags (bufs s i) OR B_VALID\<rparr>)\<rparr>)"
proof -
  have "b_flags (bufs s i) AND (B_VALID OR B_DIRTY) = 0"
    using assms(6,7) by (simp only: b_valid_def b_dirty_def bit.conj_disj_distrib) simp
  then have "b_flags (bufs s i) AND (B_VALID OR B_DIRTY) \<noteq> B_VALID" by simp
  moreover have "\<not> disksize s \<le> b_blockno (bufs s i)" using assms(5) by (simp add: mem_present_def not_le)
  ultimately show ?thesis
    using assms by (simp add: iderw_def holding_buf_def b_locked_def mem_present_def b_dirty_def
        set_data_def upd_buf_def Let_def)
qed

lemma iderw_write:
  assumes "mem_ready s" "held s = {}" "has_proc s" "b_locked (bufs s i)"
    and "mem_present s (b_dev (bufs s i)) (b_blockno (bufs s i))" and "b_dirty (bufs s i)"
  shows "iderw i s = Inr (s\<lparr>bufs := (bufs s)(i := (bufs s i)\<lparr>b_flags :=
      b_flags (bufs s i) AND NOT B_DIRTY OR B_VALID\<rparr>),
    memdisk := (memdisk s)(b_blockno (bufs s i) := b_data (bufs s i)),
    writes := writes s @ [(b_blockno (bufs s i), b_data (bufs s i))]\<rparr>)"
proof -
  have "(b_flags (bufs s i) AND (B_VALID OR B_DIRTY)) AND B_DIRTY = b_flags (bufs s i) AND B_DIRTY"
    by (simp add: and.assoc)
  then have "b_flags (bufs s i) AND (B_VALID OR B_DIRTY) \<noteq> B_VALID"
    using assms(6) by (auto simp: b_dirty_def)
  moreover have "\<not> disksize s \<le> b_blockno (bufs s i)" using assms(5) by (simp add: mem_present_def not_le)
  ultimately show ?thesis
    using assms by (simp add: iderw_def holding_buf_def b_locked_def mem_present_def b_dirty_def
        upd_buf_def Let_def)
qed

interpretation mem: block_driver iderw memdisk writes mem_present mem_ready
proof (unfold_locales, goal_cases)
  case (1 s i)
  then show ?case
    using iderw_read[of s i] buf_qnext_id
    by (intro exI[of _ "case iderw i s of Inr t \<Rightarrow> t"] exI[of _ "b_qnext (bufs s i)"])
      (auto simp: mem_ready_def mem_present_def fun_eq_iff)
next
  case (2 s i)
  then show ?case
    using iderw_write[of s i]
    by (intro exI[of _ "case iderw i s of Inr t \<Rightarrow> t"] exI[of _ "b_qnext (bufs s i)"])
      (auto simp: mem_ready_def mem_present_def fun_eq_iff)
qed (auto simp: mem_ready_def mem_present_def same_drv_def fun_eq_iff)

end
