(* ===== verification/Superblock.thy ===== *)
theory Superblock
  imports Block_Driver
begin

text \<open>
  The superblock (\<open>fs.h\<close>: \<open>struct superblock\<close>; \<open>fs.c\<close>: \<open>readsb\<close>) and the little-endian
  \<open>uint\<close> fields of a block, which the log header, indirect blocks and inodes also use.
\<close>

section \<open>Fields of a block\<close>

definition field32 :: "nat \<Rightarrow> block \<Rightarrow> uint" where
  "field32 k d = word32 (take 4 (drop (4 * k) d))"

definition put32 :: "nat \<Rightarrow> uint \<Rightarrow> block \<Rightarrow> block" where
  "put32 k w d = blit d (4 * k) (le32 w)"

lemma length_put32 [simp]: "4 * k + 4 \<le> length d \<Longrightarrow> length (put32 k w d) = length d"
  by (simp add: put32_def)

lemma field32_put32 [simp]: "4 * k + 4 \<le> length d \<Longrightarrow> field32 k (put32 k w d) = w"
  using blit_read[of "4 * k" "le32 w" d] by (simp add: field32_def put32_def)

lemma take_drop_blit_other:
  assumes "k + length ys \<le> length xs" "j + n \<le> k \<or> k + length ys \<le> j" "j + n \<le> length xs"
  shows "take n (drop j (blit xs k ys)) = take n (drop j xs)"
proof (rule nth_equalityI)
  show "length (take n (drop j (blit xs k ys))) = length (take n (drop j xs))"
    using assms by simp
  fix i assume "i < length (take n (drop j (blit xs k ys)))"
  then have "i < n" using assms by simp
  then show "take n (drop j (blit xs k ys)) ! i = take n (drop j xs) ! i"
    using assms by (auto simp: nth_blit)
qed

lemma field32_put32_other [simp]:
  "j \<noteq> k \<Longrightarrow> 4 * k + 4 \<le> length d \<Longrightarrow> 4 * j + 4 \<le> length d \<Longrightarrow>
   field32 j (put32 k w d) = field32 j d"
  using take_drop_blit_other[of "4 * k" "le32 w" d "4 * j" 4]
  by (cases "j < k") (auto simp: field32_def put32_def)

section \<open>The superblock\<close>

record superblock =
  sb_size :: uint
  sb_nblocks :: uint
  sb_ninodes :: uint
  sb_nlog :: uint
  sb_logstart :: uint
  sb_inodestart :: uint
  sb_bmapstart :: uint

definition decode_sb :: "block \<Rightarrow> superblock" where
  "decode_sb d = \<lparr>sb_size = field32 0 d, sb_nblocks = field32 1 d, sb_ninodes = field32 2 d,
     sb_nlog = field32 3 d, sb_logstart = field32 4 d, sb_inodestart = field32 5 d,
     sb_bmapstart = field32 6 d\<rparr>"

definition readsb ::
  "(nat \<Rightarrow> 'a bcache_scheme \<Rightarrow> 'a bcache_scheme res) \<Rightarrow> uint \<Rightarrow> 'a bcache_scheme \<Rightarrow>
   (superblock \<times> 'a bcache_scheme) res" where
  "readsb iderw dev s =
     bind_res (bread iderw dev 1 s) (\<lambda>(i, s).
     let sb = decode_sb (b_data (bufs s i)) in
     bind_res (brelse i s) (\<lambda>s. Inr (sb, s)))"

context block_driver begin

text \<open>Reading a clean block through the cache and giving it back changes no state that shows.\<close>

lemma read_block:
  assumes "ok s" "present s ROOTDEV n" "unlocked_block s n" "room_for s n" "n \<notin> dirty_blocks s"
  shows "\<exists>i t t'. bread rw ROOTDEV n s = Inr (i, t) \<and> b_data (bufs t i) = disk s n \<and> brelse i t = Inr t'
    \<and> ok t' \<and> same s t' \<and> locked_bufs t' = locked_bufs s \<and> dirty_blocks t' = dirty_blocks s
    \<and> view (disk s) t' = view (disk s) s"
proof -
  have v: "view (disk s) s n = disk s n"
    using assms by (intro view_clean[of "present s"]) (simp_all add: cache_ok_def)
  obtain i t where t: "bread rw ROOTDEV n s = Inr (i, t)" "ok t" "same s t" "i \<notin> locked_bufs s"
    "locked_bufs t = insert i (locked_bufs s)" "owns t i n (disk s n)"
    "view (disk t) t = view (disk s) s" "dirty_blocks t = dirty_blocks s"
    using bread_ok[OF assms(1-4)] v by auto
  have d: "disk t = disk s" using t(3) by (simp add: device_same_def)
  obtain t' where "brelse i t = Inr t'" "ok t'" "same t t'" "locked_bufs t' = locked_bufs t - {i}"
    "view (disk t) t' = view (disk t) t" "dirty_blocks t' = dirty_blocks t"
    using brelse_ok[OF t(2,6)] d by auto
  then show ?thesis
    using t d same_trans[OF t(3)] ownsD(4)[OF t(6)] by auto
qed

lemma readsb_ok:
  assumes "ok s" "present s ROOTDEV 1" "unlocked_block s 1" "room_for s 1" "1 \<notin> dirty_blocks s"
  shows "\<exists>t. readsb rw ROOTDEV s = Inr (decode_sb (disk s 1), t) \<and> ok t \<and> same s t
    \<and> locked_bufs t = locked_bufs s \<and> dirty_blocks t = dirty_blocks s
    \<and> view (disk s) t = view (disk s) s"
  using read_block[OF assms] by (auto simp: readsb_def Let_def)

end

end
