(* ===== verification/Log_Disk.thy ===== *)
theory Log_Disk
  imports Log "HOL-Library.Sublist"
begin

text \<open>
  The log on disk: the header's format, the writes of a commit and of a recovery as lists, and
  the atomicity of a commit. A crash keeps a prefix of the writes; recovery then yields either
  the disk before the transaction or the disk after it.
\<close>

section \<open>Disk contents as the effect of writes\<close>

definition apply_writes :: "(uint \<Rightarrow> block) \<Rightarrow> (uint \<times> block) list \<Rightarrow> uint \<Rightarrow> block" where
  "apply_writes d ws = fold (\<lambda>(n, x) d. d(n := x)) ws d"

lemma apply_writes_simps [simp]:
  "apply_writes d [] = d" "apply_writes d ((n, x) # ws) = apply_writes (d(n := x)) ws"
  "apply_writes d (vs @ ws) = apply_writes (apply_writes d vs) ws"
  by (simp_all add: apply_writes_def)

lemma apply_writes_other: "b \<notin> fst ` set ws \<Longrightarrow> apply_writes d ws b = d b"
  by (induction ws arbitrary: d) auto

lemma apply_writes_nth:
  assumes "distinct (map fst ws)" "(n, x) \<in> set ws"
  shows "apply_writes d ws n = x"
  using assms
proof (induction ws arbitrary: d)
  case Nil
  then show ?case by simp
next
  case (Cons w ws)
  then show ?case by (cases w) (auto simp: apply_writes_other image_iff)
qed

section \<open>The header block\<close>

text \<open>What \<open>write_head\<close> leaves in the header block, and what \<open>read_head\<close> finds there.\<close>

primrec put_blocks :: "nat \<Rightarrow> uint list \<Rightarrow> block \<Rightarrow> block" where
  "put_blocks 0 bs d = d"
| "put_blocks (Suc k) bs d = put32 (k + 1) (bs ! k) (put_blocks k bs d)"

definition put_head :: "uint list \<Rightarrow> block \<Rightarrow> block" where
  "put_head bs d = put_blocks (length bs) bs (put32 0 (of_nat (length bs)) d)"

definition head_list :: "block \<Rightarrow> uint list" where
  "head_list d = map (\<lambda>k. field32 (k + 1) d) [0..<nat (sint (field32 0 d))]"

lemma length_put_blocks [simp]:
  "length d = BSIZE \<Longrightarrow> k \<le> LOGSIZE \<Longrightarrow> length (put_blocks k bs d) = BSIZE"
  by (induction k) simp_all

lemma length_put_head [simp]:
  "length d = BSIZE \<Longrightarrow> length bs \<le> LOGSIZE \<Longrightarrow> length (put_head bs d) = BSIZE"
  by (simp add: put_head_def)

lemma field32_put_blocks:
  assumes "length d = BSIZE" "k \<le> LOGSIZE" "j \<le> LOGSIZE"
  shows "field32 j (put_blocks k bs d) = (if 0 < j \<and> j \<le> k then bs ! (j - 1) else field32 j d)"
  using assms
proof (induction k)
  case 0
  then show ?case by auto
next
  case (Suc k)
  then show ?case by (cases "j = Suc k") auto
qed

lemma sint_small: "n \<le> LOGSIZE \<Longrightarrow> sint (of_nat n :: uint) = int n"
  by (simp add: sint_uint uint_small signed_take_bit_int_eq_self)

lemma head_list_put_head:
  assumes "length d = BSIZE" "length bs \<le> LOGSIZE"
  shows "head_list (put_head bs d) = bs"
proof (rule nth_equalityI)
  have n: "field32 0 (put_head bs d) = of_nat (length bs)"
    using assms by (simp add: put_head_def field32_put_blocks)
  show "length (head_list (put_head bs d)) = length bs"
    using assms by (simp add: head_list_def n sint_small)
  fix i assume "i < length (head_list (put_head bs d))"
  then have "i < length bs" using assms by (simp add: head_list_def n sint_small)
  then show "head_list (put_head bs d) ! i = bs ! i"
    using assms by (simp add: head_list_def n sint_small) (simp add: put_head_def field32_put_blocks)
qed

section \<open>The writes of a commit and of a recovery\<close>

text \<open>Slot \<open>k\<close> of a log that starts at \<open>st\<close>, and the writes in the order the code issues them:
  \<open>v\<close> is what the cache holds, \<open>h\<close> the header block, \<open>d\<close> the disk.\<close>

definition slot_at :: "uint \<Rightarrow> nat \<Rightarrow> uint" where
  "slot_at st k = st + of_nat k + 1"

definition log_part :: "uint \<Rightarrow> uint list \<Rightarrow> (uint \<Rightarrow> block) \<Rightarrow> (uint \<times> block) list" where
  "log_part st bs v = map (\<lambda>k. (slot_at st k, v (bs ! k))) [0..<length bs]"

definition home_part :: "uint \<Rightarrow> uint list \<Rightarrow> (uint \<Rightarrow> block) \<Rightarrow> (uint \<times> block) list" where
  "home_part st bs d = map (\<lambda>k. (bs ! k, d (slot_at st k))) [0..<length bs]"

definition commit_writes ::
  "uint \<Rightarrow> uint list \<Rightarrow> (uint \<Rightarrow> block) \<Rightarrow> block \<Rightarrow> (uint \<times> block) list" where
  "commit_writes st bs v h = log_part st bs v @ [(st, put_head bs h)]
     @ map (\<lambda>b. (b, v b)) bs @ [(st, put_head [] (put_head bs h))]"

definition recover_writes :: "uint \<Rightarrow> (uint \<Rightarrow> block) \<Rightarrow> (uint \<times> block) list" where
  "recover_writes st d = home_part st (head_list (d st)) d @ [(st, put_head [] (d st))]"

definition recover_disk :: "uint \<Rightarrow> (uint \<Rightarrow> block) \<Rightarrow> uint \<Rightarrow> block" where
  "recover_disk st d = apply_writes d (recover_writes st d)"

text \<open>The blocks of the log: the header and the slots after it.\<close>

definition log_area :: "uint \<Rightarrow> int \<Rightarrow> uint set" where
  "log_area st sz = {b. uint (b - st) < sz}"

lemma slot_at_area [simp]:
  assumes "int k + 1 < sz" "sz \<le> int LOGSIZE"
  shows "slot_at st k \<in> log_area st sz"
proof -
  have "slot_at st k - st = of_nat (k + 1)" by (simp add: slot_at_def)
  moreover have "uint (of_nat (k + 1) :: uint) = int (k + 1)"
    using assms by (intro uint_small) simp
  ultimately show ?thesis using assms(1) by (simp add: log_area_def)
qed

lemma start_in_area [simp]: "1 \<le> sz \<Longrightarrow> st \<in> log_area st sz"
  by (simp add: log_area_def)

lemma slot_at_inj:
  assumes "slot_at st j = slot_at st k" "j < LOGSIZE" "k < LOGSIZE"
  shows "j = k"
proof -
  have "(of_nat j :: uint) = of_nat k" using assms(1) by (simp add: slot_at_def)
  then have "unat (of_nat j :: uint) = unat (of_nat k :: uint)" by simp
  moreover have "unat (of_nat j :: uint) = j" "unat (of_nat k :: uint) = k"
    using assms(2,3) by (intro unat_small; simp)+
  ultimately show ?thesis by simp
qed

lemma slot_at_not_start: "k < LOGSIZE \<Longrightarrow> slot_at st k \<noteq> st"
proof
  assume k: "k < LOGSIZE" and "slot_at st k = st"
  then have "of_nat (k + 1) = (0 :: uint)" by (simp add: slot_at_def add.commute add.assoc)
  moreover have "unat (of_nat (k + 1) :: uint) = k + 1"
    using k by (intro unat_small) simp
  ultimately show False by simp
qed

section \<open>Crash atomicity\<close>

text \<open>A transaction that the log can hold: distinct blocks outside the log, one slot each.\<close>

definition loggable :: "uint \<Rightarrow> int \<Rightarrow> uint list \<Rightarrow> bool" where
  "loggable st sz bs \<longleftrightarrow> distinct bs \<and> set bs \<inter> log_area st sz = {}
     \<and> int (length bs) < sz \<and> sz \<le> int LOGSIZE"

lemma loggableD:
  assumes "loggable st sz bs"
  shows "distinct bs" "1 \<le> sz" "length bs < LOGSIZE" "st \<notin> set bs"
    "k < length bs \<Longrightarrow> slot_at st k \<in> log_area st sz" "b \<in> set bs \<Longrightarrow> b \<notin> log_area st sz"
    "k < length bs \<Longrightarrow> slot_at st k \<notin> set bs" "slot_at st k = st \<Longrightarrow> \<not> k < length bs"
proof -
  note l = assms[unfolded loggable_def]
  show sz: "1 \<le> sz" and "length bs < LOGSIZE" "distinct bs" using l by auto
  show "st \<notin> set bs" using start_in_area[OF sz, of st] l by blast
  show sl: "slot_at st k \<in> log_area st sz" if "k < length bs" for k
    using l that by (intro slot_at_area) auto
  show "b \<notin> log_area st sz" if "b \<in> set bs" using l that by blast
  show "slot_at st k \<notin> set bs" if "k < length bs" using sl[OF that] l by blast
  show "\<not> k < length bs" if "slot_at st k = st" using slot_at_not_start[of k st] that l by auto
qed

text \<open>Recovery when the header lists \<open>bs\<close>: outside the log, \<open>bs\<close> get the slots' contents.\<close>

lemma recover_disk_other:
  assumes "head_list (d st) = bs" "b \<notin> set bs" "b \<noteq> st"
  shows "recover_disk st d b = d b"
proof -
  have "b \<notin> fst ` set (home_part st bs d)" using assms(2) by (auto simp: home_part_def)
  then show ?thesis
    using assms(1,3) by (simp add: recover_disk_def recover_writes_def apply_writes_other)
qed

lemma recover_disk_logged:
  assumes "loggable st sz bs" "head_list (d st) = bs" "k < length bs"
  shows "recover_disk st d (bs ! k) = d (slot_at st k)"
proof -
  have "bs ! k \<noteq> st" using loggableD(4)[OF assms(1)] nth_mem[OF assms(3)] by auto
  moreover have "apply_writes d (home_part st bs d) (bs ! k) = d (slot_at st k)"
    using assms(3) loggableD(1)[OF assms(1)]
    by (intro apply_writes_nth) (auto simp: home_part_def comp_def map_nth)
  ultimately show ?thesis
    by (simp add: recover_disk_def recover_writes_def assms(2))
qed

text \<open>The log's slots after the first part of a commit.\<close>

lemma log_part_slot:
  assumes "loggable st sz bs" "k < length bs"
  shows "apply_writes d (log_part st bs v) (slot_at st k) = v (bs ! k)"
proof (rule apply_writes_nth)
  have "inj_on (slot_at st) {0..<length bs}"
    using slot_at_inj[of st] loggableD(3)[OF assms(1)] by (fastforce simp: inj_on_def)
  then show "distinct (map fst (log_part st bs v))"
    by (simp add: log_part_def comp_def distinct_map)
  show "(slot_at st k, v (bs ! k)) \<in> set (log_part st bs v)"
    using assms(2) by (auto simp: log_part_def)
qed

text \<open>
  The contents of block \<open>b\<close> once the transaction counts: the new ones for a block of the
  transaction.
\<close>

definition updated :: "uint list \<Rightarrow> (uint \<Rightarrow> block) \<Rightarrow> (uint \<Rightarrow> block) \<Rightarrow> uint \<Rightarrow> block" where
  "updated bs v d b = (if b \<in> set bs then v b else d b)"

lemma updated_home:
  "apply_writes d (map (\<lambda>b. (b, v b)) bs) b = updated bs v d b"
proof (induction bs arbitrary: d)
  case Nil
  then show ?case by (simp add: updated_def)
next
  case (Cons a bs)
  then show ?case by (auto simp: updated_def)
qed

text \<open>Before the header is written, recovery finds the old header.\<close>

lemma crash_before:
  assumes l: "loggable st sz bs" "head_list (d st) = []" and p: "prefix ws (log_part st bs v)"
    and b: "b \<notin> log_area st sz"
  shows "recover_disk st (apply_writes d ws) b = d b"
proof -
  have w: "fst ` set ws \<subseteq> slot_at st ` {0..<length bs}"
    using set_mono_prefix[OF p] by (force simp: log_part_def)
  have "st \<notin> fst ` set ws" using w loggableD(8)[OF l(1)] by fastforce
  then have "head_list (apply_writes d ws st) = []" using l(2) by (simp add: apply_writes_other)
  moreover have "b \<noteq> st" using b loggableD(2)[OF l(1)] by auto
  moreover have "b \<notin> fst ` set ws" using w b loggableD(5)[OF l(1)] by auto
  ultimately show ?thesis using recover_disk_other[of _ st "[]"] by (simp add: apply_writes_other)
qed

text \<open>After it, and until it is cleared, recovery installs the transaction.\<close>

lemma crash_after:
  assumes l: "loggable st sz bs" and h: "length (d st) = BSIZE"
    and p: "prefix ws (map (\<lambda>b. (b, v b)) bs)" and b: "b \<notin> log_area st sz"
    and e: "e = apply_writes d (log_part st bs v @ [(st, put_head bs (d st))] @ ws)"
  shows "recover_disk st e b = updated bs v d b"
proof -
  have w: "fst ` set ws \<subseteq> set bs" using set_mono_prefix[OF p] by force
  note D = loggableD[OF l]
  have st: "st \<notin> fst ` set ws" using w D(4) by auto
  then have "e st = put_head bs (d st)" by (simp add: e apply_writes_other)
  then have hd: "head_list (e st) = bs" using head_list_put_head[OF h] D(3) by simp
  have sl: "e (slot_at st k) = v (bs ! k)" if "k < length bs" for k
  proof -
    have "slot_at st k \<notin> fst ` set ws" "slot_at st k \<noteq> st" using that D(7,8) w by auto
    then show ?thesis using log_part_slot[OF l that] by (simp add: e apply_writes_other)
  qed
  show ?thesis
  proof (cases "b \<in> set bs")
    case True
    then obtain k where "k < length bs" "b = bs ! k" by (auto simp: in_set_conv_nth)
    then show ?thesis using recover_disk_logged[where d = e, OF l hd] sl True by (simp add: updated_def)
  next
    case False
    have "b \<noteq> st" using b D(2) by auto
    moreover have "b \<notin> fst ` set (log_part st bs v)" using b D(5) by (auto simp: log_part_def)
    moreover have "b \<notin> fst ` set ws" using w False by auto
    ultimately have "e b = d b" by (simp add: e apply_writes_other)
    then show ?thesis using recover_disk_other[where d = e, OF hd False \<open>b \<noteq> st\<close>] False by (simp add: updated_def)
  qed
qed

lemma commit_effect:
  assumes l: "loggable st sz bs" and b: "b \<notin> log_area st sz"
  shows "apply_writes d (commit_writes st bs v h) b = updated bs v d b"
proof -
  note D = loggableD[OF l]
  have ne: "b \<noteq> st" using b D(2) by auto
  have "b \<notin> fst ` set (log_part st bs v)" using b D(5) by (auto simp: log_part_def)
  then have "apply_writes d (log_part st bs v) b = d b" by (rule apply_writes_other)
  then show ?thesis using ne by (simp add: commit_writes_def updated_home) (simp add: updated_def)
qed

lemma crash_done:
  assumes l: "loggable st sz bs" and h: "length (d st) = BSIZE" and b: "b \<notin> log_area st sz"
  shows "recover_disk st (apply_writes d (commit_writes st bs v (d st))) b = updated bs v d b"
proof -
  note D = loggableD[OF l]
  let ?e = "apply_writes d (commit_writes st bs v (d st))"
  have "?e st = put_head [] (put_head bs (d st))" by (simp add: commit_writes_def)
  moreover have "length (put_head bs (d st)) = BSIZE" using h D(3) by simp
  ultimately have hd: "head_list (?e st) = []" by (simp add: head_list_put_head)
  have ne: "b \<noteq> st" using b D(2) by auto
  have "?e b = updated bs v d b" by (rule commit_effect[OF l b])
  then show ?thesis using recover_disk_other[where d = ?e, OF hd _ ne] by simp
qed

lemma crash_prefix:
  assumes l: "loggable st sz bs" and h: "length (d st) = BSIZE" "head_list (d st) = []"
    and p: "prefix ws (commit_writes st bs v (d st))"
  shows "(\<forall>b. b \<notin> log_area st sz \<longrightarrow> recover_disk st (apply_writes d ws) b = d b)
    \<or> (\<forall>b. b \<notin> log_area st sz \<longrightarrow> recover_disk st (apply_writes d ws) b = updated bs v d b)"
proof -
  let ?M = "map (\<lambda>b. (b, v b)) bs" and ?H = "(st, put_head bs (d st))"
  consider (old) "prefix ws (log_part st bs v)"
    | (new) us where "ws = log_part st bs v @ [?H] @ us" "prefix us ?M"
    | (all) "ws = commit_writes st bs v (d st)"
    using p by (auto simp: commit_writes_def prefix_append prefix_Cons)
  then show ?thesis
  proof cases
    case old
    then show ?thesis using crash_before[where d = d, OF l h(2)] by blast
  next
    case new
    then show ?thesis using crash_after[where d = d, OF l h(1) new(2) _ refl] by blast
  next
    case all
    then show ?thesis using crash_done[where d = d, OF l h(1)] by blast
  qed
qed

text \<open>A crash during recovery: recovering once more gives what recovering at once gives.\<close>

lemma recover_again:
  assumes l: "loggable st sz (head_list (d st))" and h: "length (d st) = BSIZE"
    and p: "prefix ws (recover_writes st d)" and b: "b \<notin> log_area st sz"
  shows "recover_disk st (apply_writes d ws) b = recover_disk st d b"
proof -
  let ?bs = "head_list (d st)" and ?e = "apply_writes d ws"
  note D = loggableD[OF l]
  have ne: "b \<noteq> st" using b D(2) by auto
  consider (part) "prefix ws (home_part st ?bs d)" | (all) "ws = recover_writes st d"
    using p by (auto simp: recover_writes_def prefix_append prefix_Cons)
  then show ?thesis
  proof cases
    case part
    then have w: "fst ` set ws \<subseteq> set ?bs"
      using set_mono_prefix[OF part] by (force simp: home_part_def)
    then have "st \<notin> fst ` set ws" using D(4) by auto
    then have hd: "head_list (?e st) = ?bs" by (simp add: apply_writes_other)
    show ?thesis
    proof (cases "b \<in> set ?bs")
      case True
      then obtain k where k: "k < length ?bs" "b = ?bs ! k" by (auto simp: in_set_conv_nth)
      have "slot_at st k \<notin> fst ` set ws" using D(7)[OF k(1)] w by auto
      then show ?thesis
        using recover_disk_logged[where d = ?e, OF l hd k(1)] recover_disk_logged[where d = d, OF l refl k(1)] k(2)
        by (simp add: apply_writes_other)
    next
      case False
      then have "b \<notin> fst ` set ws" using w by auto
      then show ?thesis
        using recover_disk_other[where d = ?e, OF hd False ne] recover_disk_other[where d = d, OF refl False ne]
        by (simp add: apply_writes_other)
    qed
  next
    case all
    then have e: "?e = recover_disk st d" by (simp add: recover_disk_def)
    have "fst ` set (home_part st ?bs d) \<subseteq> set ?bs" by (auto simp: home_part_def)
    then have "st \<notin> fst ` set (home_part st ?bs d)" using D(4) by blast
    then have "recover_disk st d st = put_head [] (d st)"
      by (simp add: recover_disk_def recover_writes_def)
    then have "head_list (recover_disk st d st) = []" using h by (simp add: head_list_put_head)
    then show ?thesis
      unfolding e by (rule recover_disk_other[where d = "recover_disk st d"]) (use ne in auto)
  qed
qed

text \<open>The header that an interrupted recovery leaves is the old one or the cleared one.\<close>

lemma recover_prefix_header:
  assumes "st \<notin> set (head_list (d st))" "prefix ws (recover_writes st d)"
  shows "apply_writes d ws st = d st \<or> apply_writes d ws st = put_head [] (d st)"
proof -
  have h: "st \<notin> fst ` set (home_part st (head_list (d st)) d)" using assms(1) by (auto simp: home_part_def in_set_conv_nth)
  consider (part) "prefix ws (home_part st (head_list (d st)) d)" | (all) "ws = recover_writes st d"
    using assms(2) by (auto simp: recover_writes_def prefix_append prefix_Cons)
  then show ?thesis
  proof cases
    case part
    then have "st \<notin> fst ` set ws" using h set_mono_prefix by blast
    then show ?thesis by (simp add: apply_writes_other)
  qed (simp add: recover_writes_def)
qed

text \<open>The header that a crash leaves lists nothing or the transaction.\<close>

lemma head_list_clear: "field32 0 d = 0 \<Longrightarrow> head_list d = []"
  by (simp add: head_list_def)

lemma field32_put_head:
  "length d = BSIZE \<Longrightarrow> length bs \<le> LOGSIZE \<Longrightarrow> field32 0 (put_head bs d) = of_nat (length bs)"
  by (simp add: put_head_def field32_put_blocks)

lemma crash_head:
  assumes l: "loggable st sz bs" and h: "length (d st) = BSIZE" "field32 0 (d st) = 0"
    and p: "prefix ws (commit_writes st bs v (d st))" and e: "e = apply_writes d ws st"
  shows "0 \<le> sint (field32 0 e) \<and> (head_list e = [] \<or> head_list e = bs)"
proof -
  note D = loggableD[OF l]
  let ?M = "map (\<lambda>b. (b, v b)) bs" and ?H = "(st, put_head bs (d st))"
  have L: "st \<notin> fst ` set (log_part st bs v)" using D(8) by (force simp: log_part_def)
  have n: "length bs \<le> LOGSIZE" using D(3) by simp
  consider (old) "prefix ws (log_part st bs v)"
    | (new) us where "ws = log_part st bs v @ [?H] @ us" "prefix us ?M"
    | (all) "ws = commit_writes st bs v (d st)"
    using p by (auto simp: commit_writes_def prefix_append prefix_Cons)
  then show ?thesis
  proof cases
    case old
    then have "st \<notin> fst ` set ws" using L set_mono_prefix[OF old] by blast
    then have "e = d st" by (simp add: e apply_writes_other)
    then show ?thesis using h(2) by (simp add: head_list_clear)
  next
    case new
    have "fst ` set us \<subseteq> set bs" using set_mono_prefix[OF new(2)] by force
    then have "st \<notin> fst ` set us" using D(4) by auto
    then have "e = put_head bs (d st)" by (simp add: e new(1) apply_writes_other)
    then show ?thesis using h(1) n by (simp add: head_list_put_head field32_put_head sint_small)
  next
    case all
    then have "e = put_head [] (put_head bs (d st))" by (simp add: e commit_writes_def)
    then show ?thesis using h(1) n by (simp add: head_list_put_head field32_put_head)
  qed
qed

end
