(* ===== verification/Log_Commit.thy ===== *)
theory Log_Commit
  imports Log_Disk
begin

text \<open>
  Functional correctness of the log over any disk driver that meets the contract: what
  \<open>commit\<close> and recovery write, in which order, and that neither can run out of buffers.
\<close>

section \<open>Geometry and invariant\<close>

abbreviation log_blocks :: "'a logst_scheme \<Rightarrow> uint set" where
  "log_blocks s \<equiv> log_area (lg_start s) (lg_size s)"

abbreviation slot :: "'a logst_scheme \<Rightarrow> nat \<Rightarrow> uint" where
  "slot s k \<equiv> slot_at (lg_start s) k"

text \<open>The block numbers of the transaction in memory.\<close>

definition logged :: "'a logst_scheme \<Rightarrow> uint list" where
  "logged s = take (nat (lh_n s)) (lh_block s)"

definition log_geom :: "(uint \<Rightarrow> uint \<Rightarrow> bool) \<Rightarrow> 'a logst_scheme \<Rightarrow> bool" where
  "log_geom present s \<longleftrightarrow> lg_dev s = ROOTDEV \<and> 1 \<le> lg_size s \<and> lg_size s \<le> int LOGSIZE
     \<and> (\<forall>b\<in>log_blocks s. present ROOTDEV b) \<and> length (lh_block s) = LOGSIZE"

text \<open>The transaction fits the log, and its blocks exist and lie outside it.\<close>

definition txn_ok :: "(uint \<Rightarrow> uint \<Rightarrow> bool) \<Rightarrow> 'a logst_scheme \<Rightarrow> bool" where
  "txn_ok present s \<longleftrightarrow> 0 \<le> lh_n s \<and> lh_n s \<le> lg_size s - 1
     \<and> (\<forall>b\<in>set (logged s). present ROOTDEV b \<and> b \<notin> log_blocks s)"

text \<open>Exactly the transaction's blocks are pinned in the cache, each logged once.\<close>

definition pinned :: "'a logst_scheme \<Rightarrow> bool" where
  "pinned s \<longleftrightarrow> distinct (logged s) \<and> dirty_blocks s = set (logged s)"

lemma length_logged:
  "log_geom present s \<Longrightarrow> txn_ok present s \<Longrightarrow> length (logged s) = nat (lh_n s)"
  by (auto simp: logged_def log_geom_def txn_ok_def)

text \<open>The log's variables live above the driver's.\<close>

lemma log_more_same:
  assumes "diskst.more t = diskst.more s"
  shows "lg_start t = lg_start s" "lg_size t = lg_size s" "lg_outstanding t = lg_outstanding s"
    "lg_committing t = lg_committing s" "lg_dev t = lg_dev s" "lh_n t = lh_n s"
    "lh_block t = lh_block s" "logst.more t = logst.more s"
  using assms by (cases s; cases t; simp)+

lemma log_defs_same:
  assumes "diskst.more t = diskst.more s"
  shows "logged t = logged s" "log_geom present t = log_geom present s"
    "txn_ok present t = txn_ok present s" "log_blocks t = log_blocks s"
  using log_more_same[OF assms]
  by (simp_all add: logged_def log_geom_def txn_ok_def fun_eq_iff)

text \<open>Changing the log's variables changes nothing below them.\<close>

lemma below_log:
  assumes "diskst.truncate t = diskst.truncate s"
  shows "bufs t = bufs s" "held t = held s" "has_proc t = has_proc s" "same_drv s t"
    "locked_bufs t = locked_bufs s" "dirty_blocks t = dirty_blocks s" "view d t = view d s"
    "binv p d t = binv p d s" "owns t i n x = owns s i n x" "ptable t = ptable s" "curproc t = curproc s"
proof -
  have b: "bufs t = bufs s" "held t = held s" "curproc t = curproc s" "ptable t = ptable s"
    and d: "disksize t = disksize s" "memdisk t = memdisk s" "writes t = writes s"
    using assms by (cases s; cases t; simp add: diskst.truncate_def)+
  show "bufs t = bufs s" "held t = held s" "has_proc t = has_proc s" "same_drv s t"
    "locked_bufs t = locked_bufs s" "dirty_blocks t = dirty_blocks s" "view d t = view d s"
    "binv p d t = binv p d s" "owns t i n x = owns s i n x" "ptable t = ptable s" "curproc t = curproc s"
    using b d view_cong[of t s d] by (simp_all add: has_proc_def same_drv_def locked_bufs_def dirty_blocks_def
        binv_def blist_def keys_ok_def owns_def)
qed

section \<open>The operations over any driver\<close>

locale log_driver = block_driver rw disk hist present ready
  for rw :: "nat \<Rightarrow> 'a logst_scheme \<Rightarrow> 'a logst_scheme res"
    and disk :: "'a logst_scheme \<Rightarrow> uint \<Rightarrow> block"
    and hist :: "'a logst_scheme \<Rightarrow> (uint \<times> block) list"
    and present :: "'a logst_scheme \<Rightarrow> uint \<Rightarrow> uint \<Rightarrow> bool"
    and ready :: "'a logst_scheme \<Rightarrow> bool"
begin

text \<open>\<open>t\<close> is \<open>s\<close> after the writes \<open>ws\<close>, with no buffer locked.\<close>

definition after :: "(uint \<times> block) list \<Rightarrow> 'a logst_scheme \<Rightarrow> 'a logst_scheme \<Rightarrow> bool" where
  "after ws s t \<longleftrightarrow> ok t \<and> locked_bufs t = {} \<and> present t = present s
     \<and> disk t = apply_writes (disk s) ws \<and> hist t = hist s @ ws
     \<and> view (disk t) t = apply_writes (view (disk s) s) ws"

abbreviation "V s \<equiv> view (disk s) s"

lemma cache_binv: "ok s \<Longrightarrow> binv (present s) (disk s) s"
  by (simp add: cache_ok_def)

lemma fetch:
  assumes "ok s" "present s ROOTDEV n" "\<And>j. j \<in> locked_bufs s \<Longrightarrow> b_blockno (bufs s j) \<noteq> n"
    and "card (dirty_blocks s) + card (locked_bufs s) < NBUF \<or> n \<in> dirty_blocks s"
  obtains i t where "bread rw ROOTDEV n s = Inr (i, t)" "ok t" "same s t" "i \<notin> locked_bufs s"
    "locked_bufs t = insert i (locked_bufs s)" "owns t i n (V s n)" "others_same i s t"
    "V t = V s" "dirty_blocks t = dirty_blocks s" "b_dirty (bufs t i) = (n \<in> dirty_blocks s)"
proof -
  have "unlocked_block s n" using assms(3) by (auto simp: unlocked_block_def)
  moreover have "room_for s n"
    using assms(4) room_for_free room_for_dirty cache_binv[OF assms(1)] by blast
  ultimately show ?thesis
    using bread_ok[OF assms(1,2)] that by blast
qed

text \<open>
  The common end of both copying loops: with the target \<open>i\<close> and the source \<open>j\<close> locked, copy,
  write the target and release both.
\<close>

lemma copy_end:
  assumes ok: "ok t" and own: "owns t i n e" "owns t j m d" and d: "length d = BSIZE"
    and ij: "i \<noteq> j" "n \<noteq> m" "locked_bufs t = {i, j}"
    and src: "b_dirty (bufs t j) \<or> d = disk t m"
  shows "\<exists>u. bind_res (bwrite rw i (set_data i d t)) (\<lambda>s. bind_res (brelse j s) (brelse i)) = Inr u
    \<and> ok u \<and> wrote n d t u \<and> locked_bufs u = {} \<and> V u = (V t)(n := d)
    \<and> dirty_blocks u = dirty_blocks t - {n}"
proof -
  let ?t1 = "set_data i d t"
  have t1: "ok ?t1" "same t ?t1" "owns ?t1 i n d" "locked_bufs ?t1 = {i, j}" "others_same i t ?t1"
    "view (disk t) ?t1 = (V t)(n := d)" "dirty_blocks ?t1 = dirty_blocks t"
    using set_data_ok[OF ok own(1) d] ij by auto
  obtain t2 where t2: "bwrite rw i ?t1 = Inr t2" "ok t2" "wrote n d ?t1 t2" "owns t2 i n d"
    "locked_bufs t2 = {i, j}" "others_same i ?t1 t2" "V t2 = V ?t1"
    "dirty_blocks t2 = dirty_blocks ?t1 - {n}" "\<not> b_dirty (bufs t2 i)"
    using bwrite_ok[OF t1(1,3)] t1(4) by auto
  have o: "others_same i t t2" using others_same_trans[OF t1(5) t2(6)] .
  have own2: "owns t2 j m d" using owns_others[OF o] own(2) ij(1) by metis
  have src2: "b_dirty (bufs t2 j) \<or> d = disk t2 m"
    using src others_sameD(6)[OF o ownsD(1)[OF own(2)]] ij(1,2) t1(2) t2(3)
    by (auto simp: device_same_def device_wrote_def)
  obtain t3 where t3: "brelse j t2 = Inr t3" "ok t3" "same t2 t3" "others_same j t2 t3"
    "locked_bufs t3 = {i}" "V t3 = V t2" "dirty_blocks t3 = dirty_blocks t2"
    using brelse_ok[OF t2(2) own2 src2] t2(5) ij(1) by (auto simp: device_same_def)
  have own3: "owns t3 i n d" using owns_others[OF t3(4) ij(1)] t2(4) by simp
  have "d = disk t3 n" using t2(3) t3(3) by (simp add: device_wrote_def device_same_def)
  then obtain u where u: "brelse i t3 = Inr u" "ok u" "same t3 u" "locked_bufs u = {}" "V u = V t3"
    "dirty_blocks u = dirty_blocks t3"
    using brelse_ok[OF t3(2) own3] t3(5) by (auto simp: device_same_def)
  have "wrote n d t u"
    using t1(2) t2(3) t3(3) u(3) by (simp add: device_wrote_def device_same_def)
  then show ?thesis
    using t1(2,6,7) t2(1,7,8) t3(1,6,7) u by (simp add: device_same_def)
qed

text \<open>Copying block \<open>m\<close> to block \<open>n\<close>, fetching the source second (\<open>write_log\<close>) or first
  (\<open>install_trans\<close>).\<close>

lemma copy_to_log:
  assumes ok: "ok s" "locked_bufs s = {}" and p: "present s ROOTDEV n" "present s ROOTDEV m" "n \<noteq> m"
    and r: "card (dirty_blocks s) < NBUF" "m \<in> dirty_blocks s"
  obtains i t j t' u where "bread rw ROOTDEV n s = Inr (i, t)" "bread rw ROOTDEV m t = Inr (j, t')"
    "diskst.more t = diskst.more s"
    "bind_res (bwrite rw i (set_data i (b_data (bufs t' j)) t'))
       (\<lambda>s. bind_res (brelse j s) (brelse i)) = Inr u"
    "ok u" "wrote n (V s m) s u" "locked_bufs u = {}" "V u = (V s)(n := V s m)"
    "dirty_blocks u = dirty_blocks s - {n}"
proof -
  obtain i t where t: "bread rw ROOTDEV n s = Inr (i, t)" "ok t" "same s t"
    "locked_bufs t = {i}" "owns t i n (V s n)" "V t = V s" "dirty_blocks t = dirty_blocks s"
    by (rule fetch[OF ok(1) p(1)]) (use ok(2) r in auto)
  have pt: "present t ROOTDEV m" using p(2) t(3) by (simp add: device_same_def)
  obtain j t' where t': "bread rw ROOTDEV m t = Inr (j, t')" "ok t'" "same t t'" "j \<notin> locked_bufs t"
    "locked_bufs t' = {j, i}" "owns t' j m (V t m)" "others_same j t t'" "V t' = V t"
    "dirty_blocks t' = dirty_blocks t" "b_dirty (bufs t' j) = (m \<in> dirty_blocks t)"
    by (rule fetch[OF t(2) pt]) (use t(4,5,7) r p(3) in \<open>auto dest: ownsD\<close>)
  have ij: "i \<noteq> j" using t(4) t'(4) by auto
  have own: "owns t' i n (V s n)" using owns_others[OF t'(7) ij] t(5) by simp
  have len: "length (V t m) = BSIZE"
    using view_length[OF cache_binv[OF t(2)] disk_length] t(2) pt by (simp add: cache_ok_def)
  obtain u where u: "bind_res (bwrite rw i (set_data i (V t m) t'))
       (\<lambda>s. bind_res (brelse j s) (brelse i)) = Inr u"
    "ok u" "wrote n (V t m) t' u" "locked_bufs u = {}" "V u = (V t')(n := V t m)"
    "dirty_blocks u = dirty_blocks t' - {n}"
    using copy_end[OF t'(2) own t'(6) len ij p(3)] t'(5,10) t(7) r(2) by (auto simp: insert_commute)
  show ?thesis
    by (rule that[OF t(1) t'(1) _ _ u(2)])
      (use u t t' ownsD(4)[OF t'(6)] in \<open>auto simp: device_same_def device_wrote_def\<close>)
qed

lemma copy_from_log:
  assumes ok: "ok s" "locked_bufs s = {}" and p: "present s ROOTDEV n" "present s ROOTDEV m" "n \<noteq> m"
    and r: "card (dirty_blocks s) < NBUF" "n \<in> dirty_blocks s \<or> dirty_blocks s = {}" "m \<notin> dirty_blocks s"
  obtains j t i t' u where "bread rw ROOTDEV m s = Inr (j, t)" "bread rw ROOTDEV n t = Inr (i, t')"
    "diskst.more t = diskst.more s"
    "bind_res (bwrite rw i (set_data i (b_data (bufs t' j)) t'))
       (\<lambda>s. bind_res (brelse j s) (brelse i)) = Inr u"
    "ok u" "wrote n (disk s m) s u" "locked_bufs u = {}" "V u = (V s)(n := disk s m)"
    "dirty_blocks u = dirty_blocks s - {n}"
proof -
  have vm: "V s m = disk s m"
    by (rule view_clean[OF cache_binv[OF ok(1)] r(3) unlocked_blockI[OF ok(2)]])
  obtain j t where t: "bread rw ROOTDEV m s = Inr (j, t)" "ok t" "same s t"
    "locked_bufs t = {j}" "owns t j m (disk s m)" "V t = V s" "dirty_blocks t = dirty_blocks s"
    by (rule fetch[OF ok(1) p(2)]) (use ok(2) r vm in auto)
  have pt: "present t ROOTDEV n" using p(1) t(3) by (simp add: device_same_def)
  obtain i t' where t': "bread rw ROOTDEV n t = Inr (i, t')" "ok t'" "same t t'" "i \<notin> locked_bufs t"
    "locked_bufs t' = {i, j}" "owns t' i n (V t n)" "others_same i t t'" "V t' = V t"
    "dirty_blocks t' = dirty_blocks t"
    by (rule fetch[OF t(2) pt]) (use t(4,5,7) r p(3) in \<open>auto dest: ownsD\<close>)
  have ij: "i \<noteq> j" using t(4) t'(4) by auto
  have own: "owns t' j m (disk s m)" using owns_others[OF t'(7) ij[symmetric]] t(5) by simp
  have ds: "disk t' = disk s" using t(3) t'(3) by (simp add: device_same_def)
  have len: "length (disk s m) = BSIZE"
    using disk_length ok(1) p(2) by (simp add: cache_ok_def)
  obtain u where u: "bind_res (bwrite rw i (set_data i (disk s m) t'))
       (\<lambda>s. bind_res (brelse j s) (brelse i)) = Inr u"
    "ok u" "wrote n (disk s m) t' u" "locked_bufs u = {}" "V u = (V t')(n := disk s m)"
    "dirty_blocks u = dirty_blocks t' - {n}"
    using copy_end[OF t'(2,6) own len ij p(3) t'(5)] ds by auto
  show ?thesis
    by (rule that[OF t(1) t'(1) _ _ u(2)])
      (use u t t' ownsD(4)[OF own] in \<open>auto simp: device_same_def device_wrote_def\<close>)
qed

lemma after_wrote:
  assumes "after ws s t" "ok u" "wrote n d t u" "locked_bufs u = {}" "V u = (V t)(n := d)"
  shows "after (ws @ [(n, d)]) s u"
proof -
  have "V u = apply_writes (V s) (ws @ [(n, d)])"
  proof -
    have "V t = apply_writes (V s) ws" using assms(1) unfolding after_def by blast
    then show ?thesis by (simp only: assms(5) apply_writes_simps)
  qed
  moreover have "disk u = apply_writes (disk s) (ws @ [(n, d)])" "hist u = hist s @ ws @ [(n, d)]"
    "present u = present s"
    using assms(1,3) by (simp_all add: after_def device_wrote_def)
  ultimately show ?thesis using assms(2,4) by (simp only: after_def append_assoc)
qed

lemma after_view:
  assumes "after ws s t"
  shows "V t = apply_writes (V s) ws" "b \<notin> fst ` set ws \<Longrightarrow> V t b = V s b"
proof -
  show v: "V t = apply_writes (V s) ws" using assms unfolding after_def by blast
  show "V t b = V s b" if "b \<notin> fst ` set ws" by (simp only: v apply_writes_other[OF that])
qed

lemma lh_get_logged:
  assumes "log_geom p s" "txn_ok p s" "k < nat (lh_n s)" "diskst.more t = diskst.more s"
  shows "lh_get k t = Inr (logged s ! k)"
  using assms log_more_same[OF assms(4)] by (auto simp: lh_get_def log_geom_def txn_ok_def logged_def)

lemma log_slot:
  assumes "log_geom (present s) s" "txn_ok (present s) s" "k < nat (lh_n s)"
  shows "slot s k \<in> log_blocks s" "present s ROOTDEV (slot s k)" "k < LOGSIZE"
    "logged s ! k \<in> set (logged s)" "logged s ! k \<notin> log_blocks s" "present s ROOTDEV (logged s ! k)"
    "slot s k \<noteq> logged s ! k"
proof -
  have b: "int k + 1 < lg_size s" "lg_size s \<le> int LOGSIZE" "k < length (logged s)"
    using assms length_logged[OF assms(1,2)] by (auto simp: log_geom_def txn_ok_def)
  then show a: "slot s k \<in> log_blocks s" "k < LOGSIZE" by auto
  show p: "present s ROOTDEV (slot s k)" using a assms(1) by (auto simp: log_geom_def)
  show l: "logged s ! k \<in> set (logged s)" using b(3) by (rule nth_mem)
  show "logged s ! k \<notin> log_blocks s" "present s ROOTDEV (logged s ! k)"
    using l assms(2) by (auto simp: txn_ok_def)
  then show "slot s k \<noteq> logged s ! k" using a(1) by auto
qed

lemma card_pinned:
  assumes "log_geom (present s) s" "txn_ok (present s) s" "dirty_blocks s \<subseteq> set (logged s)"
  shows "card (dirty_blocks s) < NBUF"
proof -
  have "card (dirty_blocks s) \<le> length (logged s)"
    using card_mono[OF _ assms(3)] card_length[of "logged s"] by fastforce
  then show ?thesis using length_logged[OF assms(1,2)] assms(1,2) by (auto simp: log_geom_def txn_ok_def)
qed

text \<open>The first \<open>k\<close> writes of \<open>write_log\<close> and of \<open>install_trans\<close>.\<close>

abbreviation "log_writes s k \<equiv> map (\<lambda>k. (slot s k, V s (logged s ! k))) [0..<k]"
abbreviation "home_writes s k \<equiv> map (\<lambda>k. (logged s ! k, disk s (slot s k))) [0..<k]"

lemma write_log_ok:
  assumes ok: "ok s" "locked_bufs s = {}" and g: "log_geom (present s) s" "txn_ok (present s) s"
    and pin: "pinned s"
  shows "\<exists>t. write_log rw s = Inr t \<and> after (log_writes s (nat (lh_n s))) s t
    \<and> diskst.more t = diskst.more s \<and> dirty_blocks t = dirty_blocks s"
proof -
  define I where "I k t \<longleftrightarrow> after (log_writes s k) s t \<and> diskst.more t = diskst.more s
      \<and> dirty_blocks t = dirty_blocks s" for k t
  have "\<exists>t. write_log rw s = Inr t \<and> I (0 + nat (lh_n s)) t"
    unfolding write_log_def
  proof (rule for_res_rule)
    show "I 0 s" using ok by (simp add: I_def after_def)
    fix k t assume k: "0 \<le> k" "k < 0 + nat (lh_n s)" and I: "I k t"
    have kn: "k < nat (lh_n s)" using k by simp
    note sl = log_slot[OF g kn]
    have m: "diskst.more t = diskst.more s" and t: "ok t" "locked_bufs t = {}" "present t = present s"
      using I by (simp_all add: I_def after_def)
    have dirty: "dirty_blocks t = set (logged s)" using I pin by (simp add: I_def pinned_def)
    have v: "V t (logged s ! k) = V s (logged s ! k)"
    proof -
      have "logged s ! k \<notin> fst ` set (log_writes s k)"
        using log_slot(1)[OF g] sl(5) k by (force simp:)
      then show ?thesis using I after_view(2) unfolding I_def by blast
    qed
    obtain i t1 j t2 u where c: "bread rw ROOTDEV (slot s k) t = Inr (i, t1)"
      "bread rw ROOTDEV (logged s ! k) t1 = Inr (j, t2)" "diskst.more t1 = diskst.more t"
      "bind_res (bwrite rw i (set_data i (b_data (bufs t2 j)) t2))
         (\<lambda>s. bind_res (brelse j s) (brelse i)) = Inr u"
      "ok u" "wrote (slot s k) (V t (logged s ! k)) t u" "locked_bufs u = {}"
      "V u = (V t)(slot s k := V t (logged s ! k))" "dirty_blocks u = dirty_blocks t - {slot s k}"
      by (rule copy_to_log[OF t(1,2), of "slot s k" "logged s ! k"])
        (use sl t(3) dirty card_pinned[OF g] pin in \<open>auto simp: pinned_def\<close>)
    have "I (Suc k) u"
      using after_wrote[of "log_writes s k" s t u] I c(5-9) v dirty sl(1) g(2) pin
      by (auto simp: I_def device_wrote_def pinned_def txn_ok_def)
    moreover have "lg_dev t = ROOTDEV" "lg_dev t1 = ROOTDEV" "lg_start t + of_nat k + 1 = slot s k"
      using log_more_same[OF m] log_more_same[OF c(3)] g(1) by (simp_all add: log_geom_def slot_at_def)
    moreover have "lh_get k t1 = Inr (logged s ! k)"
      using lh_get_logged[OF g] k m c(3) by simp
    ultimately show "\<exists>t'. bind_res (bread rw (lg_dev t) (lg_start t + of_nat k + 1) t) (\<lambda>(to, s).
       bind_res (lh_get k s) (\<lambda>b.
       bind_res (bread rw (lg_dev s) b s) (\<lambda>(from, s).
       let s = set_data to (b_data (bufs s from)) s in
       bind_res (bwrite rw to s) (\<lambda>s.
       bind_res (brelse from s) (\<lambda>s.
       brelse to s))))) = Inr t' \<and> I (Suc k) t'"
      using c(1,2,4) by simp
  qed
  then show ?thesis by (auto simp: I_def)
qed

lemma install_trans_ok:
  assumes ok: "ok s" "locked_bufs s = {}" and g: "log_geom (present s) s" "txn_ok (present s) s"
    and pin: "pinned s \<or> dirty_blocks s = {}"
  shows "\<exists>t. install_trans rw s = Inr t \<and> after (home_writes s (nat (lh_n s))) s t
    \<and> diskst.more t = diskst.more s \<and> dirty_blocks t = {}"
proof -
  define I where "I k t \<longleftrightarrow> after (home_writes s k) s t \<and> diskst.more t = diskst.more s
      \<and> dirty_blocks t = dirty_blocks s - set (take k (logged s))" for k t
  have "\<exists>t. install_trans rw s = Inr t \<and> I (0 + nat (lh_n s)) t"
    unfolding install_trans_def
  proof (rule for_res_rule)
    show "I 0 s" using ok by (simp add: I_def after_def)
    fix k t assume k: "0 \<le> k" "k < 0 + nat (lh_n s)" and I: "I k t"
    have kn: "k < nat (lh_n s)" "k < length (logged s)" using k length_logged[OF g] by simp_all
    note sl = log_slot[OF g kn(1)]
    have m: "diskst.more t = diskst.more s" and t: "ok t" "locked_bufs t = {}" "present t = present s"
      and d: "disk t = apply_writes (disk s) (home_writes s k)"
      and dirty: "dirty_blocks t = dirty_blocks s - set (take k (logged s))"
      using I by (simp_all add: I_def after_def)
    have tk: "set (take k (logged s)) \<subseteq> set (logged s)" by (rule set_take_subset)
    have sd: "dirty_blocks s \<subseteq> set (logged s)" using pin by (auto simp: pinned_def)
    then have nd: "slot s k \<notin> dirty_blocks s"
      using sl(1) g(2) by (auto simp: txn_ok_def)
    have cd: "card (dirty_blocks t) < NBUF"
      using card_pinned[OF g sd] card_mono[of "dirty_blocks s" "dirty_blocks t"]
        finite_subset[OF sd] dirty by fastforce
    have ld: "logged s ! k \<in> dirty_blocks t \<or> dirty_blocks t = {}"
      using pin sl(4) kn(2) dirty by (auto simp: pinned_def distinct_conv_nth in_set_conv_nth)
    have ds: "disk t (slot s k) = disk s (slot s k)"
    proof -
      have "slot s k \<notin> fst ` set (home_writes s k)"
        using log_slot(5)[OF g] sl(1) kn(1) by force
      then show ?thesis unfolding d by (rule apply_writes_other)
    qed
    obtain j t1 i t2 u where c: "bread rw ROOTDEV (slot s k) t = Inr (j, t1)"
      "bread rw ROOTDEV (logged s ! k) t1 = Inr (i, t2)" "diskst.more t1 = diskst.more t"
      "bind_res (bwrite rw i (set_data i (b_data (bufs t2 j)) t2))
         (\<lambda>s. bind_res (brelse j s) (brelse i)) = Inr u"
      "ok u" "wrote (logged s ! k) (disk t (slot s k)) t u" "locked_bufs u = {}"
      "V u = (V t)(logged s ! k := disk t (slot s k))" "dirty_blocks u = dirty_blocks t - {logged s ! k}"
      by (rule copy_from_log[OF t(1,2), of "logged s ! k" "slot s k"])
        (use sl nd t(3) dirty cd ld in auto)
    have "I (Suc k) u"
      using after_wrote[of "home_writes s k" s t u] I c(5-9) ds dirty kn(2)
      by (auto simp: I_def device_wrote_def take_Suc_conv_app_nth)
    moreover have "lg_dev t = ROOTDEV" "lg_dev t1 = ROOTDEV" "lg_start t + of_nat k + 1 = slot s k"
      using log_more_same[OF m] log_more_same[OF c(3)] g(1) by (simp_all add: log_geom_def slot_at_def)
    moreover have "lh_get k t1 = Inr (logged s ! k)"
      using lh_get_logged[OF g] k m c(3) by simp
    ultimately show "\<exists>t'. bind_res (bread rw (lg_dev t) (lg_start t + of_nat k + 1) t) (\<lambda>(lbuf, s).
       bind_res (lh_get k s) (\<lambda>b.
       bind_res (bread rw (lg_dev s) b s) (\<lambda>(dbuf, s).
       let s = set_data dbuf (b_data (bufs s lbuf)) s in
       bind_res (bwrite rw dbuf s) (\<lambda>s.
       bind_res (brelse lbuf s) (\<lambda>s.
       brelse dbuf s))))) = Inr t' \<and> I (Suc k) t'"
      using c(1,2,4) by simp
  qed
  moreover have "dirty_blocks s - set (take (nat (lh_n s)) (logged s)) = {}"
    using pin length_logged[OF g] by (auto simp: pinned_def)
  ultimately show ?thesis by (auto simp: I_def)
qed

lemma write_head_ok:
  assumes ok: "ok s" "locked_bufs s = {}" and g: "log_geom (present s) s" "txn_ok (present s) s"
    and h: "lg_start s \<notin> dirty_blocks s" "card (dirty_blocks s) < NBUF"
  shows "\<exists>t. write_head rw s = Inr t \<and> after [(lg_start s, put_head (logged s) (disk s (lg_start s)))] s t
    \<and> diskst.more t = diskst.more s \<and> dirty_blocks t = dirty_blocks s"
proof -
  let ?st = "lg_start s" and ?n = "nat (lh_n s)"
  have st: "present s ROOTDEV ?st" and dev: "lg_dev s = ROOTDEV" and n: "?n \<le> LOGSIZE"
    using g by (auto simp: log_geom_def txn_ok_def)
  have len: "length (disk s ?st) = BSIZE" using disk_length st ok(1) by (simp add: cache_ok_def)
  have vs: "V s ?st = disk s ?st"
    by (rule view_clean[OF cache_binv[OF ok(1)] h(1) unlocked_blockI[OF ok(2)]])
  obtain i t where t: "bread rw ROOTDEV ?st s = Inr (i, t)" "ok t" "same s t" "locked_bufs t = {i}"
    "owns t i ?st (disk s ?st)" "V t = V s" "dirty_blocks t = dirty_blocks s"
    by (rule fetch[OF ok(1) st]) (use ok(2) h vs in auto)
  let ?d0 = "put32 0 (of_int (lh_n s)) (disk s ?st)"
  define I where "I k u \<longleftrightarrow> ok u \<and> same s u \<and> locked_bufs u = {i} \<and> owns u i ?st (put_blocks k (logged s) ?d0)
      \<and> view (disk s) u = (V s)(?st := put_blocks k (logged s) ?d0) \<and> dirty_blocks u = dirty_blocks s" for k u
  have ds: "disk t = disk s" using t(3) by (simp add: device_same_def)
  let ?t0 = "set_data i ?d0 t"
  have I0: "I 0 ?t0"
    using set_data_ok[OF t(2,5), of ?d0] len t same_trans[OF t(3)] ds by (auto simp: I_def)
  have "\<exists>u. for_res 0 ?n (\<lambda>k s. bind_res (lh_get k s)
      (\<lambda>b. Inr (set_data i (put32 (k + 1) b (b_data (bufs s i))) s))) ?t0 = Inr u \<and> I (0 + ?n) u"
  proof (rule for_res_rule)
    show "I 0 ?t0" by (rule I0)
    fix k u assume k: "0 \<le> k" "k < 0 + ?n" and I: "I k u"
    have u: "ok u" "same s u" "locked_bufs u = {i}" "owns u i ?st (put_blocks k (logged s) ?d0)"
      and ud: "disk u = disk s" "diskst.more u = diskst.more s"
      using I by (simp_all add: I_def device_same_def)
    let ?d = "put_blocks (Suc k) (logged s) ?d0"
    have d: "?d = put32 (k + 1) (logged s ! k) (b_data (bufs u i))" using ownsD(4)[OF u(4)] by simp
    have "length ?d = BSIZE" using len k n by (intro length_put_blocks) auto
    then have "I (Suc k) (set_data i ?d u)"
      using set_data_ok[OF u(1,4), of ?d] I same_trans[OF u(2)] ud by (auto simp: I_def)
    moreover have "lh_get k u = Inr (logged s ! k)" using lh_get_logged[OF g _ ud(2)] k by simp
    ultimately show "\<exists>t'. bind_res (lh_get k u)
      (\<lambda>b. Inr (set_data i (put32 (k + 1) b (b_data (bufs u i))) u)) = Inr t' \<and> I (Suc k) t'"
      using d by simp
  qed
  then obtain u where lp: "for_res 0 ?n (\<lambda>k s. bind_res (lh_get k s)
      (\<lambda>b. Inr (set_data i (put32 (k + 1) b (b_data (bufs s i))) s))) ?t0 = Inr u" and I: "I ?n u" by auto
  let ?h = "put_head (logged s) (disk s ?st)"
  have "int (length (logged s)) = lh_n s" using length_logged[OF g] g(2) by (simp add: txn_ok_def)
  then have "of_int (lh_n s) = (of_nat (length (logged s)) :: uint)" by (metis of_int_of_nat_eq)
  then have hd: "put_blocks ?n (logged s) ?d0 = ?h"
    using length_logged[OF g] by (simp add: put_head_def)
  have u: "ok u" "same s u" "locked_bufs u = {i}" "owns u i ?st ?h" "view (disk s) u = (V s)(?st := ?h)"
    "dirty_blocks u = dirty_blocks s" "disk u = disk s"
    using I hd by (simp_all add: I_def device_same_def)
  obtain v where v: "bwrite rw i u = Inr v" "ok v" "wrote ?st ?h u v" "owns v i ?st ?h"
    "locked_bufs v = {i}" "V v = V u" "dirty_blocks v = dirty_blocks u - {?st}"
    using bwrite_ok[OF u(1,4)] u(3) by auto
  have "?h = disk v ?st" using v(3) by (simp add: device_wrote_def)
  then obtain w where w: "brelse i v = Inr w" "ok w" "same v w" "locked_bufs w = {}" "V w = V v"
    "dirty_blocks w = dirty_blocks v"
    using brelse_ok[OF v(2,4)] v(5) by (auto simp: device_same_def)
  have "write_head rw s = Inr w"
    using t(1) dev lp v(1) w(1) ownsD(4)[OF t(5)] log_more_same[of t s] t(3)
    by (simp add: write_head_def Let_def device_same_def set_data_def upd_buf_def)
  moreover have "V w = (V s)(?st := ?h)" using w(5) v(6) u(5,7) by simp
  then have "after [(?st, ?h)] s w"
    using w(2-4) v(3) u(2) by (simp add: after_def device_same_def device_wrote_def)
  moreover have "diskst.more w = diskst.more s" "dirty_blocks w = dirty_blocks s"
    using w v(3,7) u(2,6) h(1) by (auto simp: device_same_def device_wrote_def)
  ultimately show ?thesis by blast
qed

lemma below_ok:
  assumes "diskst.truncate t = diskst.truncate s" "ok s"
  shows "ok t" "disk t = disk s" "hist t = hist s" "present t = present s" "V t = V s"
proof -
  note b = below_log[OF assms(1)]
  show e: "disk t = disk s" "hist t = hist s" "present t = present s"
    using b(4) by (rule disk_drv hist_drv present_drv)+
  show "ok t" using assms(2) b e ready_drv[of s t] by (auto simp: cache_ok_def)
  show "V t = V s" using b(7) e by simp
qed

lemma afterI:
  assumes "ok t" "locked_bufs t = {}" "present t = present s" "disk t = apply_writes (disk s) ws"
    "hist t = hist s @ ws" "V t = apply_writes (V s) ws"
  shows "after ws s t"
  unfolding after_def using assms by blast

lemma after_trans:
  assumes "after ws s t" "after vs t u"
  shows "after (ws @ vs) s u"
proof (rule afterI)
  show "V u = apply_writes (V s) (ws @ vs)"
    using after_view(1)[OF assms(1)] after_view(1)[OF assms(2)] by (simp only: apply_writes_simps)
qed (use assms in \<open>simp_all add: after_def\<close>)

lemma after_below:
  assumes "diskst.truncate t = diskst.truncate s" "after ws t u" "ok s"
  shows "after ws s u"
proof (rule afterI)
  show "V u = apply_writes (V s) ws"
    using after_view(1)[OF assms(2)] below_ok(5)[OF assms(1,3)] by simp
qed (use assms(2) below_ok[OF assms(1,3)] in \<open>simp_all add: after_def\<close>)

lemma geom_same:
  assumes "diskst.more t = diskst.more s" "present t = present s"
    and g: "log_geom (present s) s" "txn_ok (present s) s"
  shows "log_geom (present t) t" "txn_ok (present t) t"
  using log_defs_same[OF assms(1)] assms(2) g by simp_all

text \<open>The writes of a whole commit, and the state it leaves.\<close>

lemma commit_ok:
  assumes ok: "ok s" "locked_bufs s = {}" and g: "log_geom (present s) s" "txn_ok (present s) s"
    and pin: "pinned s" and n: "0 < lh_n s"
  shows "\<exists>t. commit rw s = Inr t
    \<and> after (commit_writes (lg_start s) (logged s) (V s) (disk s (lg_start s))) s t
    \<and> diskst.more t = diskst.more (s\<lparr>lh_n := 0\<rparr>) \<and> dirty_blocks t = {}"
proof -
  let ?st = "lg_start s" and ?bs = "logged s" and ?n = "nat (lh_n s)"
  let ?h = "disk s ?st"
  have L: "length ?bs = ?n" by (rule length_logged[OF g])
  have lg: "loggable ?st (lg_size s) ?bs"
    using g pin L n by (auto simp: loggable_def pinned_def txn_ok_def log_geom_def)
  note D = loggableD[OF lg]
  have stn: "?st \<notin> dirty_blocks s" using pin D(4) by (simp add: pinned_def)
  obtain t1 where t1: "write_log rw s = Inr t1" "after (log_writes s ?n) s t1"
    "diskst.more t1 = diskst.more s" "dirty_blocks t1 = dirty_blocks s"
    using write_log_ok[OF ok g pin] by blast
  note s1 = log_more_same[OF t1(3)] log_defs_same[OF t1(3)]
  have a1: "ok t1" "locked_bufs t1 = {}" "present t1 = present s"
    "disk t1 = apply_writes (disk s) (log_writes s ?n)"
    using t1(2) by (simp_all add: after_def)
  note g1 = geom_same[OF t1(3) a1(3) g]
  have cd: "card (dirty_blocks s) < NBUF" using card_pinned[OF g] pin by (simp add: pinned_def)
  have lp: "log_writes s ?n = log_part ?st ?bs (V s)" by (simp add: log_part_def L)
  have "?st \<notin> fst ` set (log_part ?st ?bs (V s))" using D(8) by (force simp: log_part_def)
  then have h1: "disk t1 ?st = ?h" unfolding a1(4) lp by (rule apply_writes_other)
  obtain t2 where t2: "write_head rw t1 = Inr t2" "after [(?st, put_head ?bs ?h)] t1 t2"
    "diskst.more t2 = diskst.more t1" "dirty_blocks t2 = dirty_blocks t1"
    using write_head_ok[OF a1(1,2) g1] stn t1(4) cd s1 h1 by auto
  have a2: "ok t2" "locked_bufs t2 = {}" "present t2 = present t1"
    "disk t2 = (disk t1)(?st := put_head ?bs ?h)"
    using t2(2) by (simp_all add: after_def)
  note g2 = geom_same[OF t2(3) a2(3) g1]
  have s2: "lh_n t2 = lh_n s" "lg_start t2 = ?st" "logged t2 = ?bs"
    using log_more_same[OF t2(3)] log_defs_same[OF t2(3)] s1 by simp_all
  have p2: "pinned t2" using pin s2 t1(4) t2(4) by (simp add: pinned_def)
  obtain t3 where t3: "install_trans rw t2 = Inr t3" "after (home_writes t2 ?n) t2 t3"
    "diskst.more t3 = diskst.more t2" "dirty_blocks t3 = {}"
    using install_trans_ok[OF a2(1,2) g2] p2 s2 by auto
  have "disk t2 (slot_at ?st k) = V s (?bs ! k)" if "k < ?n" for k
    using that log_part_slot[OF lg, of k "disk s" "V s"] D(8)[of k] L a1(4) lp by (auto simp: a2(4))
  then have hp: "home_writes t2 ?n = map (\<lambda>b. (b, V s b)) ?bs"
    using s2 L by (intro nth_equalityI) auto
  have a3: "ok t3" "locked_bufs t3 = {}" "present t3 = present t2"
    "disk t3 = apply_writes (disk t2) (map (\<lambda>b. (b, V s b)) ?bs)"
    using t3(2) unfolding hp by (simp_all add: after_def)
  have "?st \<notin> fst ` set (map (\<lambda>b. (b, V s b)) ?bs)" using D(4) by auto
  then have h3: "disk t3 ?st = put_head ?bs ?h" unfolding a3(4) by (simp add: apply_writes_other a2(4))
  let ?t4 = "t3\<lparr>lh_n := 0\<rparr>"
  have tr: "diskst.truncate ?t4 = diskst.truncate t3" by (cases t3) (simp add: diskst.truncate_def)
  note b4 = below_ok[OF tr a3(1)] below_log[OF tr]
  note m3 = log_more_same[OF t3(3)] log_more_same[OF t2(3)] log_more_same[OF t1(3)]
  have g4: "log_geom (present ?t4) ?t4" "txn_ok (present ?t4) ?t4"
    using b4(4) a3(3) a2(3) a1(3) g m3 by (simp_all add: log_geom_def txn_ok_def logged_def)
  obtain t where t: "write_head rw ?t4 = Inr t" "after [(?st, put_head [] (put_head ?bs ?h))] ?t4 t"
    "diskst.more t = diskst.more ?t4" "dirty_blocks t = {}"
    using write_head_ok[OF b4(1) _ g4] b4 a3(2) t3(4) m3 h3 by (auto simp: logged_def)
  have "after (log_part ?st ?bs (V s) @ [(?st, put_head ?bs ?h)] @ map (\<lambda>b. (b, V s b)) ?bs
      @ [(?st, put_head [] (put_head ?bs ?h))]) s t"
    using after_trans[OF t1(2) after_trans[OF t2(2) after_trans[OF t3(2) after_below[OF tr t(2) a3(1)]]]]
    by (simp only: lp hp)
  moreover have "commit rw s = Inr t" using n t1(1) t2(1) t3(1) t(1) by (simp add: commit_def)
  moreover have "diskst.more t = diskst.more (s\<lparr>lh_n := 0\<rparr>)"
    using t(3) t3(3) t2(3) t1(3) by (cases s; cases t3) simp
  ultimately show ?thesis using t(4) by (auto simp: commit_writes_def)
qed

end

end
