(* ===== verification/Log_Ops.thy ===== *)
theory Log_Ops
  imports Log_Commit
begin

text \<open>
  The operations of the log that other components call (\<open>initlog\<close>, \<open>begin_op\<close>, \<open>end_op\<close>,
  \<open>log_write\<close>), over any disk driver: the log's invariant, what each operation does to the
  transaction, and recovery as a function of the disk.
\<close>

section \<open>Invariant\<close>

text \<open>The cache is in order, the transaction fits and is pinned, and no transaction is on disk.\<close>

definition log_inv ::
  "('a logst_scheme \<Rightarrow> uint \<Rightarrow> uint \<Rightarrow> bool) \<Rightarrow> ('a logst_scheme \<Rightarrow> uint \<Rightarrow> block) \<Rightarrow>
   ('a logst_scheme \<Rightarrow> bool) \<Rightarrow> 'a logst_scheme \<Rightarrow> bool" where
  "log_inv present disk ready s \<longleftrightarrow> cache_ok present disk ready s
     \<and> log_geom (present s) s \<and> txn_ok (present s) s \<and> pinned s
     \<and> field32 0 (disk s (lg_start s)) = 0"

text \<open>The transaction after \<open>log_write\<close> of block \<open>n\<close>.\<close>

definition log_add :: "uint \<Rightarrow> uint list \<Rightarrow> uint list" where
  "log_add n bs = (if n \<in> set bs then bs else bs @ [n])"

lemma takeWhile_absent: "n \<notin> set xs \<Longrightarrow> takeWhile (\<lambda>x. x \<noteq> n) xs = xs"
  by (induction xs) auto

lemma takeWhile_present: "n \<in> set xs \<Longrightarrow>
    length (takeWhile (\<lambda>x. x \<noteq> n) xs) < length xs \<and> xs ! length (takeWhile (\<lambda>x. x \<noteq> n) xs) = n"
  by (induction xs) auto

text \<open>The slot that \<open>log_write\<close> fills.\<close>

lemma absorb_spec:
  assumes "n < length xs"
  shows "absorb n b xs \<le> n" "absorb n b xs < length xs"
    "absorb n b xs = n \<longleftrightarrow> b \<notin> set (take n xs)"
    "b \<in> set (take n xs) \<Longrightarrow> xs[absorb n b xs := b] = xs"
    "b \<notin> set (take n xs) \<Longrightarrow> take (Suc n) (xs[absorb n b xs := b]) = take n xs @ [b]"
proof -
  have L: "length (take n xs) = n" using assms by simp
  show le: "absorb n b xs \<le> n" and lt: "absorb n b xs < length xs"
    using length_takeWhile_le[of "\<lambda>x. x \<noteq> b" "take n xs"] assms by (auto simp: absorb_def)
  show iff: "absorb n b xs = n \<longleftrightarrow> b \<notin> set (take n xs)"
  proof (cases "b \<in> set (take n xs)")
    case True
    then show ?thesis using takeWhile_present[OF True] L by (simp add: absorb_def)
  next
    case False
    then show ?thesis using takeWhile_absent[OF False] L by (simp only: absorb_def) simp
  qed
  show "xs[absorb n b xs := b] = xs" if "b \<in> set (take n xs)"
  proof -
    have "absorb n b xs < n" "take n xs ! absorb n b xs = b"
      using takeWhile_present[OF that] L by (auto simp: absorb_def)
    then show ?thesis by (metis list_update_id nth_take)
  qed
  show "take (Suc n) (xs[absorb n b xs := b]) = take n xs @ [b]" if "b \<notin> set (take n xs)"
    using iff that assms by (simp add: take_Suc_conv_app_nth)
qed

lemma log_write_eq:
  assumes h: "held s = {}" and n: "0 \<le> lh_n s" "lh_n s < lg_size s - 1" "lh_n s < int LOGSIZE"
    and o: "1 \<le> lg_outstanding s" and len: "length (lh_block s) = LOGSIZE"
  shows "\<exists>B m. log_write i s = Inr (mark_dirty i (s\<lparr>lh_block := B, lh_n := m\<rparr>))
    \<and> length B = LOGSIZE \<and> take (nat m) B = log_add (b_blockno (bufs s i)) (logged s)
    \<and> m = int (length (log_add (b_blockno (bufs s i)) (logged s)))"
proof -
  let ?b = "b_blockno (bufs s i)" and ?n = "nat (lh_n s)"
  let ?k = "absorb ?n ?b (lh_block s)"
  let ?B = "(lh_block s)[?k := ?b]" and ?m = "if int ?k = lh_n s then lh_n s + 1 else lh_n s"
  have nl: "?n < length (lh_block s)" using n len by simp
  note A = absorb_spec[OF nl, of ?b]
  have L: "length (logged s) = ?n" using nl by (simp add: logged_def)
  have k: "int ?k = lh_n s \<longleftrightarrow> ?b \<notin> set (logged s)" using A(3) n(1) by (auto simp: logged_def)
  have "log_write i s = Inr (mark_dirty i (s\<lparr>lh_block := ?B, lh_n := ?m\<rparr>))"
    using h n o A(2) by (simp add: log_write_def lh_set_def Let_def mark_dirty_def)
  moreover have "take (nat ?m) ?B = log_add ?b (logged s) \<and> ?m = int (length (log_add ?b (logged s)))"
  proof (cases "?b \<in> set (logged s)")
    case True
    then show ?thesis using k A(4) n(1) L by (simp add: log_add_def logged_def)
  next
    case False
    then show ?thesis using k A(5) n(1) L by (simp add: log_add_def logged_def nat_add_distrib)
  qed
  moreover have "length ?B = LOGSIZE" using len by simp
  ultimately show ?thesis by blast
qed

text \<open>A header that recovery can follow: at most \<open>nlog - 1\<close> existing blocks outside the log.\<close>

definition head_ok :: "(uint \<Rightarrow> uint \<Rightarrow> bool) \<Rightarrow> uint \<Rightarrow> int \<Rightarrow> block \<Rightarrow> bool" where
  "head_ok p st sz d \<longleftrightarrow> 0 \<le> sint (field32 0 d) \<and> int (length (head_list d)) \<le> sz - 1
     \<and> (\<forall>b\<in>set (head_list d). p ROOTDEV b \<and> b \<notin> log_area st sz)"

context log_driver begin

abbreviation "linv \<equiv> log_inv present disk ready"

lemma log_write_ok:
  assumes inv: "linv s" and i: "owns s i n d" "n \<notin> log_blocks s"
    and g: "1 \<le> lg_outstanding s" "lh_n s < lg_size s - 1"
  shows "\<exists>t. log_write i s = Inr t \<and> linv t \<and> logged t = log_add n (logged s) \<and> owns t i n d
    \<and> locked_bufs t = locked_bufs s \<and> V t = V s \<and> disk t = disk s \<and> hist t = hist s
    \<and> present t = present s \<and> lg_outstanding t = lg_outstanding s
    \<and> lg_committing t = lg_committing s \<and> lg_start t = lg_start s \<and> lg_size t = lg_size s
    \<and> lh_n t = int (length (logged t)) \<and> logst.more t = logst.more s \<and> others_same i s t"
proof -
  have ok: "ok s" and ge: "log_geom (present s) s" and tx: "txn_ok (present s) s" and pin: "pinned s"
    using inv by (simp_all add: log_inv_def)
  have h: "held s = {}" using ok by (simp add: cache_ok_def)
  obtain B m where w: "log_write i s = Inr (mark_dirty i (s\<lparr>lh_block := B, lh_n := m\<rparr>))"
    and B: "length B = LOGSIZE" "take (nat m) B = log_add n (logged s)"
      "m = int (length (log_add n (logged s)))"
    using log_write_eq[OF h _ g(2) _ g(1), of i] tx ge ownsD(3)[OF i(1)]
    by (auto simp: txn_ok_def log_geom_def)
  let ?s1 = "s\<lparr>lh_block := B, lh_n := m\<rparr>"
  have tr: "diskst.truncate ?s1 = diskst.truncate s" by (cases s) (simp add: diskst.truncate_def)
  note b = below_ok[OF tr ok] below_log[OF tr]
  have o1: "owns ?s1 i n d" using i(1) b(14) by blast
  let ?t = "mark_dirty i ?s1"
  have t: "ok ?t" "same ?s1 ?t" "owns ?t i n d" "locked_bufs ?t = locked_bufs s" "V ?t = V s"
    "dirty_blocks ?t = insert n (dirty_blocks s)"
    using mark_dirty_ok[OF b(1) o1] b by (auto simp: device_same_def)
  have m: "diskst.more ?t = diskst.more ?s1" using t(2) by (simp add: device_same_def)
  note lm = log_more_same[OF m]
  have lg: "logged ?t = log_add n (logged s)" using lm B(2) by (simp add: logged_def)
  have "present s ROOTDEV n"
    using ok i(1) ownsD[OF i(1)] by (auto simp: cache_ok_def binv_def buf_ok_def owns_def)
  then have "txn_ok (present s) ?t"
    using tx i(2) lm lg B(3) g(2) length_logged[OF ge tx]
    by (auto simp: txn_ok_def log_add_def)
  moreover have "log_geom (present s) ?t" using ge lm B(1) by (simp add: log_geom_def)
  moreover have "pinned ?t" using pin lg t(6) by (auto simp: pinned_def log_add_def)
  moreover have "present ?t = present s" "disk ?t = disk s" "hist ?t = hist s"
    using t(2) b by (simp_all add: device_same_def)
  moreover have "others_same i s ?t" by (simp add: others_same_def mark_dirty_def)
  ultimately show ?thesis
    using w t lm lg B(3) inv by (intro exI[of _ ?t]) (simp add: log_inv_def)
qed

text \<open>Waking the processes that wait for the log changes only the process table.\<close>

lemma wakeup_inv:
  assumes "linv s" "L_ptable \<notin> held s"
  shows "linv (wakeup1 c s)" "V (wakeup1 c s) = V s" "disk (wakeup1 c s) = disk s"
    "hist (wakeup1 c s) = hist s" "present (wakeup1 c s) = present s"
    "diskst.more (wakeup1 c s) = diskst.more s" "locked_bufs (wakeup1 c s) = locked_bufs s"
    "dirty_blocks (wakeup1 c s) = dirty_blocks s"
proof -
  let ?t = "wakeup1 c s"
  have m: "bcache.more ?t = bcache.more s" by simp
  have ok: "ok s" using assms by (simp add: log_inv_def)
  have b: "binv p d ?t = binv p d s" for p d
    by (simp add: binv_def blist_def keys_ok_def)
  have t: "ok ?t" "same s ?t"
    using ok_change[OF ok m] ok b by (simp_all add: cache_ok_def)
  show v: "V ?t = V s" using t(2) view_cong[of ?t s] by (simp add: device_same_def)
  show d: "disk ?t = disk s" "hist ?t = hist s" "present ?t = present s" "diskst.more ?t = diskst.more s"
    using t(2) by (simp_all add: device_same_def)
  show l: "locked_bufs ?t = locked_bufs s" "dirty_blocks ?t = dirty_blocks s"
    by (simp_all add: locked_bufs_def dirty_blocks_def)
  show "linv ?t"
    using assms(1) t(1) d(1,3) l(2) log_defs_same[OF d(4)] log_more_same[OF d(4)]
    by (simp add: log_inv_def pinned_def)
qed

text \<open>\<open>end_op\<close> of the last operation commits the transaction.\<close>

lemma end_op_commits:
  assumes inv: "linv s" and l: "locked_bufs s = {}"
    and c: "lg_outstanding s = 1" "\<not> lg_committing s"
  shows "\<exists>t. end_op rw s = Inr t \<and> linv t \<and> locked_bufs t = {} \<and> logged t = [] \<and> lh_n t = 0
    \<and> lg_outstanding t = 0 \<and> \<not> lg_committing t \<and> lg_start t = lg_start s \<and> lg_size t = lg_size s
    \<and> logst.more t = logst.more s \<and> present t = present s
    \<and> hist t = hist s @ (if logged s = [] then []
        else commit_writes (lg_start s) (logged s) (V s) (disk s (lg_start s)))
    \<and> disk t = apply_writes (disk s) (if logged s = [] then []
        else commit_writes (lg_start s) (logged s) (V s) (disk s (lg_start s)))
    \<and> (\<forall>b. b \<notin> log_blocks s \<longrightarrow> V t b = V s b)"
proof -
  let ?ws = "if logged s = [] then [] else commit_writes (lg_start s) (logged s) (V s) (disk s (lg_start s))"
  have ok: "ok s" and ge: "log_geom (present s) s" and tx: "txn_ok (present s) s" and pin: "pinned s"
    using inv by (simp_all add: log_inv_def)
  have h: "held s = {}" using ok by (simp add: cache_ok_def)
  let ?s1 = "s\<lparr>lg_outstanding := 0, lg_committing := True\<rparr>"
  have tr: "diskst.truncate ?s1 = diskst.truncate s" by (cases s) (simp add: diskst.truncate_def)
  note b = below_ok[OF tr ok] below_log[OF tr]
  have L: "logged ?s1 = logged s" by (simp add: logged_def)
  have g1: "log_geom (present ?s1) ?s1" "txn_ok (present ?s1) ?s1" "pinned ?s1" "locked_bufs ?s1 = {}"
    using ge tx pin l b L by (simp_all add: log_geom_def txn_ok_def pinned_def)
  have len: "length (logged s) = nat (lh_n s)" by (rule length_logged[OF ge tx])
  obtain t1 where t1: "commit rw ?s1 = Inr t1" "after ?ws s t1"
    "diskst.more t1 = diskst.more (?s1\<lparr>lh_n := 0\<rparr>)" "dirty_blocks t1 = {}"
  proof (cases "logged s = []")
    case True
    then have n: "lh_n s = 0" using len tx by (simp add: txn_ok_def)
    have "after [] s ?s1" using b g1(4) by (intro afterI) simp_all
    moreover have "dirty_blocks ?s1 = {}" using pin b True by (simp add: pinned_def)
    ultimately show ?thesis using n True by (intro that[of ?s1]) (simp_all add: commit_def, cases s, simp)
  next
    case False
    then have "0 < length (logged s)" by simp
    then have "0 < lh_n ?s1" unfolding len by simp
    then obtain t1 where "commit rw ?s1 = Inr t1"
      "after (commit_writes (lg_start s) (logged s) (V s) (disk s (lg_start s))) ?s1 t1"
      "diskst.more t1 = diskst.more (?s1\<lparr>lh_n := 0\<rparr>)" "dirty_blocks t1 = {}"
      using commit_ok[OF b(1) g1(4,1-3)] L b by auto
    then show ?thesis using after_below[OF tr _ ok] False by (intro that[of t1]) simp_all
  qed
  note m1 = log_more_same[OF t1(3)]
  let ?t2 = "t1\<lparr>lg_committing := False\<rparr>"
  have a1: "ok t1" "locked_bufs t1 = {}" "present t1 = present s" "disk t1 = apply_writes (disk s) ?ws"
    "hist t1 = hist s @ ?ws"
    using t1(2) by (simp_all add: after_def)
  have tr2: "diskst.truncate ?t2 = diskst.truncate t1" by (cases t1) (simp add: diskst.truncate_def)
  note b2 = below_ok[OF tr2 a1(1)] below_log[OF tr2]
  have "field32 0 (disk t1 (lg_start s)) = 0"
  proof (cases "logged s = []")
    case False
    have "length (disk s (lg_start s)) = BSIZE"
      using ge ok disk_length by (auto simp: log_geom_def cache_ok_def)
    moreover have "length (logged s) \<le> LOGSIZE" using len tx ge by (auto simp: txn_ok_def log_geom_def)
    ultimately show ?thesis using False
      by (simp add: a1(4) commit_writes_def field32_put_head)
  qed (use inv a1(4) in \<open>simp add: log_inv_def\<close>)
  then have i2: "linv ?t2"
    using b2 a1(3) m1 t1(4) ge tx by (simp add: log_inv_def log_geom_def txn_ok_def pinned_def logged_def)
  let ?t = "wakeup1 Ch_log ?t2"
  have h2: "held ?t2 = {}" "held t1 = {}" using i2 a1(1) by (simp_all add: log_inv_def cache_ok_def)
  have np: "L_ptable \<notin> held ?t2" using h2 by simp
  note w = wakeup_inv[OF i2 np, of Ch_log]
  have e: "end_op rw s = Inr ?t"
    using c t1(1) h h2 by (simp add: end_op_def Let_def) (simp add: wakeup1_def)
  have v: "V ?t b = V s b" if "b \<notin> log_blocks s" for b
  proof (cases "logged s = []")
    case True
    then show ?thesis using w(2) b2(5) after_view(1)[OF t1(2)] by simp
  next
    case False
    have "loggable (lg_start s) (lg_size s) (logged s)"
      using ge tx pin len by (auto simp: loggable_def pinned_def txn_ok_def log_geom_def)
    then have "apply_writes (V s) ?ws b = V s b"
      using commit_effect[OF _ that] False by (simp add: updated_def)
    then show ?thesis using w(2) b2(5) after_view(1)[OF t1(2)] by simp
  qed
  have "diskst.more ?t = diskst.more ?t2" by (rule w(6))
  note mt = log_more_same[OF this]
  show ?thesis
    using e w mt m1 b2 a1 v by (intro exI[of _ ?t]) (simp add: logged_def)
qed

lemma end_op_more:
  assumes inv: "linv s" and c: "lg_outstanding s \<noteq> 1" "\<not> lg_committing s"
  shows "end_op rw s = Inr (wakeup1 Ch_log (s\<lparr>lg_outstanding := lg_outstanding s - 1\<rparr>))"
proof -
  have "held s = {}" using inv by (simp add: log_inv_def cache_ok_def)
  then show ?thesis using c by (simp add: end_op_def Let_def) (simp add: wakeup1_def)
qed

lemma begin_op_ok:
  assumes inv: "linv s"
  shows "begin_op s = (if lg_committing s \<or> log_full s then Inl (Blocks ''begin_op'')
     else Inr (s\<lparr>lg_outstanding := lg_outstanding s + 1\<rparr>))"
proof -
  have h: "held s = {}" "has_proc s" using inv by (simp_all add: log_inv_def cache_ok_def)
  then obtain i where i: "curproc s = Some i" "i < length (ptable s)" by (auto simp: has_proc_def)
  let ?s1 = "s\<lparr>held := {L_log}\<rparr>"
  have "(block_on Ch_log L_log ''begin_op'' ?s1 :: 'a logst_scheme res) = Inl (Blocks ''begin_op'')"
    using i by (intro block_on_ok[of _ i]) simp_all
  moreover have "log_full ?s1 = log_full s" by (simp add: log_full_def)
  ultimately show ?thesis using h by (simp add: begin_op_def)
qed

lemma outstanding_inv:
  assumes "linv s"
  shows "linv (s\<lparr>lg_outstanding := x\<rparr>)"
proof -
  let ?t = "s\<lparr>lg_outstanding := x\<rparr>"
  have tr: "diskst.truncate ?t = diskst.truncate s" by (cases s) (simp add: diskst.truncate_def)
  have "ok s" using assms by (simp add: log_inv_def)
  note b = below_ok[OF tr this] below_log[OF tr]
  show ?thesis using assms b
    by (simp add: log_inv_def log_geom_def txn_ok_def pinned_def logged_def)
qed

section \<open>Recovery\<close>

lemma read_head_loop:
  assumes "n \<le> length (lh_block s)"
  shows "for_res 0 n (\<lambda>k s. lh_set k (field32 (k + 1) (b_data (bufs s i))) s) s
    = Inr (s\<lparr>lh_block := map (\<lambda>k. field32 (k + 1) (b_data (bufs s i))) [0..<n] @ drop n (lh_block s)\<rparr>)"
proof -
  define f where "f = (\<lambda>k. field32 (k + 1) (b_data (bufs s i)))"
  define I where "I k t \<longleftrightarrow> t = s\<lparr>lh_block := map f [0..<k] @ drop k (lh_block s)\<rparr>" for k t
  have "\<exists>t. for_res 0 n (\<lambda>k s. lh_set k (field32 (k + 1) (b_data (bufs s i))) s) s = Inr t \<and> I (0 + n) t"
  proof (rule for_res_rule)
    show "I 0 s" by (simp add: I_def)
    fix k t assume k: "0 \<le> k" "k < 0 + n" and I: "I k t"
    have kl: "k < length (lh_block s)" using k assms by simp
    have "(map f [0..<k] @ drop k (lh_block s))[k := f k] = map f [0..<Suc k] @ drop (Suc k) (lh_block s)"
      using kl by (simp add: list_update_append Cons_nth_drop_Suc[symmetric])
    then show "\<exists>t'. lh_set k (field32 (k + 1) (b_data (bufs t i))) t = Inr t' \<and> I (Suc k) t'"
      using I kl by (simp add: I_def lh_set_def f_def)
  qed
  then show ?thesis by (simp add: I_def f_def)
qed

lemma read_head_ok:
  assumes ok: "ok s" "locked_bufs s = {}" and d: "dirty_blocks s = {}"
    and dev: "lg_dev s = ROOTDEV" "present s ROOTDEV (lg_start s)"
    and n: "0 \<le> sint (field32 0 (disk s (lg_start s)))"
      "sint (field32 0 (disk s (lg_start s))) \<le> int LOGSIZE" "length (lh_block s) = LOGSIZE"
  shows "\<exists>t. read_head rw s = Inr t \<and> ok t \<and> locked_bufs t = {} \<and> dirty_blocks t = {}
    \<and> disk t = disk s \<and> hist t = hist s \<and> present t = present s \<and> V t = V s
    \<and> logged t = head_list (disk s (lg_start s)) \<and> lh_n t = int (length (logged t))
    \<and> length (lh_block t) = LOGSIZE \<and> lg_start t = lg_start s \<and> lg_size t = lg_size s
    \<and> lg_dev t = lg_dev s \<and> lg_outstanding t = lg_outstanding s
    \<and> lg_committing t = lg_committing s \<and> logst.more t = logst.more s"
proof -
  let ?st = "lg_start s"
  have vs: "V s ?st = disk s ?st"
    by (rule view_clean[OF cache_binv[OF ok(1)] _ unlocked_blockI[OF ok(2)]]) (simp add: d)
  obtain i t where t: "bread rw ROOTDEV ?st s = Inr (i, t)" "ok t" "same s t" "locked_bufs t = {i}"
    "owns t i ?st (disk s ?st)" "V t = V s" "dirty_blocks t = {}"
    by (rule fetch[OF ok(1) dev(2)]) (use ok(2) d vs in auto)
  have m: "diskst.more t = diskst.more s" using t(3) by (simp add: device_same_def)
  note lm = log_more_same[OF m]
  let ?n = "sint (field32 0 (disk s ?st))"
  let ?B = "map (\<lambda>k. field32 (k + 1) (disk s ?st)) [0..<nat ?n] @ drop (nat ?n) (lh_block s)"
  let ?u = "t\<lparr>lh_n := ?n, lh_block := ?B\<rparr>"
  have tr: "diskst.truncate ?u = diskst.truncate t" by (cases t) (simp add: diskst.truncate_def)
  note b = below_ok[OF tr t(2)] below_log[OF tr]
  have own: "owns ?u i ?st (disk s ?st)" using t(5) b(14) by blast
  have ds: "disk ?u = disk s" using b(2) t(3) by (simp add: device_same_def)
  obtain v where v: "brelse i ?u = Inr v" "ok v" "same ?u v" "locked_bufs v = {}" "V v = V ?u"
    "dirty_blocks v = {}"
    using brelse_ok[OF b(1) own] b t(4,7) ds by (auto simp: device_same_def)
  have "for_res 0 (nat ?n) (\<lambda>k s. lh_set k (field32 (k + 1) (b_data (bufs s i))) s) (t\<lparr>lh_n := ?n\<rparr>)
      = Inr ?u"
    using read_head_loop[of "nat ?n" "t\<lparr>lh_n := ?n\<rparr>" i] n lm ownsD(4)[OF t(5)] by simp
  then have r: "read_head rw s = Inr v"
    using t(1) dev(1) v(1) ownsD(4)[OF t(5)] by (simp add: read_head_def Let_def)
  have mv: "diskst.more v = diskst.more ?u" using v(3) by (simp add: device_same_def)
  have "logged v = head_list (disk s ?st)"
    using log_defs_same[OF mv] by (simp add: logged_def head_list_def)
  moreover have "lh_n v = int (length (logged v))"
    using calculation log_more_same[OF mv] n(1) by (simp add: head_list_def)
  ultimately show ?thesis
    using r v b t(3,6) log_more_same[OF mv] lm n
    by (intro exI[of _ v]) (simp add: device_same_def)
qed

lemma recover_ok:
  assumes ok: "ok s" "locked_bufs s = {}" and d: "dirty_blocks s = {}"
    and g: "log_geom (present s) s" and hd: "head_ok (present s) (lg_start s) (lg_size s) (disk s (lg_start s))"
  shows "\<exists>t. recover_from_log rw s = Inr t \<and> linv t \<and> locked_bufs t = {} \<and> logged t = []
    \<and> hist t = hist s @ recover_writes (lg_start s) (disk s)
    \<and> disk t = recover_disk (lg_start s) (disk s) \<and> V t = disk t
    \<and> lg_start t = lg_start s \<and> lg_size t = lg_size s \<and> lg_outstanding t = lg_outstanding s
    \<and> lg_committing t = lg_committing s \<and> present t = present s \<and> logst.more t = logst.more s"
proof -
  let ?st = "lg_start s" and ?bs = "head_list (disk s (lg_start s))"
  have sz: "1 \<le> lg_size s" "lg_size s \<le> int LOGSIZE" and dev: "lg_dev s = ROOTDEV"
    "present s ROOTDEV ?st" "length (lh_block s) = LOGSIZE"
    using g by (auto simp: log_geom_def)
  have n: "0 \<le> sint (field32 0 (disk s ?st))" "sint (field32 0 (disk s ?st)) \<le> int LOGSIZE"
    using hd sz by (auto simp: head_ok_def head_list_def split: if_splits)
  obtain t1 where t1: "read_head rw s = Inr t1" "ok t1" "locked_bufs t1 = {}" "dirty_blocks t1 = {}"
    "disk t1 = disk s" "hist t1 = hist s" "present t1 = present s" "V t1 = V s"
    "logged t1 = ?bs" "lh_n t1 = int (length ?bs)" "length (lh_block t1) = LOGSIZE"
    "lg_start t1 = ?st" "lg_size t1 = lg_size s" "lg_dev t1 = ROOTDEV"
    "lg_outstanding t1 = lg_outstanding s" "lg_committing t1 = lg_committing s"
    "logst.more t1 = logst.more s"
    using read_head_ok[OF ok d dev(1,2) n dev(3)] dev(1) by auto
  have g1: "log_geom (present t1) t1" "txn_ok (present t1) t1"
    using g hd t1 by (simp_all add: log_geom_def txn_ok_def head_ok_def)
  obtain t2 where t2: "install_trans rw t1 = Inr t2" "after (home_writes t1 (nat (lh_n t1))) t1 t2"
    "diskst.more t2 = diskst.more t1" "dirty_blocks t2 = {}"
    using install_trans_ok[OF t1(2,3) g1] t1(4) by blast
  have hw: "home_writes t1 (nat (lh_n t1)) = home_part ?st ?bs (disk s)"
    using t1 by (simp add: home_part_def)
  have a2: "ok t2" "locked_bufs t2 = {}" "present t2 = present s"
    "disk t2 = apply_writes (disk s) (home_part ?st ?bs (disk s))"
    using t2(2) t1(5,7) unfolding hw by (simp_all add: after_def)
  have "fst ` set (home_part ?st ?bs (disk s)) \<subseteq> set ?bs" by (auto simp: home_part_def)
  moreover have "?st \<notin> set ?bs" using hd start_in_area[OF sz(1), of ?st] by (auto simp: head_ok_def)
  ultimately have "?st \<notin> fst ` set (home_part ?st ?bs (disk s))" by blast
  then have hst: "disk t2 ?st = disk s ?st" unfolding a2(4) by (rule apply_writes_other)
  let ?t3 = "t2\<lparr>lh_n := 0\<rparr>"
  have tr: "diskst.truncate ?t3 = diskst.truncate t2" by (cases t2) (simp add: diskst.truncate_def)
  note b = below_ok[OF tr a2(1)] below_log[OF tr]
  note m2 = log_more_same[OF t2(3)]
  have g3: "log_geom (present ?t3) ?t3" "txn_ok (present ?t3) ?t3"
    using b(4) a2(3) g m2 t1 dev by (simp_all add: log_geom_def txn_ok_def logged_def)
  obtain t where t: "write_head rw ?t3 = Inr t" "after [(?st, put_head [] (disk s ?st))] ?t3 t"
    "diskst.more t = diskst.more ?t3" "dirty_blocks t = {}"
    using write_head_ok[OF b(1) _ g3] b a2(2) t2(4) m2 t1(12) hst by (auto simp: logged_def)
  have "after (recover_writes ?st (disk s)) t1 t"
    using after_trans[OF t2(2) after_below[OF tr t(2) a2(1)]] unfolding hw recover_writes_def by simp
  then have af: "ok t" "locked_bufs t = {}" "present t = present s"
    "disk t = recover_disk ?st (disk s)" "hist t = hist s @ recover_writes ?st (disk s)"
    using t1 by (simp_all add: after_def recover_disk_def)
  have v: "V t = disk t"
    using view_clean[OF cache_binv[OF af(1)]] t(4) unlocked_blockI[OF af(2)] by auto
  note mt = log_more_same[OF t(3)]
  have "length (disk s ?st) = BSIZE" using ok dev disk_length by (simp add: cache_ok_def)
  then have "field32 0 (disk t ?st) = 0"
    by (simp add: af(4) recover_disk_def recover_writes_def field32_put_head)
  then have "linv t"
    using af(1,3) t(4) mt m2 t1 g by (simp add: log_inv_def log_geom_def txn_ok_def pinned_def logged_def)
  moreover have "recover_from_log rw s = Inr t"
    using t1(1) t2(1) t(1) by (simp add: recover_from_log_def)
  ultimately show ?thesis
    using af v mt m2 t1 by (intro exI[of _ t]) (simp add: logged_def)
qed

text \<open>\<open>initlog\<close>: the superblock gives the log's place, then recovery runs.\<close>

lemma initlog_ok:
  assumes ok: "ok s" "locked_bufs s = {}" and d: "dirty_blocks s = {}"
    and p1: "present s ROOTDEV 1" and sb: "sb = decode_sb (disk s 1)"
    and g: "log_geom (present s) (s\<lparr>lg_start := sb_logstart sb, lg_size := sint (sb_nlog sb), lg_dev := ROOTDEV\<rparr>)"
    and hd: "head_ok (present s) (sb_logstart sb) (sint (sb_nlog sb)) (disk s (sb_logstart sb))"
  shows "\<exists>t. initlog rw ROOTDEV s = Inr t \<and> linv t \<and> locked_bufs t = {} \<and> logged t = []
    \<and> disk t = recover_disk (sb_logstart sb) (disk s) \<and> V t = disk t
    \<and> hist t = hist s @ recover_writes (sb_logstart sb) (disk s)
    \<and> lg_start t = sb_logstart sb \<and> lg_size t = sint (sb_nlog sb) \<and> present t = present s"
proof -
  have "room_for s 1" using room_for_free[OF cache_binv[OF ok(1)]] d ok(2) by simp
  then obtain t1 where t1: "readsb rw ROOTDEV s = Inr (sb, t1)" "ok t1" "same s t1"
    "locked_bufs t1 = {}" "dirty_blocks t1 = {}"
    using readsb_ok[OF ok(1) p1 unlocked_blockI[OF ok(2)]] d ok(2) sb by auto
  let ?u = "t1\<lparr>lg_start := sb_logstart sb, lg_size := sint (sb_nlog sb), lg_dev := ROOTDEV\<rparr>"
  have tr: "diskst.truncate ?u = diskst.truncate t1" by (cases t1) (simp add: diskst.truncate_def)
  note b = below_ok[OF tr t1(2)] below_log[OF tr]
  have sm: "disk ?u = disk s" "present ?u = present s" "hist ?u = hist s" "diskst.more t1 = diskst.more s"
    using b t1(3) by (simp_all add: device_same_def)
  have gu: "log_geom (present ?u) ?u"
    using g log_more_same[OF sm(4)] sm(2) by (simp add: log_geom_def)
  obtain t where "recover_from_log rw ?u = Inr t" "linv t" "locked_bufs t = {}" "logged t = []"
    "hist t = hist s @ recover_writes (sb_logstart sb) (disk s)"
    "disk t = recover_disk (sb_logstart sb) (disk s)" "V t = disk t"
    "lg_start t = sb_logstart sb" "lg_size t = sint (sb_nlog sb)" "present t = present s"
    using recover_ok[OF b(1) _ _ gu] b t1(4,5) sm hd by auto
  then show ?thesis using t1(1) by (intro exI[of _ t]) (simp add: initlog_def)
qed

section \<open>How a file system updates a block\<close>

lemma inv_same:
  assumes "linv s" "ok t" "same s t" "dirty_blocks t = dirty_blocks s"
  shows "linv t"
proof -
  have m: "diskst.more t = diskst.more s" using assms(3) by (simp add: device_same_def)
  show ?thesis
    using assms log_defs_same[OF m] log_more_same[OF m]
    by (simp add: log_inv_def pinned_def device_same_def)
qed

text \<open>Taking a block: the caller owns its buffer.\<close>

lemma fetch_inv:
  assumes inv: "linv s" and n: "present s ROOTDEV n" "\<And>j. j \<in> locked_bufs s \<Longrightarrow> b_blockno (bufs s j) \<noteq> n"
    and r: "card (dirty_blocks s) + card (locked_bufs s) < NBUF \<or> n \<in> dirty_blocks s"
  obtains i t where "bread rw ROOTDEV n s = Inr (i, t)" "linv t" "same s t" "i \<notin> locked_bufs s"
    "locked_bufs t = insert i (locked_bufs s)" "owns t i n (V s n)" "others_same i s t" "V t = V s"
    "dirty_blocks t = dirty_blocks s" "b_dirty (bufs t i) \<or> V s n = disk s n"
proof -
  have ok: "ok s" using inv by (simp add: log_inv_def)
  obtain i t where t: "bread rw ROOTDEV n s = Inr (i, t)" "ok t" "same s t" "i \<notin> locked_bufs s"
    "locked_bufs t = insert i (locked_bufs s)" "owns t i n (V s n)" "others_same i s t" "V t = V s"
    "dirty_blocks t = dirty_blocks s" "b_dirty (bufs t i) = (n \<in> dirty_blocks s)"
    by (rule fetch[OF ok n r])
  have "b_dirty (bufs t i) \<or> V s n = disk s n"
  proof (cases "n \<in> dirty_blocks s")
    case False
    have "unlocked_block s n" using n(2) by (auto simp: unlocked_block_def)
    then have "V s n = disk s n"
      using False ok by (intro view_clean[of "present s"]) (simp_all add: cache_ok_def)
    then show ?thesis by simp
  qed (simp add: t(10))
  then show thesis using that t inv_same[OF inv t(2,3,9)] by blast
qed

text \<open>The owner changes the bytes, logs the block and gives the buffer back: the block is in the transaction.\<close>

lemma store_held:
  assumes inv: "linv s" and o: "owns s i n d" "n \<notin> log_blocks s"
    and g: "1 \<le> lg_outstanding s" "lh_n s < lg_size s - 1" and e: "length e = BSIZE"
  obtains u v where "log_write i (set_data i e s) = Inr u" "brelse i u = Inr v"
    "linv v" "locked_bufs v = locked_bufs s - {i}" "V v = (V s)(n := e)" "disk v = disk s" "hist v = hist s"
    "present v = present s" "logged v = log_add n (logged s)" "lg_outstanding v = lg_outstanding s"
    "lg_committing v = lg_committing s" "lg_start v = lg_start s" "lg_size v = lg_size s"
    "logst.more v = logst.more s" "others_same i s v"
proof -
  have ok: "ok s" using inv by (simp add: log_inv_def)
  let ?t1 = "set_data i e s"
  have t1: "ok ?t1" "same s ?t1" "owns ?t1 i n e" "locked_bufs ?t1 = locked_bufs s" "others_same i s ?t1"
    "view (disk s) ?t1 = (V s)(n := e)" "dirty_blocks ?t1 = dirty_blocks s"
    using set_data_ok[OF ok o(1) e] by blast+
  have m: "diskst.more ?t1 = diskst.more s" using t1(2) by (simp add: device_same_def)
  note lm = log_more_same[OF m] log_defs_same[OF m]
  have i1: "linv ?t1" using t1 by (intro inv_same[OF inv _ t1(2)]) simp_all
  obtain u where u: "log_write i ?t1 = Inr u" "linv u" "logged u = log_add n (logged s)" "owns u i n e"
    "locked_bufs u = locked_bufs s" "V u = V ?t1" "disk u = disk s" "hist u = hist s"
    "present u = present s" "lg_outstanding u = lg_outstanding s" "lg_committing u = lg_committing s"
    "lg_start u = lg_start s" "lg_size u = lg_size s" "logst.more u = logst.more s" "others_same i ?t1 u"
    using log_write_ok[OF i1 t1(3)] o(2) g lm t1(2,4) by (auto simp: device_same_def)
  have "n \<in> dirty_blocks u" using u(2,3) by (simp add: log_inv_def pinned_def log_add_def)
  moreover have "caches u i n"
    using u(2) u(4) ownsD[OF u(4)] by (auto simp: log_inv_def cache_ok_def binv_def buf_ok_def caches_def owns_def)
  moreover have ou: "ok u" using u(2) by (simp add: log_inv_def)
  ultimately have "b_dirty (bufs u i)"
    using dirty_blocks_iff[OF cache_binv[OF ou] ownsD(1)[OF u(4)]] by simp
  then obtain v where v: "brelse i u = Inr v" "ok v" "same u v" "others_same i u v" "locked_bufs v = locked_bufs u - {i}"
    "V v = V u" "dirty_blocks v = dirty_blocks u"
    using brelse_ok[OF ou u(4)] by (auto simp: device_same_def)
  have "diskst.more v = diskst.more u" using v(3) by (simp add: device_same_def)
  note lv = log_more_same[OF this] log_defs_same[OF this]
  show ?thesis
  proof (rule that[OF u(1) v(1)])
    show "V v = (V s)(n := e)" using v(6) u(6) t1(2,6) by (simp add: device_same_def)
    show "linv v" by (rule inv_same[OF u(2) v(2,3,7)])
    show "others_same i s v" using others_same_trans[OF others_same_trans[OF t1(5) u(15)] v(4)] .
  qed (use v u lv in \<open>simp_all add: device_same_def\<close>)
qed

text \<open>The owner gives an unchanged buffer back.\<close>

lemma return_held:
  assumes inv: "linv s" and o: "owns s i n d" "b_dirty (bufs s i) \<or> d = disk s n"
  obtains v where "brelse i s = Inr v" "linv v" "same s v" "locked_bufs v = locked_bufs s - {i}" "V v = V s"
    "others_same i s v"
proof -
  have ok: "ok s" using inv by (simp add: log_inv_def)
  obtain v where v: "brelse i s = Inr v" "ok v" "same s v" "others_same i s v" "locked_bufs v = locked_bufs s - {i}"
    "view (disk s) v = V s" "dirty_blocks v = dirty_blocks s"
    using brelse_ok[OF ok o] by blast
  have "disk v = disk s" using v(3) by (simp add: device_same_def)
  then show thesis using that v inv_same[OF inv v(2,3,7)] by simp
qed

text \<open>\<open>bread\<close>, change the bytes, \<open>log_write\<close>, \<open>brelse\<close>.\<close>

lemma update_block:
  assumes inv: "linv s" and n: "present s ROOTDEV n" "n \<notin> log_blocks s"
      "\<And>j. j \<in> locked_bufs s \<Longrightarrow> b_blockno (bufs s j) \<noteq> n"
    and r: "card (dirty_blocks s) + card (locked_bufs s) < NBUF \<or> n \<in> dirty_blocks s"
    and g: "1 \<le> lg_outstanding s" "lh_n s < lg_size s - 1" and e: "length e = BSIZE"
  obtains i t u v where "bread rw ROOTDEV n s = Inr (i, t)" "b_data (bufs t i) = V s n"
    "log_write i (set_data i e t) = Inr u" "brelse i u = Inr v"
    "linv v" "locked_bufs v = locked_bufs s" "V v = (V s)(n := e)" "disk v = disk s" "hist v = hist s"
    "present v = present s" "logged v = log_add n (logged s)" "lg_outstanding v = lg_outstanding s"
    "lg_committing v = lg_committing s" "lg_start v = lg_start s" "lg_size v = lg_size s"
    "logst.more v = logst.more s" "logst.more t = logst.more s" "i \<notin> locked_bufs s" "others_same i s v"
proof -
  obtain i t where t: "bread rw ROOTDEV n s = Inr (i, t)" "linv t" "same s t" "i \<notin> locked_bufs s"
    "locked_bufs t = insert i (locked_bufs s)" "owns t i n (V s n)" "others_same i s t" "V t = V s"
    by (rule fetch_inv[OF inv n(1,3) r])
  have m: "diskst.more t = diskst.more s" using t(3) by (simp add: device_same_def)
  note lm = log_more_same[OF m] log_defs_same[OF m]
  have "n \<notin> log_blocks t" "1 \<le> lg_outstanding t" "lh_n t < lg_size t - 1" using n(2) g lm by simp_all
  then obtain u v where v: "log_write i (set_data i e t) = Inr u" "brelse i u = Inr v"
    "linv v" "locked_bufs v = locked_bufs t - {i}" "V v = (V t)(n := e)" "disk v = disk t" "hist v = hist t"
    "present v = present t" "logged v = log_add n (logged t)" "lg_outstanding v = lg_outstanding t"
    "lg_committing v = lg_committing t" "lg_start v = lg_start t" "lg_size v = lg_size t"
    "logst.more v = logst.more t" "others_same i t v"
    using store_held[OF t(2,6) _ _ _ e] by blast
  show thesis
  proof (rule that[OF t(1) _ v(1,2)])
    show "locked_bufs v = locked_bufs s" using v(4) t(4,5) by auto
    show "others_same i s v" by (rule others_same_trans[OF t(7) v(15)])
  qed (use v t lm ownsD(4)[OF t(6)] in \<open>simp_all add: device_same_def\<close>)
qed

text \<open>Reading a block in or outside the transaction, and giving it back unchanged.\<close>

lemma read_view:
  assumes inv: "linv s" and n: "present s ROOTDEV n"
      "\<And>j. j \<in> locked_bufs s \<Longrightarrow> b_blockno (bufs s j) \<noteq> n"
    and r: "card (dirty_blocks s) + card (locked_bufs s) < NBUF \<or> n \<in> dirty_blocks s"
  obtains i t v where "bread rw ROOTDEV n s = Inr (i, t)" "b_data (bufs t i) = V s n"
    "brelse i t = Inr v" "linv v" "locked_bufs v = locked_bufs s" "V v = V s" "disk v = disk s"
    "hist v = hist s" "present v = present s" "diskst.more t = diskst.more s" "diskst.more v = diskst.more s"
    "i \<notin> locked_bufs s" "others_same i s v"
proof -
  obtain i t where t: "bread rw ROOTDEV n s = Inr (i, t)" "linv t" "same s t" "i \<notin> locked_bufs s"
    "locked_bufs t = insert i (locked_bufs s)" "owns t i n (V s n)" "others_same i s t" "V t = V s"
    "b_dirty (bufs t i) \<or> V s n = disk s n"
    by (rule fetch_inv[OF inv n r])
  have "b_dirty (bufs t i) \<or> V s n = disk t n" using t(3,9) by (simp add: device_same_def)
  then obtain v where v: "brelse i t = Inr v" "linv v" "same t v" "locked_bufs v = locked_bufs t - {i}" "V v = V t"
    "others_same i t v"
    by (rule return_held[OF t(2,6)])
  show thesis
  proof (rule that[OF t(1) ownsD(4)[OF t(6)] v(1)])
    show "locked_bufs v = locked_bufs s" using v(4) t(4,5) by auto
    show "others_same i s v" by (rule others_same_trans[OF t(7) v(6)])
  qed (use v t in \<open>simp_all add: device_same_def\<close>)
qed

end

end
