(* ===== verification/Storage.thy ===== *)
theory Storage
  imports Memide Log_Ops Machine
begin

text \<open>
  The storage stack as the Makefile can link it without a disk controller: buffer cache and log
  over the in-memory disk. The contracts proved over any driver are instantiated here, and
  give the properties of the whole stack.
\<close>

interpretation dl: log_driver iderw memdisk writes mem_present mem_ready
  by unfold_locales

section \<open>The stack's invariants\<close>

abbreviation cache_inv :: "'a diskst_scheme \<Rightarrow> bool" where
  "cache_inv \<equiv> cache_ok mem_present memdisk mem_ready"

abbreviation storage_inv :: "'a logst_scheme \<Rightarrow> bool" where
  "storage_inv \<equiv> log_inv mem_present memdisk mem_ready"

abbreviation disk_view :: "'a diskst_scheme \<Rightarrow> uint \<Rightarrow> block" where
  "disk_view s \<equiv> view (memdisk s) s"

text \<open>
  \<open>r\<close> is a machine restarted on the disk that \<open>s\<close> and the writes \<open>vs\<close> left: nothing is locked
  or dirty, and the log's variables describe the same disk.
\<close>

definition restarted :: "'a logst_scheme \<Rightarrow> (uint \<times> block) list \<Rightarrow> 'a logst_scheme \<Rightarrow> bool" where
  "restarted s vs r \<longleftrightarrow> cache_inv r \<and> locked_bufs r = {} \<and> dirty_blocks r = {}
     \<and> memdisk r = apply_writes (memdisk s) vs \<and> mem_present r = mem_present s
     \<and> lg_start r = lg_start s \<and> lg_size r = lg_size s \<and> lg_dev r = lg_dev s
     \<and> length (lh_block r) = LOGSIZE"

lemma storage_loggable:
  assumes "storage_inv s"
  shows "loggable (lg_start s) (lg_size s) (logged s)"
    "length (memdisk s (lg_start s)) = BSIZE" "log_geom (mem_present s) s"
proof -
  have g: "log_geom (mem_present s) s" and t: "txn_ok (mem_present s) s" and "pinned s"
    using assms by (simp_all add: log_inv_def)
  then show "loggable (lg_start s) (lg_size s) (logged s)"
    using length_logged[OF g t] by (auto simp: loggable_def pinned_def txn_ok_def log_geom_def)
  show "log_geom (mem_present s) s" by (rule g)
  have "mem_present s ROOTDEV (lg_start s)" using g by (auto simp: log_geom_def)
  then show "length (memdisk s (lg_start s)) = BSIZE"
    using assms mem.disk_length by (auto simp: log_inv_def cache_ok_def)
qed

text \<open>With nothing locked, the cache differs from the disk in the logged blocks only.\<close>

lemma view_updated:
  assumes "storage_inv s" "locked_bufs s = {}"
  shows "disk_view s b = updated (logged s) (disk_view s) (memdisk s) b"
proof (cases "b \<in> set (logged s)")
  case False
  have "disk_view s b = memdisk s b"
    using assms False by (intro view_clean[of "mem_present s"] unlocked_blockI)
      (auto simp: log_inv_def cache_ok_def pinned_def)
  then show ?thesis using False by (simp add: updated_def)
qed (simp add: updated_def)

lemma restarted_recovers:
  assumes inv: "storage_inv s" and l: "locked_bufs s = {}"
    and p: "prefix vs (commit_writes (lg_start s) (logged s) (disk_view s) (memdisk s (lg_start s)))"
    and r: "restarted s vs r"
  shows "\<exists>u. recover_from_log iderw r = Inr u \<and> storage_inv u
    \<and> ((\<forall>b. b \<notin> log_blocks s \<longrightarrow> disk_view u b = memdisk s b)
     \<or> (\<forall>b. b \<notin> log_blocks s \<longrightarrow> disk_view u b = disk_view s b))"
proof -
  let ?st = "lg_start s" and ?bs = "logged s"
  note lg = storage_loggable[OF inv]
  have c0: "field32 0 (memdisk s ?st) = 0" using inv by (simp add: log_inv_def)
  have pr: "mem_present r = mem_present s" using r by (simp add: restarted_def)
  have rs: "cache_inv r" "locked_bufs r = {}" "dirty_blocks r = {}" "memdisk r = apply_writes (memdisk s) vs"
    "lg_start r = ?st" "lg_size r = lg_size s"
    using r by (simp_all add: restarted_def)
  have g: "log_geom (mem_present r) r"
    using lg(3) r pr by (simp add: restarted_def log_geom_def)
  have "0 \<le> sint (field32 0 (memdisk r ?st)) \<and>
      (head_list (memdisk r ?st) = [] \<or> head_list (memdisk r ?st) = ?bs)"
    by (rule crash_head[where d = "memdisk s", OF lg(1,2) c0 p]) (simp add: rs)
  moreover have "txn_ok (mem_present s) s" using inv by (simp add: log_inv_def)
  ultimately have "head_ok (mem_present r) ?st (lg_size s) (memdisk r ?st)"
    using lg(1,3) pr by (auto simp: head_ok_def loggable_def txn_ok_def log_geom_def)
  then obtain u where u: "recover_from_log iderw r = Inr u" "storage_inv u"
    "memdisk u = recover_disk ?st (memdisk r)" "disk_view u = memdisk u"
    using dl.recover_ok[OF rs(1-3) g] rs(5,6) by auto
  have "(\<forall>b. b \<notin> log_blocks s \<longrightarrow> recover_disk ?st (apply_writes (memdisk s) vs) b = memdisk s b)
    \<or> (\<forall>b. b \<notin> log_blocks s \<longrightarrow> recover_disk ?st (apply_writes (memdisk s) vs) b
          = updated ?bs (disk_view s) (memdisk s) b)"
    by (rule crash_prefix[where d = "memdisk s", OF lg(1,2) head_list_clear[OF c0] p])
  then show ?thesis using u rs(4) view_updated[OF inv l] by (intro exI[of _ u]) auto
qed

section \<open>A machine after boot\<close>

text \<open>
  A concrete state for the examples: zeroed buffers after \<open>binit\<close>, one running process, a disk
  of 1000 zero blocks with the log at block 2, and one operation begun.
\<close>

definition zero_buf :: buf where
  "zero_buf = \<lparr>b_flags = 0, b_dev = 0, b_blockno = 0,
     b_lock = \<lparr>sl_locked = False, sl_name = [], sl_pid = 0\<rparr>, b_refcnt = 0, b_prev = 0, b_next = 0,
     b_qnext = None, b_data = replicate 512 0\<rparr>"

definition zero_machine_with :: "'a \<Rightarrow> 'a logst_scheme" where
  "zero_machine_with x = \<lparr>held = {}, ptable = [\<lparr>p_state = RUNNING, p_pid = 1, p_chan = Nochan, p_killed = False,
     p_cwd = 0, p_name = []\<rparr>], curproc = Some 0, mem = \<lambda>_. 0, use_lock = False, freelist = 0, bufs = \<lambda>_. zero_buf, disksize = 1000,
     memdisk = \<lambda>_. replicate 512 0, writes = [], lg_start = 2, lg_size = 30, lg_outstanding = 1,
     lg_committing = False, lg_dev = 1, lh_n = 0, lh_block = replicate 30 0, \<dots> = x\<rparr>"

definition booted_with :: "'a \<Rightarrow> 'a logst_scheme" where
  "booted_with x = binit (zero_machine_with x)"

abbreviation zero_machine :: logst where "zero_machine \<equiv> zero_machine_with ()"
abbreviation booted :: logst where "booted \<equiv> booted_with ()"

lemma booted_with_fields:
  "held (booted_with x) = {}" "has_proc (booted_with x)" "disksize (booted_with x) = 1000" "memdisk (booted_with x) = (\<lambda>_. replicate 512 0)"
  "writes (booted_with x) = []" "lg_start (booted_with x) = 2" "lg_size (booted_with x) = 30" "lg_outstanding (booted_with x) = 1"
  "\<not> lg_committing (booted_with x)" "lg_dev (booted_with x) = 1" "lh_n (booted_with x) = 0" "lh_block (booted_with x) = replicate 30 0"
proof -
  have m: "bcache.more (booted_with x) = bcache.more (zero_machine_with x)" by (simp add: booted_with_def binit_frame)
  note d = same_drv_more[OF m, unfolded same_drv_def] and l = log_more_same[OF diskst_more_same[OF m]]
  have z: "held (zero_machine_with x) = {}" "disksize (zero_machine_with x) = 1000"
    "memdisk (zero_machine_with x) = (\<lambda>_. replicate 512 0)" "writes (zero_machine_with x) = []" "lg_start (zero_machine_with x) = 2"
    "lg_size (zero_machine_with x) = 30" "lg_outstanding (zero_machine_with x) = 1" "\<not> lg_committing (zero_machine_with x)"
    "lg_dev (zero_machine_with x) = 1" "lh_n (zero_machine_with x) = 0" "lh_block (zero_machine_with x) = replicate 30 0"
    "curproc (zero_machine_with x) = Some 0" "length (ptable (zero_machine_with x)) = 1"
    by (simp_all add: zero_machine_with_def)
  show "held (booted_with x) = {}" "has_proc (booted_with x)"
    using z by (simp_all add: booted_with_def binit_frame has_proc_def)
  show "disksize (booted_with x) = 1000" "memdisk (booted_with x) = (\<lambda>_. replicate 512 0)"
    "writes (booted_with x) = []" "lg_start (booted_with x) = 2" "lg_size (booted_with x) = 30" "lg_outstanding (booted_with x) = 1"
    "\<not> lg_committing (booted_with x)" "lg_dev (booted_with x) = 1" "lh_n (booted_with x) = 0" "lh_block (booted_with x) = replicate 30 0"
    using d l z by simp_all
qed

lemma booted_with_empty: "locked_bufs (booted_with x) = {}" "dirty_blocks (booted_with x) = {}" "binv p d (booted_with x)"
  using binit_binv[of "zero_machine_with x"]
  by (simp_all add: booted_with_def) (simp_all add: zero_machine_with_def zero_buf_def)

lemma booted_with_present: "mem_present (booted_with x) ROOTDEV n \<longleftrightarrow> n < 1000"
  by (simp add: mem_present_def booted_with_fields)

lemma log_area_small: "b \<in> log_area 2 30 \<longleftrightarrow> 2 \<le> b \<and> b < (32 :: uint)"
proof -
  have "b \<in> log_area 2 30 \<longleftrightarrow> b - 2 < 30" by (simp add: log_area_def word_less_def)
  also have "\<dots> \<longleftrightarrow> 2 \<le> b \<and> b < 32" by unat_arith auto
  finally show ?thesis .
qed

lemma word32_zeros: "word32 (replicate 4 0) = 0"
  by (simp add: word32_def numeral_eq_Suc)

lemma booted_with_inv: "storage_inv (booted_with x)"
proof -
  have "field32 0 (replicate 512 0 :: block) = 0"
    by (simp add: field32_def take_replicate word32_zeros)
  moreover have "\<forall>b\<in>log_area 2 30. (b :: uint) < 1000"
  proof
    fix b :: uint assume "b \<in> log_area 2 30"
    then have "b < 32" by (simp only: log_area_small)
    then show "b < 1000" by (rule less_trans) simp
  qed
  moreover have "mem_ready (booted_with x)" by (simp add: mem_ready_def booted_with_fields)
  ultimately show ?thesis
    by (simp add: log_inv_def cache_ok_def booted_with_fields booted_with_empty booted_with_present log_geom_def
        txn_ok_def pinned_def logged_def)
qed

lemmas booted_fields = booted_with_fields[of "()"]
lemmas booted_empty = booted_with_empty[where x = "()"]
lemmas booted_present = booted_with_present[of "()"]
lemmas booted_inv = booted_with_inv[of "()"]

text \<open>One logged update of block 100.\<close>

lemma updated_machine:
  "\<exists>v :: logst. storage_inv v \<and> locked_bufs v = {} \<and> logged v = [100] \<and> lg_outstanding v = 1
    \<and> \<not> lg_committing v \<and> disk_view v 100 = replicate 512 7 \<and> memdisk v = memdisk booted
    \<and> lg_start v = 2 \<and> lg_size v = 30 \<and> mem_present v = mem_present booted"
proof -
  have p: "mem_present booted ROOTDEV 100" "100 \<notin> log_blocks booted"
    by (simp_all add: booted_present booted_fields log_area_small)
  have g: "1 \<le> lg_outstanding booted" "lh_n booted < lg_size booted - 1" by (simp_all add: booted_fields)
  have "\<exists>v :: logst. storage_inv v \<and> locked_bufs v = {}
    \<and> disk_view v = (disk_view booted)(100 := replicate 512 7) \<and> memdisk v = memdisk booted
    \<and> mem_present v = mem_present booted \<and> logged v = log_add 100 (logged booted)
    \<and> lg_outstanding v = lg_outstanding booted \<and> lg_committing v = lg_committing booted
    \<and> lg_start v = lg_start booted \<and> lg_size v = lg_size booted"
  proof (rule dl.update_block[OF booted_inv p _ _ g, of "replicate 512 7"])
    fix i t u and v :: logst
    assume "storage_inv v" "locked_bufs v = locked_bufs booted"
      "disk_view v = (disk_view booted)(100 := replicate 512 7)" "memdisk v = memdisk booted"
      "mem_present v = mem_present booted" "logged v = log_add 100 (logged booted)"
      "lg_outstanding v = lg_outstanding booted" "lg_committing v = lg_committing booted"
      "lg_start v = lg_start booted" "lg_size v = lg_size booted"
    then show ?thesis unfolding booted_empty(1) by (intro exI[of _ v] conjI)
  qed (simp_all add: booted_empty)
  then show ?thesis
    by (rule ex_forward) (auto simp: booted_fields logged_def log_add_def)
qed

section \<open>Properties\<close>

text \<open>
  C1 (crash atomicity). The \<open>end_op\<close> of the last running operation returns, and if the machine
  stops after any prefix of the block writes it made and restarts, recovery succeeds and
  every block outside the log reads as before the transaction, or every one as after it.
\<close>

theorem end_op_crash_atomic:
  assumes "storage_inv s" "locked_bufs s = {}" "lg_outstanding s = 1" "\<not> lg_committing s"
  shows "\<exists>t ws. end_op iderw s = Inr t \<and> writes t = writes s @ ws
    \<and> memdisk t = apply_writes (memdisk s) ws
    \<and> (\<forall>vs r. prefix vs ws \<and> restarted s vs r \<longrightarrow>
         (\<exists>u. recover_from_log iderw r = Inr u \<and> storage_inv u
           \<and> ((\<forall>b. b \<notin> log_blocks s \<longrightarrow> disk_view u b = memdisk s b)
            \<or> (\<forall>b. b \<notin> log_blocks s \<longrightarrow> disk_view u b = disk_view s b))))"
proof -
  let ?cw = "commit_writes (lg_start s) (logged s) (disk_view s) (memdisk s (lg_start s))"
  obtain t where t: "end_op iderw s = Inr t"
    "writes t = writes s @ (if logged s = [] then [] else ?cw)"
    "memdisk t = apply_writes (memdisk s) (if logged s = [] then [] else ?cw)"
    using dl.end_op_commits[OF assms] by blast
  have "prefix vs ?cw" if "prefix vs (if logged s = [] then [] else ?cw)" for vs
    using that by (auto split: if_splits)
  then show ?thesis using t restarted_recovers[OF assms(1,2)] by blast
qed

lemma end_op_crash_atomic_witness:
  "\<exists>s :: logst. storage_inv s \<and> locked_bufs s = {} \<and> lg_outstanding s = 1 \<and> \<not> lg_committing s
    \<and> logged s = [100] \<and> disk_view s 100 \<noteq> memdisk s 100
    \<and> (\<exists>t ws. end_op iderw s = Inr t \<and> writes t = writes s @ ws
        \<and> (\<exists>u. recover_from_log iderw booted = Inr u
            \<and> ((\<forall>b. b \<notin> log_blocks s \<longrightarrow> disk_view u b = memdisk s b)
             \<or> (\<forall>b. b \<notin> log_blocks s \<longrightarrow> disk_view u b = disk_view s b))))"
proof -
  obtain v :: logst where v: "storage_inv v" "locked_bufs v = {}" "logged v = [100]" "lg_outstanding v = 1"
    "\<not> lg_committing v" "disk_view v 100 = replicate 512 7" "memdisk v = memdisk booted"
    "lg_start v = 2" "lg_size v = 30" "mem_present v = mem_present booted"
    using updated_machine by blast
  have "lg_dev v = lg_dev booted" using v(1) booted_inv by (simp add: log_inv_def log_geom_def)
  then have r: "restarted v [] booted"
    using v booted_inv by (simp add: restarted_def booted_fields booted_empty log_inv_def)
  have "disk_view v 100 \<noteq> memdisk v 100" using v(6,7) by (simp add: booted_fields)
  moreover obtain t ws where "end_op iderw v = Inr t" "writes t = writes v @ ws"
    "\<exists>u. recover_from_log iderw booted = Inr u
       \<and> ((\<forall>b. b \<notin> log_blocks v \<longrightarrow> disk_view u b = memdisk v b)
        \<or> (\<forall>b. b \<notin> log_blocks v \<longrightarrow> disk_view u b = disk_view v b))"
    using end_op_crash_atomic[OF v(1,2,4,5)] r by (metis Nil_prefix)
  ultimately show ?thesis using v by blast
qed

text \<open>
  C4 (commit). The last \<open>end_op\<close> of a transaction never panics or blocks: it writes the log
  slots, the header, the home blocks and the cleared header, in this order and nothing else,
  ends with an empty transaction and no operation running, and changes the contents of no
  block outside the log.
\<close>

theorem end_op_commits_transaction:
  assumes "storage_inv s" "locked_bufs s = {}" "lg_outstanding s = 1" "\<not> lg_committing s"
    and "logged s \<noteq> []"
  shows "\<exists>t. end_op iderw s = Inr t \<and> storage_inv t \<and> locked_bufs t = {} \<and> logged t = []
    \<and> lg_outstanding t = 0 \<and> \<not> lg_committing t
    \<and> writes t = writes s @ log_part (lg_start s) (logged s) (disk_view s)
        @ [(lg_start s, put_head (logged s) (memdisk s (lg_start s)))]
        @ map (\<lambda>b. (b, disk_view s b)) (logged s)
        @ [(lg_start s, put_head [] (put_head (logged s) (memdisk s (lg_start s))))]
    \<and> (\<forall>b. b \<notin> log_blocks s \<longrightarrow> disk_view t b = disk_view s b)"
  using dl.end_op_commits[OF assms(1-4)] assms(5)
  by (clarsimp simp: commit_writes_def)

lemma end_op_commits_transaction_witness:
  "\<exists>s t :: logst. storage_inv s \<and> logged s = [100] \<and> end_op iderw s = Inr t \<and> logged t = []
    \<and> length (writes t) = length (writes s) + 4"
proof -
  obtain v :: logst where v: "storage_inv v" "locked_bufs v = {}" "logged v = [100]" "lg_outstanding v = 1"
    "\<not> lg_committing v"
    using updated_machine by blast
  have "logged v \<noteq> []" using v(3) by simp
  from end_op_commits_transaction[OF v(1,2,4,5) this] show ?thesis
    using v(1,3) by (auto simp: log_part_def)
qed

text \<open>
  C26 (log absorption). Between \<open>begin_op\<close> and \<open>end_op\<close>, with room in the log, \<open>log_write\<close> of a
  locked buffer outside the log adds its block to the transaction once, pins the buffer and
  keeps the invariant; neither the disk nor what readers see changes.
\<close>

theorem log_write_absorbs:
  assumes "storage_inv s" "owns s i n d" "n \<notin> log_blocks s"
    and "1 \<le> lg_outstanding s" "lh_n s < lg_size s - 1"
  shows "\<exists>t. log_write i s = Inr t \<and> storage_inv t
    \<and> logged t = (if n \<in> set (logged s) then logged s else logged s @ [n])
    \<and> lh_n t = int (length (logged t)) \<and> owns t i n d \<and> dirty_blocks t = set (logged t)
    \<and> locked_bufs t = locked_bufs s \<and> disk_view t = disk_view s
    \<and> memdisk t = memdisk s \<and> writes t = writes s"
  using dl.log_write_ok[OF assms] by (auto simp: log_add_def log_inv_def pinned_def)

lemma log_write_absorbs_witness:
  "\<exists>(s :: logst) t i. log_write i s = Inr t \<and> logged s = [] \<and> logged t = [100] \<and> storage_inv t"
proof -
  have p: "mem_present booted ROOTDEV 100" "100 \<notin> log_blocks booted"
    by (simp_all add: booted_present booted_fields log_area_small)
  have ok: "cache_inv booted" using booted_inv by (simp add: log_inv_def)
  obtain i t where t: "cache_inv t" "device_same mem_present memdisk writes booted t" "owns t i 100 (disk_view booted 100)"
    "dirty_blocks t = dirty_blocks booted"
    by (rule dl.fetch[OF ok p(1)]) (simp_all add: booted_empty)
  have m: "diskst.more t = diskst.more booted" using t(2) by (simp add: device_same_def)
  note lm = log_more_same[OF m] log_defs_same[OF m]
  have inv: "storage_inv t" by (rule dl.inv_same[OF booted_inv t(1,2,4)])
  have c: "100 \<notin> log_blocks t" "1 \<le> lg_outstanding t" "lh_n t < lg_size t - 1"
    using lm p(2) by (simp_all add: booted_fields)
  obtain u where u: "log_write i t = Inr u" "storage_inv u"
    "logged u = (if 100 \<in> set (logged t) then logged t else logged t @ [100])"
    using log_write_absorbs[OF inv t(3) c] by blast
  have "logged t = []" using lm by (simp add: booted_fields logged_def)
  then show ?thesis using u by auto
qed

text \<open>
  C31 (recovery at boot). On a disk whose superblock and log header are well formed, \<open>initlog\<close>
  succeeds: the blocks the header lists get the contents of their log slots, the header is
  cleared, and the machine starts with an empty transaction that agrees with the disk.
\<close>

theorem initlog_recovers:
  fixes s :: "'a logst_scheme"
  assumes "cache_inv s" "locked_bufs s = {}" "dirty_blocks s = {}" "mem_present s ROOTDEV 1"
    and "sb = decode_sb (memdisk s 1)"
    and "log_geom (mem_present s) (s\<lparr>lg_start := sb_logstart sb, lg_size := sint (sb_nlog sb),
           lg_dev := ROOTDEV\<rparr>)"
    and "head_ok (mem_present s) (sb_logstart sb) (sint (sb_nlog sb)) (memdisk s (sb_logstart sb))"
  shows "\<exists>t. initlog iderw ROOTDEV s = Inr t \<and> storage_inv t \<and> logged t = []
    \<and> disk_view t = memdisk t \<and> head_list (memdisk t (sb_logstart sb)) = []
    \<and> (\<forall>b. b \<notin> set (head_list (memdisk s (sb_logstart sb))) \<and> b \<noteq> sb_logstart sb \<longrightarrow>
           memdisk t b = memdisk s b)
    \<and> (distinct (head_list (memdisk s (sb_logstart sb))) \<longrightarrow>
         (\<forall>k < length (head_list (memdisk s (sb_logstart sb))).
           memdisk t (head_list (memdisk s (sb_logstart sb)) ! k)
             = memdisk s (slot_at (sb_logstart sb) k)))"
proof -
  let ?st = "sb_logstart sb" and ?bs = "head_list (memdisk s (sb_logstart sb))"
  obtain t where t: "initlog iderw ROOTDEV s = Inr t" "storage_inv t" "logged t = []"
    "memdisk t = recover_disk ?st (memdisk s)" "disk_view t = memdisk t" "lg_start t = ?st"
    using dl.initlog_ok[OF assms] by blast
  have "head_list (memdisk t ?st) = []"
    using t(2,6) by (intro head_list_clear) (simp add: log_inv_def)
  moreover have "memdisk t b = memdisk s b" if "b \<notin> set ?bs" "b \<noteq> ?st" for b
    using recover_disk_other[where d = "memdisk s", OF refl that] t(4) by simp
  moreover have "memdisk t (?bs ! k) = memdisk s (slot_at ?st k)" if "distinct ?bs" "k < length ?bs" for k
  proof -
    have "loggable ?st (sint (sb_nlog sb)) ?bs"
      using that(1) assms(6,7) by (auto simp: loggable_def head_ok_def log_geom_def)
    then show ?thesis
      using recover_disk_logged[where d = "memdisk s", OF _ refl that(2)] t(4) by simp
  qed
  ultimately show ?thesis using t by blast
qed

definition fresh_disk :: "uint \<Rightarrow> block" where
  "fresh_disk n = (if n = 1 then put32 3 30 (put32 4 2 (replicate 512 0)) else replicate 512 0)"

lemma fresh_disk_sb: "sb_logstart (decode_sb (fresh_disk 1)) = 2" "sb_nlog (decode_sb (fresh_disk 1)) = 30"
  by (simp_all add: fresh_disk_def decode_sb_def)

lemma initlog_recovers_witness:
  "\<exists>t. initlog iderw ROOTDEV (booted\<lparr>memdisk := fresh_disk\<rparr>) = Inr t \<and> storage_inv t \<and> logged t = []"
proof -
  let ?s = "booted\<lparr>memdisk := fresh_disk\<rparr>" and ?sb = "decode_sb (fresh_disk 1)"
  have e: "binv p d ?s = binv p d booted" "locked_bufs ?s = {}" "dirty_blocks ?s = {}" for p d
    using booted_empty by (simp_all add: binv_def blist_def keys_ok_def locked_bufs_def dirty_blocks_def)
  have "mem_ready ?s" by (simp add: mem_ready_def fresh_disk_def)
  then have c: "cache_inv ?s" using booted_empty(3) by (simp add: cache_ok_def e booted_fields)
  have z: "field32 0 (replicate 512 0 :: block) = 0"
    by (simp add: field32_def take_replicate word32_zeros)
  have pr: "mem_present ?s ROOTDEV n \<longleftrightarrow> n < 1000" for n by (simp add: mem_present_def booted_fields)
  have s30: "sint (sb_nlog ?sb) = 30" by (simp add: fresh_disk_sb)
  have small: "b \<in> log_area 2 30 \<Longrightarrow> b < 1000" for b :: uint
    using log_area_small[of b] by (auto elim: less_trans)
  have g: "log_geom (mem_present ?s) (?s\<lparr>lg_start := sb_logstart ?sb, lg_size := sint (sb_nlog ?sb), lg_dev := ROOTDEV\<rparr>)"
    using small by (simp add: log_geom_def pr fresh_disk_sb booted_fields)
  have h: "head_ok (mem_present ?s) (sb_logstart ?sb) (sint (sb_nlog ?sb)) (memdisk ?s (sb_logstart ?sb))"
  proof -
    have "memdisk ?s (sb_logstart ?sb) = replicate 512 0"
      by (simp add: fresh_disk_sb) (simp add: fresh_disk_def)
    then show ?thesis by (simp add: head_ok_def s30 z head_list_clear del: bcache.simps)
  qed
  show ?thesis
    using initlog_recovers[OF c e(2,3) _ _ g h] pr by auto
qed

text \<open>
  A machine that is about to recover: a clean cache, the log's variables, and a header on the disk that may
  list a committed transaction. Recovery may itself be interrupted, after any prefix of the writes it makes.
\<close>

abbreviation pending :: "'a logst_scheme \<Rightarrow> uint list" where
  "pending s \<equiv> head_list (memdisk s (lg_start s))"

definition recoverable :: "'a logst_scheme \<Rightarrow> bool" where
  "recoverable s \<longleftrightarrow> cache_inv s \<and> locked_bufs s = {} \<and> dirty_blocks s = {} \<and> log_geom (mem_present s) s
     \<and> head_ok (mem_present s) (lg_start s) (lg_size s) (memdisk s (lg_start s)) \<and> distinct (pending s)"

definition recovery_crash :: "'a logst_scheme \<Rightarrow> 'a logst_scheme \<Rightarrow> bool" where
  "recovery_crash s r \<longleftrightarrow> (\<exists>t ws vs. recover_from_log iderw s = Inr t \<and> writes t = writes s @ ws
     \<and> prefix vs ws \<and> restarted s vs r)"

lemma recoverable_loggable:
  assumes "recoverable s"
  shows "loggable (lg_start s) (lg_size s) (pending s)" "length (memdisk s (lg_start s)) = BSIZE" "lg_start s \<notin> set (pending s)"
proof -
  have g: "log_geom (mem_present s) s" and c: "cache_inv s" using assms by (simp_all add: recoverable_def)
  show l: "loggable (lg_start s) (lg_size s) (pending s)"
    using assms by (auto simp: recoverable_def loggable_def head_ok_def log_geom_def)
  show "lg_start s \<notin> set (pending s)" using loggableD(4)[OF l] by simp
  have "mem_present s ROOTDEV (lg_start s)" using g by (auto simp: log_geom_def)
  then show "length (memdisk s (lg_start s)) = BSIZE" using c mem.disk_length by (auto simp: cache_ok_def)
qed

lemma recoverable_recovers:
  assumes "recoverable s"
  obtains t where "recover_from_log iderw s = Inr t" "storage_inv t" "logged t = []"
    "writes t = writes s @ recover_writes (lg_start s) (memdisk s)" "disk_view t = recover_disk (lg_start s) (memdisk s)"
  using dl.recover_ok[of s] assms unfolding recoverable_def by metis

text \<open>Every interrupted recovery leaves a disk that recovers to the same contents.\<close>

definition recovering :: "'a logst_scheme \<Rightarrow> 'a logst_scheme \<Rightarrow> bool" where
  "recovering s r \<longleftrightarrow> recoverable r \<and> lg_start r = lg_start s \<and> lg_size r = lg_size s
     \<and> (\<forall>b. b \<notin> log_blocks s \<longrightarrow> recover_disk (lg_start s) (memdisk r) b = recover_disk (lg_start s) (memdisk s) b)"

lemma recovering_step:
  assumes s: "recovering s r" and c: "recovery_crash r q"
  shows "recovering s q"
proof -
  let ?st = "lg_start r"
  have r: "recoverable r" using s by (simp add: recovering_def)
  obtain vs where p: "prefix vs (recover_writes ?st (memdisk r))" and q: "restarted r vs q"
    using c recoverable_recovers[OF r] unfolding recovery_crash_def by (metis Inr_inject same_append_eq)
  note l = recoverable_loggable[OF r]
  have m: "memdisk q = apply_writes (memdisk r) vs" "mem_present q = mem_present r" "lg_start q = ?st" "lg_size q = lg_size r"
    using q by (simp_all add: restarted_def)
  have h: "memdisk q ?st = memdisk r ?st \<or> memdisk q ?st = put_head [] (memdisk r ?st)"
    unfolding m(1) by (rule recover_prefix_header[OF l(3) p])
  moreover have "head_list (put_head [] (memdisk r ?st)) = []" "field32 0 (put_head [] (memdisk r ?st)) = 0"
    using l(2) by (simp_all add: head_list_put_head field32_put_head)
  ultimately have "head_ok (mem_present q) ?st (lg_size q) (memdisk q ?st) \<and> distinct (head_list (memdisk q ?st))"
    using r m by (auto simp: recoverable_def head_ok_def log_geom_def)
  moreover have "log_geom (mem_present q) q" using r q by (simp add: recoverable_def restarted_def log_geom_def)
  ultimately have "recoverable q" using q m(3) by (simp add: recoverable_def restarted_def)
  then show ?thesis
    using s m(1,3,4) recover_again[OF l(1,2) p] by (simp add: recovering_def)
qed

interpretation rec: transition_system "\<lambda>r. r = s \<and> recoverable s" recovery_crash "recovering s" for s :: "'a logst_scheme"
  by unfold_locales (simp add: recovering_def, rule recovering_step)

text \<open>
  C2 (recovery can be interrupted). A machine whose log holds a committed transaction stops during recovery, after any
  prefix of the block writes that \<open>recover_from_log\<close> makes, restarts and stops again during the next recovery, any number
  of times. The recovery that is let through succeeds, and every block outside the log then has
  what one undisturbed recovery gives it: a block of the transaction has the contents of its log slot, every other
  block what it had before.
\<close>

theorem recovery_restartable:
  assumes "recoverable s" "recovery_crash\<^sup>*\<^sup>* s r"
  shows "\<exists>t u. recover_from_log iderw s = Inr t \<and> recover_from_log iderw r = Inr u \<and> storage_inv u \<and> logged u = []
    \<and> (\<forall>b. b \<notin> log_blocks s \<longrightarrow> disk_view u b = disk_view t b)
    \<and> (\<forall>k < length (pending s). disk_view u (pending s ! k) = memdisk s (slot_at (lg_start s) k))
    \<and> (\<forall>b. b \<notin> log_blocks s \<longrightarrow> b \<notin> set (pending s) \<longrightarrow> disk_view u b = memdisk s b)"
proof -
  let ?st = "lg_start s"
  have "recovering s r" by (rule rec.run_inv[OF assms(2)]) (use assms(1) in \<open>simp add: recovering_def\<close>)
  then have r: "recoverable r" "lg_start r = ?st"
    "\<And>b. b \<notin> log_blocks s \<Longrightarrow> recover_disk ?st (memdisk r) b = recover_disk ?st (memdisk s) b"
    by (simp_all add: recovering_def)
  obtain t where t: "recover_from_log iderw s = Inr t" "disk_view t = recover_disk ?st (memdisk s)"
    by (rule recoverable_recovers[OF assms(1)])
  obtain u where u: "recover_from_log iderw r = Inr u" "storage_inv u" "logged u = []" "disk_view u = recover_disk ?st (memdisk r)"
    by (rule recoverable_recovers[OF r(1)]) (simp add: r(2))
  note l = recoverable_loggable(1)[OF assms(1)]
  have v: "disk_view u b = recover_disk ?st (memdisk s) b" if "b \<notin> log_blocks s" for b
    using r(3)[OF that] by (simp add: u(4))
  have "disk_view u (pending s ! k) = memdisk s (slot_at ?st k)" if k: "k < length (pending s)" for k
    using v[of "pending s ! k"] recover_disk_logged[where d = "memdisk s", OF l refl k] loggableD(6)[OF l] nth_mem[OF k] by auto
  moreover have "disk_view u b = memdisk s b" if b: "b \<notin> log_blocks s" "b \<notin> set (pending s)" for b
    using v[OF b(1)] recover_disk_other[where d = "memdisk s", OF refl b(2)] b(1) start_in_area[OF loggableD(2)[OF l], of ?st] by auto
  ultimately show ?thesis using t u(1-3) v by auto
qed

text \<open>
  A disk whose log holds block 100, full of sevens, in its first slot; the machine stops after the block is installed and before
  the header is cleared.
\<close>

definition pending_disk :: "uint \<Rightarrow> block" where
  "pending_disk n = (if n = 2 then put_head [100] (replicate 512 0) else if n = 3 then replicate 512 7 else replicate 512 0)"

lemma disk_machine:
  assumes "\<And>n. length (d n) = BSIZE"
  shows "cache_inv (booted\<lparr>memdisk := d\<rparr>)" "locked_bufs (booted\<lparr>memdisk := d\<rparr>) = {}" "dirty_blocks (booted\<lparr>memdisk := d\<rparr>) = {}"
    "log_geom (mem_present (booted\<lparr>memdisk := d\<rparr>)) (booted\<lparr>memdisk := d\<rparr>)" "mem_present (booted\<lparr>memdisk := d\<rparr>) = mem_present booted"
proof -
  let ?s = "booted\<lparr>memdisk := d\<rparr>"
  have e: "binv p f ?s = binv p f booted" "locked_bufs ?s = {}" "dirty_blocks ?s = {}" for p f
    using booted_empty by (simp_all add: binv_def blist_def keys_ok_def locked_bufs_def dirty_blocks_def)
  have "mem_ready ?s" using assms by (simp add: mem_ready_def)
  then show "cache_inv ?s" using booted_empty(3) by (simp add: cache_ok_def e booted_fields)
  show m: "mem_present ?s = mem_present booted" by (simp add: mem_present_def fun_eq_iff)
  show "log_geom (mem_present ?s) ?s" using booted_inv unfolding m by (simp add: log_inv_def log_geom_def)
qed (simp_all add: locked_bufs_def dirty_blocks_def booted_empty[unfolded locked_bufs_def dirty_blocks_def])

lemma recovery_restartable_witness:
  "\<exists>(s :: logst) r t u. recovery_crash s r \<and> memdisk s 100 = replicate 512 0 \<and> recover_from_log iderw s = Inr t
     \<and> recover_from_log iderw r = Inr u \<and> disk_view t 100 = replicate 512 7 \<and> disk_view u 100 = replicate 512 7"
proof -
  let ?h = "put_head [100] (replicate 512 0) :: block" and ?d = "pending_disk(100 := replicate 512 7)"
  let ?s = "booted\<lparr>memdisk := pending_disk\<rparr>" and ?r = "booted\<lparr>memdisk := ?d\<rparr>"
  have h: "head_list ?h = [100]" "length ?h = BSIZE" "field32 0 ?h = 1"
    by (simp_all add: head_list_put_head field32_put_head)
  have l: "length (pending_disk n) = BSIZE" "length (?d n) = BSIZE" for n using h(2) by (simp_all add: pending_disk_def)
  have d: "lg_start ?s = 2" "lg_size ?s = 30" "memdisk ?s 2 = ?h" by (simp_all add: booted_fields) (simp_all add: pending_disk_def)
  have p: "pending ?s = [100]" by (simp only: d h)
  note M = disk_machine[of pending_disk, OF l(1)] and N = disk_machine[of ?d, OF l(2)]
  have "head_ok (mem_present ?s) (lg_start ?s) (lg_size ?s) (memdisk ?s (lg_start ?s))"
    unfolding head_ok_def d h M(5) by (simp add: booted_present log_area_small)
  then have s: "recoverable ?s" using M(1-4) unfolding recoverable_def p by simp
  obtain t where t: "recover_from_log iderw ?s = Inr t" "writes t = writes ?s @ recover_writes 2 pending_disk"
    by (rule recoverable_recovers[OF s]) (simp add: d)
  have "prefix [(100, replicate 512 7)] (recover_writes 2 pending_disk)"
    by (simp add: recover_writes_def home_part_def slot_at_def pending_disk_def h)
  moreover have "restarted ?s [(100, replicate 512 7)] ?r"
    using N booted_inv by (simp add: restarted_def M(5) booted_fields log_inv_def log_geom_def)
  ultimately have c: "recovery_crash ?s ?r" using t unfolding recovery_crash_def by blast
  have "slot_at 2 0 = 3" "pending_disk 3 = replicate 512 7" "pending_disk 100 = replicate 512 0"
    by (simp_all add: slot_at_def pending_disk_def)
  then obtain t' u where "recover_from_log iderw ?s = Inr t'" "recover_from_log iderw ?r = Inr u"
    "disk_view u 100 = disk_view t' 100" "disk_view u 100 = replicate 512 7"
    using recovery_restartable[OF s r_into_rtranclp[of recovery_crash, OF c]] unfolding p by (auto simp: d log_area_small)
  then show ?thesis using c \<open>pending_disk 100 = _\<close> by (intro exI[of _ ?s] exI[of _ ?r] exI[of _ t'] exI[of _ u]) simp
qed

text \<open>
  Header round trip. Reading back the header that \<open>write_head\<close> stores gives the block
  list, for every list that fits the array.
\<close>

theorem header_roundtrip:
  assumes "length d = BSIZE" "length bs \<le> LOGSIZE"
  shows "head_list (put_head bs d) = bs \<and> length (put_head bs d) = BSIZE"
  using assms by (simp_all add: head_list_put_head)

lemma header_roundtrip_witness:
  "head_list (put_head [7, 9, 11] (replicate 512 255)) = [7, 9, 11]"
  by (rule header_roundtrip[THEN conjunct1]) simp_all

text \<open>
  C32 (reading a block). For an existing block that nobody holds, with a buffer to spare, \<open>bread\<close>
  returns a buffer that was not in use, locked for the caller, with the block's current
  contents: the cached ones if it is cached, else the disk's. Nothing a reader sees changes.
\<close>

theorem bread_returns_contents:
  assumes "cache_inv s" "mem_present s ROOTDEV n" "unlocked_block s n"
    and "card (dirty_blocks s) + card (locked_bufs s) < NBUF \<or> n \<in> dirty_blocks s"
  shows "\<exists>i t. bread iderw ROOTDEV n s = Inr (i, t) \<and> cache_inv t \<and> i < NBUF \<and> i \<notin> locked_bufs s
    \<and> locked_bufs t = insert i (locked_bufs s) \<and> b_blockno (bufs t i) = n
    \<and> b_data (bufs t i) = disk_view s n \<and> disk_view t = disk_view s
    \<and> memdisk t = memdisk s \<and> writes t = writes s \<and> dirty_blocks t = dirty_blocks s"
proof -
  have b: "binv (mem_present s) (memdisk s) s" using assms(1) by (simp add: cache_ok_def)
  have r: "room_for s n" using assms(4) room_for_free[OF b] room_for_dirty[OF b] by blast
  show ?thesis using mem.bread_ok[OF assms(1-3) r] by (auto simp: device_same_def owns_def)
qed

lemma bread_returns_contents_witness:
  "\<exists>i t. bread iderw ROOTDEV 100 booted = Inr (i, t) \<and> b_data (bufs t i) = disk_view booted 100
    \<and> locked_bufs t = {i}"
proof -
  have c: "cache_inv booted" using booted_inv by (simp add: log_inv_def)
  show ?thesis
    using bread_returns_contents[OF c, of 100] booted_present[of 100]
    by (auto simp: booted_empty unlocked_block_def)
qed

text \<open>
  Write through: \<open>bwrite\<close> of a locked buffer writes exactly that block to the disk and
  cleans the buffer; it keeps the lock and changes nothing a reader sees. Without the lock it
  panics.
\<close>

theorem bwrite_writes_through:
  assumes "cache_inv s" "i < NBUF" "b_dev (bufs s i) = ROOTDEV"
  shows "if i \<in> locked_bufs s then
      (\<exists>t. bwrite iderw i s = Inr t \<and> cache_inv t
        \<and> memdisk t = (memdisk s)(b_blockno (bufs s i) := b_data (bufs s i))
        \<and> writes t = writes s @ [(b_blockno (bufs s i), b_data (bufs s i))]
        \<and> disk_view t = disk_view s \<and> locked_bufs t = locked_bufs s
        \<and> dirty_blocks t = dirty_blocks s - {b_blockno (bufs s i)})
    else bwrite iderw i s = Inl (Panic ''bwrite'')"
proof (cases "i \<in> locked_bufs s")
  case True
  then have "owns s i (b_blockno (bufs s i)) (b_data (bufs s i))"
    using assms by (simp add: owns_def)
  from mem.bwrite_ok[OF assms(1) this] show ?thesis
    using True by (auto simp: device_wrote_def)
next
  case False
  then have "\<not> b_locked (bufs s i)" "held s = {}"
    using assms by (simp_all add: locked_bufs_def cache_ok_def)
  then show ?thesis using False by (simp add: bwrite_def holding_buf_def b_locked_def)
qed

lemma bwrite_writes_through_witness:
  "\<exists>(s :: logst) i t. i \<in> locked_bufs s \<and> bwrite iderw i s = Inr t
    \<and> writes t = writes s @ [(100, disk_view s 100)]"
proof -
  have c: "cache_inv booted" using booted_inv by (simp add: log_inv_def)
  obtain i and t :: logst where t: "cache_inv t" "locked_bufs t = insert i (locked_bufs booted)"
    "owns t i 100 (disk_view booted 100)" "disk_view t = disk_view booted"
    by (rule dl.fetch[OF c, of 100]) (auto simp: booted_present booted_empty)
  have i: "i \<in> locked_bufs t" "b_dev (bufs t i) = ROOTDEV" "b_blockno (bufs t i) = 100"
    "b_data (bufs t i) = disk_view t 100"
    using t by (simp_all add: owns_def)
  obtain u where "bwrite iderw i t = Inr u" "writes u = writes t @ [(100, disk_view t 100)]"
    using bwrite_writes_through[OF t(1) ownsD(1)[OF t(3)] i(2)] i by auto
  then show ?thesis using i(1) by blast
qed

text \<open>
  Recycling: with the buffers listed in the order \<open>xs\<close> of last use, a miss in \<open>bget\<close>
  recycles the least recently used buffer that is neither in use nor dirty: the last such
  entry of \<open>xs\<close>. The buffer comes back locked, for the new block, and not valid.
\<close>

theorem bget_recycles_lru:
  assumes "cache_inv s" "blist s xs" "\<And>j. j < NBUF \<Longrightarrow> \<not> bget_hit dev n (bufs s j)"
    and "j < NBUF" "bget_free (bufs s j)"
  shows "\<exists>i t. find (\<lambda>i. bget_free (bufs s i)) (rev xs) = Some i \<and> bget dev n s = Inr (i, t)
    \<and> b_locked (bufs t i) \<and> b_dev (bufs t i) = dev \<and> b_blockno (bufs t i) = n
    \<and> b_refcnt (bufs t i) = 1 \<and> b_flags (bufs t i) = 0"
proof -
  have u: "\<not> b_locked (bufs s i)" if "i < NBUF" "bget_free (bufs s i)" for i
    using assms(1) that by (auto simp: cache_ok_def binv_def buf_ok_def bget_free_def)
  have h: "held s = {}" "has_proc s" using assms(1) by (simp_all add: cache_ok_def)
  show ?thesis using bget_recycle[OF assms(2) h assms(3-5) u] by fastforce
qed

lemma bget_recycles_lru_witness:
  "\<exists>t. bget 1 100 booted = Inr (0, t) \<and> b_locked (bufs t 0)"
proof -
  have l: "blist booted (rev [0..<NBUF])" by (simp add: booted_with_def binit_blist)
  have f: "b_flags (bufs booted i) = 0" "b_dev (bufs booted i) = 0" "b_refcnt (bufs booted i) = 0" if "i < NBUF" for i
    using payload_eqD[OF binit_frame(5)[OF that, of zero_machine]]
    by (simp_all add: booted_with_def zero_machine_with_def zero_buf_def)
  have m: "\<not> bget_hit 1 100 (bufs booted j)" if "j < NBUF" for j
    using f(2)[OF that] by (simp add: bget_hit_def)
  have b: "bget_free (bufs booted 0)" using f[of 0] by (simp add: bget_free_def)
  have "find (\<lambda>i. bget_free (bufs booted i)) (rev (rev [0..<NBUF])) = Some 0"
    using b by (simp add: upt_conv_Cons)
  then show ?thesis
    using bget_recycles_lru[OF _ l m, of 0] booted_inv b by (auto simp: log_inv_def)
qed

text \<open>
  The order of use. The \<open>brelse\<close> that drops the last reference to a buffer succeeds and makes
  the buffer the most recently used one; the others keep their order.
\<close>

theorem brelse_moves_to_front:
  assumes "cache_inv s" "blist s xs" "i \<in> locked_bufs s"
  shows "\<exists>t. brelse i s = Inr t \<and> blist t (i # remove1 i xs)"
proof -
  have "i < NBUF" "b_locked (bufs s i)" using assms(3) by (simp_all add: locked_bufs_def)
  moreover have "held s = {}" "b_refcnt (bufs s i) = 1"
    using assms(1) calculation by (auto simp: cache_ok_def binv_def buf_ok_def)
  ultimately show ?thesis using brelse_blist[OF assms(2)] by blast
qed

lemma brelse_moves_to_front_witness:
  "\<exists>(s :: logst) i xs t. brelse i s = Inr t \<and> blist s xs \<and> blist t (i # remove1 i xs)"
proof -
  have c: "cache_inv booted" using booted_inv by (simp add: log_inv_def)
  obtain i and t :: logst where t: "cache_inv t" "i \<in> locked_bufs t"
    by (rule dl.fetch[OF c, of 100]) (auto simp: booted_present booted_empty owns_def)
  obtain xs where "blist t xs" using t(1) by (auto simp: cache_ok_def binv_def)
  then show ?thesis using brelse_moves_to_front[OF t(1) _ t(2)] by blast
qed

text \<open>
  Initialisation. Starting from zeroed memory, \<open>binit\<close> builds a well-formed cache: all
  thirty buffers on the list, none locked, none dirty, none caching a block of the disk.
\<close>

theorem binit_establishes:
  assumes "\<And>i. i < NBUF \<Longrightarrow> b_flags (bufs s i) = 0 \<and> b_dev (bufs s i) = 0 \<and> b_refcnt (bufs s i) = 0"
  shows "binv present d (binit s) \<and> blist (binit s) (rev [0..<NBUF]) \<and> locked_bufs (binit s) = {}
    \<and> dirty_blocks (binit s) = {} \<and> view d (binit s) = d"
proof -
  note b = binit_binv[of s, OF assms]
  have "view d (binit s) n = d n" for n
    using b by (intro view_clean unlocked_blockI) auto
  then show ?thesis using b binit_blist by auto
qed

lemma binit_establishes_witness:
  "view (\<lambda>n. replicate 512 (ucast n)) (binit zero_machine) 77 = replicate 512 77"
  using binit_establishes[of zero_machine "\<lambda>_ _. True" "\<lambda>n. replicate 512 (ucast n)"] by (simp add: zero_machine_with_def zero_buf_def)

text \<open>
  Admission. \<open>begin_op\<close> admits an operation exactly when no commit is running and the log
  has \<open>MAXOPBLOCKS\<close> entries for it and for every operation already admitted; otherwise the
  caller sleeps. Admitting changes nothing but the count.
\<close>

theorem begin_op_admits:
  assumes "storage_inv s"
  shows "begin_op s =
    (if \<not> lg_committing s \<and> lh_n s + (lg_outstanding s + 1) * int MAXOPBLOCKS \<le> int LOGSIZE
     then Inr (s\<lparr>lg_outstanding := lg_outstanding s + 1\<rparr>) else Inl (Blocks ''begin_op''))
    \<and> storage_inv (s\<lparr>lg_outstanding := lg_outstanding s + 1\<rparr>)"
  using dl.begin_op_ok[OF assms] dl.outstanding_inv[OF assms]
  by (auto simp: log_full_def)

lemma begin_op_admits_witness:
  "begin_op booted = Inr (booted\<lparr>lg_outstanding := 2\<rparr>)"
  using begin_op_admits[OF booted_inv] by (simp add: booted_fields)

end
