(* ===== verification/Spinlock.thy ===== *)
theory Spinlock
  imports Machine Memory Proc
begin

text \<open>
  Spin locks (\<open>spinlock.h\<close>, \<open>spinlock.c\<close>, the assembly helpers of \<open>x86.h\<close> they call): the
  operations of one CPU, the proof that they implement the lock set of theory \<open>Proc\<close>, and the
  interleaving of several CPUs down to the single writes, with mutual exclusion.
\<close>

section \<open>State\<close>

text \<open>The fields of \<open>struct cpu\<close> that the locks use, and the interrupt flag of \<open>EFLAGS\<close>.\<close>

record cpu =
  if_flag :: bool
  ncli :: int
  intena :: bool

record spinlock =
  sp_locked :: uint
  sp_name :: string
  sp_cpu :: "nat option"
  sp_pcs :: "uint list"

record smp =
  cpus :: "nat \<Rightarrow> cpu"
  locks :: "lockid \<Rightarrow> spinlock"
  stack :: memory

abbreviation KERNBASE :: uint where "KERNBASE \<equiv> 0x80000000"

section \<open>Operations of CPU \<open>c\<close>\<close>

definition initlock :: "lockid \<Rightarrow> string \<Rightarrow> 'a smp_scheme \<Rightarrow> 'a smp_scheme" where
  "initlock l nm s = s\<lparr>locks := (locks s)(l := (locks s l)\<lparr>sp_locked := 0, sp_name := nm, sp_cpu := None\<rparr>)\<rparr>"

text \<open>\<open>pcs[i] = ebp[1]; ebp = ebp[0]\<close> down the chain of frames, then zeros.\<close>

fun walk_frames :: "nat \<Rightarrow> memory \<Rightarrow> uint \<Rightarrow> uint list" where
  "walk_frames 0 m ebp = []"
| "walk_frames (Suc n) m ebp =
     (if ebp = 0 \<or> ebp < KERNBASE \<or> ebp = 0xffffffff then replicate (Suc n) 0
      else rd32 m (ebp + 4) # walk_frames n m (rd32 m ebp))"

definition getcallerpcs :: "memory \<Rightarrow> uint \<Rightarrow> uint list" where
  "getcallerpcs m v = walk_frames 10 m (v - 8)"

definition holding :: "nat \<Rightarrow> lockid \<Rightarrow> 'a smp_scheme \<Rightarrow> bool" where
  "holding c l s \<longleftrightarrow> sp_locked (locks s l) \<noteq> 0 \<and> sp_cpu (locks s l) = Some c"

definition upd_cpu :: "nat \<Rightarrow> (cpu \<Rightarrow> cpu) \<Rightarrow> 'a smp_scheme \<Rightarrow> 'a smp_scheme" where
  "upd_cpu c f s = s\<lparr>cpus := (cpus s)(c := f (cpus s c))\<rparr>"

definition upd_lock :: "lockid \<Rightarrow> (spinlock \<Rightarrow> spinlock) \<Rightarrow> 'a smp_scheme \<Rightarrow> 'a smp_scheme" where
  "upd_lock l f s = s\<lparr>locks := (locks s)(l := f (locks s l))\<rparr>"

definition pushcli :: "nat \<Rightarrow> 'a smp_scheme \<Rightarrow> 'a smp_scheme" where
  "pushcli c s =
     (let eflags = if_flag (cpus s c);
          s = upd_cpu c (\<lambda>p. p\<lparr>if_flag := False\<rparr>) s;
          s = (if ncli (cpus s c) = 0 then upd_cpu c (\<lambda>p. p\<lparr>intena := eflags\<rparr>) s else s)
      in upd_cpu c (\<lambda>p. p\<lparr>ncli := ncli p + 1\<rparr>) s)"

definition popcli :: "nat \<Rightarrow> 'a smp_scheme \<Rightarrow> 'a smp_scheme res" where
  "popcli c s =
     bind_res (panic_if (if_flag (cpus s c)) ''popcli - interruptible'') (\<lambda>_.
     let s = upd_cpu c (\<lambda>p. p\<lparr>ncli := ncli p - 1\<rparr>) s in
     bind_res (panic_if (ncli (cpus s c) < 0) ''popcli'') (\<lambda>_.
     Inr (if ncli (cpus s c) = 0 then upd_cpu c (\<lambda>p. p\<lparr>if_flag := True\<rparr>) s else s)))"

text \<open>\<open>xchg(&lock->locked, 1)\<close>: the old value, and 1 stored.\<close>

definition xchg_locked :: "lockid \<Rightarrow> 'a smp_scheme \<Rightarrow> uint \<times> 'a smp_scheme" where
  "xchg_locked l s = (sp_locked (locks s l), upd_lock l (\<lambda>k. k\<lparr>sp_locked := 1\<rparr>) s)"

text \<open>
  \<open>acquire\<close> run without interference: while the lock is taken the CPU spins. \<open>v\<close> is the address
  of the parameter, from which the call stack is found.
\<close>

definition spin_acquire :: "nat \<Rightarrow> uint \<Rightarrow> lockid \<Rightarrow> 'a smp_scheme \<Rightarrow> 'a smp_scheme res" where
  "spin_acquire c v l s =
     (let s = pushcli c s in
      bind_res (panic_if (holding c l s) ''acquire'') (\<lambda>_.
      let (old, s) = xchg_locked l s in
      if old \<noteq> 0 then Inl (Blocks ''acquire'')
      else Inr (upd_lock l (\<lambda>k. k\<lparr>sp_cpu := Some c, sp_pcs := getcallerpcs (stack s) v\<rparr>) s)))"

definition spin_release :: "nat \<Rightarrow> lockid \<Rightarrow> 'a smp_scheme \<Rightarrow> 'a smp_scheme res" where
  "spin_release c l s =
     bind_res (panic_if (\<not> holding c l s) ''release'') (\<lambda>_.
     let s = upd_lock l (\<lambda>k. k\<lparr>sp_pcs := (sp_pcs k)[0 := 0]\<rparr>) s;
         s = upd_lock l (\<lambda>k. k\<lparr>sp_cpu := None\<rparr>) s;
         s = upd_lock l (\<lambda>k. k\<lparr>sp_locked := 0\<rparr>) s
     in popcli c s)"

lemma upd_simps [simp]:
  "cpus (upd_cpu c f s) = (cpus s)(c := f (cpus s c))" "locks (upd_cpu c f s) = locks s"
  "stack (upd_cpu c f s) = stack s"
  "locks (upd_lock l g s) = (locks s)(l := g (locks s l))" "cpus (upd_lock l g s) = cpus s"
  "stack (upd_lock l g s) = stack s"
  by (simp_all add: upd_cpu_def upd_lock_def)

section \<open>The lock set\<close>

text \<open>The locks CPU \<open>c\<close> holds, and what every CPU keeps: one \<open>pushcli\<close> per lock, interrupts off.\<close>

definition locks_of :: "nat \<Rightarrow> 'a smp_scheme \<Rightarrow> lockid set" where
  "locks_of c s = {l. holding c l s}"

definition cpu_ok :: "nat \<Rightarrow> 'a smp_scheme \<Rightarrow> bool" where
  "cpu_ok c s \<longleftrightarrow> finite (locks_of c s) \<and> ncli (cpus s c) = int (card (locks_of c s))
     \<and> (locks_of c s \<noteq> {} \<longrightarrow> \<not> if_flag (cpus s c))
     \<and> (\<forall>l. sp_locked (locks s l) = 0 \<longrightarrow> sp_cpu (locks s l) = None)"

lemma pushcli_simps [simp]:
  "ncli (cpus (pushcli c s) c) = ncli (cpus s c) + 1" "\<not> if_flag (cpus (pushcli c s) c)"
  "locks (pushcli c s) = locks s" "stack (pushcli c s) = stack s"
  "c' \<noteq> c \<Longrightarrow> cpus (pushcli c s) c' = cpus s c'"
  "intena (cpus (pushcli c s) c) = (if ncli (cpus s c) = 0 then if_flag (cpus s c) else intena (cpus s c))"
  by (simp_all add: pushcli_def Let_def)

lemma holding_push [simp]: "holding c l (pushcli c' s) = holding c l s"
  by (simp add: holding_def)

lemma locks_of_take:
  assumes "sp_locked (locks s l) = 0 \<or> holding c l s"
  shows "locks_of c (upd_lock l (\<lambda>k. k\<lparr>sp_cpu := Some c, sp_pcs := p\<rparr>)
    (upd_lock l (\<lambda>k. k\<lparr>sp_locked := 1\<rparr>) (pushcli c s))) = insert l (locks_of c s)"
  using assms by (auto simp: locks_of_def holding_def)

lemma spin_acquire_ok:
  assumes ok: "cpu_ok c s" and free: "sp_locked (locks s l) = 0"
  shows "\<exists>t. spin_acquire c v l s = Inr t \<and> locks_of c t = insert l (locks_of c s) \<and> cpu_ok c t"
proof -
  let ?t = "upd_lock l (\<lambda>k. k\<lparr>sp_cpu := Some c, sp_pcs := getcallerpcs (stack s) v\<rparr>)
    (upd_lock l (\<lambda>k. k\<lparr>sp_locked := 1\<rparr>) (pushcli c s))"
  have nh: "l \<notin> locks_of c s" using free by (simp add: locks_of_def holding_def)
  have "spin_acquire c v l s = Inr ?t"
    using free by (simp add: spin_acquire_def xchg_locked_def holding_def)
  moreover have L: "locks_of c ?t = insert l (locks_of c s)" using free by (intro locks_of_take) simp
  moreover have "cpu_ok c ?t" unfolding cpu_ok_def L using ok nh by (auto simp: cpu_ok_def)
  ultimately show ?thesis by blast
qed

lemma spin_release_ok:
  assumes ok: "cpu_ok c s" and h: "l \<in> locks_of c s"
  shows "\<exists>t. spin_release c l s = Inr t \<and> locks_of c t = locks_of c s - {l} \<and> cpu_ok c t
    \<and> sp_locked (locks t l) = 0 \<and> if_flag (cpus t c) = (locks_of c t = {})"
proof -
  have hl: "holding c l s" using h by (simp add: locks_of_def)
  let ?r = "upd_lock l (\<lambda>k. k\<lparr>sp_locked := 0\<rparr>) (upd_lock l (\<lambda>k. k\<lparr>sp_cpu := None\<rparr>)
    (upd_lock l (\<lambda>k. k\<lparr>sp_pcs := (sp_pcs k)[0 := 0]\<rparr>) s))"
  let ?n = "ncli (cpus s c) - 1"
  let ?u = "upd_cpu c (\<lambda>p. p\<lparr>ncli := ncli p - 1\<rparr>) ?r"
  let ?t = "if ?n = 0 then upd_cpu c (\<lambda>p. p\<lparr>if_flag := True\<rparr>) ?u else ?u"
  have fin: "finite (locks_of c s)" and n: "ncli (cpus s c) = int (card (locks_of c s))"
    and off: "\<not> if_flag (cpus s c)"
    using ok h by (auto simp: cpu_ok_def)
  have card: "card (locks_of c s - {l}) = card (locks_of c s) - 1" "0 < card (locks_of c s)"
    using fin h by (auto simp: card_gt_0_iff)
  have nn: "?n = int (card (locks_of c s - {l}))" using n card by linarith
  have L: "locks_of c ?t = locks_of c s - {l}"
    by (auto simp: locks_of_def holding_def)
  have "spin_release c l s = Inr ?t"
    using hl off nn by (simp add: spin_release_def popcli_def Let_def)
  moreover have "cpu_ok c ?t"
    unfolding cpu_ok_def L using ok fin nn off card_0_eq[of "locks_of c s - {l}"] by (auto simp: cpu_ok_def)
  moreover have "if_flag (cpus ?t c) = (locks_of c ?t = {})"
    unfolding L using nn off fin card_0_eq[of "locks_of c s - {l}"] by auto
  moreover have "sp_locked (locks ?t l) = 0" by simp
  ultimately show ?thesis using L by blast
qed

section \<open>Several CPUs\<close>

text \<open>
  Where a CPU is inside \<open>acquire\<close> or \<open>release\<close>: \<open>Pushed\<close> after \<open>pushcli\<close>, \<open>Spinning\<close> at the
  \<open>xchg\<close>, \<open>Got\<close> before it records itself, \<open>Leaving\<close> after the check in \<open>release\<close>, \<open>Cleared\<close>
  after \<open>lock->cpu = 0\<close>, \<open>Stored\<close> after the store of 0; \<open>Halted\<close> after a panic. \<open>own\<close> is a
  ghost: the locks a CPU took with its \<open>xchg\<close> and has not stored 0 to.
\<close>

datatype pc = Run | Pushed lockid | Spinning lockid | Got lockid | Leaving lockid
  | Cleared lockid | Stored | Halted

record smp_run = smp +
  at :: "nat \<Rightarrow> pc"
  own :: "nat \<Rightarrow> lockid set"

definition set_pc :: "nat \<Rightarrow> pc \<Rightarrow> smp_run \<Rightarrow> smp_run" where
  "set_pc c p s = s\<lparr>at := (at s)(c := p)\<rparr>"

inductive smp_step :: "smp_run \<Rightarrow> smp_run \<Rightarrow> bool" where
  enter: "at s c = Run \<Longrightarrow> smp_step s (set_pc c (Pushed l) (pushcli c s))"
| check: "at s c = Pushed l \<Longrightarrow> \<not> holding c l s \<Longrightarrow> smp_step s (set_pc c (Spinning l) s)"
| twice: "at s c = Pushed l \<Longrightarrow> holding c l s \<Longrightarrow> smp_step s (set_pc c Halted s)"
| spin: "at s c = Spinning l \<Longrightarrow> xchg_locked l s = (old, t) \<Longrightarrow> old \<noteq> 0 \<Longrightarrow> smp_step s t"
| take: "at s c = Spinning l \<Longrightarrow> xchg_locked l s = (0, t) \<Longrightarrow>
    smp_step s (set_pc c (Got l) (t\<lparr>own := (own t)(c := insert l (own t c))\<rparr>))"
| recorded: "at s c = Got l \<Longrightarrow>
    smp_step s (set_pc c Run (upd_lock l (\<lambda>k. k\<lparr>sp_cpu := Some c, sp_pcs := getcallerpcs (stack s) v\<rparr>) s))"
| leave: "at s c = Run \<Longrightarrow> holding c l s \<Longrightarrow> smp_step s (set_pc c (Leaving l) s)"
| not_held: "at s c = Run \<Longrightarrow> \<not> holding c l s \<Longrightarrow> smp_step s (set_pc c Halted s)"
| clear: "at s c = Leaving l \<Longrightarrow>
    smp_step s (set_pc c (Cleared l) (upd_lock l (\<lambda>k. k\<lparr>sp_pcs := (sp_pcs k)[0 := 0], sp_cpu := None\<rparr>) s))"
| store: "at s c = Cleared l \<Longrightarrow>
    smp_step s (set_pc c Stored ((upd_lock l (\<lambda>k. k\<lparr>sp_locked := 0\<rparr>) s)\<lparr>own := (own s)(c := own s c - {l})\<rparr>))"
| pop: "at s c = Stored \<Longrightarrow> popcli c s = Inr t \<Longrightarrow> smp_step s (set_pc c Run t)"
| pop_panic: "at s c = Stored \<Longrightarrow> popcli c s = Inl e \<Longrightarrow> smp_step s (set_pc c Halted s)"

text \<open>At start nobody holds a lock and every CPU runs outside the two functions.\<close>

definition smp_init :: "smp_run \<Rightarrow> bool" where
  "smp_init s \<longleftrightarrow> (\<forall>c. at s c = Run \<and> own s c = {} \<and> ncli (cpus s c) = 0)
     \<and> (\<forall>l. sp_locked (locks s l) = 0 \<and> sp_cpu (locks s l) = None)"

text \<open>The lock a CPU is between taking and recording, or between clearing and storing.\<close>

definition busy_with :: "pc \<Rightarrow> lockid set" where
  "busy_with p = (case p of Got l \<Rightarrow> {l} | Cleared l \<Rightarrow> {l} | _ \<Rightarrow> {})"

definition pushed_extra :: "pc \<Rightarrow> int" where
  "pushed_extra p = (case p of Pushed l \<Rightarrow> 1 | Spinning l \<Rightarrow> 1 | Stored \<Rightarrow> 1 | _ \<Rightarrow> 0)"

definition smp_inv :: "smp_run \<Rightarrow> bool" where
  "smp_inv s \<longleftrightarrow>
     (\<forall>c c' l. l \<in> own s c \<longrightarrow> l \<in> own s c' \<longrightarrow> c = c')
     \<and> (\<forall>l. sp_locked (locks s l) \<noteq> 0 \<longleftrightarrow> (\<exists>c. l \<in> own s c))
     \<and> (\<forall>c l. sp_cpu (locks s l) = Some c \<longleftrightarrow> l \<in> own s c \<and> l \<notin> busy_with (at s c))
     \<and> (\<forall>c. busy_with (at s c) \<subseteq> own s c \<and> finite (own s c))
     \<and> (\<forall>c l. at s c = Leaving l \<longrightarrow> l \<in> own s c)
     \<and> (\<forall>c. at s c \<noteq> Halted \<longrightarrow> ncli (cpus s c) = int (card (own s c)) + pushed_extra (at s c)
           \<and> (ncli (cpus s c) > 0 \<longrightarrow> \<not> if_flag (cpus s c)))"

lemma smp_run_simps [simp]:
  "at (set_pc c p s) = (at s)(c := p)" "own (set_pc c p s) = own s"
  "cpus (set_pc c p s) = cpus s" "locks (set_pc c p s) = locks s"
  "at (upd_cpu c f s) = at s" "own (upd_cpu c f s) = own s"
  "at (upd_lock l g s) = at s" "own (upd_lock l g s) = own s"
  "at (pushcli c s) = at s" "own (pushcli c s) = own s"
  by (simp_all add: set_pc_def upd_cpu_def upd_lock_def pushcli_def Let_def)

lemma smp_inv_init: "smp_init s \<Longrightarrow> smp_inv s"
  by (auto simp: smp_init_def smp_inv_def busy_with_def pushed_extra_def)

lemma cpus_pushcli: "cpus (pushcli c s) = (cpus s)(c := cpus (pushcli c s) c)"
  by (rule ext) simp

lemma popcli_effect:
  fixes s t :: smp_run
  assumes "popcli c s = Inr t"
  shows "\<not> if_flag (cpus s c)" "0 < ncli (cpus s c)" "locks t = locks s" "at t = at s" "own t = own s"
    "cpus t = (cpus s)(c := (cpus s c)\<lparr>ncli := ncli (cpus s c) - 1,
        if_flag := (ncli (cpus s c) = 1)\<rparr>)"
proof -
  have b: "\<not> if_flag (cpus s c)" "0 < ncli (cpus s c)"
    using assms by (auto simp: popcli_def Let_def panic_if_def split: if_splits)
  then have "t = (if ncli (cpus s c) = 1
      then upd_cpu c (\<lambda>p. p\<lparr>if_flag := True\<rparr>) (upd_cpu c (\<lambda>p. p\<lparr>ncli := ncli p - 1\<rparr>) s)
      else upd_cpu c (\<lambda>p. p\<lparr>ncli := ncli p - 1\<rparr>) s)"
    using assms by (auto simp: popcli_def Let_def split: if_splits)
  then show "\<not> if_flag (cpus s c)" "0 < ncli (cpus s c)" "locks t = locks s" "at t = at s" "own t = own s"
    "cpus t = (cpus s)(c := (cpus s c)\<lparr>ncli := ncli (cpus s c) - 1, if_flag := (ncli (cpus s c) = 1)\<rparr>)"
    using b by (auto simp: fun_eq_iff)
qed

text \<open>What the invariant says of one CPU and of one lock, for use in the steps.\<close>

lemma smp_invD:
  assumes "smp_inv s"
  shows "l \<in> own s c \<Longrightarrow> l \<in> own s c' \<Longrightarrow> c = c'"
    "sp_locked (locks s l) \<noteq> 0 \<longleftrightarrow> (\<exists>c. l \<in> own s c)"
    "sp_cpu (locks s l) = Some c \<longleftrightarrow> l \<in> own s c \<and> l \<notin> busy_with (at s c)"
    "busy_with (at s c) \<subseteq> own s c" "finite (own s c)" "at s c = Leaving l \<Longrightarrow> l \<in> own s c"
    "at s c \<noteq> Halted \<Longrightarrow> ncli (cpus s c) = int (card (own s c)) + pushed_extra (at s c)"
    "at s c \<noteq> Halted \<Longrightarrow> ncli (cpus s c) > 0 \<Longrightarrow> \<not> if_flag (cpus s c)"
    "holding c l s \<longleftrightarrow> l \<in> own s c \<and> l \<notin> busy_with (at s c)"
  using assms unfolding smp_inv_def holding_def by blast+

text \<open>A step that moves one CPU's program counter and changes no lock.\<close>

lemma smp_inv_pc:
  assumes inv: "smp_inv s" and b: "busy_with p = busy_with (at s c)"
    and l: "locks t = locks s" "own t = own s" "at t = (at s)(c := p)"
      "\<And>c'. c' \<noteq> c \<Longrightarrow> cpus t c' = cpus s c'"
    and n: "p \<noteq> Halted \<Longrightarrow> ncli (cpus t c) = int (card (own s c)) + pushed_extra p"
      "p \<noteq> Halted \<Longrightarrow> ncli (cpus t c) > 0 \<Longrightarrow> \<not> if_flag (cpus t c)"
    and lv: "\<And>l. p = Leaving l \<Longrightarrow> l \<in> own s c"
  shows "smp_inv t"
  unfolding smp_inv_def l(1,2,3)
proof (intro conjI allI impI)
  fix c' l'
  show "(sp_cpu (locks s l') = Some c') = (l' \<in> own s c' \<and> l' \<notin> busy_with (((at s)(c := p)) c'))"
    using smp_invD(3)[OF inv] b by (cases "c' = c") auto
  show "busy_with (((at s)(c := p)) c') \<subseteq> own s c'" "finite (own s c')"
    using smp_invD(4,5)[OF inv] b by (cases "c' = c"; simp)+
next
  fix c' l' assume "((at s)(c := p)) c' = Leaving l'"
  then show "l' \<in> own s c'" using smp_invD(6)[OF inv] lv by (auto split: if_splits)
next
  fix c' assume "((at s)(c := p)) c' \<noteq> Halted"
  then show "ncli (cpus t c') = int (card (own s c')) + pushed_extra (((at s)(c := p)) c')"
    using smp_invD(7)[OF inv] n(1) l(4) by (cases "c' = c") auto
next
  fix c' assume "((at s)(c := p)) c' \<noteq> Halted" "0 < ncli (cpus t c')"
  then show "\<not> if_flag (cpus t c')"
    using smp_invD(8)[OF inv] n(2) l(4) by (cases "c' = c") auto
qed (use smp_invD(1,2)[OF inv] in auto)

text \<open>The four steps that change a lock's owner or its record.\<close>

lemma smp_inv_lock:
  assumes inv: "smp_inv s"
    and t: "locks t = (locks s)(l := k)" "own t = (own s)(c := W)" "at t = (at s)(c := p)" "cpus t = cpus s"
    and c: "at s c \<noteq> Halted" "p \<noteq> Halted" "\<And>l. p \<noteq> Leaving l"
    and own: "W - {l} = own s c - {l}" "\<And>c'. c' \<noteq> c \<Longrightarrow> l \<notin> own s c'"
    and lk: "sp_locked k \<noteq> 0 \<longleftrightarrow> l \<in> W" "sp_cpu k = (if l \<in> W \<and> l \<notin> busy_with p then Some c else None)"
    and b: "busy_with (at s c) \<subseteq> {l}" "busy_with p \<subseteq> {l} \<inter> W"
    and n: "int (card W) + pushed_extra p = int (card (own s c)) + pushed_extra (at s c)"
  shows "smp_inv t"
proof -
  note D = smp_invD[OF inv]
  have W: "l' \<noteq> l \<Longrightarrow> l' \<in> W \<longleftrightarrow> l' \<in> own s c" for l' using own(1) by blast
  have fin: "finite W"
    using own(1) D(5)[of c] by (metis finite_Diff finite_insert insert_Diff_single)
  show ?thesis
    unfolding smp_inv_def t
  proof (intro conjI allI impI)
    fix c1 c2 l' assume "l' \<in> ((own s)(c := W)) c1" "l' \<in> ((own s)(c := W)) c2"
    then show "c1 = c2" using D(1)[of l'] W[of l'] own(2) by (cases "l' = l") (auto split: if_splits)
  next
    fix l' show "(sp_locked (((locks s)(l := k)) l') \<noteq> 0) = (\<exists>c'. l' \<in> ((own s)(c := W)) c')"
    proof (cases "l' = l")
      case True
      then show ?thesis using own(2) lk(1) by auto
    next
      case False
      then have "l' \<in> ((own s)(c := W)) c' \<longleftrightarrow> l' \<in> own s c'" for c' using W by auto
      then show ?thesis using D(2)[of l'] False by simp
    qed
  next
    fix c1 l'
    show "(sp_cpu (((locks s)(l := k)) l') = Some c1)
        = (l' \<in> ((own s)(c := W)) c1 \<and> l' \<notin> busy_with (((at s)(c := p)) c1))"
      using D(3)[of l' c1] W[of l'] own(2)[of c1] lk(2) b by (cases "l' = l"; cases "c1 = c") auto
  next
    fix c1
    show "busy_with (((at s)(c := p)) c1) \<subseteq> ((own s)(c := W)) c1" "finite (((own s)(c := W)) c1)"
      using D(4,5)[of c1] b(2) fin by (cases "c1 = c"; simp)+
  next
    fix c1 l' assume "((at s)(c := p)) c1 = Leaving l'"
    then show "l' \<in> ((own s)(c := W)) c1" using D(6)[of c1 l'] c(3) by (auto split: if_splits)
  next
    fix c1 assume "((at s)(c := p)) c1 \<noteq> Halted"
    then show "ncli (cpus s c1) = int (card (((own s)(c := W)) c1)) + pushed_extra (((at s)(c := p)) c1)"
      using D(7)[of c1] D(7)[OF c(1)] n by (cases "c1 = c") auto
  next
    fix c1 assume "((at s)(c := p)) c1 \<noteq> Halted" "0 < ncli (cpus s c1)"
    then show "\<not> if_flag (cpus s c1)" using D(8)[of c1] c(1) by (cases "c1 = c") auto
  qed
qed

lemma smp_inv_step:
  assumes inv: "smp_inv s" and st: "smp_step s t"
  shows "smp_inv t"
  using st
proof cases
  case (enter c l)
  then show ?thesis using smp_invD(7)[OF inv, of c]
    by (intro smp_inv_pc[OF inv, of "Pushed l" c]) (auto simp: busy_with_def pushed_extra_def)
next
  case (check c l)
  then show ?thesis using smp_invD(7,8)[OF inv, of c]
    by (intro smp_inv_pc[OF inv, of "Spinning l" c]) (auto simp: busy_with_def pushed_extra_def)
next
  case (twice c l)
  then show ?thesis
    by (intro smp_inv_pc[OF inv, of Halted c]) (auto simp: busy_with_def)
next
  case (spin c l old)
  then have "locks t = (locks s)(l := (locks s l)\<lparr>sp_locked := 1\<rparr>)" "sp_locked (locks s l) \<noteq> 0"
    "at t = at s" "own t = own s" "cpus t = cpus s"
    by (auto simp: xchg_locked_def)
  then show ?thesis using inv by (auto simp: smp_inv_def)
next
  case (leave c l)
  then show ?thesis using smp_invD(7,8,9)[OF inv, of c]
    by (intro smp_inv_pc[OF inv, of "Leaving l" c]) (auto simp: busy_with_def pushed_extra_def)
next
  case (not_held c l)
  then show ?thesis
    by (intro smp_inv_pc[OF inv, of Halted c]) (auto simp: busy_with_def)
next
  case (pop c u)
  note p = popcli_effect[OF pop(3)]
  show ?thesis using p pop smp_invD(7)[OF inv, of c]
    by (intro smp_inv_pc[OF inv, of Run c]) (auto simp: busy_with_def pushed_extra_def)
next
  case (pop_panic c e)
  then show ?thesis
    by (intro smp_inv_pc[OF inv, of Halted c]) (auto simp: busy_with_def)
next
  case (take c l u)
  then have free: "sp_locked (locks s l) = 0" and u: "u = upd_lock l (\<lambda>k. k\<lparr>sp_locked := 1\<rparr>) s"
    by (auto simp: xchg_locked_def)
  have nobody: "l \<notin> own s c'" for c' using smp_invD(2)[OF inv] free by blast
  have "sp_cpu (locks s l) \<noteq> Some c'" for c' using smp_invD(3)[OF inv, of l c'] nobody by blast
  then have "sp_cpu (locks s l) = None" by (cases "sp_cpu (locks s l)") auto
  then show ?thesis using take u nobody smp_invD(5)[OF inv, of c]
    by (intro smp_inv_lock[OF inv, of t l "locks t l" c "insert l (own s c)" "Got l"])
      (auto simp: busy_with_def pushed_extra_def)
next
  case (recorded c l v)
  then have o: "l \<in> own s c" using smp_invD(4)[OF inv, of c] by (auto simp: busy_with_def)
  then have "sp_locked (locks s l) \<noteq> 0" "\<And>c'. c' \<noteq> c \<Longrightarrow> l \<notin> own s c'"
    using smp_invD(2)[OF inv] smp_invD(1)[OF inv o] by blast+
  then show ?thesis using recorded o
    by (intro smp_inv_lock[OF inv, of t l "locks t l" c "own s c" Run])
      (auto simp: busy_with_def pushed_extra_def)
next
  case (clear c l)
  then have o: "l \<in> own s c" using smp_invD(6)[OF inv, of c] by blast
  then have "sp_locked (locks s l) \<noteq> 0" "\<And>c'. c' \<noteq> c \<Longrightarrow> l \<notin> own s c'"
    using smp_invD(2)[OF inv] smp_invD(1)[OF inv o] by blast+
  then show ?thesis using clear o
    by (intro smp_inv_lock[OF inv, of t l "locks t l" c "own s c" "Cleared l"])
      (auto simp: busy_with_def pushed_extra_def)
next
  case (store c l)
  then have o: "l \<in> own s c" using smp_invD(4)[OF inv, of c] by (auto simp: busy_with_def)
  have nob: "\<And>c'. c' \<noteq> c \<Longrightarrow> l \<notin> own s c'" using smp_invD(1)[OF inv o] by blast
  have "sp_cpu (locks s l) \<noteq> Some c'" for c'
    using nob[of c'] smp_invD(3)[OF inv, of l c'] store by (cases "c' = c") (auto simp: busy_with_def)
  then have "sp_cpu (locks s l) = None" by (cases "sp_cpu (locks s l)") auto
  moreover have "0 < card (own s c)" using o smp_invD(5)[OF inv, of c] by (auto simp: card_gt_0_iff)
  ultimately show ?thesis using store o nob smp_invD(5)[OF inv, of c]
    by (intro smp_inv_lock[OF inv, of t l "locks t l" c "own s c - {l}" Stored])
      (auto simp: busy_with_def pushed_extra_def)
qed

interpretation smp: transition_system smp_init smp_step smp_inv
  by unfold_locales (auto intro: smp_inv_init smp_inv_step)

section \<open>Properties\<close>

text \<open>
  C17 (mutual exclusion). However the CPUs' steps interleave, no two CPUs are ever between the
  \<open>xchg\<close> that took a lock and the store that frees it, a CPU in that region runs with
  interrupts off, and the \<open>popcli\<close> that ends \<open>release\<close> never panics.
\<close>

theorem spinlock_mutual_exclusion:
  assumes "reach smp_init smp_step s"
  shows "(l \<in> own s c \<and> l \<in> own s c' \<longrightarrow> c = c')
    \<and> (l \<in> own s c \<and> at s c \<noteq> Halted \<longrightarrow> \<not> if_flag (cpus s c) \<and> sp_locked (locks s l) \<noteq> 0)
    \<and> (at s c = Stored \<longrightarrow> (\<exists>t. popcli c s = Inr t))"
proof -
  have inv: "smp_inv s" using assms by (rule smp.reachable_inv)
  note D = smp_invD[OF inv]
  have "0 < card (own s c)" if "l \<in> own s c" using that D(5)[of c] by (auto simp: card_gt_0_iff)
  then have a: "\<not> if_flag (cpus s c) \<and> sp_locked (locks s l) \<noteq> 0" if "l \<in> own s c" "at s c \<noteq> Halted"
    using that D(2)[of l] D(7,8)[of c] by (auto simp: pushed_extra_def split: pc.splits)
  have b: "\<exists>t. popcli c s = Inr t" if "at s c = Stored"
    using that D(7,8)[of c] by (auto simp: popcli_def Let_def pushed_extra_def)
  show ?thesis using D(1)[of l c c'] a b by blast
qed

text \<open>A run in which CPU 0 takes the lock of the log while CPU 1 spins on it.\<close>

definition smp_start :: smp_run where
  "smp_start = \<lparr>cpus = \<lambda>_. \<lparr>if_flag = True, ncli = 0, intena = False\<rparr>,
     locks = \<lambda>_. \<lparr>sp_locked = 0, sp_name = [], sp_cpu = None, sp_pcs = replicate 10 0\<rparr>,
     stack = \<lambda>_. 0, at = \<lambda>_. Run, own = \<lambda>_. {}\<rparr>"

lemma spinlock_mutual_exclusion_witness:
  "\<exists>s. reach smp_init smp_step s \<and> at s 1 = Spinning L_log \<and> L_log \<in> own s 0
    \<and> \<not> if_flag (cpus s 0) \<and> L_log \<notin> own s 1"
proof -
  let ?s1 = "set_pc 0 (Pushed L_log) (pushcli 0 smp_start)"
  let ?s2 = "set_pc 0 (Spinning L_log) ?s1"
  let ?x = "upd_lock L_log (\<lambda>k. k\<lparr>sp_locked := 1\<rparr>) ?s2"
  let ?s3 = "set_pc 0 (Got L_log) (?x\<lparr>own := (own ?x)(0 := insert L_log (own ?x 0))\<rparr>)"
  let ?s4 = "set_pc 1 (Pushed L_log) (pushcli 1 ?s3)"
  let ?s5 = "set_pc 1 (Spinning L_log) ?s4"
  have r0: "reach smp_init smp_step smp_start"
    by (rule reach_init) (simp add: smp_init_def smp_start_def)
  have r1: "reach smp_init smp_step ?s1"
    by (rule reach_step[OF r0], rule smp_step.enter) (simp add: smp_start_def)
  have r2: "reach smp_init smp_step ?s2"
    by (rule reach_step[OF r1], rule smp_step.check) (simp_all add: holding_def smp_start_def)
  have r3: "reach smp_init smp_step ?s3"
    by (rule reach_step[OF r2], rule smp_step.take[where l = L_log])
      (simp_all add: xchg_locked_def smp_start_def)
  have r4: "reach smp_init smp_step ?s4"
    by (rule reach_step[OF r3], rule smp_step.enter) (simp add: smp_start_def)
  have r5: "reach smp_init smp_step ?s5"
    by (rule reach_step[OF r4], rule smp_step.check) (simp_all add: holding_def smp_start_def)
  have f: "at ?s5 1 = Spinning L_log" "L_log \<in> own ?s5 0" "at ?s5 0 \<noteq> Halted" by simp_all
  show ?thesis
    using spinlock_mutual_exclusion[OF r5, where l = L_log and c = 0 and c' = 1] r5 f
    by (intro exI[of _ ?s5]) (auto simp: smp_start_def)
qed

text \<open>
  C29 (refinement). On one CPU, with the lock free or held by this CPU, \<open>acquire\<close> and \<open>release\<close>
  do to the set of locks this CPU holds what the lock-set operations used by the other
  components do, panics included, and keep one \<open>pushcli\<close> per held lock.
\<close>

theorem spinlock_refines_lock_set:
  fixes k :: "'b kcore_scheme"
  assumes "cpu_ok c s" "sp_locked (locks s l) = 0 \<or> holding c l s" "held k = locks_of c s"
  shows "(case acquire l k of Inl e \<Rightarrow> spin_acquire c v l s = Inl e
      | Inr k' \<Rightarrow> \<exists>t. spin_acquire c v l s = Inr t \<and> locks_of c t = held k' \<and> cpu_ok c t)
    \<and> (case release l k of Inl e \<Rightarrow> spin_release c l s = Inl e
      | Inr k' \<Rightarrow> \<exists>t. spin_release c l s = Inr t \<and> locks_of c t = held k' \<and> cpu_ok c t
           \<and> if_flag (cpus t c) = (held k' = {}))"
proof (cases "l \<in> locks_of c s")
  case True
  then have "holding c l s" by (simp add: locks_of_def)
  then show ?thesis
    using True assms(3) spin_release_ok[OF assms(1) True]
    by (auto simp: acquire_def release_def spin_acquire_def Let_def)
next
  case False
  then have n: "\<not> holding c l s" by (simp add: locks_of_def)
  then have f: "sp_locked (locks s l) = 0" using assms(2) by blast
  show ?thesis
    using False n assms(3) spin_acquire_ok[OF assms(1) f, of v]
    by (auto simp: acquire_def release_def spin_release_def)
qed

lemma spinlock_refines_lock_set_witness:
  "\<exists>t :: smp_run. spin_acquire 0 0x80001000 L_kmem smp_start = Inr t \<and> locks_of 0 t = {L_kmem}"
proof -
  let ?k = "\<lparr>held = {}, ptable = [], curproc = None\<rparr> :: kcore"
  have L: "locks_of 0 smp_start = {}" by (simp add: locks_of_def holding_def smp_start_def)
  have "cpu_ok 0 smp_start" unfolding cpu_ok_def L by (simp add: smp_start_def)
  moreover have "sp_locked (locks smp_start L_kmem) = 0" by (simp add: smp_start_def)
  ultimately show ?thesis
    using spinlock_refines_lock_set[where c = 0 and s = smp_start and l = L_kmem and k = ?k and v = "0x80001000"] L by (auto simp: acquire_def)
qed

text \<open>
  C33 (\<open>popcli\<close> always enables interrupts). A CPU that calls \<open>pushcli\<close> and then \<open>popcli\<close> outside
  any lock ends with interrupts on, whatever they were before; \<open>intena\<close>, in which \<open>pushcli\<close>
  saved the old flag, is not read.
\<close>

theorem popcli_always_enables:
  assumes "ncli (cpus s c) = 0"
  shows "\<exists>t. popcli c (pushcli c s) = Inr t \<and> if_flag (cpus t c) \<and> ncli (cpus t c) = 0
    \<and> intena (cpus t c) = if_flag (cpus s c)"
  using assms by (simp add: popcli_def Let_def)

lemma popcli_always_enables_witness:
  "\<exists>s t :: smp_run. \<not> if_flag (cpus s 0) \<and> popcli 0 (pushcli 0 s) = Inr t \<and> if_flag (cpus t 0)"
proof -
  let ?s = "upd_cpu 0 (\<lambda>p. p\<lparr>if_flag := False\<rparr>) smp_start"
  have "ncli (cpus ?s 0) = 0" "\<not> if_flag (cpus ?s 0)" by (simp_all add: smp_start_def)
  then show ?thesis using popcli_always_enables[of ?s 0] by blast
qed

end
