(* ===== verification/Inode.thy ===== *)
theory Inode
  imports Log_Ops
begin

text \<open>
  The block and inode layers of the file system (\<open>fs.c\<close>, \<open>fs.h\<close>, \<open>file.h\<close>): the free map,
  the inode cache, inodes on disk, and reading and writing their content.
\<close>

section \<open>State\<close>

abbreviation NDIRECT :: nat where "NDIRECT \<equiv> 12"
abbreviation NINDIRECT :: nat where "NINDIRECT \<equiv> 128"
abbreviation MAXFILE :: nat where "MAXFILE \<equiv> 140"
abbreviation NINODE :: nat where "NINODE \<equiv> 50"
abbreviation NDEV :: int where "NDEV \<equiv> 10"
abbreviation ROOTINO :: uint where "ROOTINO \<equiv> 1"
abbreviation T_DIR :: ushort where "T_DIR \<equiv> 1"
abbreviation T_FILE :: ushort where "T_FILE \<equiv> 2"
abbreviation T_DEV :: ushort where "T_DEV \<equiv> 3"
abbreviation IPB :: uint where "IPB \<equiv> 8"
abbreviation BPB :: uint where "BPB \<equiv> 4096"
abbreviation I_VALID :: uint where "I_VALID \<equiv> 2"

text \<open>The disk inode; \<open>short\<close> fields are 16-bit words, read with \<open>sint\<close> where the sign matters.\<close>

record dinode =
  d_type :: ushort
  d_major :: ushort
  d_minor :: ushort
  d_nlink :: ushort
  d_size :: uint
  d_addrs :: "uint list"

text \<open>The in-memory copy, with its bookkeeping.\<close>

record inode = dinode +
  i_dev :: uint
  i_inum :: uint
  i_ref :: int
  i_lock :: sleeplock
  i_flags :: uint

record fsst = logst +
  icache :: "inode list"
  fs_sb :: superblock

text \<open>\<open>struct stat\<close>\<close>

record stat =
  st_type :: ushort
  st_dev :: int
  st_ino :: uint
  st_nlink :: ushort
  st_size :: uint

text \<open>
  What the file system is linked with: the disk driver, the linker's symbol \<open>end\<close>, and the device
  switch \<open>devsw[]\<close>, whose entries are null until a device registers its functions.
\<close>

record 's kenv =
  k_rw :: "nat \<Rightarrow> 's \<Rightarrow> 's res"
  k_end :: uint
  dev_read :: "nat \<Rightarrow> (nat \<Rightarrow> uint \<Rightarrow> uint \<Rightarrow> 's \<Rightarrow> (int \<times> 's) res) option"
  dev_write :: "nat \<Rightarrow> (nat \<Rightarrow> uint \<Rightarrow> uint \<Rightarrow> 's \<Rightarrow> (int \<times> 's) res) option"

type_synonym 'a fs_env = "'a fsst_scheme kenv"

definition upd_inode :: "nat \<Rightarrow> (inode \<Rightarrow> inode) \<Rightarrow> 'a fsst_scheme \<Rightarrow> 'a fsst_scheme" where
  "upd_inode ip f s = s\<lparr>icache := (icache s)[ip := f (icache s ! ip)]\<rparr>"

section \<open>Layout\<close>

definition IBLOCK :: "uint \<Rightarrow> superblock \<Rightarrow> uint" where
  "IBLOCK i sb = i div IPB + sb_inodestart sb"

definition BBLOCK :: "uint \<Rightarrow> superblock \<Rightarrow> uint" where
  "BBLOCK b sb = b div BPB + sb_bmapstart sb"

definition le16 :: "ushort \<Rightarrow> uchar list" where
  "le16 w = [ucast w, ucast (drop_bit 8 w)]"

definition word16 :: "uchar list \<Rightarrow> ushort" where
  "word16 bs = ucast (bs ! 0) OR push_bit 8 (ucast (bs ! 1))"

definition field16 :: "nat \<Rightarrow> uchar list \<Rightarrow> ushort" where
  "field16 k d = word16 (take 2 (drop (2 * k) d))"

text \<open>A disk inode is 64 bytes: four shorts, the size, thirteen block numbers.\<close>

definition decode_dinode :: "uchar list \<Rightarrow> dinode" where
  "decode_dinode d = \<lparr>d_type = field16 0 d, d_major = field16 1 d, d_minor = field16 2 d,
     d_nlink = field16 3 d, d_size = field32 2 d, d_addrs = map (\<lambda>k. field32 (3 + k) d) [0..<NDIRECT + 1]\<rparr>"

definition encode_dinode :: "'a dinode_scheme \<Rightarrow> uchar list" where
  "encode_dinode d = le16 (d_type d) @ le16 (d_major d) @ le16 (d_minor d) @ le16 (d_nlink d)
     @ le32 (d_size d) @ concat (map le32 (d_addrs d))"

text \<open>\<open>(struct dinode*)bp->data + inum%IPB\<close>\<close>

definition get_dinode :: "uint \<Rightarrow> block \<Rightarrow> dinode" where
  "get_dinode inum d = decode_dinode (take 64 (drop (64 * unat (inum mod IPB)) d))"

definition put_dinode :: "uint \<Rightarrow> 'a dinode_scheme \<Rightarrow> block \<Rightarrow> block" where
  "put_dinode inum di d = blit d (64 * unat (inum mod IPB)) (encode_dinode di)"

section \<open>Blocks\<close>

definition bzero :: "'a fs_env \<Rightarrow> uint \<Rightarrow> uint \<Rightarrow> 'a fsst_scheme \<Rightarrow> 'a fsst_scheme res" where
  "bzero E dev bno s =
     bind_res (bread (k_rw E) dev bno s) (\<lambda>(bp, s).
     bind_res (log_write bp (set_data bp (replicate BSIZE 0) s)) (\<lambda>s.
     brelse bp s))"

text \<open>\<open>data[bi/8] & (1 << (bi%8))\<close>, and setting or clearing that bit.\<close>

definition bit_used :: "nat \<Rightarrow> block \<Rightarrow> bool" where
  "bit_used bi d \<longleftrightarrow> d ! (bi div 8) AND push_bit (bi mod 8) 1 \<noteq> 0"

definition set_bit_used :: "nat \<Rightarrow> block \<Rightarrow> block" where
  "set_bit_used bi d = d[bi div 8 := d ! (bi div 8) OR push_bit (bi mod 8) 1]"

definition clear_bit_used :: "nat \<Rightarrow> block \<Rightarrow> block" where
  "clear_bit_used bi d = d[bi div 8 := d ! (bi div 8) AND NOT (push_bit (bi mod 8) 1)]"

text \<open>
  The loop over the blocks of the free map; there are at most \<open>2 ^ 20\<close>. The inner loop looks
  for the first clear bit below \<open>BPB\<close> and below the end of the disk.
\<close>

fun balloc_loop :: "nat \<Rightarrow> 'a fs_env \<Rightarrow> uint \<Rightarrow> uint \<Rightarrow> 'a fsst_scheme \<Rightarrow> (uint \<times> 'a fsst_scheme) res" where
  "balloc_loop 0 E dev b s = Inl (Blocks ''balloc'')"
| "balloc_loop (Suc fuel) E dev b s =
     (if b < sb_size (fs_sb s) then
        bind_res (bread (k_rw E) dev (BBLOCK b (fs_sb s)) s) (\<lambda>(bp, s).
        case find (\<lambda>bi. \<not> bit_used bi (b_data (bufs s bp)))
            [0..<min (unat BPB) (unat (sb_size (fs_sb s) - b))] of
          Some bi \<Rightarrow>
            bind_res (log_write bp (set_data bp (set_bit_used bi (b_data (bufs s bp))) s)) (\<lambda>s.
            bind_res (brelse bp s) (\<lambda>s.
            bind_res (bzero E dev (b + of_nat bi) s) (\<lambda>s.
            Inr (b + of_nat bi, s))))
        | None \<Rightarrow>
            bind_res (brelse bp s) (\<lambda>s.
            balloc_loop fuel E dev (b + BPB) s))
      else Inl (Panic ''balloc: out of blocks''))"

definition balloc :: "'a fs_env \<Rightarrow> uint \<Rightarrow> 'a fsst_scheme \<Rightarrow> (uint \<times> 'a fsst_scheme) res" where
  "balloc E dev s = balloc_loop (2 ^ 20 + 1) E dev 0 s"

definition bfree :: "'a fs_env \<Rightarrow> uint \<Rightarrow> uint \<Rightarrow> 'a fsst_scheme \<Rightarrow> 'a fsst_scheme res" where
  "bfree E dev b s =
     bind_res (readsb (k_rw E) dev s) (\<lambda>(sb, s).
     let s = s\<lparr>fs_sb := sb\<rparr> in
     bind_res (bread (k_rw E) dev (BBLOCK b (fs_sb s)) s) (\<lambda>(bp, s).
     let bi = unat (b mod BPB) in
     bind_res (panic_if (\<not> bit_used bi (b_data (bufs s bp))) ''freeing free block'') (\<lambda>_.
     bind_res (log_write bp (set_data bp (clear_bit_used bi (b_data (bufs s bp))) s)) (\<lambda>s.
     brelse bp s))))"

section \<open>The inode cache\<close>

text \<open>\<open>iinit\<close> also prints the superblock on the console, which is left out.\<close>

definition iinit :: "'a fs_env \<Rightarrow> uint \<Rightarrow> 'a fsst_scheme \<Rightarrow> 'a fsst_scheme res" where
  "iinit E dev s =
     (let s = s\<lparr>icache := map (\<lambda>n. n\<lparr>i_lock := initsleeplock ''inode''\<rparr>) (icache s)\<rparr> in
      bind_res (readsb (k_rw E) dev s) (\<lambda>(sb, s). Inr (s\<lparr>fs_sb := sb\<rparr>)))"

definition iget_hit :: "uint \<Rightarrow> uint \<Rightarrow> inode \<Rightarrow> bool" where
  "iget_hit dev inum n \<longleftrightarrow> i_ref n > 0 \<and> i_dev n = dev \<and> i_inum n = inum"

definition iget :: "uint \<Rightarrow> uint \<Rightarrow> 'a fsst_scheme \<Rightarrow> (nat \<times> 'a fsst_scheme) res" where
  "iget dev inum s =
     bind_res (acquire L_icache s) (\<lambda>s.
     case find (\<lambda>k. iget_hit dev inum (icache s ! k)) [0..<length (icache s)] of
       Some ip \<Rightarrow>
         bind_res (release L_icache (upd_inode ip (\<lambda>n. n\<lparr>i_ref := i_ref n + 1\<rparr>) s)) (\<lambda>s. Inr (ip, s))
     | None \<Rightarrow>
         (case find (\<lambda>k. i_ref (icache s ! k) = 0) [0..<length (icache s)] of
            None \<Rightarrow> Inl (Panic ''iget: no inodes'')
          | Some ip \<Rightarrow>
              bind_res (release L_icache (upd_inode ip (\<lambda>n. n\<lparr>i_dev := dev, i_inum := inum,
                  i_ref := 1, i_flags := 0\<rparr>) s)) (\<lambda>s. Inr (ip, s))))"

definition idup :: "nat \<Rightarrow> 'a fsst_scheme \<Rightarrow> (nat \<times> 'a fsst_scheme) res" where
  "idup ip s =
     bind_res (acquire L_icache s) (\<lambda>s.
     bind_res (release L_icache (upd_inode ip (\<lambda>n. n\<lparr>i_ref := i_ref n + 1\<rparr>) s)) (\<lambda>s. Inr (ip, s)))"

text \<open>The loop of \<open>ialloc\<close>, from inode \<open>inum\<close>; inode numbers are below \<open>2 ^ 32\<close>.\<close>

definition zero_dinode :: dinode where
  "zero_dinode = \<lparr>d_type = 0, d_major = 0, d_minor = 0, d_nlink = 0, d_size = 0, d_addrs = replicate 13 0\<rparr>"

fun ialloc_loop :: "nat \<Rightarrow> 'a fs_env \<Rightarrow> uint \<Rightarrow> ushort \<Rightarrow> uint \<Rightarrow> 'a fsst_scheme \<Rightarrow> (nat \<times> 'a fsst_scheme) res" where
  "ialloc_loop 0 E dev type inum s = Inl (Panic ''ialloc: no inodes'')"
| "ialloc_loop (Suc n) E dev type inum s =
     bind_res (bread (k_rw E) dev (IBLOCK inum (fs_sb s)) s) (\<lambda>(bp, s).
     if d_type (get_dinode inum (b_data (bufs s bp))) = 0 then
       bind_res (log_write bp (set_data bp
           (put_dinode inum (zero_dinode\<lparr>d_type := type\<rparr>) (b_data (bufs s bp))) s)) (\<lambda>s.
       bind_res (brelse bp s) (\<lambda>s.
       iget dev inum s))
     else bind_res (brelse bp s) (\<lambda>s. ialloc_loop n E dev type (inum + 1) s))"

definition ialloc :: "'a fs_env \<Rightarrow> uint \<Rightarrow> ushort \<Rightarrow> 'a fsst_scheme \<Rightarrow> (nat \<times> 'a fsst_scheme) res" where
  "ialloc E dev type s = ialloc_loop (unat (sb_ninodes (fs_sb s)) - 1) E dev type 1 s"

definition iupdate :: "'a fs_env \<Rightarrow> nat \<Rightarrow> 'a fsst_scheme \<Rightarrow> 'a fsst_scheme res" where
  "iupdate E ip s =
     (let n = icache s ! ip in
      bind_res (bread (k_rw E) (i_dev n) (IBLOCK (i_inum n) (fs_sb s)) s) (\<lambda>(bp, s).
      bind_res (log_write bp (set_data bp (put_dinode (i_inum n) (icache s ! ip) (b_data (bufs s bp))) s)) (\<lambda>s.
      brelse bp s)))"

definition load_dinode :: "dinode \<Rightarrow> inode \<Rightarrow> inode" where
  "load_dinode d n = n\<lparr>d_type := d_type d, d_major := d_major d, d_minor := d_minor d,
     d_nlink := d_nlink d, d_size := d_size d, d_addrs := d_addrs d\<rparr>"

text \<open>A pointer to an inode may be null (\<open>None\<close>) in \<open>ilock\<close> and \<open>iunlock\<close>.\<close>

definition ilock :: "'a fs_env \<Rightarrow> nat option \<Rightarrow> 'a fsst_scheme \<Rightarrow> 'a fsst_scheme res" where
  "ilock E p s = (case p of None \<Rightarrow> Inl (Panic ''ilock'') | Some ip \<Rightarrow>
     bind_res (panic_if (i_ref (icache s ! ip) < 1) ''ilock'') (\<lambda>_.
     bind_res (acquiresleep (L_inode ip) (Ch_inode ip) (i_lock (icache s ! ip)) s) (\<lambda>(lk, s).
     let s = upd_inode ip (\<lambda>n. n\<lparr>i_lock := lk\<rparr>) s; n = icache s ! ip in
     if i_flags n AND I_VALID = 0 then
       bind_res (bread (k_rw E) (i_dev n) (IBLOCK (i_inum n) (fs_sb s)) s) (\<lambda>(bp, s).
       let s = upd_inode ip (load_dinode (get_dinode (i_inum n) (b_data (bufs s bp)))) s in
       bind_res (brelse bp s) (\<lambda>s.
       let s = upd_inode ip (\<lambda>n. n\<lparr>i_flags := i_flags n OR I_VALID\<rparr>) s in
       bind_res (panic_if (d_type (icache s ! ip) = 0) ''ilock: no type'') (\<lambda>_. Inr s)))
     else Inr s)))"

definition iunlock :: "nat option \<Rightarrow> 'a fsst_scheme \<Rightarrow> 'a fsst_scheme res" where
  "iunlock p s = (case p of None \<Rightarrow> Inl (Panic ''iunlock'') | Some ip \<Rightarrow>
     bind_res (holdingsleep (L_inode ip) (i_lock (icache s ! ip)) s) (\<lambda>(h, s).
     bind_res (panic_if (\<not> h \<or> i_ref (icache s ! ip) < 1) ''iunlock'') (\<lambda>_.
     bind_res (releasesleep (L_inode ip) (Ch_inode ip) (i_lock (icache s ! ip)) s) (\<lambda>(lk, s).
     Inr (upd_inode ip (\<lambda>n. n\<lparr>i_lock := lk\<rparr>) s)))))"

section \<open>Content\<close>

text \<open>Truncation: the direct blocks, then the indirect block and what it lists.\<close>

definition itrunc :: "'a fs_env \<Rightarrow> nat \<Rightarrow> 'a fsst_scheme \<Rightarrow> 'a fsst_scheme res" where
  "itrunc E ip s =
     bind_res (for_res 0 NDIRECT (\<lambda>i s.
         if d_addrs (icache s ! ip) ! i \<noteq> 0 then
           bind_res (bfree E (i_dev (icache s ! ip)) (d_addrs (icache s ! ip) ! i) s) (\<lambda>s.
           Inr (upd_inode ip (\<lambda>n. n\<lparr>d_addrs := (d_addrs n)[i := 0]\<rparr>) s))
         else Inr s) s) (\<lambda>s.
     bind_res (
       let ind = d_addrs (icache s ! ip) ! NDIRECT; dev = i_dev (icache s ! ip) in
       if ind \<noteq> 0 then
         bind_res (bread (k_rw E) dev ind s) (\<lambda>(bp, s).
         bind_res (for_res 0 NINDIRECT (\<lambda>j s.
             if field32 j (b_data (bufs s bp)) \<noteq> 0 then bfree E dev (field32 j (b_data (bufs s bp))) s
             else Inr s) s) (\<lambda>s.
         bind_res (brelse bp s) (\<lambda>s.
         bind_res (bfree E dev ind s) (\<lambda>s.
         Inr (upd_inode ip (\<lambda>n. n\<lparr>d_addrs := (d_addrs n)[NDIRECT := 0]\<rparr>) s)))))
       else Inr s) (\<lambda>s.
     iupdate E ip (upd_inode ip (\<lambda>n. n\<lparr>d_size := 0\<rparr>) s)))"

definition iput :: "'a fs_env \<Rightarrow> nat \<Rightarrow> 'a fsst_scheme \<Rightarrow> 'a fsst_scheme res" where
  "iput E ip s =
     bind_res (acquire L_icache s) (\<lambda>s.
     let n = icache s ! ip in
     bind_res (
       if i_ref n = 1 \<and> i_flags n AND I_VALID \<noteq> 0 \<and> d_nlink n = 0 then
         bind_res (release L_icache s) (\<lambda>s.
         bind_res (itrunc E ip s) (\<lambda>s.
         bind_res (iupdate E ip (upd_inode ip (\<lambda>n. n\<lparr>d_type := 0\<rparr>) s)) (\<lambda>s.
         bind_res (acquire L_icache s) (\<lambda>s.
         Inr (upd_inode ip (\<lambda>n. n\<lparr>i_flags := 0\<rparr>) s)))))
       else Inr s) (\<lambda>s.
     release L_icache (upd_inode ip (\<lambda>n. n\<lparr>i_ref := i_ref n - 1\<rparr>) s)))"

definition iunlockput :: "'a fs_env \<Rightarrow> nat \<Rightarrow> 'a fsst_scheme \<Rightarrow> 'a fsst_scheme res" where
  "iunlockput E ip s = bind_res (iunlock (Some ip) s) (iput E ip)"

definition bmap :: "'a fs_env \<Rightarrow> nat \<Rightarrow> uint \<Rightarrow> 'a fsst_scheme \<Rightarrow> (uint \<times> 'a fsst_scheme) res" where
  "bmap E ip bn s =
     (let dev = i_dev (icache s ! ip) in
      if bn < of_nat NDIRECT then
        (let addr = d_addrs (icache s ! ip) ! unat bn in
         if addr = 0 then
           bind_res (balloc E dev s) (\<lambda>(addr, s).
           Inr (addr, upd_inode ip (\<lambda>n. n\<lparr>d_addrs := (d_addrs n)[unat bn := addr]\<rparr>) s))
         else Inr (addr, s))
      else
        let bn = bn - of_nat NDIRECT in
        if bn < of_nat NINDIRECT then
          bind_res (
            let addr = d_addrs (icache s ! ip) ! NDIRECT in
            if addr = 0 then
              bind_res (balloc E dev s) (\<lambda>(addr, s).
              Inr (addr, upd_inode ip (\<lambda>n. n\<lparr>d_addrs := (d_addrs n)[NDIRECT := addr]\<rparr>) s))
            else Inr (addr, s)) (\<lambda>(ind, s).
          bind_res (bread (k_rw E) dev ind s) (\<lambda>(bp, s).
          let addr = field32 (unat bn) (b_data (bufs s bp)) in
          bind_res (
            if addr = 0 then
              bind_res (balloc E dev s) (\<lambda>(addr, s).
              bind_res (log_write bp (set_data bp (put32 (unat bn) addr (b_data (bufs s bp))) s)) (\<lambda>s.
              Inr (addr, s)))
            else Inr (addr, s)) (\<lambda>(addr, s).
          bind_res (brelse bp s) (\<lambda>s. Inr (addr, s)))))
        else Inl (Panic ''bmap: out of range''))"

definition stati :: "nat \<Rightarrow> 'a fsst_scheme \<Rightarrow> stat" where
  "stati ip s = (let n = icache s ! ip in
     \<lparr>st_type = d_type n, st_dev = sint (i_dev n), st_ino = i_inum n, st_nlink = d_nlink n, st_size = d_size n\<rparr>)"

section \<open>Reading and writing content\<close>

text \<open>
  The loops of \<open>readi\<close> and \<open>writei\<close>. Each turn moves \<open>m \<ge> 1\<close> bytes, so \<open>n\<close> turns are enough.
  \<open>readi_loop\<close> collects the bytes that the code moves to \<open>dst\<close>.
\<close>

definition chunk :: "uint \<Rightarrow> uint \<Rightarrow> uint \<Rightarrow> uint" where
  "chunk n tot off = (if n - tot < of_nat BSIZE - off mod of_nat BSIZE then n - tot
     else of_nat BSIZE - off mod of_nat BSIZE)"

fun readi_loop ::
  "nat \<Rightarrow> 'a fs_env \<Rightarrow> nat \<Rightarrow> uint \<Rightarrow> uint \<Rightarrow> uint \<Rightarrow> uchar list \<Rightarrow> 'a fsst_scheme \<Rightarrow>
   (uchar list \<times> 'a fsst_scheme) res" where
  "readi_loop fuel E ip n tot off acc s =
     (if tot < n then
        case fuel of 0 \<Rightarrow> Inl (Blocks ''readi'') | Suc fuel \<Rightarrow>
          bind_res (bmap E ip (off div of_nat BSIZE) s) (\<lambda>(bno, s).
          bind_res (bread (k_rw E) (i_dev (icache s ! ip)) bno s) (\<lambda>(bp, s).
          let m = chunk n tot off;
              bytes = take (unat m) (drop (unat (off mod of_nat BSIZE)) (b_data (bufs s bp)))
          in bind_res (brelse bp s) (readi_loop fuel E ip n (tot + m) (off + m) (acc @ bytes))))
      else Inr (acc, s))"

text \<open>The part of \<open>readi\<close> for inodes that are not devices: the result and the bytes.\<close>

definition readi_data ::
  "'a fs_env \<Rightarrow> nat \<Rightarrow> uint \<Rightarrow> uint \<Rightarrow> 'a fsst_scheme \<Rightarrow> (int \<times> uchar list \<times> 'a fsst_scheme) res" where
  "readi_data E ip off n s =
     (let sz = d_size (icache s ! ip) in
      if off > sz \<or> off + n < off then Inr (-1, [], s)
      else
        let n = (if off + n > sz then sz - off else n) in
        bind_res (readi_loop (unat n) E ip n 0 off [] s) (\<lambda>(bytes, s). Inr (sint n, bytes, s)))"

definition store_bytes :: "memory \<Rightarrow> uint \<Rightarrow> uchar list \<Rightarrow> memory" where
  "store_bytes m dst bytes = fold (\<lambda>k m. m(dst + of_nat k := bytes ! k)) [0..<length bytes] m"

definition load_bytes :: "memory \<Rightarrow> uint \<Rightarrow> nat \<Rightarrow> uchar list" where
  "load_bytes m src n = map (\<lambda>k. m (src + of_nat k)) [0..<n]"

text \<open>The \<open>devsw\<close> call of both functions: -1 when the major number has no function.\<close>

definition dev_call ::
  "(nat \<Rightarrow> (nat \<Rightarrow> uint \<Rightarrow> uint \<Rightarrow> 's \<Rightarrow> (int \<times> 's) res) option) \<Rightarrow> ushort \<Rightarrow> nat \<Rightarrow> uint \<Rightarrow> uint \<Rightarrow> 's \<Rightarrow>
   (int \<times> 's) res" where
  "dev_call tab major ip p n s =
     (if sint major < 0 \<or> sint major \<ge> NDEV then Inr (-1, s)
      else case tab (unat major) of None \<Rightarrow> Inr (-1, s) | Some f \<Rightarrow> f ip p n s)"

definition readi :: "'a fs_env \<Rightarrow> nat \<Rightarrow> uint \<Rightarrow> uint \<Rightarrow> uint \<Rightarrow> 'a fsst_scheme \<Rightarrow> (int \<times> 'a fsst_scheme) res" where
  "readi E ip dst off n s =
     (if d_type (icache s ! ip) = T_DEV then
        dev_call (dev_read E) (d_major (icache s ! ip)) ip dst n s
      else
        bind_res (readi_data E ip off n s) (\<lambda>(r, bytes, s).
        Inr (r, s\<lparr>mem := store_bytes (mem s) dst bytes\<rparr>)))"

text \<open>\<open>src\<close> is the byte to write at each position of the caller's buffer.\<close>

fun writei_loop ::
  "nat \<Rightarrow> 'a fs_env \<Rightarrow> nat \<Rightarrow> (nat \<Rightarrow> uchar) \<Rightarrow> uint \<Rightarrow> uint \<Rightarrow> uint \<Rightarrow> 'a fsst_scheme \<Rightarrow>
   (uint \<times> 'a fsst_scheme) res" where
  "writei_loop fuel E ip src n tot off s =
     (if tot < n then
        case fuel of 0 \<Rightarrow> Inl (Blocks ''writei'') | Suc fuel \<Rightarrow>
          bind_res (bmap E ip (off div of_nat BSIZE) s) (\<lambda>(bno, s).
          bind_res (bread (k_rw E) (i_dev (icache s ! ip)) bno s) (\<lambda>(bp, s).
          let m = chunk n tot off;
              bytes = map (\<lambda>k. src (unat tot + k)) [0..<unat m];
              d = blit (b_data (bufs s bp)) (unat (off mod of_nat BSIZE)) bytes
          in bind_res (log_write bp (set_data bp d s)) (\<lambda>s.
             bind_res (brelse bp s) (writei_loop fuel E ip src n (tot + m) (off + m)))))
      else Inr (off, s))"

definition writei_data ::
  "'a fs_env \<Rightarrow> nat \<Rightarrow> (nat \<Rightarrow> uchar) \<Rightarrow> uint \<Rightarrow> uint \<Rightarrow> 'a fsst_scheme \<Rightarrow> (int \<times> 'a fsst_scheme) res" where
  "writei_data E ip src off n s =
     (if off > d_size (icache s ! ip) \<or> off + n < off then Inr (-1, s)
      else if off + n > of_nat (MAXFILE * BSIZE) then Inr (-1, s)
      else
        bind_res (writei_loop (unat n) E ip src n 0 off s) (\<lambda>(off, s).
        bind_res (
          if n > 0 \<and> off > d_size (icache s ! ip) then
            iupdate E ip (upd_inode ip (\<lambda>n. n\<lparr>d_size := off\<rparr>) s)
          else Inr s) (\<lambda>s.
        Inr (sint n, s))))"

definition writei :: "'a fs_env \<Rightarrow> nat \<Rightarrow> uint \<Rightarrow> uint \<Rightarrow> uint \<Rightarrow> 'a fsst_scheme \<Rightarrow> (int \<times> 'a fsst_scheme) res" where
  "writei E ip src off n s =
     (if d_type (icache s ! ip) = T_DEV then
        dev_call (dev_write E) (d_major (icache s ! ip)) ip src n s
      else writei_data E ip (\<lambda>k. mem s (src + of_nat k)) off n s)"

end
