(* ===== verification/Directory.thy ===== *)
theory Directory
  imports Inode
begin

text \<open>
  Directories and path names (the last two layers of \<open>fs.c\<close>): directory entries, lookup and
  linking, splitting a path into its elements, and walking it.
\<close>

section \<open>Directory entries\<close>

abbreviation DIRSIZ :: nat where "DIRSIZ \<equiv> 14"
abbreviation DESIZE :: uint where "DESIZE \<equiv> 16"

record dirent =
  de_inum :: ushort
  de_name :: "uchar list"

definition decode_dirent :: "uchar list \<Rightarrow> dirent" where
  "decode_dirent bs = \<lparr>de_inum = word16 (take 2 bs), de_name = take DIRSIZ (drop 2 bs)\<rparr>"

definition encode_dirent :: "dirent \<Rightarrow> uchar list" where
  "encode_dirent de = le16 (de_inum de) @ de_name de"

text \<open>
  Names are arrays of bytes; a string ends at its first 0 or at the end of the list, where
  the code has a 0 byte. \<open>strncmp\<close> and \<open>strncpy\<close> (theory \<open>Cstring\<close>) on them:
\<close>

definition char_at :: "uchar list \<Rightarrow> nat \<Rightarrow> uchar" where
  "char_at xs i = (if i < length xs then xs ! i else 0)"

fun name_diff :: "nat \<Rightarrow> nat \<Rightarrow> uchar list \<Rightarrow> uchar list \<Rightarrow> int" where
  "name_diff i 0 p q = 0"
| "name_diff i (Suc n) p q =
     (if char_at p i \<noteq> 0 \<and> char_at p i = char_at q i then name_diff (Suc i) n p q
      else uint (char_at p i) - uint (char_at q i))"

definition namecmp :: "uchar list \<Rightarrow> uchar list \<Rightarrow> int" where
  "namecmp s t = name_diff 0 DIRSIZ s t"

fun copy_name :: "nat \<Rightarrow> uchar list \<Rightarrow> uchar list" where
  "copy_name 0 t = []"
| "copy_name (Suc n) [] = replicate (Suc n) 0"
| "copy_name (Suc n) (c # t) = (if c = 0 then replicate (Suc n) 0 else c # copy_name n t)"

section \<open>Lookup\<close>

text \<open>
  \<open>readi(dp, (char*)&de, off, sizeof(de))\<close> into the local entry; \<open>dp\<close> is a directory there,
  so the device case of \<open>readi\<close> does not arise.
\<close>

definition read_dirent :: "'a fs_env \<Rightarrow> nat \<Rightarrow> uint \<Rightarrow> 'a fsst_scheme \<Rightarrow> (dirent \<times> 'a fsst_scheme) res" where
  "read_dirent E dp off s =
     bind_res (if d_type (icache s ! dp) = T_DEV then Inl (Fault ''device'') else readi_data E dp off DESIZE s)
       (\<lambda>(r, bytes, s).
     bind_res (panic_if (r \<noteq> 16) ''dirlink read'') (\<lambda>_. Inr (decode_dirent bytes, s)))"

text \<open>The loop of \<open>dirlookup\<close> from offset \<open>off\<close>; the result is the inode and the offset.\<close>

fun dirlookup_loop ::
  "nat \<Rightarrow> 'a fs_env \<Rightarrow> nat \<Rightarrow> uchar list \<Rightarrow> uint \<Rightarrow> 'a fsst_scheme \<Rightarrow> ((nat \<times> uint) option \<times> 'a fsst_scheme) res" where
  "dirlookup_loop fuel E dp name off s =
     (if off < d_size (icache s ! dp) then
        case fuel of 0 \<Rightarrow> Inl (Blocks ''dirlookup'') | Suc fuel \<Rightarrow>
          bind_res (read_dirent E dp off s) (\<lambda>(de, s).
          if de_inum de \<noteq> 0 \<and> namecmp name (de_name de) = 0 then
            bind_res (iget (i_dev (icache s ! dp)) (ucast (de_inum de)) s) (\<lambda>(ip, s).
            Inr (Some (ip, off), s))
          else dirlookup_loop fuel E dp name (off + DESIZE) s)
      else Inr (None, s))"

definition dirlookup ::
  "'a fs_env \<Rightarrow> nat \<Rightarrow> uchar list \<Rightarrow> 'a fsst_scheme \<Rightarrow> ((nat \<times> uint) option \<times> 'a fsst_scheme) res" where
  "dirlookup E dp name s =
     bind_res (panic_if (d_type (icache s ! dp) \<noteq> T_DIR) ''dirlookup not DIR'') (\<lambda>_.
     dirlookup_loop (2 ^ 28) E dp name 0 s)"

text \<open>The offset of the first free entry, or the end of the directory.\<close>

fun free_dirent ::
  "nat \<Rightarrow> 'a fs_env \<Rightarrow> nat \<Rightarrow> uint \<Rightarrow> 'a fsst_scheme \<Rightarrow> (uint \<times> 'a fsst_scheme) res" where
  "free_dirent fuel E dp off s =
     (if off < d_size (icache s ! dp) then
        case fuel of 0 \<Rightarrow> Inl (Blocks ''dirlink'') | Suc fuel \<Rightarrow>
          bind_res (read_dirent E dp off s) (\<lambda>(de, s).
          if de_inum de = 0 then Inr (off, s)
          else free_dirent fuel E dp (off + DESIZE) s)
      else Inr (off, s))"

definition dirlink :: "'a fs_env \<Rightarrow> nat \<Rightarrow> uchar list \<Rightarrow> uint \<Rightarrow> 'a fsst_scheme \<Rightarrow> (int \<times> 'a fsst_scheme) res" where
  "dirlink E dp name inum s =
     bind_res (dirlookup E dp name s) (\<lambda>(found, s).
     case found of
       Some (ip, _) \<Rightarrow> bind_res (iput E ip s) (\<lambda>s. Inr (-1, s))
     | None \<Rightarrow>
         bind_res (free_dirent (2 ^ 28) E dp 0 s) (\<lambda>(off, s).
         let bytes = encode_dirent \<lparr>de_inum = ucast inum, de_name = copy_name DIRSIZ name\<rparr> in
         bind_res (writei_data E dp (\<lambda>k. bytes ! k) off DESIZE s) (\<lambda>(r, s).
         bind_res (panic_if (r \<noteq> 16) ''dirlink'') (\<lambda>_.
         Inr (0, s)))))"

section \<open>Paths\<close>

abbreviation slash :: uchar where "slash \<equiv> 47"

text \<open>
  \<open>skipelem(path, name)\<close>: \<open>path\<close> is the string from the pointer on, without its final 0, and
  \<open>name\<close> the 14-byte buffer; the result is the rest of the path and the buffer.
\<close>

definition put_name :: "uchar list \<Rightarrow> uchar list \<Rightarrow> uchar list" where
  "put_name elem name = (if length elem \<ge> DIRSIZ then blit name 0 (take DIRSIZ elem)
     else blit name 0 (elem @ [0]))"

definition skipelem :: "uchar list \<Rightarrow> uchar list \<Rightarrow> (uchar list \<times> uchar list) option" where
  "skipelem path name =
     (let path = dropWhile (\<lambda>c. c = slash) path in
      if path = [] then None
      else
        let elem = takeWhile (\<lambda>c. c \<noteq> slash) path;
            path = dropWhile (\<lambda>c. c \<noteq> slash) path
        in Some (dropWhile (\<lambda>c. c = slash) path, put_name elem name))"

text \<open>The loop of \<open>namex\<close>; every turn removes an element, so the path's length is fuel enough.\<close>

fun namex_loop ::
  "nat \<Rightarrow> 'a fs_env \<Rightarrow> bool \<Rightarrow> nat \<Rightarrow> uchar list \<Rightarrow> uchar list \<Rightarrow> 'a fsst_scheme \<Rightarrow>
   (nat option \<times> uchar list \<times> 'a fsst_scheme) res" where
  "namex_loop fuel E parent ip path name s = (case skipelem path name of
     None \<Rightarrow>
       if parent then bind_res (iput E ip s) (\<lambda>s. Inr (None, name, s))
       else Inr (Some ip, name, s)
   | Some (path, name) \<Rightarrow>
       (case fuel of 0 \<Rightarrow> Inl (Blocks ''namex'') | Suc fuel \<Rightarrow>
        bind_res (ilock E (Some ip) s) (\<lambda>s.
        if d_type (icache s ! ip) \<noteq> T_DIR then
          bind_res (iunlockput E ip s) (\<lambda>s. Inr (None, name, s))
        else if parent \<and> path = [] then
          bind_res (iunlock (Some ip) s) (\<lambda>s. Inr (Some ip, name, s))
        else
          bind_res (dirlookup E ip name s) (\<lambda>(found, s).
          case found of
            None \<Rightarrow> bind_res (iunlockput E ip s) (\<lambda>s. Inr (None, name, s))
          | Some (nxt, _) \<Rightarrow>
              bind_res (iunlockput E ip s) (namex_loop fuel E parent nxt path name)))))"

definition namex ::
  "'a fs_env \<Rightarrow> uchar list \<Rightarrow> bool \<Rightarrow> uchar list \<Rightarrow> 'a fsst_scheme \<Rightarrow> (nat option \<times> uchar list \<times> 'a fsst_scheme) res" where
  "namex E path parent name s =
     bind_res (if char_at path 0 = slash then iget ROOTDEV ROOTINO s
               else bind_res (myproc s) (\<lambda>p. idup (p_cwd p) s)) (\<lambda>(ip, s).
     namex_loop (length path) E parent ip path name s)"

definition namei :: "'a fs_env \<Rightarrow> uchar list \<Rightarrow> 'a fsst_scheme \<Rightarrow> (nat option \<times> 'a fsst_scheme) res" where
  "namei E path s =
     bind_res (namex E path False (replicate DIRSIZ 0) s) (\<lambda>(ip, _, s). Inr (ip, s))"

definition nameiparent ::
  "'a fs_env \<Rightarrow> uchar list \<Rightarrow> uchar list \<Rightarrow> 'a fsst_scheme \<Rightarrow> (nat option \<times> uchar list \<times> 'a fsst_scheme) res" where
  "nameiparent E path name s = namex E path True name s"

end
