(* ===== verification/Pipe.thy ===== *)
theory Pipe
  imports Sleeplock Kalloc Machine
begin

text \<open>
  Pipes (\<open>pipe.c\<close>): a ring of 512 bytes between two counters that only grow, modulo \<open>2 ^ 32\<close>.
  A reader or writer that has to wait calls \<open>sleep\<close>; the part of an operation between two
  such points runs with the pipe's lock held and is one step of the interleaving model at the
  end. \<open>pipealloc\<close>, which also allocates the two files, is in theory \<open>File\<close>.
\<close>

section \<open>Operations\<close>

abbreviation PIPESIZE :: uint where "PIPESIZE \<equiv> 512"

record pipe =
  pi_data :: "uchar list"
  pi_nread :: uint
  pi_nwrite :: uint
  pi_readopen :: bool
  pi_writeopen :: bool

text \<open>How a reader or writer leaves the lock: with its result, or asleep at index \<open>i\<close>.\<close>

datatype outcome = Done int | Asleep nat

definition killed :: "'a kcore_scheme \<Rightarrow> bool res" where
  "killed s = bind_res (myproc s) (\<lambda>p. Inr (p_killed p))"

text \<open>
  The loop of \<open>pipewrite\<close> from index \<open>i\<close> with \<open>r\<close> bytes to go. Its inner \<open>while\<close> ends with a
  return or with \<open>sleep\<close>, after which the same loop goes on from the same index.
\<close>

fun pipewrite_loop ::
  "uint \<Rightarrow> uint \<Rightarrow> int \<Rightarrow> nat \<Rightarrow> nat \<Rightarrow> pipe \<Rightarrow> 'a kmem_scheme \<Rightarrow> (outcome \<times> pipe \<times> 'a kmem_scheme) res" where
  "pipewrite_loop p addr n i 0 q s =
     bind_res (wakeup (Ch_nread p) s) (\<lambda>s.
     bind_res (release (L_pipe p) s) (\<lambda>s. Inr (Done n, q, s)))"
| "pipewrite_loop p addr n i (Suc r) q s =
     (if pi_nwrite q = pi_nread q + PIPESIZE then
        bind_res (if \<not> pi_readopen q then Inr True else killed s) (\<lambda>stop.
        if stop then bind_res (release (L_pipe p) s) (\<lambda>s. Inr (Done (-1), q, s))
        else
          bind_res (wakeup (Ch_nread p) s) (\<lambda>s.
          bind_res (sleep (Ch_nwrite p) (Some (L_pipe p)) s) (\<lambda>s.
          Inr (Asleep i, q, s))))
      else
        let q = q\<lparr>pi_data := (pi_data q)[unat (pi_nwrite q mod PIPESIZE) := mem s (addr + of_nat i)],
                  pi_nwrite := pi_nwrite q + 1\<rparr>
        in pipewrite_loop p addr n (Suc i) r q s)"

definition pipewrite ::
  "uint \<Rightarrow> uint \<Rightarrow> int \<Rightarrow> pipe \<Rightarrow> 'a kmem_scheme \<Rightarrow> (outcome \<times> pipe \<times> 'a kmem_scheme) res" where
  "pipewrite p addr n q s =
     bind_res (acquire (L_pipe p) s) (\<lambda>s. pipewrite_loop p addr n 0 (nat n) q s)"

fun piperead_loop ::
  "uint \<Rightarrow> nat \<Rightarrow> nat \<Rightarrow> pipe \<Rightarrow> 'a kmem_scheme \<Rightarrow> nat \<times> pipe \<times> 'a kmem_scheme" where
  "piperead_loop addr i 0 q s = (i, q, s)"
| "piperead_loop addr i (Suc r) q s =
     (if pi_nread q = pi_nwrite q then (i, q, s)
      else
        let s = s\<lparr>mem := (mem s)(addr + of_nat i := pi_data q ! unat (pi_nread q mod PIPESIZE))\<rparr>;
            q = q\<lparr>pi_nread := pi_nread q + 1\<rparr>
        in piperead_loop addr (Suc i) r q s)"

text \<open>\<open>piperead\<close> from the head of its \<open>while\<close>, with the lock held.\<close>

definition piperead_locked ::
  "uint \<Rightarrow> uint \<Rightarrow> int \<Rightarrow> pipe \<Rightarrow> 'a kmem_scheme \<Rightarrow> (outcome \<times> pipe \<times> 'a kmem_scheme) res" where
  "piperead_locked p addr n q s =
     (if pi_nread q = pi_nwrite q \<and> pi_writeopen q then
        bind_res (killed s) (\<lambda>k.
        if k then bind_res (release (L_pipe p) s) (\<lambda>s. Inr (Done (-1), q, s))
        else bind_res (sleep (Ch_nread p) (Some (L_pipe p)) s) (\<lambda>s. Inr (Asleep 0, q, s)))
      else
        (let (i, q, s) = piperead_loop addr 0 (nat n) q s in
         bind_res (wakeup (Ch_nwrite p) s) (\<lambda>s.
         bind_res (release (L_pipe p) s) (\<lambda>s. Inr (Done (int i), q, s)))))"

definition piperead ::
  "uint \<Rightarrow> uint \<Rightarrow> int \<Rightarrow> pipe \<Rightarrow> 'a kmem_scheme \<Rightarrow> (outcome \<times> pipe \<times> 'a kmem_scheme) res" where
  "piperead p addr n q s =
     bind_res (acquire (L_pipe p) s) (\<lambda>s. piperead_locked p addr n q s)"

text \<open>\<open>pipeclose\<close>; the second component is \<open>None\<close> once the page is freed.\<close>

definition pipeclose ::
  "uint \<Rightarrow> uint \<Rightarrow> bool \<Rightarrow> pipe \<Rightarrow> 'a kmem_scheme \<Rightarrow> (pipe option \<times> 'a kmem_scheme) res" where
  "pipeclose kend p writable q s =
     bind_res (acquire (L_pipe p) s) (\<lambda>s.
     let q = (if writable then q\<lparr>pi_writeopen := False\<rparr> else q\<lparr>pi_readopen := False\<rparr>) in
     bind_res (wakeup (if writable then Ch_nread p else Ch_nwrite p) s) (\<lambda>s.
     if \<not> pi_readopen q \<and> \<not> pi_writeopen q then
       bind_res (release (L_pipe p) s) (\<lambda>s.
       bind_res (kfree kend p s) (\<lambda>s. Inr (None, s)))
     else bind_res (release (L_pipe p) s) (\<lambda>s. Inr (Some q, s))))"

text \<open>The fields \<open>pipealloc\<close> sets; the data bytes are what the page held.\<close>

definition pipe_new :: "uchar list \<Rightarrow> pipe" where
  "pipe_new junk = \<lparr>pi_data = junk, pi_nread = 0, pi_nwrite = 0, pi_readopen = True, pi_writeopen = True\<rparr>"

section \<open>The ring as a queue\<close>

definition used :: "pipe \<Rightarrow> nat" where
  "used q = unat (pi_nwrite q - pi_nread q)"

definition slot :: "pipe \<Rightarrow> nat \<Rightarrow> uchar" where
  "slot q k = pi_data q ! unat ((pi_nread q + of_nat k) mod PIPESIZE)"

definition contents :: "pipe \<Rightarrow> uchar list" where
  "contents q = map (slot q) [0..<used q]"

definition pipe_wf :: "pipe \<Rightarrow> bool" where
  "pipe_wf q \<longleftrightarrow> length (pi_data q) = 512 \<and> used q \<le> 512"

lemma length_contents [simp]: "length (contents q) = used q"
  by (simp add: contents_def)

lemma full_iff: "pipe_wf q \<Longrightarrow> pi_nwrite q = pi_nread q + PIPESIZE \<longleftrightarrow> used q = 512"
proof -
  have "pi_nwrite q = pi_nread q + PIPESIZE \<longleftrightarrow> pi_nwrite q - pi_nread q = 512"
    by (auto simp: algebra_simps)
  also have "\<dots> \<longleftrightarrow> used q = 512" by (simp add: used_def word_unat_eq_iff)
  finally show ?thesis .
qed

lemma empty_iff: "pi_nread q = pi_nwrite q \<longleftrightarrow> used q = 0"
  by (auto simp: used_def unat_eq_0)

text \<open>Because 512 divides \<open>2 ^ 32\<close>, the index of a byte survives the wrap-around of the counters.\<close>

lemma ring_index: "unat ((x + of_nat k :: uint) mod PIPESIZE) = (unat x + k) mod 512"
proof -
  have "(unat x + k) mod 2 ^ 32 mod 512 = (unat x + k) mod 512"
    by (rule mod_mod_cancel) simp
  then show ?thesis by (simp add: unat_mod unat_word_ariths unat_of_nat mod_simps)
qed

definition put :: "uchar \<Rightarrow> pipe \<Rightarrow> pipe" where
  "put b q = q\<lparr>pi_data := (pi_data q)[unat (pi_nwrite q mod PIPESIZE) := b], pi_nwrite := pi_nwrite q + 1\<rparr>"

definition get :: "pipe \<Rightarrow> pipe" where
  "get q = q\<lparr>pi_nread := pi_nread q + 1\<rparr>"

lemma put_frame [simp]:
  "pi_nread (put b q) = pi_nread q" "pi_readopen (put b q) = pi_readopen q"
  "pi_writeopen (put b q) = pi_writeopen q" "length (pi_data (put b q)) = length (pi_data q)"
  by (simp_all add: put_def)

lemma get_frame [simp]:
  "pi_nwrite (get q) = pi_nwrite q" "pi_readopen (get q) = pi_readopen q"
  "pi_writeopen (get q) = pi_writeopen q" "pi_data (get q) = pi_data q"
  by (simp_all add: get_def)

lemma nwrite_used: "pi_nwrite q = pi_nread q + of_nat (used q)"
  by (simp add: used_def)

lemma put_ok:
  assumes "pipe_wf q" "used q < 512"
  shows "pipe_wf (put b q)" "used (put b q) = Suc (used q)" "contents (put b q) = contents q @ [b]"
proof -
  have l: "length (pi_data q) = 512" using assms(1) by (simp add: pipe_wf_def)
  have d: "pi_nwrite (put b q) - pi_nread (put b q) = (pi_nwrite q - pi_nread q) + 1" by (simp add: put_def)
  show u: "used (put b q) = Suc (used q)"
    using assms(2) unat_add_small[of "pi_nwrite q - pi_nread q" 1] unfolding used_def d by simp
  then show "pipe_wf (put b q)" using assms by (simp add: pipe_wf_def)
  have w: "unat (pi_nwrite q mod PIPESIZE) = (unat (pi_nread q) + used q) mod 512"
    using ring_index[of "pi_nread q" "used q"] nwrite_used[of q] by simp
  have s: "slot (put b q) k = (if k = used q then b else slot q k)" if "k \<le> used q" for k
  proof (cases "k = used q")
    case True
    then show ?thesis using l w by (simp add: slot_def ring_index put_def)
  next
    case False
    then have "(unat (pi_nread q) + k) mod 512 \<noteq> (unat (pi_nread q) + used q) mod 512"
      using ring_distinct[of k 512 "used q"] that assms(2) by auto
    then show ?thesis using False w by (simp add: slot_def ring_index put_def)
  qed
  show "contents (put b q) = contents q @ [b]"
    using u s by (simp add: contents_def)
qed

lemma get_ok:
  assumes "pipe_wf q" "used q \<noteq> 0"
  shows "pipe_wf (get q)" "used q = Suc (used (get q))" "contents q = slot q 0 # contents (get q)"
proof -
  have d: "pi_nwrite q - pi_nread q = 1 + (pi_nwrite (get q) - pi_nread (get q))" by (simp add: get_def)
  have "pi_nwrite q - pi_nread q \<noteq> 0"
  proof
    assume "pi_nwrite q - pi_nread q = 0"
    then show False using assms(2) by (simp only: used_def unat_0)
  qed
  then show u: "used q = Suc (used (get q))" unfolding used_def d by (rule unatSuc)
  then show "pipe_wf (get q)" using assms(1) by (simp add: pipe_wf_def)
  have "slot (get q) k = slot q (Suc k)" for k
    by (simp add: slot_def get_def algebra_simps)
  then show "contents q = slot q 0 # contents (get q)"
    unfolding contents_def u by (simp add: upt_conv_Cons map_Suc_upt[symmetric] del: upt_Suc)
qed

section \<open>What one turn moves\<close>

definition bytes_at :: "memory \<Rightarrow> uint \<Rightarrow> nat \<Rightarrow> nat \<Rightarrow> uchar list" where
  "bytes_at m addr i k = map (\<lambda>j. m (addr + of_nat j)) [i..<i + k]"

lemma bytes_at_Suc: "bytes_at m addr i (Suc k) = m (addr + of_nat i) # bytes_at m addr (Suc i) k"
  by (simp add: bytes_at_def upt_conv_Cons del: upt_Suc)

lemma bytes_at_0 [simp]: "bytes_at m addr i 0 = []"
  by (simp add: bytes_at_def)

definition kill_flag :: "'a kcore_scheme \<Rightarrow> bool" where
  "kill_flag s = (case curproc s of None \<Rightarrow> False | Some i \<Rightarrow> p_killed (ptable s ! i))"

lemma kill_flag_held [simp]: "kill_flag (s\<lparr>held := H\<rparr>) = kill_flag s"
  by (simp add: kill_flag_def split: option.split)

lemma killed_ok: "has_proc s \<Longrightarrow> killed s = Inr (kill_flag s)"
  by (auto simp: has_proc_def killed_def kill_flag_def myproc_def)

lemma sleep_runs:
  assumes "has_proc s" "held s = {l}" "l \<noteq> L_ptable"
  shows "\<exists>t. sleep c (Some l) s = Inr (s\<lparr>ptable := t\<rparr>)"
  using sleep_ok[of s _ l c] assms by (auto simp: has_proc_def)

definition moved :: "pipe \<Rightarrow> uchar list \<Rightarrow> pipe \<Rightarrow> bool" where
  "moved q bs q' \<longleftrightarrow> pipe_wf q' \<and> contents q' = contents q @ bs \<and> pi_nread q' = pi_nread q
     \<and> pi_readopen q' = pi_readopen q \<and> pi_writeopen q' = pi_writeopen q"

lemma moved_put: "\<lbrakk>pipe_wf q; used q < 512; moved (put b q) bs q'\<rbrakk> \<Longrightarrow> moved q (b # bs) q'"
  by (simp add: moved_def put_ok)

text \<open>How a turn of the writer ends when \<open>r\<close> bytes were left and there was room for \<open>room\<close>.\<close>

definition write_result :: "uint \<Rightarrow> int \<Rightarrow> nat \<Rightarrow> nat \<Rightarrow> nat \<Rightarrow> pipe \<Rightarrow> 'a kmem_scheme \<Rightarrow> outcome \<Rightarrow> 'a kmem_scheme \<Rightarrow> bool" where
  "write_result p n i r room q s out t \<longleftrightarrow> mem t = mem s \<and>
     (if r \<le> room then out = Done n \<and> held t = {}
      else if \<not> pi_readopen q \<or> kill_flag s then out = Done (-1) \<and> held t = {}
      else out = Asleep (i + room) \<and> held t = {L_pipe p})"

lemma pipewrite_loop_ok:
  "\<lbrakk>pipe_wf q; held s = {L_pipe p}; has_proc s\<rbrakk> \<Longrightarrow>
    \<exists>out q' t. pipewrite_loop p addr n i r q s = Inr (out, q', t)
      \<and> moved q (bytes_at (mem s) addr i (min r (512 - used q))) q'
      \<and> write_result p n i r (512 - used q) q s out t"
proof (induction r arbitrary: i q)
  case 0
  then show ?case by (simp add: moved_def write_result_def wakeup1_def)
next
  case (Suc r)
  show ?case
  proof (cases "used q = 512")
    case full: True
    then have f: "pi_nwrite q = pi_nread q + PIPESIZE" using full_iff[OF Suc.prems(1)] by simp
    obtain pt where sl: "sleep (Ch_nwrite p) (Some (L_pipe p)) (wakeup1 (Ch_nread p) s)
        = Inr (wakeup1 (Ch_nread p) s\<lparr>ptable := pt\<rparr>)"
      using sleep_runs[of "wakeup1 (Ch_nread p) s" "L_pipe p"] Suc.prems by auto
    have "pi_nread q + PIPESIZE = pi_nwrite q" using f by simp
    then show ?thesis
      using full Suc.prems f sl killed_ok[OF Suc.prems(3)]
      by (auto simp: moved_def write_result_def wakeup1_def)
  next
    case False
    then have u: "used q < 512" using Suc.prems(1) by (simp add: pipe_wf_def)
    have nf: "pi_nwrite q \<noteq> pi_nread q + PIPESIZE" using full_iff[OF Suc.prems(1)] False by simp
    let ?b = "mem s (addr + of_nat i)"
    have e: "pipewrite_loop p addr n i (Suc r) q s = pipewrite_loop p addr n (Suc i) r (put ?b q) s"
      using nf by (simp add: put_def Let_def)
    obtain out q' t where IH: "pipewrite_loop p addr n (Suc i) r (put ?b q) s = Inr (out, q', t)"
      "moved (put ?b q) (bytes_at (mem s) addr (Suc i) (min r (512 - used (put ?b q)))) q'"
      "write_result p n (Suc i) r (512 - used (put ?b q)) (put ?b q) s out t"
      using Suc.IH[OF put_ok(1)[OF Suc.prems(1) u] Suc.prems(2,3)] by blast
    have m: "min (Suc r) (512 - used q) = Suc (min r (512 - used (put ?b q)))"
    proof -
      have "512 - used q = Suc (512 - used (put ?b q))"
        using u unfolding put_ok(2)[OF Suc.prems(1) u] by linarith
      then show ?thesis by simp
    qed
    have "moved q (bytes_at (mem s) addr i (min (Suc r) (512 - used q))) q'"
      unfolding m bytes_at_Suc using moved_put[OF Suc.prems(1) u IH(2)] .
    moreover have "write_result p n i (Suc r) (512 - used q) q s out t"
      using IH(3) u put_ok(2)[OF Suc.prems(1) u] by (auto simp: write_result_def split: if_splits)
    ultimately show ?thesis using e IH(1) by auto
  qed
qed

text \<open>The reader takes bytes from the front.\<close>

lemma piperead_loop_ok:
  "\<lbrakk>pipe_wf q; piperead_loop addr i r q s = (j, q', t)\<rbrakk> \<Longrightarrow>
    let k = min r (used q) in
      j = i + k \<and> pipe_wf q' \<and> contents q' = drop k (contents q) \<and> pi_nwrite q' = pi_nwrite q
      \<and> pi_readopen q' = pi_readopen q \<and> pi_writeopen q' = pi_writeopen q
      \<and> t = s\<lparr>mem := mem t\<rparr> \<and> (i + k \<le> 2 ^ 32 \<longrightarrow> bytes_at (mem t) addr i k = take k (contents q)
        \<and> (\<forall>a. (\<forall>l. i \<le> l \<and> l < i + k \<longrightarrow> a \<noteq> addr + of_nat l) \<longrightarrow> mem t a = mem s a))"
proof (induction r arbitrary: i q s)
  case 0
  then show ?case by (auto simp: Let_def)
next
  case (Suc r)
  show ?case
  proof (cases "used q = 0")
    case True
    then have "contents q = []" by (simp add: contents_def)
    then show ?thesis using True Suc.prems empty_iff[of q] by (auto simp: Let_def)
  next
    case False
    note g = get_ok[OF Suc.prems(1) False]
    have ne: "pi_nread q \<noteq> pi_nwrite q" using empty_iff[of q] False by simp
    let ?b = "slot q 0"
    let ?s = "s\<lparr>mem := (mem s)(addr + of_nat i := ?b)\<rparr>"
    have e: "piperead_loop addr (Suc i) r (get q) ?s = (j, q', t)"
      using Suc.prems(2) ne by (simp add: get_def slot_def Let_def)
    let ?k = "min r (used (get q))"
    have k: "min (Suc r) (used q) = Suc ?k" using g(2) by simp
    note IH = Suc.IH[OF g(1) e, unfolded Let_def]
    have b: "mem t (addr + of_nat i) = ?b" if "i + Suc ?k \<le> 2 ^ 32"
    proof -
      have "addr + of_nat i \<noteq> addr + of_nat l" if "Suc i \<le> l" "l < Suc i + ?k" for l
      proof -
        have "i < 2 ^ LENGTH(32)" "l < 2 ^ LENGTH(32)" using that \<open>i + Suc ?k \<le> 2 ^ 32\<close> by simp_all
        then have "unat (of_nat i :: uint) = i" "unat (of_nat l :: uint) = l" by (simp_all only: unat_small)
        then show ?thesis using that(1) by (metis Suc_n_not_le_n add_left_cancel)
      qed
      then show ?thesis using IH that by auto
    qed
    show ?thesis
      unfolding Let_def k bytes_at_Suc using IH b g(3)
      by (auto simp: fun_upd_def)
  qed
qed

lemma count_written:
  assumes "pipe_wf q" "pipe_wf q'" "pi_nread q' = pi_nread q" "used q' = used q + k"
  shows "unat (pi_nwrite q' - pi_nwrite q) = k"
proof -
  have "pi_nwrite q' - pi_nwrite q = of_nat k"
    using nwrite_used[of q] nwrite_used[of q'] assms(3,4) by simp
  moreover have "k < 2 ^ LENGTH(32)" using assms(2,4) by (simp add: pipe_wf_def)
  ultimately show ?thesis by (simp only: unat_small)
qed

lemma count_read:
  assumes "pipe_wf q" "pi_nwrite q' = pi_nwrite q" "used q = used q' + k"
  shows "unat (pi_nread q' - pi_nread q) = k"
proof -
  have "pi_nread q' + of_nat (used q') = pi_nread q + of_nat (used q)"
    using nwrite_used[of q] nwrite_used[of q'] assms(2) by simp
  then have "pi_nread q' - pi_nread q = of_nat k" using assms(3) by (simp add: algebra_simps)
  moreover have "k < 2 ^ LENGTH(32)" using assms(1,3) by (simp add: pipe_wf_def)
  ultimately show ?thesis by (simp only: unat_small)
qed

lemma moved_used: "moved q bs q' \<Longrightarrow> used q' = used q + length bs"
  by (metis moved_def length_append length_contents)

lemma length_bytes_at [simp]: "length (bytes_at m addr i k) = k"
  by (simp add: bytes_at_def)

definition read_result :: "uint \<Rightarrow> int \<Rightarrow> pipe \<Rightarrow> 'a kmem_scheme \<Rightarrow> nat \<Rightarrow> outcome \<Rightarrow> 'a kmem_scheme \<Rightarrow> bool" where
  "read_result addr n q s k out t \<longleftrightarrow>
     bytes_at (mem t) addr 0 k = take k (contents q)
     \<and> (\<forall>a. (\<forall>l<k. a \<noteq> addr + of_nat l) \<longrightarrow> mem t a = mem s a)
     \<and> (if used q = 0 \<and> pi_writeopen q then k = 0 \<and>
          (if kill_flag s then out = Done (-1) \<and> held t = {} else out = Asleep 0)
        else k = min (nat n) (used q) \<and> out = Done (int k) \<and> held t = {})"

text \<open>A reader's turn: it gives up, sleeps, or moves bytes to the caller's memory.\<close>

lemma piperead_locked_ok:
  assumes "pipe_wf q" "held s = {L_pipe p}" "has_proc s"
  shows "\<exists>out q' t k. piperead_locked p addr n q s = Inr (out, q', t) \<and> pipe_wf q'
    \<and> contents q' = drop k (contents q) \<and> k \<le> used q \<and> pi_nwrite q' = pi_nwrite q
    \<and> pi_readopen q' = pi_readopen q \<and> pi_writeopen q' = pi_writeopen q
    \<and> read_result addr n q s k out t"
proof (cases "used q = 0 \<and> pi_writeopen q")
  case True
  obtain pt where "sleep (Ch_nread p) (Some (L_pipe p)) s = Inr (s\<lparr>ptable := pt\<rparr>)"
    using sleep_runs[of s "L_pipe p"] assms by auto
  then obtain out t where o: "piperead_locked p addr n q s = Inr (out, q, t)" "mem t = mem s"
    "if kill_flag s then out = Done (-1) \<and> held t = {} else out = Asleep 0"
    using True assms(2) empty_iff[of q] killed_ok[OF assms(3)] by (cases "kill_flag s") (auto simp: piperead_locked_def)
  have "read_result addr n q s 0 out t" using True o(2,3) by (simp add: read_result_def)
  then show ?thesis using o(1) assms(1) by (intro exI[of _ out] exI[of _ q] exI[of _ t] exI[of _ 0]) simp
next
  case False
  obtain j q' t where l: "piperead_loop addr 0 (nat n) q s = (j, q', t)" by (cases "piperead_loop addr 0 (nat n) q s") auto
  let ?k = "min (nat n) (used q)"
  note r = piperead_loop_ok[OF assms(1) l, unfolded Let_def]
  have "used q \<le> 512" using assms(1) by (simp add: pipe_wf_def)
  then have "?k \<le> 512" by simp
  then have "?k \<le> 2 ^ 32" by simp
  then have m: "bytes_at (mem t) addr 0 ?k = take ?k (contents q)"
    "\<forall>a. (\<forall>l<?k. a \<noteq> addr + of_nat l) \<longrightarrow> mem t a = mem s a" using r by auto
  have "t = s\<lparr>mem := mem t\<rparr>" using r by blast
  then have "held t = held (s\<lparr>mem := mem t\<rparr>)" by (rule arg_cong)
  then have "held t = {L_pipe p}" using assms(2) by simp
  moreover have rj: "j = ?k" "pipe_wf q'" "contents q' = drop ?k (contents q)" "pi_nwrite q' = pi_nwrite q"
    "pi_readopen q' = pi_readopen q" "pi_writeopen q' = pi_writeopen q" using r by auto
  moreover have ne: "\<not> (pi_nread q = pi_nwrite q \<and> pi_writeopen q)" using False empty_iff[of q] by blast
  ultimately have e: "piperead_locked p addr n q s = Inr (Done (int ?k), q', (wakeup1 (Ch_nwrite p) t)\<lparr>held := {}\<rparr>)"
    unfolding piperead_locked_def if_not_P[OF ne] by (simp add: l wakeup1_def)
  have "read_result addr n q s ?k (Done (int ?k)) (wakeup1 (Ch_nwrite p) t\<lparr>held := {}\<rparr>)"
    unfolding read_result_def if_not_P[OF False] using m by (simp add: wakeup1_def)
  moreover have "?k \<le> used q" by simp
  ultimately show ?thesis using e rj(2-6) by blast
qed

section \<open>Properties\<close>

text \<open>
  Writing a pipe: \<open>pipewrite\<close> appends the bytes of the caller's buffer in order, as many
  as fit; it returns \<open>n\<close> when all fit, -1 when the ring is full and no reader is left or the
  process was killed, and otherwise sleeps, ready to go on at the first byte that did not fit.
\<close>

theorem pipewrite_appends:
  assumes "pipe_wf q" "held s = {}" "has_proc s"
  shows "\<exists>out q' t. pipewrite p addr n q s = Inr (out, q', t) \<and> pipe_wf q' \<and> mem t = mem s
    \<and> contents q' = contents q @ bytes_at (mem s) addr 0 (min (nat n) (512 - used q))
    \<and> (if nat n \<le> 512 - used q then out = Done n \<and> held t = {}
       else if \<not> pi_readopen q \<or> kill_flag s then out = Done (-1) \<and> held t = {}
       else out = Asleep (512 - used q))"
proof -
  let ?s = "s\<lparr>held := {L_pipe p}\<rparr>"
  obtain out q' t where l: "pipewrite_loop p addr n 0 (nat n) q ?s = Inr (out, q', t)"
    "moved q (bytes_at (mem ?s) addr 0 (min (nat n) (512 - used q))) q'"
    "write_result p n 0 (nat n) (512 - used q) q ?s out t"
    using pipewrite_loop_ok[of q ?s p addr n 0 "nat n"] assms by auto
  show ?thesis
    using l assms(2) by (auto simp: pipewrite_def moved_def write_result_def split: if_splits)
qed

definition pipe_page :: kmem where
  "pipe_page = \<lparr>held = {}, ptable = [\<lparr>p_state = RUNNING, p_pid = 1, p_chan = Nochan, p_killed = False,
     p_cwd = 0, p_name = []\<rparr>], curproc = Some 0, mem = (\<lambda>_. 0)(0x2000 := 7, 0x2001 := 8), use_lock = False,
     freelist = 0\<rparr>"

lemma pipe_page_ok: "held pipe_page = {}" "has_proc pipe_page" "pipe_wf (pipe_new (replicate 512 0))"
  by (simp_all add: pipe_page_def has_proc_def pipe_new_def pipe_wf_def used_def)

lemma pipewrite_appends_witness:
  "\<exists>q t. pipewrite 0x80400000 0x2000 2 (pipe_new (replicate 512 0)) pipe_page = Inr (Done 2, q, t)
     \<and> contents q = [7, 8]"
  using pipewrite_appends[OF pipe_page_ok(3,1,2), of "0x80400000" "0x2000" 2]
  by (auto simp: pipe_new_def used_def contents_def bytes_at_def pipe_page_def numeral_2_eq_2)

text \<open>
  Reading a pipe: \<open>piperead\<close> sleeps only while the ring is empty and a writer is left;
  otherwise it takes the oldest bytes, at most \<open>n\<close>, in order into the caller's buffer, writes
  no other memory, and returns how many it took (0 at the end of the stream).
\<close>

theorem piperead_takes:
  assumes "pipe_wf q" "held s = {}" "has_proc s"
  shows "\<exists>out q' t k. piperead p addr n q s = Inr (out, q', t) \<and> pipe_wf q'
    \<and> contents q' = drop k (contents q) \<and> bytes_at (mem t) addr 0 k = take k (contents q)
    \<and> (\<forall>a. (\<forall>l<k. a \<noteq> addr + of_nat l) \<longrightarrow> mem t a = mem s a)
    \<and> (if used q = 0 \<and> pi_writeopen q then k = 0 \<and>
         (if kill_flag s then out = Done (-1) \<and> held t = {} else out = Asleep 0)
       else k = min (nat n) (used q) \<and> out = Done (int k) \<and> held t = {})"
proof -
  let ?s = "s\<lparr>held := {L_pipe p}\<rparr>"
  have e: "piperead p addr n q s = piperead_locked p addr n q ?s" "kill_flag ?s = kill_flag s" "mem ?s = mem s"
    using assms(2) by (simp_all add: piperead_def)
  obtain out q' t k where "piperead p addr n q s = Inr (out, q', t)" "pipe_wf q'"
    "contents q' = drop k (contents q)" "read_result addr n q ?s k out t"
    using piperead_locked_ok[of q ?s p addr n] assms(1,3) unfolding e(1) by auto
  then show ?thesis unfolding read_result_def e(2,3) by blast
qed

lemma piperead_takes_witness:
  "\<exists>q t. piperead 0x80400000 0x3000 5 ((put 8 \<circ> put 7) (pipe_new (replicate 512 0))) pipe_page = Inr (Done 2, q, t)
     \<and> contents q = [] \<and> mem t 0x3000 = 7 \<and> mem t 0x3001 = 8"
proof -
  let ?fresh = "pipe_new (replicate 512 0)"
  let ?q = "put 8 (put 7 ?fresh)"
  have u0: "used ?fresh = 0" "contents ?fresh = []" by (simp_all add: pipe_new_def used_def contents_def)
  have p1: "pipe_wf (put 7 ?fresh)" "used (put 7 ?fresh) = 1" "contents (put 7 ?fresh) = [7]"
    using put_ok[OF pipe_page_ok(3), of 7] u0 by simp_all
  have p2: "pipe_wf ?q" "used ?q = 2" "contents ?q = [7, 8]"
    using put_ok[OF p1(1), of 8] p1(2,3) by simp_all
  obtain out q t k where r: "piperead 0x80400000 0x3000 5 ?q pipe_page = Inr (out, q, t)"
    "contents q = drop k (contents ?q)" "bytes_at (mem t) 0x3000 0 k = take k (contents ?q)"
    "k = 2" "out = Done (int k)"
    using piperead_takes[OF p2(1) pipe_page_ok(1,2), of "0x80400000" "0x3000" 5] p2(2) by auto
  then show ?thesis using p2(3) by (simp add: bytes_at_def numeral_2_eq_2)
qed

text \<open>
  The interleaving: any writer or reader may take its next turn at any point, from any index,
  on any kernel state in which it holds the pipe's lock. \<open>sent\<close> and \<open>received\<close> record the bytes
  moved, as the counters show.
\<close>

record pipesys =
  ring :: pipe
  sent :: "uchar list"
  received :: "uchar list"

inductive pipe_step :: "pipesys \<Rightarrow> pipesys \<Rightarrow> bool" where
  write_turn: "\<lbrakk>pipewrite_loop p addr n i r (ring S) s = Inr (out, q, t); held s = {L_pipe p}; has_proc s\<rbrakk> \<Longrightarrow>
    pipe_step S (S\<lparr>ring := q, sent := sent S @ bytes_at (mem (s :: kmem)) addr i
      (unat (pi_nwrite q - pi_nwrite (ring S)))\<rparr>)"
| read_turn: "\<lbrakk>piperead_locked p addr n (ring S) s = Inr (out, q, t); held s = {L_pipe p}; has_proc s\<rbrakk> \<Longrightarrow>
    pipe_step S (S\<lparr>ring := q, received := received S @ bytes_at (mem (t :: kmem)) addr 0
      (unat (pi_nread q - pi_nread (ring S)))\<rparr>)"
| close_turn: "pipeclose kend p w (ring S) (s :: kmem) = Inr (Some q, t) \<Longrightarrow> pipe_step S (S\<lparr>ring := q\<rparr>)"

definition pipe_init :: "pipesys \<Rightarrow> bool" where
  "pipe_init S \<longleftrightarrow> (\<exists>junk. length junk = 512 \<and> ring S = pipe_new junk) \<and> sent S = [] \<and> received S = []"

definition fifo :: "pipesys \<Rightarrow> bool" where
  "fifo S \<longleftrightarrow> pipe_wf (ring S) \<and> received S @ contents (ring S) = sent S"

lemma close_keeps:
  "pipeclose kend p w q s = Inr (Some q', t) \<Longrightarrow> pipe_wf q' = pipe_wf q \<and> contents q' = contents q"
  by (auto simp: pipeclose_def pipe_wf_def used_def contents_def slot_def Let_def bind_res_eq_Inr
      split: if_splits)

interpretation pp: transition_system pipe_init pipe_step fifo
proof
  show "fifo S" if "pipe_init S" for S
    using that by (auto simp: pipe_init_def fifo_def pipe_new_def pipe_wf_def used_def contents_def)
  show "fifo T" if "fifo S" "pipe_step S T" for S T
    using that(2,1)
  proof cases
    case (write_turn p addr n i r s out q t)
    have wf: "pipe_wf (ring S)" using that(1) by (simp add: fifo_def)
    let ?k = "min r (512 - used (ring S))"
    have m: "moved (ring S) (bytes_at (mem s) addr i ?k) q"
      using pipewrite_loop_ok[OF wf write_turn(3,4), of addr n i r] write_turn(2) by auto
    have "unat (pi_nwrite q - pi_nwrite (ring S)) = ?k"
      using m moved_used[OF m] by (intro count_written[OF wf]) (auto simp: moved_def)
    then show ?thesis using m that(1) write_turn(1) by (simp add: fifo_def moved_def)
  next
    case (read_turn p addr n s out q t)
    have wf: "pipe_wf (ring S)" using that(1) by (simp add: fifo_def)
    obtain k where k: "pipe_wf q" "contents q = drop k (contents (ring S))" "k \<le> used (ring S)"
      "pi_nwrite q = pi_nwrite (ring S)" "bytes_at (mem t) addr 0 k = take k (contents (ring S))"
      using piperead_locked_ok[OF wf read_turn(3,4), of addr n] read_turn(2) by (auto simp: read_result_def)
    have "used q = used (ring S) - k" using k(2) by (metis length_contents length_drop)
    then have "unat (pi_nread q - pi_nread (ring S)) = k"
      using k(3) by (intro count_read[OF wf k(4)]) simp
    then show ?thesis using k that(1) read_turn(1) by (auto simp: fifo_def)
  next
    case (close_turn kend p w s q t)
    then show ?thesis using close_keeps[OF close_turn(2)] that(1) by (simp add: fifo_def)
  qed
qed

text \<open>
  C18 (a pipe is a FIFO). However the turns of readers, writers and closes interleave, and also
  when the counters wrap around, what the readers got followed by what is in the ring is what
  the writers put in, in order; the ring never holds more than 512 bytes.
\<close>

theorem pipe_fifo:
  assumes "reach pipe_init pipe_step S"
  shows "received S @ contents (ring S) = sent S \<and> length (contents (ring S)) \<le> 512"
  using pp.reachable_inv[OF assms] by (simp add: fifo_def pipe_wf_def)

lemma pipe_fifo_witness:
  "\<exists>S :: pipesys. sent S = [7, 8] \<and> received S = [] \<and> contents (ring S) = [7, 8]"
proof -
  let ?S = "\<lparr>ring = pipe_new (replicate 512 0), sent = [], received = []\<rparr>"
  let ?s = "pipe_page\<lparr>held := {L_pipe 1}\<rparr>"
  have i: "pipe_init ?S" by (auto simp: pipe_init_def intro!: exI[of _ "replicate 512 0"])
  have h: "held ?s = {L_pipe 1}" "has_proc ?s" using pipe_page_ok(2) by simp_all
  obtain out q t where l: "pipewrite_loop 1 0x2000 2 0 2 (ring ?S) ?s = Inr (out, q, t)"
    "moved (ring ?S) (bytes_at (mem ?s) 0x2000 0 2) q"
    using pipewrite_loop_ok[of "ring ?S" ?s 1 "0x2000" 2 0 2] h pipe_page_ok(3)
    by (auto simp: pipe_new_def used_def)
  let ?T = "?S\<lparr>ring := q, sent := sent ?S @ bytes_at (mem ?s) 0x2000 0 (unat (pi_nwrite q - pi_nwrite (ring ?S)))\<rparr>"
  have st: "pipe_step ?S ?T" using l(1) h by (rule write_turn)
  have r: "reach pipe_init pipe_step ?T" by (rule reach_step) (rule reach_init, rule i, rule st)
  have "contents q = [7, 8]"
  proof -
    have "contents (ring ?S) = []" "bytes_at (mem ?s) 0x2000 0 2 = [7, 8]"
      by (simp_all add: bytes_at_def pipe_page_def pipe_new_def contents_def used_def numeral_2_eq_2)
    then show ?thesis using l(2) by (simp add: moved_def)
  qed
  then have c: "contents (ring ?T) = [7, 8]" by simp
  have "sent ?T = [7, 8] \<and> received ?T = []" using pipe_fifo[OF r] c by simp
  then show ?thesis using c by blast
qed

end
