(* ===== verification/File.thy ===== *)
theory File
  imports Directory Pipe
begin

text \<open>
  Open files (\<open>file.c\<close>, \<open>file.h\<close>) and \<open>pipealloc\<close> (\<open>pipe.c\<close>): the table of open files with its
  reference counts, and reading, writing and closing a file that is a pipe or an inode.
\<close>

section \<open>State\<close>

abbreviation NFILE :: nat where "NFILE \<equiv> 100"

datatype filetype = FD_NONE | FD_PIPE | FD_INODE

record ofile =
  f_type :: filetype
  f_ref :: int
  f_readable :: bool
  f_writable :: bool
  f_pipe :: uint
  f_ip :: nat
  f_off :: uint

text \<open>\<open>pipes\<close> is the store of \<open>struct pipe\<close> objects by the address of their page.\<close>

record filest = fsst +
  ftable :: "ofile list"
  pipes :: "uint \<Rightarrow> pipe option"

type_synonym 'a file_env = "'a filest_scheme kenv"

definition upd_file :: "nat \<Rightarrow> (ofile \<Rightarrow> ofile) \<Rightarrow> 'a filest_scheme \<Rightarrow> 'a filest_scheme" where
  "upd_file f g s = s\<lparr>ftable := (ftable s)[f := g (ftable s ! f)]\<rparr>"

section \<open>The table of open files\<close>

definition filealloc :: "'a filest_scheme \<Rightarrow> (nat option \<times> 'a filest_scheme) res" where
  "filealloc s =
     bind_res (acquire L_ftable s) (\<lambda>s.
     case find (\<lambda>f. f_ref (ftable s ! f) = 0) [0..<length (ftable s)] of
       Some f \<Rightarrow> bind_res (release L_ftable (upd_file f (\<lambda>x. x\<lparr>f_ref := 1\<rparr>) s)) (\<lambda>s. Inr (Some f, s))
     | None \<Rightarrow> bind_res (release L_ftable s) (\<lambda>s. Inr (None, s)))"

definition filedup :: "nat \<Rightarrow> 'a filest_scheme \<Rightarrow> (nat \<times> 'a filest_scheme) res" where
  "filedup f s =
     bind_res (acquire L_ftable s) (\<lambda>s.
     bind_res (panic_if (f_ref (ftable s ! f) < 1) ''filedup'') (\<lambda>_.
     bind_res (release L_ftable (upd_file f (\<lambda>x. x\<lparr>f_ref := f_ref x + 1\<rparr>) s)) (\<lambda>s. Inr (f, s))))"

text \<open>The \<open>struct pipe\<close> at an address; a pointer to a freed page is a fault.\<close>

definition the_pipe :: "uint \<Rightarrow> 'a filest_scheme \<Rightarrow> pipe res" where
  "the_pipe p s = (case pipes s p of None \<Rightarrow> Inl (Fault ''pipe'') | Some q \<Rightarrow> Inr q)"

definition fileclose :: "'a file_env \<Rightarrow> nat \<Rightarrow> 'a filest_scheme \<Rightarrow> 'a filest_scheme res" where
  "fileclose E f s =
     bind_res (acquire L_ftable s) (\<lambda>s.
     bind_res (panic_if (f_ref (ftable s ! f) < 1) ''fileclose'') (\<lambda>_.
     let s = upd_file f (\<lambda>x. x\<lparr>f_ref := f_ref x - 1\<rparr>) s in
     if f_ref (ftable s ! f) > 0 then release L_ftable s
     else
       let ff = ftable s ! f;
           s = upd_file f (\<lambda>x. x\<lparr>f_ref := 0, f_type := FD_NONE\<rparr>) s
       in bind_res (release L_ftable s) (\<lambda>s.
       case f_type ff of
         FD_PIPE \<Rightarrow>
           bind_res (the_pipe (f_pipe ff) s) (\<lambda>q.
           bind_res (pipeclose (k_end E) (f_pipe ff) (f_writable ff) q s) (\<lambda>(q, s).
           Inr (s\<lparr>pipes := (pipes s)(f_pipe ff := q)\<rparr>)))
       | FD_INODE \<Rightarrow>
           bind_res (begin_op s) (\<lambda>s.
           bind_res (iput E (f_ip ff) s) (\<lambda>s.
           end_op (k_rw E) s))
       | FD_NONE \<Rightarrow> Inr s)))"

definition filestat :: "'a file_env \<Rightarrow> nat \<Rightarrow> 'a filest_scheme \<Rightarrow> (stat option \<times> 'a filest_scheme) res" where
  "filestat E f s =
     (let x = ftable s ! f in
      if f_type x = FD_INODE then
        bind_res (ilock E (Some (f_ip x)) s) (\<lambda>s.
        let st = stati (f_ip x) s in
        bind_res (iunlock (Some (f_ip x)) s) (\<lambda>s. Inr (Some st, s)))
      else Inr (None, s))"

section \<open>Reading and writing\<close>

definition fileread ::
  "'a file_env \<Rightarrow> nat \<Rightarrow> uint \<Rightarrow> int \<Rightarrow> 'a filest_scheme \<Rightarrow> (outcome \<times> 'a filest_scheme) res" where
  "fileread E f addr n s =
     (let x = ftable s ! f in
      if \<not> f_readable x then Inr (Done (-1), s)
      else case f_type x of
        FD_PIPE \<Rightarrow>
          bind_res (the_pipe (f_pipe x) s) (\<lambda>q.
          bind_res (piperead (f_pipe x) addr n q s) (\<lambda>(out, q, s).
          Inr (out, s\<lparr>pipes := (pipes s)(f_pipe x := Some q)\<rparr>)))
      | FD_INODE \<Rightarrow>
          bind_res (ilock E (Some (f_ip x)) s) (\<lambda>s.
          bind_res (readi E (f_ip x) addr (f_off (ftable s ! f)) (of_int n) s) (\<lambda>(r, s).
          let s = (if r > 0 then upd_file f (\<lambda>x. x\<lparr>f_off := f_off x + of_int r\<rparr>) s else s) in
          bind_res (iunlock (Some (f_ip x)) s) (\<lambda>s. Inr (Done r, s))))
      | FD_NONE \<Rightarrow> Inl (Panic ''fileread''))"

text \<open>\<open>max = ((LOGSIZE-1-1-2) / 2) * 512\<close>\<close>

definition write_max :: int where
  "write_max = (int LOGSIZE - 1 - 1 - 2) div 2 * 512"

text \<open>The loop of \<open>filewrite\<close>; every turn that goes on writes at least one byte.\<close>

fun filewrite_loop ::
  "nat \<Rightarrow> 'a file_env \<Rightarrow> nat \<Rightarrow> uint \<Rightarrow> int \<Rightarrow> int \<Rightarrow> 'a filest_scheme \<Rightarrow> (int \<times> 'a filest_scheme) res" where
  "filewrite_loop fuel E f addr n i s =
     (if i < n then
        case fuel of 0 \<Rightarrow> Inl (Blocks ''filewrite'') | Suc fuel \<Rightarrow>
          let n1 = (if n - i > write_max then write_max else n - i);
              ip = f_ip (ftable s ! f)
          in
          bind_res (begin_op s) (\<lambda>s.
          bind_res (ilock E (Some ip) s) (\<lambda>s.
          bind_res (writei E ip (addr + of_int i) (f_off (ftable s ! f)) (of_int n1) s) (\<lambda>(r, s).
          let s = (if r > 0 then upd_file f (\<lambda>x. x\<lparr>f_off := f_off x + of_int r\<rparr>) s else s) in
          bind_res (iunlock (Some ip) s) (\<lambda>s.
          bind_res (end_op (k_rw E) s) (\<lambda>s.
          if r < 0 then Inr (i, s)
          else
            bind_res (panic_if (r \<noteq> n1) ''short filewrite'') (\<lambda>_.
            filewrite_loop fuel E f addr n (i + r) s))))))
      else Inr (i, s))"

definition filewrite ::
  "'a file_env \<Rightarrow> nat \<Rightarrow> uint \<Rightarrow> int \<Rightarrow> 'a filest_scheme \<Rightarrow> (outcome \<times> 'a filest_scheme) res" where
  "filewrite E f addr n s =
     (let x = ftable s ! f in
      if \<not> f_writable x then Inr (Done (-1), s)
      else case f_type x of
        FD_PIPE \<Rightarrow>
          bind_res (the_pipe (f_pipe x) s) (\<lambda>q.
          bind_res (pipewrite (f_pipe x) addr n q s) (\<lambda>(out, q, s).
          Inr (out, s\<lparr>pipes := (pipes s)(f_pipe x := Some q)\<rparr>)))
      | FD_INODE \<Rightarrow>
          bind_res (filewrite_loop (nat n) E f addr n 0 s) (\<lambda>(i, s).
          Inr (Done (if i = n then n else -1), s))
      | FD_NONE \<Rightarrow> Inl (Panic ''filewrite''))"

section \<open>Making a pipe\<close>

definition close_if :: "'a file_env \<Rightarrow> nat option \<Rightarrow> 'a filest_scheme \<Rightarrow> 'a filest_scheme res" where
  "close_if E f s = (case f of None \<Rightarrow> Inr s | Some f \<Rightarrow> fileclose E f s)"

text \<open>The label \<open>bad\<close>; it is only reached with \<open>p = 0\<close>.\<close>

definition pipe_bad ::
  "'a file_env \<Rightarrow> nat option \<Rightarrow> nat option \<Rightarrow> 'a filest_scheme \<Rightarrow> ((nat \<times> nat) option \<times> 'a filest_scheme) res" where
  "pipe_bad E f0 f1 s =
     bind_res (close_if E f0 s) (\<lambda>s. bind_res (close_if E f1 s) (\<lambda>s. Inr (None, s)))"

text \<open>
  \<open>pipealloc\<close>; \<open>data\<close> lies behind the 52 bytes of the lock, and keeps what the page held.
\<close>

definition pipealloc :: "'a file_env \<Rightarrow> 'a filest_scheme \<Rightarrow> ((nat \<times> nat) option \<times> 'a filest_scheme) res" where
  "pipealloc E s =
     bind_res (filealloc s) (\<lambda>(f0, s).
     case f0 of None \<Rightarrow> pipe_bad E None None s
     | Some a \<Rightarrow>
       bind_res (filealloc s) (\<lambda>(f1, s).
       case f1 of None \<Rightarrow> pipe_bad E f0 None s
       | Some b \<Rightarrow>
         bind_res (kalloc s) (\<lambda>(p, s).
         if p = 0 then pipe_bad E f0 f1 s
         else
           let s = s\<lparr>pipes := (pipes s)(p := Some (pipe_new (load_bytes (mem s) (p + 52) 512)))\<rparr>;
               s = upd_file a (\<lambda>x. x\<lparr>f_type := FD_PIPE, f_readable := True, f_writable := False, f_pipe := p\<rparr>) s;
               s = upd_file b (\<lambda>x. x\<lparr>f_type := FD_PIPE, f_readable := False, f_writable := True, f_pipe := p\<rparr>) s
           in Inr (Some (a, b), s))))"

end
