(* ===== verification/Vm.thy ===== *)
theory Vm
  imports Kalloc
begin

text \<open>
  Kernel page tables (\<open>vm.c\<close>): walking and filling the two-level table in memory, its
  refinement to a map from pages to entries, and what \<open>setupkvm\<close> can return.
\<close>

section \<open>Operations\<close>

record vm = kmem +
  kpgdir :: uint
  cr3 :: uint

definition walkpgdir :: "uint \<Rightarrow> uint \<Rightarrow> bool \<Rightarrow> 'a kmem_scheme \<Rightarrow> (uint \<times> 'a kmem_scheme) res" where
  "walkpgdir pgdir va alloc s =
     (let pde = pgdir + 4 * PDX va in
      if rd32 (mem s) pde AND PTE_P \<noteq> 0 then
        Inr (P2V (PTE_ADDR (rd32 (mem s) pde)) + 4 * PTX va, s)
      else if \<not> alloc then Inr (0, s)
      else
        bind_res (kalloc s) (\<lambda>(pgtab, s).
        if pgtab = 0 then Inr (0, s)
        else
          let s = s\<lparr>mem := memset (mem s) pgtab 0 PGSIZE\<rparr>;
              s = s\<lparr>mem := wr32 (mem s) pde (V2P pgtab OR PTE_P OR PTE_W OR PTE_U)\<rparr>
          in Inr (pgtab + 4 * PTX va, s)))"

text \<open>The endless loop of \<open>mappages\<close>: after \<open>2 ^ 20\<close> turns it meets a page it has mapped.\<close>

fun mappages_loop ::
  "nat \<Rightarrow> uint \<Rightarrow> uint \<Rightarrow> uint \<Rightarrow> uint \<Rightarrow> uint \<Rightarrow> 'a kmem_scheme \<Rightarrow> (int \<times> 'a kmem_scheme) res" where
  "mappages_loop 0 pgdir a lst pa perm s = Inl (Blocks ''mappages'')"
| "mappages_loop (Suc fuel) pgdir a lst pa perm s =
     bind_res (walkpgdir pgdir a True s) (\<lambda>(pte, s).
     if pte = 0 then Inr (-1, s)
     else
       bind_res (panic_if (rd32 (mem s) pte AND PTE_P \<noteq> 0) ''remap'') (\<lambda>_.
       let s = s\<lparr>mem := wr32 (mem s) pte (pa OR perm OR PTE_P)\<rparr> in
       if a = lst then Inr (0, s)
       else mappages_loop fuel pgdir (a + PGSIZE) lst (pa + PGSIZE) perm s))"

definition mappages ::
  "uint \<Rightarrow> uint \<Rightarrow> uint \<Rightarrow> uint \<Rightarrow> uint \<Rightarrow> 'a kmem_scheme \<Rightarrow> (int \<times> 'a kmem_scheme) res" where
  "mappages pgdir va sz pa perm s =
     mappages_loop (2 ^ 20 + 1) pgdir (PGROUNDDOWN va) (PGROUNDDOWN (pa + sz - 1)) pa perm s"

text \<open>\<open>kmap[]\<close>: virtual start, physical start and end, permissions; \<open>data\<close> comes from the linker.\<close>

definition kmap :: "uint \<Rightarrow> (uint \<times> uint \<times> uint \<times> uint) list" where
  "kmap data = [(KBASE, 0, EXTMEM, PTE_W), (KERNLINK, V2P KERNLINK, V2P data, 0),
     (data, V2P data, PHYSTOP, PTE_W), (DEVSPACE, DEVSPACE, 0, PTE_W)]"

fun map_all :: "uint \<Rightarrow> (uint \<times> uint \<times> uint \<times> uint) list \<Rightarrow> 'a kmem_scheme \<Rightarrow> (uint \<times> 'a kmem_scheme) res" where
  "map_all pgdir [] s = Inr (pgdir, s)"
| "map_all pgdir ((virt, ps, pe, perm) # ks) s =
     bind_res (mappages pgdir virt (pe - ps) ps perm s) (\<lambda>(r, s).
     if r < 0 then Inr (0, s) else map_all pgdir ks s)"

definition setupkvm :: "uint \<Rightarrow> 'a kmem_scheme \<Rightarrow> (uint \<times> 'a kmem_scheme) res" where
  "setupkvm data s =
     bind_res (kalloc s) (\<lambda>(pgdir, s).
     if pgdir = 0 then Inr (0, s)
     else
       let s = s\<lparr>mem := memset (mem s) pgdir 0 PGSIZE\<rparr> in
       bind_res (panic_if (P2V PHYSTOP > DEVSPACE) ''PHYSTOP too high'') (\<lambda>_.
       map_all pgdir (kmap data) s))"

definition switchkvm :: "'a vm_scheme \<Rightarrow> 'a vm_scheme" where
  "switchkvm s = s\<lparr>cr3 := V2P (kpgdir s)\<rparr>"

definition kvmalloc :: "uint \<Rightarrow> 'a vm_scheme \<Rightarrow> 'a vm_scheme res" where
  "kvmalloc data s =
     bind_res (setupkvm data s) (\<lambda>(p, s). Inr (switchkvm (s\<lparr>kpgdir := p\<rparr>)))"

section \<open>The table as a map from pages to entries\<close>

definition pde_of :: "memory \<Rightarrow> uint \<Rightarrow> uint \<Rightarrow> uint" where
  "pde_of m pgdir i = rd32 m (pgdir + 4 * i)"

definition has_tab :: "memory \<Rightarrow> uint \<Rightarrow> uint \<Rightarrow> bool" where
  "has_tab m pgdir i \<longleftrightarrow> pde_of m pgdir i AND PTE_P \<noteq> 0"

definition tab_of :: "memory \<Rightarrow> uint \<Rightarrow> uint \<Rightarrow> uint" where
  "tab_of m pgdir i = P2V (PTE_ADDR (pde_of m pgdir i))"

text \<open>The entry for virtual address \<open>va\<close>, 0 while there is no page table for it.\<close>

definition pte_of :: "memory \<Rightarrow> uint \<Rightarrow> uint \<Rightarrow> uint" where
  "pte_of m pgdir va =
     (if has_tab m pgdir (PDX va) then rd32 m (tab_of m pgdir (PDX va) + 4 * PTX va) else 0)"

text \<open>
  The directory and its tables are pages of their own: none is free, no two coincide.
\<close>

definition pt_wf :: "'a kmem_scheme \<Rightarrow> uint \<Rightarrow> bool" where
  "pt_wf s pgdir \<longleftrightarrow> kmem_wf s \<and> page_ok 0 pgdir \<and> pgdir \<notin> kmem_free s
     \<and> (\<forall>i<1024. has_tab (mem s) pgdir i \<longrightarrow>
          page_ok 0 (tab_of (mem s) pgdir i) \<and> tab_of (mem s) pgdir i \<noteq> pgdir
          \<and> tab_of (mem s) pgdir i \<notin> kmem_free s
          \<and> (\<forall>j<1024. j \<noteq> i \<longrightarrow> has_tab (mem s) pgdir j \<longrightarrow> tab_of (mem s) pgdir j \<noteq> tab_of (mem s) pgdir i))"

lemma index_bounds [simp]: "PDX va < 1024" "PTX va < 1024"
proof -
  have "a AND 0x3FF < 1024" for a :: uint
  proof -
    have "a AND 0x3FF = a mod 1024"
      unfolding masks by (simp add: take_bit_eq_mask[symmetric] take_bit_eq_mod)
    then show ?thesis by (simp add: word_less_nat_alt unat_mod)
  qed
  then show "PDX va < 1024" "PTX va < 1024" by (simp_all only: PDX_def PTX_def)
qed

lemma entry_addr:
  assumes "page_ok 0 p" "i < 1024"
  shows "unat (p + 4 * i) = unat p + 4 * unat i" "unat i < 1024"
proof -
  show i: "unat i < 1024" using assms(2) by (simp add: word_less_nat_alt)
  have "unat (4 * i) = 4 * unat i" using i by (simp add: unat_word_ariths)
  then show "unat (p + 4 * i) = unat p + 4 * unat i"
    using i page_bounds[OF assms(1)] by (simp add: unat_word_ariths)
qed

text \<open>Entries of one page, and of two pages, do not overlap.\<close>

lemma rd_entry_other:
  assumes "page_ok 0 p" "page_ok 0 q" "i < 1024" "j < 1024" "p \<noteq> q \<or> i \<noteq> j"
  shows "rd32 (wr32 m (p + 4 * i) w) (q + 4 * j) = rd32 m (q + 4 * j)"
proof (rule rd32_wr32_other)
  note b = page_bounds[OF assms(1)] page_bounds[OF assms(2)]
  note e = entry_addr[OF assms(1,3)] entry_addr[OF assms(2,4)]
  show "unat (p + 4 * i) + 4 \<le> 2 ^ 32" "unat (q + 4 * j) + 4 \<le> 2 ^ 32" using b e by simp_all
  show "unat (p + 4 * i) + 4 \<le> unat (q + 4 * j) \<or> unat (q + 4 * j) + 4 \<le> unat (p + 4 * i)"
  proof (cases "p = q")
    case True
    then have "unat i \<noteq> unat j" using assms(5) by (simp add: word_unat_eq_iff)
    then show ?thesis using True e by auto
  next
    case False
    then have "unat p + 4096 \<le> unat q \<or> unat q + 4096 \<le> unat p"
      using pages_disjoint assms(1,2) by (auto simp: page_ok_def)
    then show ?thesis using e by auto
  qed
qed

lemma entry_in_page:
  "page_ok 0 p \<Longrightarrow> i < 1024 \<Longrightarrow> in_range (p + 4 * i) 4 a \<Longrightarrow> in_range p 4096 a"
  using entry_addr[of p i] by (auto simp: in_range_def)

lemma wr_entry_outside:
  assumes "page_ok 0 p" "page_ok 0 q" "p \<noteq> q" "i < 1024" "in_range q 4096 a"
  shows "wr32 m (p + 4 * i) w a = m a"
proof (rule wr32_other)
  show "unat (p + 4 * i) + 4 \<le> 2 ^ 32"
    using entry_addr[OF assms(1,4)] page_bounds[OF assms(1)] by simp
  have "unat p + 4096 \<le> unat q \<or> unat q + 4096 \<le> unat p"
    using pages_disjoint assms(1-3) by (auto simp: page_ok_def)
  then show "\<not> in_range (p + 4 * i) 4 a"
    using entry_addr[OF assms(1,4)] assms(5) by (auto simp: in_range_def)
qed

lemma rd_fill_other:
  assumes "page_ok 0 p" "page_ok 0 q" "p \<noteq> q" "i < 1024"
  shows "rd32 (fill m p 4096 c) (q + 4 * i) = rd32 m (q + 4 * i)"
proof (rule rd32_cong)
  show "unat (q + 4 * i) + 4 \<le> 2 ^ 32"
    using entry_addr[OF assms(2,4)] page_bounds[OF assms(2)] by simp
  fix x assume x: "in_range (q + 4 * i) 4 x"
  have "unat p + 4096 \<le> unat q \<or> unat q + 4096 \<le> unat p"
    using pages_disjoint assms(1-3) by (auto simp: page_ok_def)
  then have "\<not> in_range p 4096 x"
    using entry_in_page[OF assms(2,4) x] by (auto simp: in_range_def)
  then show "fill m p 4096 c x = m x" by simp
qed

lemma rd_fill_same:
  assumes "page_ok 0 p" "i < 1024"
  shows "rd32 (fill m p 4096 0) (p + 4 * i) = 0"
proof -
  have "rd32 (fill m p 4096 0) (p + 4 * i) = rd32 (\<lambda>_. 0) (p + 4 * i)"
    using entry_addr[OF assms] page_bounds[OF assms(1)] entry_in_page[OF assms]
    by (intro rd32_cong) auto
  then show ?thesis by (simp add: rd32_def word32_def)
qed

lemma memset_page: "page_ok 0 p \<Longrightarrow> memset m p 0 PGSIZE = fill m p 4096 0"
  using memset_fill[of p PGSIZE m 0] page_bounds[of 0 p] by simp

section \<open>Walking\<close>

lemma page_low_bits:
  assumes "page_ok 0 p" "n < 12"
  shows "\<not> bit (V2P p) n"
proof -
  have "unat (V2P p) = unat p - 0x80000000"
    using page_bounds[OF assms(1)] by (simp add: V2P_def unat_sub word_le_nat_alt)
  moreover have "unat p mod 4096 = 0" using assms(1) unat_mod[of p PGSIZE] by (simp add: page_ok_def)
  then obtain k where "unat p = 4096 * k" by (metis dvdE mod_0_imp_dvd)
  ultimately have "unat (V2P p) = 4096 * (k - 0x80000)" by (simp add: diff_mult_distrib2)
  then have "unat (V2P p) mod 4096 = 0" by simp
  then have "V2P p mod PGSIZE = 0" by (simp add: word_unat_eq_iff unat_mod)
  then have "take_bit 12 (V2P p) = 0" by (simp add: take_bit_eq_mod)
  then have "\<not> bit (take_bit 12 (V2P p)) n" by simp
  then show ?thesis using assms(2) by (simp add: bit_take_bit_iff)
qed

lemma new_pde:
  assumes "page_ok 0 p"
  shows "P2V (PTE_ADDR (V2P p OR PTE_P OR PTE_W OR PTE_U)) = p"
    "(V2P p OR PTE_P OR PTE_W OR PTE_U) AND PTE_P \<noteq> 0"
proof -
  have seven: "(PTE_P OR PTE_W OR PTE_U :: uint) = mask 3" by (simp add: mask_eq_exp_minus_1)
  have "PTE_ADDR (V2P p OR mask 3) = V2P p"
    unfolding PTE_ADDR_def masks(1)
  proof (rule bit_word_eqI)
    fix n assume "n < LENGTH(32)"
    then show "bit ((V2P p OR mask 3) AND NOT (mask 12)) n = bit (V2P p) n"
      using page_low_bits[OF assms, of n] by (cases "n < 12") (auto simp: bit_simps)
  qed
  then show "P2V (PTE_ADDR (V2P p OR PTE_P OR PTE_W OR PTE_U)) = p" unfolding seven by simp
  have "bit ((V2P p OR PTE_P OR PTE_W OR PTE_U) AND PTE_P) 0" by (simp add: bit_simps)
  then show "(V2P p OR PTE_P OR PTE_W OR PTE_U) AND PTE_P \<noteq> 0" by (metis bit_0_eq bot_fun_def bot_bool_def)
qed

text \<open>What the walk does to the map: nothing, and the entry's address comes back.\<close>

definition slot_addr :: "memory \<Rightarrow> uint \<Rightarrow> uint \<Rightarrow> uint" where
  "slot_addr m pgdir va = tab_of m pgdir (PDX va) + 4 * PTX va"

lemma walkpgdir_present:
  "has_tab (mem s) pgdir (PDX va) \<Longrightarrow> walkpgdir pgdir va alloc s = Inr (slot_addr (mem s) pgdir va, s)"
  by (simp add: walkpgdir_def has_tab_def pde_of_def tab_of_def slot_addr_def Let_def)

lemma walkpgdir_absent:
  "\<not> has_tab (mem s) pgdir (PDX va) \<Longrightarrow> walkpgdir pgdir va False s = Inr (0, s)"
  by (simp add: walkpgdir_def has_tab_def pde_of_def Let_def)

lemma pt_wfD:
  assumes "pt_wf s pgdir"
  shows "kmem_wf s" "page_ok 0 pgdir" "pgdir \<notin> kmem_free s"
    "\<lbrakk>i < 1024; has_tab (mem s) pgdir i\<rbrakk> \<Longrightarrow> page_ok 0 (tab_of (mem s) pgdir i)
       \<and> tab_of (mem s) pgdir i \<noteq> pgdir \<and> tab_of (mem s) pgdir i \<notin> kmem_free s"
    "\<lbrakk>i < 1024; j < 1024; i \<noteq> j; has_tab (mem s) pgdir i; has_tab (mem s) pgdir j\<rbrakk> \<Longrightarrow>
       tab_of (mem s) pgdir i \<noteq> tab_of (mem s) pgdir j"
  using assms unfolding pt_wf_def by blast+

text \<open>A fresh zeroed table entered at index \<open>i\<close> of the directory.\<close>

lemma new_table:
  assumes wf: "pt_wf s pgdir" and i: "i < 1024" "\<not> has_tab (mem s) pgdir i"
    and p: "p \<in> kmem_free s" and t: "kmem_free t = kmem_free s - {p}" "kmem_wf t" "mem t = mem s"
    and m: "m = wr32 (fill (mem s) p 4096 0) (pgdir + 4 * i) (V2P p OR PTE_P OR PTE_W OR PTE_U)"
  shows "pt_wf (t\<lparr>mem := m\<rparr>) pgdir" "has_tab m pgdir i" "tab_of m pgdir i = p"
    "\<And>va. pte_of m pgdir va = pte_of (mem s) pgdir va"
    "\<And>j. j < 1024 \<Longrightarrow> has_tab (mem s) pgdir j \<Longrightarrow> has_tab m pgdir j"
proof -
  note W = pt_wfD[OF wf]
  have pp: "page_ok 0 p" "p \<noteq> 0" "p \<noteq> pgdir"
    using ka.free_page_ok[OF W(1) p] page_bounds(3) W(3) p by auto
  have pde: "pde_of m pgdir j = (if j = i then V2P p OR PTE_P OR PTE_W OR PTE_U else pde_of (mem s) pgdir j)"
    if "j < 1024" for j
    using that i rd_entry_other[OF W(2,2) i(1) that] rd_fill_other[OF pp(1) W(2) pp(3) that]
    by (auto simp: pde_of_def m)
  have ht: "has_tab m pgdir j \<longleftrightarrow> j = i \<or> has_tab (mem s) pgdir j" if "j < 1024" for j
    using pde[OF that] new_pde[OF pp(1)] by (auto simp: has_tab_def)
  have tb: "tab_of m pgdir j = (if j = i then p else tab_of (mem s) pgdir j)" if "j < 1024" for j
    using pde[OF that] new_pde[OF pp(1)] by (auto simp: tab_of_def)
  show "has_tab m pgdir i" "tab_of m pgdir i = p" using ht tb i(1) by auto
  show "has_tab m pgdir j" if "j < 1024" "has_tab (mem s) pgdir j" for j using ht that by blast
  have nt: "p \<noteq> tab_of (mem s) pgdir j" if "j < 1024" "has_tab (mem s) pgdir j" for j
    using W(4)[OF that] p by auto
  have keep: "rd32 m (tab_of (mem s) pgdir j + 4 * k) = rd32 (mem s) (tab_of (mem s) pgdir j + 4 * k)"
    if "j < 1024" "has_tab (mem s) pgdir j" "k < 1024" for j k
    using W(4)[OF that(1,2)] rd_entry_other[OF W(2) _ i(1) that(3)]
      rd_fill_other[OF pp(1) _ nt[OF that(1,2)] that(3)] by (auto simp: m)
  have zero: "rd32 m (p + 4 * k) = 0" if "k < 1024" for k
    using that rd_entry_other[OF W(2) pp(1) i(1) that] pp(3) rd_fill_same[OF pp(1) that] by (simp add: m)
  show "pte_of m pgdir va = pte_of (mem s) pgdir va" for va
    using ht[of "PDX va"] tb[of "PDX va"] keep[of "PDX va" "PTX va"] zero[of "PTX va"] i(2)
    by (auto simp: pte_of_def)
  have "m a = mem t a" if "q \<in> kmem_free t" "in_range q 4096 a" for q a
  proof -
    have q: "q \<in> kmem_free s" "q \<noteq> p" using that t(1) by auto
    have pq: "page_ok 0 q" "q \<noteq> pgdir" using ka.free_page_ok[OF W(1) q(1)] W(3) q(1) by auto
    have "unat p + 4096 \<le> unat q \<or> unat q + 4096 \<le> unat p"
      using pages_disjoint pp(1) pq(1) q(2) by (auto simp: page_ok_def)
    then have "\<not> in_range p 4096 a" using that(2) by (auto simp: in_range_def)
    then show ?thesis
      using wr_entry_outside[OF W(2) pq(1) _ i(1) that(2)] pq(2) t(3) by (auto simp: m)
  qed
  then have "kmem_wf (t\<lparr>mem := m\<rparr>) \<and> kmem_free (t\<lparr>mem := m\<rparr>) = kmem_free t"
    using ka.write_outside[OF t(2)] by blast
  then show "pt_wf (t\<lparr>mem := m\<rparr>) pgdir"
    using W t(1) p pp ht tb nt unfolding pt_wf_def by auto
qed

lemma walkpgdir_alloc:
  assumes wf: "pt_wf s pgdir"
  shows "\<exists>r t. walkpgdir pgdir va True s = Inr (r, t) \<and> pt_wf t pgdir
    \<and> (r = 0 \<and> kmem_free s = {} \<and> t = s
     \<or> r \<noteq> 0 \<and> has_tab (mem t) pgdir (PDX va) \<and> r = slot_addr (mem t) pgdir va
       \<and> (\<forall>va'. pte_of (mem t) pgdir va' = pte_of (mem s) pgdir va'))"
proof (cases "has_tab (mem s) pgdir (PDX va)")
  case True
  then have "slot_addr (mem s) pgdir va \<noteq> 0"
    using pt_wfD(4)[OF wf, of "PDX va"] entry_addr[of "tab_of (mem s) pgdir (PDX va)" "PTX va"]
      page_bounds[of 0 "tab_of (mem s) pgdir (PDX va)"] by (auto simp: slot_addr_def)
  then show ?thesis using True walkpgdir_present[OF True] wf by auto
next
  case False
  obtain p t where a: "kalloc s = Inr (p, t)" "kmem_wf t" "mem t = mem s"
    "p = 0 \<and> kmem_free s = {} \<and> t = s \<or> p \<in> kmem_free s \<and> kmem_free t = kmem_free s - {p}"
    by (rule ka.alloc_result[OF pt_wfD(1)[OF wf]])
  show ?thesis
  proof (cases "p = 0")
    case True
    then have "p \<notin> kmem_free s"
      using ka.free_page_ok[OF pt_wfD(1)[OF wf], of p] page_bounds(3)[of 0 p] by auto
    then show ?thesis
      using a False True wf by (auto simp: walkpgdir_def has_tab_def pde_of_def Let_def)
  next
    case nz: False
    then have p: "p \<in> kmem_free s" "kmem_free t = kmem_free s - {p}" using a(4) by auto
    have pp: "page_ok 0 p" using ka.free_page_ok[OF pt_wfD(1)[OF wf] p(1)] .
    let ?m = "wr32 (fill (mem s) p 4096 0) (pgdir + 4 * PDX va) (V2P p OR PTE_P OR PTE_W OR PTE_U)"
    note N = new_table[OF wf index_bounds(1) False p a(2,3) refl]
    have "walkpgdir pgdir va True s = Inr (p + 4 * PTX va, t\<lparr>mem := ?m\<rparr>)"
      using False a(1,3) nz memset_page[OF pp]
      by (simp add: walkpgdir_def has_tab_def pde_of_def Let_def)
    moreover have "p + 4 * PTX va \<noteq> 0"
      using entry_addr[OF pp, of "PTX va"] page_bounds[OF pp] by auto
    ultimately show ?thesis
      using N by (intro exI[of _ "p + 4 * PTX va"] exI[of _ "t\<lparr>mem := ?m\<rparr>"]) (simp add: slot_addr_def)
  qed
qed

text \<open>Storing an entry changes the map at that page only.\<close>

definition same_page :: "uint \<Rightarrow> uint \<Rightarrow> bool" where
  "same_page a b \<longleftrightarrow> PDX a = PDX b \<and> PTX a = PTX b"

lemma store_pte:
  assumes wf: "pt_wf s pgdir" and h: "has_tab (mem s) pgdir (PDX va)"
  shows "pt_wf (s\<lparr>mem := wr32 (mem s) (slot_addr (mem s) pgdir va) w\<rparr>) pgdir"
    "pte_of (wr32 (mem s) (slot_addr (mem s) pgdir va) w) pgdir va'
      = (if same_page va' va then w else pte_of (mem s) pgdir va')"
proof -
  let ?T = "tab_of (mem s) pgdir (PDX va)"
  let ?m = "wr32 (mem s) (slot_addr (mem s) pgdir va) w"
  note W = pt_wfD[OF wf]
  have T: "page_ok 0 ?T" "?T \<noteq> pgdir" "?T \<notin> kmem_free s" using W(4)[OF index_bounds(1) h] by auto
  have pde: "pde_of ?m pgdir j = pde_of (mem s) pgdir j" if "j < 1024" for j
    using rd_entry_other[OF T(1) W(2) index_bounds(2) that] T(2) by (simp add: pde_of_def slot_addr_def)
  then have ht: "has_tab ?m pgdir j = has_tab (mem s) pgdir j" "tab_of ?m pgdir j = tab_of (mem s) pgdir j"
    if "j < 1024" for j using that by (simp_all add: has_tab_def tab_of_def)
  have "?m a = mem s a" if "q \<in> kmem_free s" "in_range q 4096 a" for q a
  proof -
    have "page_ok 0 q" "?T \<noteq> q" using ka.free_page_ok[OF W(1) that(1)] T(3) that(1) by auto
    then show ?thesis
      using wr_entry_outside[OF T(1) _ _ index_bounds(2) that(2)] by (simp add: slot_addr_def)
  qed
  then have "kmem_wf (s\<lparr>mem := ?m\<rparr>) \<and> kmem_free (s\<lparr>mem := ?m\<rparr>) = kmem_free s"
    using ka.write_outside[OF W(1)] by blast
  then show "pt_wf (s\<lparr>mem := ?m\<rparr>) pgdir"
    using W ht unfolding pt_wf_def by auto
  show "pte_of ?m pgdir va' = (if same_page va' va then w else pte_of (mem s) pgdir va')"
  proof (cases "has_tab (mem s) pgdir (PDX va')")
    case False
    then show ?thesis using ht[of "PDX va'"] h by (auto simp: pte_of_def same_page_def)
  next
    case True
    show ?thesis
    proof (cases "same_page va' va")
      case True
      then show ?thesis using ht[of "PDX va"] h by (simp add: pte_of_def same_page_def slot_addr_def)
    next
      case False
      then have ne: "?T \<noteq> tab_of (mem s) pgdir (PDX va') \<or> PTX va \<noteq> PTX va'"
        using W(5)[OF index_bounds(1) index_bounds(1) _ h True] by (auto simp: same_page_def)
      have "page_ok 0 (tab_of (mem s) pgdir (PDX va'))" using W(4)[OF index_bounds(1) True] by blast
      then show ?thesis
        using rd_entry_other[OF T(1) _ index_bounds(2) index_bounds(2) ne] ht[of "PDX va'"] False True
        by (simp add: pte_of_def slot_addr_def)
    qed
  qed
qed

section \<open>Mapping a range\<close>

lemma page_number: "unat (drop_bit 12 (a :: uint)) = unat a div 4096"
  by (simp add: drop_bit_eq_div unat_div)

lemma same_page_iff: "same_page a b \<longleftrightarrow> unat a div 4096 = unat b div 4096"
proof -
  have "same_page a b \<longleftrightarrow> drop_bit 12 a = drop_bit 12 b"
  proof
    assume "drop_bit 12 a = drop_bit 12 b"
    moreover from this have "drop_bit 10 (drop_bit 12 a) = drop_bit 10 (drop_bit 12 b)" by (rule arg_cong)
    then have "drop_bit 22 a = drop_bit 22 b" by simp
    ultimately show "same_page a b" by (simp add: same_page_def PDX_def PTX_def)
  next
    assume "same_page a b"
    then have "PGADDR (PDX a) (PTX a) 0 = PGADDR (PDX b) (PTX b) 0" by (simp add: same_page_def)
    moreover have "drop_bit 12 (PGADDR (PDX c) (PTX c) 0) = drop_bit 12 c" for c
      unfolding PGADDR_def PDX_def PTX_def masks
      by (rule bit_word_eqI) (auto simp: bit_simps not_less dest: bit_imp_le_length)
    ultimately show "drop_bit 12 a = drop_bit 12 b" by metis
  qed
  then show ?thesis by (metis page_number word_unat_eq_iff)
qed

lemma same_page_refl [simp]: "same_page a a"
  by (simp add: same_page_def)

lemma later_page:
  assumes "0 < k" "k < 2 ^ 20"
  shows "\<not> same_page (a + PGSIZE * of_nat k) a"
proof -
  let ?i = "unat a div 4096"
  have "unat (a + PGSIZE * of_nat k) = (unat a + 4096 * k) mod (4096 * 2 ^ 20)"
    using assms by (simp add: unat_word_ariths unat_of_nat mod_simps)
  then have "unat (a + PGSIZE * of_nat k) div 4096 = (?i + k) mod 2 ^ 20"
    by (simp only: mod_mult2_eq) (simp add: add.commute)
  moreover have "unat a < 2 ^ LENGTH(32)" by (rule unsigned_less)
  then have "?i < 2 ^ 20" by (simp add: div_less_iff_less_mult)
  ultimately show ?thesis using assms by (auto simp: same_page_iff mod_if)
qed

text \<open>The range as the specification has it: \<open>n\<close> consecutive pages get consecutive frames.\<close>

fun map_range :: "nat \<Rightarrow> uint \<Rightarrow> uint \<Rightarrow> uint \<Rightarrow> (uint \<Rightarrow> uint) \<Rightarrow> uint \<Rightarrow> uint" where
  "map_range 0 a pa perm f = f"
| "map_range (Suc n) a pa perm f = map_range n (a + PGSIZE) (pa + PGSIZE) perm
     (\<lambda>va. if same_page va a then pa OR perm OR PTE_P else f va)"

definition present :: "uint \<Rightarrow> bool" where
  "present pte \<longleftrightarrow> pte AND PTE_P \<noteq> 0"

lemma present_or [simp]: "present (pa OR perm OR PTE_P)"
proof -
  have "bit ((pa OR perm OR PTE_P) AND PTE_P) 0" by (simp add: bit_simps)
  then show ?thesis unfolding present_def by (metis bit_0_eq bot_fun_def bot_bool_def)
qed

lemma map_range_keeps: "present (f va) \<Longrightarrow> present (map_range n a pa perm f va)"
  by (induction n arbitrary: a pa f) simp_all

lemma map_range_present:
  "k < n \<Longrightarrow> present (map_range n a pa perm f (a + PGSIZE * of_nat k))"
proof (induction n arbitrary: a pa f k)
  case (Suc n)
  show ?case
  proof (cases k)
    case 0
    then show ?thesis by (simp add: map_range_keeps)
  next
    case (Suc j)
    then have "a + PGSIZE * of_nat k = (a + PGSIZE) + PGSIZE * of_nat j" by (simp add: algebra_simps)
    moreover have "j < n" using Suc.prems Suc by simp
    ultimately show ?thesis using Suc.IH by (simp only: map_range.simps)
  qed
qed simp

text \<open>What the result of mapping \<open>n\<close> pages from \<open>a\<close> has to be.\<close>

definition mapped_ok :: "uint \<Rightarrow> nat \<Rightarrow> uint \<Rightarrow> uint \<Rightarrow> uint \<Rightarrow> 'a kmem_scheme \<Rightarrow> (int \<times> 'a kmem_scheme) res \<Rightarrow> bool" where
  "mapped_ok pgdir n a pa perm s out =
     (let old = pte_of (mem s) pgdir in
      case out of
        Inl e \<Rightarrow> e = Panic ''remap'' \<and> (\<exists>k<n. present (old (a + PGSIZE * of_nat k)))
      | Inr (r, t) \<Rightarrow> pt_wf t pgdir \<and>
          (r = 0 \<and> pte_of (mem t) pgdir = map_range n a pa perm old
             \<and> (\<forall>k<n. \<not> present (old (a + PGSIZE * of_nat k)))
           \<or> r = -1 \<and> kmem_free t = {}))"

lemma map_step:
  assumes wf: "pt_wf s pgdir"
  obtains t where "walkpgdir pgdir a True s = Inr (0, t)" "pt_wf t pgdir" "kmem_free t = {}"
  | r t where "walkpgdir pgdir a True s = Inr (r, t)" "r \<noteq> 0" "rd32 (mem t) r = pte_of (mem s) pgdir a"
      "\<And>w. pt_wf (t\<lparr>mem := wr32 (mem t) r w\<rparr>) pgdir"
      "\<And>w. pte_of (wr32 (mem t) r w) pgdir = (\<lambda>va. if same_page va a then w else pte_of (mem s) pgdir va)"
proof -
  from walkpgdir_alloc[OF wf, of a] obtain r t where
    w: "walkpgdir pgdir a True s = Inr (r, t)" "pt_wf t pgdir"
      "r = 0 \<and> kmem_free s = {} \<and> t = s
       \<or> r \<noteq> 0 \<and> has_tab (mem t) pgdir (PDX a) \<and> r = slot_addr (mem t) pgdir a
       \<and> (\<forall>va'. pte_of (mem t) pgdir va' = pte_of (mem s) pgdir va')" by blast
  show thesis
  proof (cases "r = 0")
    case True
    then show ?thesis using w that(1) by auto
  next
    case False
    then have h: "has_tab (mem t) pgdir (PDX a)" "r = slot_addr (mem t) pgdir a"
      "pte_of (mem t) pgdir = pte_of (mem s) pgdir" using w(3) by auto
    have "rd32 (mem t) r = pte_of (mem t) pgdir a" using h(1,2) by (simp add: pte_of_def slot_addr_def)
    show ?thesis
    proof (rule that(2)[OF w(1) False])
      show "rd32 (mem t) r = pte_of (mem s) pgdir a" using \<open>rd32 (mem t) r = _\<close> h(3) by simp
      show "pt_wf (t\<lparr>mem := wr32 (mem t) r v\<rparr>) pgdir" for v using store_pte(1)[OF w(2) h(1)] h(2) by simp
      show "pte_of (wr32 (mem t) r v) pgdir = (\<lambda>va. if same_page va a then v else pte_of (mem s) pgdir va)" for v
        using store_pte(2)[OF w(2) h(1)] h(2,3) by auto
    qed
  qed
qed

lemma shift_ex:
  assumes "\<not> P 0" "\<And>k. k < n \<Longrightarrow> Q k = P (Suc k)"
  shows "(\<exists>k<n. Q k) \<longleftrightarrow> (\<exists>k<Suc n. P k)"
  using assms by (auto simp: Ex_less_Suc2)

lemma not_conj_imp: "\<not> (p \<and> q) \<longleftrightarrow> (p \<longrightarrow> \<not> q)"
  by blast

lemma mappages_loop_ok:
  "\<lbrakk>pt_wf s pgdir; lst = a + PGSIZE * of_nat n; n < 2 ^ 20; n < fuel\<rbrakk> \<Longrightarrow>
    mapped_ok pgdir (Suc n) a pa perm s (mappages_loop fuel pgdir a lst pa perm s)"
proof (induction fuel arbitrary: n a pa s)
  case (Suc fuel)
  show ?case
  proof (cases rule: map_step[OF Suc.prems(1), of a])
    case (1 t)
    then show ?thesis by (auto simp: mapped_ok_def Let_def)
  next
    case (2 r t)
    let ?old = "pte_of (mem s) pgdir"
    let ?w = "pa OR perm OR PTE_P"
    let ?t = "t\<lparr>mem := wr32 (mem t) r ?w\<rparr>"
    show ?thesis
    proof (cases "present (?old a)")
      case True
      then show ?thesis using 2(1-3) by (auto simp: mapped_ok_def present_def Let_def intro!: exI[of _ 0])
    next
      case np: False
      then have run: "mappages_loop (Suc fuel) pgdir a lst pa perm s =
        (if a = lst then Inr (0, ?t)
         else mappages_loop fuel pgdir (a + PGSIZE) lst (pa + PGSIZE) perm ?t)"
        using 2(1-3) by (simp add: present_def)
      show ?thesis
      proof (cases n)
        case 0
        then show ?thesis using Suc.prems(2) run np 2(4,5) by (simp add: mapped_ok_def Let_def)
      next
        case (Suc m)
        have ne: "a \<noteq> lst" using later_page[of n a] Suc Suc.prems(2,3) by auto
        have step: "a + PGSIZE * of_nat (Suc k) = (a + PGSIZE) + PGSIZE * of_nat k" for k
          by (simp add: algebra_simps)
        have lst': "lst = (a + PGSIZE) + PGSIZE * of_nat m" using Suc.prems(2) Suc step[of m] by simp
        have IH: "mapped_ok pgdir (Suc m) (a + PGSIZE) (pa + PGSIZE) perm ?t
            (mappages_loop fuel pgdir (a + PGSIZE) lst (pa + PGSIZE) perm ?t)"
          using Suc Suc.prems(3,4) by (intro Suc.IH[OF 2(4) lst']) auto
        have later: "pte_of (mem ?t) pgdir ((a + PGSIZE) + PGSIZE * of_nat k)
            = ?old (a + PGSIZE * of_nat (Suc k))" if "k < Suc m" for k
          using 2(5) later_page[of "Suc k" a] that Suc Suc.prems(3) by (simp add: step del: of_nat_Suc)
        have "(\<exists>k<Suc m. present (pte_of (mem ?t) pgdir ((a + PGSIZE) + PGSIZE * of_nat k)))
            \<longleftrightarrow> (\<exists>k<Suc (Suc m). present (?old (a + PGSIZE * of_nat k)))"
          using np later by (intro shift_ex) simp_all
        note ex = this and all = this[THEN arg_cong[of _ _ Not], simplified not_ex not_conj_imp]
        have mr: "map_range (Suc n) a pa perm ?old
            = map_range (Suc m) (a + PGSIZE) (pa + PGSIZE) perm (pte_of (mem ?t) pgdir)"
          using 2(5) Suc by simp
        show ?thesis
          using IH unfolding run if_not_P[OF ne] mapped_ok_def Let_def Suc[symmetric] mr
          by (simp only: Suc ex all)
      qed
    qed
  qed
qed simp

section \<open>Whole ranges\<close>

lemma aligned_multiple: "x mod PGSIZE = 0 \<Longrightarrow> PGSIZE * of_nat (unat (x div PGSIZE)) = (x :: uint)"
  using div_mult_mod_eq[of x PGSIZE] by (simp add: mult.commute)

lemma pgrounddown_aligned: "PGROUNDDOWN a mod PGSIZE = 0"
  by (simp add: word_unat_eq_iff unat_mod pgrounddown_unat minus_mod_eq_div_mult)

text \<open>The number of pages after the first that \<open>mappages\<close> goes through.\<close>

definition map_count :: "uint \<Rightarrow> uint \<Rightarrow> uint \<Rightarrow> nat" where
  "map_count va sz pa = unat ((PGROUNDDOWN (pa + sz - 1) - PGROUNDDOWN va) div PGSIZE)"

lemma word_div_lt: "unat ((x :: uint) div PGSIZE) < 2 ^ 20"
proof -
  have "unat x < 2 ^ LENGTH(32)" by (rule unsigned_less)
  then show ?thesis by (simp add: unat_div div_less_iff_less_mult)
qed

lemma diff_aligned:
  assumes "(x :: uint) mod PGSIZE = 0" "y mod PGSIZE = 0"
  shows "(x - y) mod PGSIZE = 0"
proof -
  have "take_bit 12 x = 0" "take_bit 12 y = 0" using assms by (simp_all add: take_bit_eq_mod)
  then obtain u v where "x = PGSIZE * u" "y = PGSIZE * v"
    using aligned_multiple[OF assms(1)] aligned_multiple[OF assms(2)] by metis
  then have "x - y = push_bit 12 (u - v)" by (simp add: push_bit_eq_mult algebra_simps)
  then have "take_bit 12 (x - y) = 0" by (simp add: take_bit_push_bit)
  then show ?thesis by (simp add: take_bit_eq_mod)
qed

lemma map_count_last:
  "PGROUNDDOWN (pa + sz - 1) = PGROUNDDOWN va + PGSIZE * of_nat (map_count va sz pa)"
  "map_count va sz pa < 2 ^ 20"
  using aligned_multiple[OF diff_aligned[OF pgrounddown_aligned pgrounddown_aligned], of "pa + sz - 1" va]
    word_div_lt by (simp_all add: map_count_def)

lemma map_range_other:
  "(\<And>k. k < n \<Longrightarrow> \<not> same_page x (a + PGSIZE * of_nat k)) \<Longrightarrow> map_range n a pa perm f x = f x"
proof (induction n arbitrary: a pa f)
  case (Suc n)
  have "\<not> same_page x ((a + PGSIZE) + PGSIZE * of_nat k)" if "k < n" for k
    using Suc.prems[of "Suc k"] that by (simp add: algebra_simps)
  moreover have "\<not> same_page x a" using Suc.prems[of 0] by simp
  ultimately show ?case using Suc.IH[of "a + PGSIZE"] by simp
qed simp

lemma map_range_at:
  "\<lbrakk>n \<le> 2 ^ 20; k < n; same_page x (a + PGSIZE * of_nat k)\<rbrakk> \<Longrightarrow>
    map_range n a pa perm f x = (pa + PGSIZE * of_nat k) OR perm OR PTE_P"
proof (induction n arbitrary: a pa f k)
  case (Suc n)
  show ?case
  proof (cases k)
    case 0
    then have x: "same_page x a" using Suc.prems by simp
    have "\<not> same_page x ((a + PGSIZE) + PGSIZE * of_nat j)" if "j < n" for j
      using later_page[of "Suc j" a] x that Suc.prems(1) by (auto simp: same_page_def algebra_simps)
    then show ?thesis using x 0 by (simp add: map_range_other)
  next
    case (Suc j)
    then have "a + PGSIZE * of_nat k = (a + PGSIZE) + PGSIZE * of_nat j"
      "pa + PGSIZE * of_nat k = (pa + PGSIZE) + PGSIZE * of_nat j" by (simp_all add: algebra_simps)
    moreover have "j < n" "n \<le> 2 ^ 20" using Suc.prems Suc by simp_all
    ultimately show ?thesis using Suc.IH Suc.prems(3) by (simp only: map_range.simps)
  qed
qed simp

lemma div_mult_self_4096: "(4096 * n + r) div 4096 = (n :: nat)" if "r < 4096"
  using that by simp

lemma between_offset: "i \<le> l \<Longrightarrow> (\<exists>k\<le>l - i. j = i + k) \<longleftrightarrow> i \<le> j \<and> j \<le> (l :: nat)"
  by (auto intro!: exI[of _ "j - i"])

text \<open>The pages of an aligned range that does not wrap.\<close>

lemma range_pages:
  assumes al: "va mod PGSIZE = 0" and sz: "sz \<noteq> 0" "unat va + unat sz \<le> 2 ^ 32"
  shows "PGROUNDDOWN va = va"
    and "va \<le> x \<and> PGROUNDDOWN x \<le> va + sz - 1 \<longleftrightarrow>
      (\<exists>k\<le>map_count va sz va. same_page x (va + PGSIZE * of_nat k))"
    and "\<lbrakk>k \<le> map_count va sz va; same_page x (va + PGSIZE * of_nat k)\<rbrakk> \<Longrightarrow>
      va + PGSIZE * of_nat k = PGROUNDDOWN x"
proof -
  let ?i = "unat va div 4096" and ?j = "unat x div 4096"
  let ?l = "unat (va + sz - 1) div 4096"
  have va0: "unat va mod 4096 = 0" using al unat_mod[of va PGSIZE] by auto
  then have va: "unat va = 4096 * ?i" by auto
  show p: "PGROUNDDOWN va = va" using va0 by (simp add: word_unat_eq_iff pgrounddown_unat)
  have s1: "0 < unat sz" using sz(1) by (simp add: unat_gt_0)
  have last: "unat (va + sz - 1) = unat va + unat sz - 1"
  proof -
    have "unat (sz - 1) = unat sz - 1" using s1 by (simp add: unat_minus_one unat_gt_0)
    moreover have "of_nat (unat (sz - 1)) = sz - 1" by simp
    ultimately have "sz - 1 = of_nat (unat sz - 1)" by metis
    then have "va + sz - 1 = va + of_nat (unat sz - 1)" by (metis add_diff_eq)
    moreover have "unat (va + of_nat (unat sz - 1)) = unat va + (unat sz - 1)"
      using s1 sz(2) by (intro unat_add_small) simp
    ultimately have "unat (va + sz - 1) = unat va + (unat sz - 1)" by (simp only:)
    then show ?thesis using s1 by linarith
  qed
  have lr: "unat (PGROUNDDOWN (va + sz - 1)) = 4096 * ?l"
    by (simp add: pgrounddown_unat minus_mod_eq_mult_div)
  have le: "?i \<le> ?l" using last s1 by (intro div_le_mono) simp
  have "unat (PGROUNDDOWN (va + sz - 1) - va) = 4096 * ?l - 4096 * ?i"
    using le va lr by (subst unat_sub) (simp_all add: word_le_nat_alt)
  then have cnt: "map_count va sz va = ?l - ?i"
    unfolding map_count_def p by (simp add: unat_div diff_mult_distrib2[symmetric])
  have l20: "?l < 2 ^ 20"
    using div_less_iff_less_mult[of 4096 "unat (va + sz - 1)" "2 ^ 20"] unsigned_less[of "va + sz - 1"] by simp
  have at: "unat (va + PGSIZE * of_nat k) = 4096 * (?i + k)" if "k \<le> ?l - ?i" for k
    using that le l20 va unat_add_small[of va "4096 * k"] by simp
  have sp: "same_page x (va + PGSIZE * of_nat k) \<longleftrightarrow> ?j = ?i + k" if "k \<le> ?l - ?i" for k
    using at[OF that] by (simp add: same_page_iff)
  have xr: "unat (PGROUNDDOWN x) = 4096 * ?j" by (simp add: pgrounddown_unat minus_mod_eq_mult_div)
  have "va \<le> x \<longleftrightarrow> ?i \<le> ?j"
    using va div_mult_mod_eq[of "unat x" 4096] div_le_mono[of "unat va" "unat x" 4096]
    by (auto simp: word_le_nat_alt)
  moreover have "PGROUNDDOWN x \<le> va + sz - 1 \<longleftrightarrow> ?j \<le> ?l"
    unfolding word_le_nat_alt xr by (simp add: less_eq_div_iff_mult_less_eq mult.commute)
  moreover have "(\<exists>k\<le>?l - ?i. ?j = ?i + k) \<longleftrightarrow> ?i \<le> ?j \<and> ?j \<le> ?l"
    using le by (rule between_offset)
  ultimately show "va \<le> x \<and> PGROUNDDOWN x \<le> va + sz - 1 \<longleftrightarrow>
      (\<exists>k\<le>map_count va sz va. same_page x (va + PGSIZE * of_nat k))"
    unfolding cnt using sp by (metis (no_types, lifting))
  show "va + PGSIZE * of_nat k = PGROUNDDOWN x"
    if "k \<le> map_count va sz va" "same_page x (va + PGSIZE * of_nat k)"
    using that at sp xr cnt by (simp add: word_unat_eq_iff)
qed

section \<open>Properties\<close>

lemma mappages_ok:
  "pt_wf s pgdir \<Longrightarrow>
    mapped_ok pgdir (Suc (map_count va sz pa)) (PGROUNDDOWN va) pa perm s (mappages pgdir va sz pa perm s)"
  unfolding mappages_def
  by (rule mappages_loop_ok) (use map_count_last(1)[of pa sz va] map_count_last(2)[of va sz pa] in simp_all)

text \<open>
  C30 (mapping a range). \<open>mappages\<close> ends, and fails only as intended: it either enters
  consecutive frames for the pages from \<open>va\<close> up to the page it computes as the last one, all
  of them unmapped before, or returns -1 because memory ran out, or panics because one of the
  pages was mapped already. The table stays well formed.
\<close>

theorem mappages_effect:
  "pt_wf s pgdir \<Longrightarrow>
    mapped_ok pgdir (Suc (map_count va sz pa)) (PGROUNDDOWN va) pa perm s (mappages pgdir va sz pa perm s)"
  by (rule mappages_ok)

text \<open>A machine with one free page, and an empty directory on another page.\<close>

definition one_page :: kmem where
  "one_page = empty_kmem\<lparr>freelist := 0x80401000\<rparr>"

lemma one_page_wf: "pt_wf one_page 0x80400000" "kmem_free one_page = {0x80401000}"
  "pte_of (mem one_page) 0x80400000 va = 0"
proof -
  have z: "rd32 (\<lambda>_. 0) a = 0" for a by (simp add: rd32_def word32_def)
  have po: "page_ok 0 0x80401000" "page_ok 0 0x80400000" by (simp_all add: page_ok_def V2P_def)
  have inv: "kmem_inv 0 one_page [0x80401000]"
    using z po by (simp add: kmem_inv_def one_page_def empty_kmem_def)
  have ht: "\<not> has_tab (mem one_page) 0x80400000 i" for i
    using z by (simp add: has_tab_def pde_of_def one_page_def empty_kmem_def)
  show f: "kmem_free one_page = {0x80401000}" using kmem_free_eq[OF inv] by simp
  show "pt_wf one_page 0x80400000" using inv po ht f by (auto simp: pt_wf_def kmem_wf_def)
  show "pte_of (mem one_page) 0x80400000 va = 0" using ht by (simp add: pte_of_def)
qed

lemma one_page_maps:
  "\<exists>t. mappages 0x80400000 0xFEC00000 0x1000 0xFEC00000 PTE_W one_page = Inr (0, t)"
proof -
  from walkpgdir_alloc[OF one_page_wf(1), of "0xFEC00000"] obtain r t where
    "walkpgdir 0x80400000 0xFEC00000 True one_page = Inr (r, t)" "r \<noteq> 0"
    "has_tab (mem t) 0x80400000 (PDX 0xFEC00000)" "r = slot_addr (mem t) 0x80400000 0xFEC00000"
    "pte_of (mem t) 0x80400000 0xFEC00000 = pte_of (mem one_page) 0x80400000 0xFEC00000"
    using one_page_wf(2) by auto
  then have w: "walkpgdir 0x80400000 0xFEC00000 True one_page = Inr (r, t)" "r \<noteq> 0" "rd32 (mem t) r = 0"
    using one_page_wf(3) by (simp_all add: pte_of_def slot_addr_def)
  have "(2 ^ 20 + 1 :: nat) = Suc (2 ^ 20)" by simp
  then show ?thesis
    unfolding mappages_def using w by (simp only: mappages_loop.simps) (simp add: PGROUNDDOWN_def Let_def)
qed

lemma mappages_effect_witness:
  "mapped_ok 0x80400000 1 0xFEC00000 0xFEC00000 PTE_W one_page
     (mappages 0x80400000 0xFEC00000 0x1000 0xFEC00000 PTE_W one_page)"
proof -
  have "map_count 0xFEC00000 0x1000 0xFEC00000 = 0" "PGROUNDDOWN 0xFEC00000 = 0xFEC00000"
    by (simp_all add: map_count_def PGROUNDDOWN_def)
  then show ?thesis
    using mappages_effect[OF one_page_wf(1), of "0xFEC00000" "0x1000" "0xFEC00000" PTE_W] by simp
qed

text \<open>
  Identity mapping. When \<open>pa = va\<close>, which is how the device space is mapped, a successful
  \<open>mappages\<close> maps exactly the pages of \<open>[va, va + size)\<close>, each to the frame of its own
  address, and leaves every other entry alone.
\<close>

theorem mappages_identity:
  assumes "pt_wf s pgdir" "va mod PGSIZE = 0" "sz \<noteq> 0" "unat va + unat sz \<le> 2 ^ 32"
    and "mappages pgdir va sz va perm s = Inr (0, t)"
  shows "pte_of (mem t) pgdir x =
    (if va \<le> x \<and> PGROUNDDOWN x \<le> va + sz - 1 then PGROUNDDOWN x OR perm OR PTE_P
     else pte_of (mem s) pgdir x)"
proof -
  note r = range_pages[OF assms(2-4)]
  let ?n = "map_count va sz va"
  have "mapped_ok pgdir (Suc ?n) va va perm s (mappages pgdir va sz va perm s)"
    using mappages_loop_ok[OF assms(1) map_count_last(1)[of va sz va] map_count_last(2), of "2 ^ 20 + 1" va perm]
      map_count_last(2)[of va sz va] unfolding mappages_def r(1) by simp
  then have m: "pte_of (mem t) pgdir = map_range (Suc ?n) va va perm (pte_of (mem s) pgdir)"
    using assms(5) by (simp add: mapped_ok_def Let_def)
  show ?thesis
  proof (cases "\<exists>k\<le>?n. same_page x (va + PGSIZE * of_nat k)")
    case True
    then obtain k where k: "k \<le> ?n" "same_page x (va + PGSIZE * of_nat k)" by blast
    have "map_range (Suc ?n) va va perm (pte_of (mem s) pgdir) x = (va + PGSIZE * of_nat k) OR perm OR PTE_P"
      using map_count_last(2)[of va sz va] k by (intro map_range_at) auto
    then show ?thesis using m r(2) True r(3)[OF k] by simp
  next
    case False
    then have "map_range (Suc ?n) va va perm (pte_of (mem s) pgdir) x = pte_of (mem s) pgdir x"
      by (intro map_range_other) auto
    moreover have nle: "\<not> (va \<le> x \<and> PGROUNDDOWN x \<le> va + sz - 1)" using r(2)[of x] False by blast
    ultimately show ?thesis unfolding if_not_P[OF nle] using m by (simp only:)
  qed
qed

lemma mappages_identity_witness:
  "\<exists>t. mappages 0x80400000 0xFEC00000 0x1000 0xFEC00000 PTE_W one_page = Inr (0, t)
     \<and> pte_of (mem t) 0x80400000 0xFEC00010 = 0xFEC00003 \<and> pte_of (mem t) 0x80400000 0xFEC01000 = 0"
proof -
  obtain t where t: "mappages 0x80400000 0xFEC00000 0x1000 0xFEC00000 PTE_W one_page = Inr (0, t)"
    using one_page_maps by blast
  show ?thesis
    using t mappages_identity[OF one_page_wf(1) _ _ _ t, of "0xFEC00010"]
      mappages_identity[OF one_page_wf(1) _ _ _ t, of "0xFEC01000"] one_page_wf(3)
    by (auto simp: PGROUNDDOWN_def)
qed

lemma fresh_directory:
  assumes "kmem_wf s" "p \<in> kmem_free s" "kmem_free t = kmem_free s - {p}" "kmem_wf t" "mem t = mem s"
  shows "pt_wf (t\<lparr>mem := memset (mem t) p 0 PGSIZE\<rparr>) p"
    "pte_of (memset (mem t) p 0 PGSIZE) p va = 0"
proof -
  have pp: "page_ok 0 p" using ka.free_page_ok[OF assms(1,2)] .
  have ht: "\<not> has_tab (fill (mem t) p 4096 0) p i" if "i < 1024" for i
    using rd_fill_same[OF pp that] by (simp add: has_tab_def pde_of_def)
  have "fill (mem t) p 4096 0 a = mem t a" if "q \<in> kmem_free t" "in_range q 4096 a" for q a
  proof -
    have "q \<in> kmem_free s" "q \<noteq> p" using that(1) assms(3) by auto
    then have "unat p + 4096 \<le> unat q \<or> unat q + 4096 \<le> unat p"
      using pages_disjoint pp ka.free_page_ok[OF assms(1)] by (auto simp: page_ok_def)
    then show ?thesis using that(2) by (intro fill_out) (auto simp: in_range_def)
  qed
  then have "kmem_wf (t\<lparr>mem := fill (mem t) p 4096 0\<rparr>)
      \<and> kmem_free (t\<lparr>mem := fill (mem t) p 4096 0\<rparr>) = kmem_free t"
    using ka.write_outside[OF assms(4)] by blast
  then show "pt_wf (t\<lparr>mem := memset (mem t) p 0 PGSIZE\<rparr>) p"
    using ht pp assms(3) unfolding memset_page[OF pp] pt_wf_def by auto
  show "pte_of (memset (mem t) p 0 PGSIZE) p va = 0"
    unfolding memset_page[OF pp] using ht[of "PDX va"] by (simp add: pte_of_def)
qed

text \<open>The first entry of \<open>kmap\<close>: a success maps \<open>KERNLINK\<close>.\<close>

lemma first_entry_maps:
  assumes "pt_wf s p"
  shows "mappages p KBASE EXTMEM 0 PTE_W s = Inl (Panic ''remap'')
    \<or> (\<exists>u. mappages p KBASE EXTMEM 0 PTE_W s = Inr (-1, u))
    \<or> (\<exists>u. mappages p KBASE EXTMEM 0 PTE_W s = Inr (0, u) \<and> pt_wf u p \<and> present (pte_of (mem u) p KERNLINK))"
proof -
  have cnt: "map_count KBASE EXTMEM 0 = 0x800FF" "PGROUNDDOWN KBASE = KBASE"
    by (simp_all add: map_count_def PGROUNDDOWN_def)
  note m = mappages_ok[OF assms, of KBASE EXTMEM 0 PTE_W, unfolded cnt]
  show ?thesis
  proof (cases "mappages p KBASE EXTMEM 0 PTE_W s")
    case (Inl err)
    then show ?thesis using m by (simp add: mapped_ok_def Let_def)
  next
    case (Inr rt)
    then obtain r u where ru: "mappages p KBASE EXTMEM 0 PTE_W s = Inr (r, u)" by (cases rt) auto
    then have u: "pt_wf u p" "r = 0 \<and> pte_of (mem u) p = map_range (Suc 0x800FF) KBASE 0 PTE_W (pte_of (mem s) p) \<or> r = -1"
      using m unfolding mapped_ok_def Let_def by auto
    have "present (pte_of (mem u) p (KBASE + PGSIZE * of_nat 0x100))" if "r \<noteq> -1"
      using that u(2) map_range_present[of "0x100" "Suc 0x800FF" KBASE 0 PTE_W "pte_of (mem s) p"] by auto
    then have "present (pte_of (mem u) p KERNLINK)" if "r \<noteq> -1" using that by simp
    then show ?thesis using ru u by auto
  qed
qed

text \<open>
  C24 (the kernel's page table is never built). Whatever the linker's \<open>data\<close> is and however
  much memory is free, \<open>setupkvm\<close> does not return a page table: the first entry of \<open>kmap\<close>
  has \<open>virt \<noteq> phys_start\<close>, the end of its range is computed from the physical address, the
  loop runs past the range through the whole upper half of the address space and maps
  \<open>KERNLINK\<close> as well, so the second entry finds it mapped. The result is 0 or a panic.
\<close>

theorem setupkvm_never_succeeds:
  assumes "kmem_wf s"
  shows "(\<exists>t. setupkvm data s = Inr (0, t)) \<or> setupkvm data s = Inl (Panic ''remap'')"
proof -
  obtain p t where a: "kalloc s = Inr (p, t)" "kmem_wf t" "mem t = mem s"
    "p = 0 \<and> kmem_free s = {} \<and> t = s \<or> p \<in> kmem_free s \<and> kmem_free t = kmem_free s - {p}"
    by (rule ka.alloc_result[OF assms])
  show ?thesis
  proof (cases "p = 0")
    case True
    then show ?thesis using a(1) by (simp add: setupkvm_def)
  next
    case False
    let ?t = "t\<lparr>mem := memset (mem t) p 0 PGSIZE\<rparr>"
    have wf: "pt_wf ?t p" using fresh_directory(1)[OF assms _ _ a(2,3)] a(4) False by blast
    have e: "setupkvm data s = bind_res (mappages p KBASE EXTMEM 0 PTE_W ?t) (\<lambda>(r, s).
        if r < 0 then Inr (0, s) else
          map_all p [(KERNLINK, V2P KERNLINK, V2P data, 0), (data, V2P data, PHYSTOP, PTE_W),
            (DEVSPACE, DEVSPACE, 0, PTE_W)] s)"
      using a(1) False by (simp add: setupkvm_def P2V_def Let_def kmap_def)
    have "PGROUNDDOWN KERNLINK = KERNLINK" by (simp add: PGROUNDDOWN_def)
    then have K: "(\<exists>t. mappages p KERNLINK (V2P data - V2P KERNLINK) (V2P KERNLINK) 0 u = Inr (-1, t))
        \<or> mappages p KERNLINK (V2P data - V2P KERNLINK) (V2P KERNLINK) 0 u = Inl (Panic ''remap'')"
      if "pt_wf u p" "present (pte_of (mem u) p KERNLINK)" for u
      using mappages_ok[OF that(1), of KERNLINK "V2P data - V2P KERNLINK" "V2P KERNLINK" 0] that(2)
      unfolding mapped_ok_def Let_def by (auto split: sum.splits)
    from first_entry_maps[OF wf] show ?thesis
    proof (elim disjE exE conjE)
      fix u
      assume u: "mappages p KBASE EXTMEM 0 PTE_W ?t = Inr (0, u)" "pt_wf u p" "present (pte_of (mem u) p KERNLINK)"
      then show ?thesis using K[OF u(2,3)] e by auto
    qed (use e in simp_all)
  qed
qed

lemma setupkvm_never_succeeds_witness:
  "(\<exists>t. setupkvm 0x80108000 one_page = Inr (0, t)) \<or> setupkvm 0x80108000 one_page = Inl (Panic ''remap'')"
  by (rule setupkvm_never_succeeds) (use one_page_wf(1) in \<open>simp add: pt_wf_def\<close>)

end
