(* ===== verification/Syscall.thy ===== *)
theory Syscall
  imports File Vm
begin

text \<open>
  System call arguments (\<open>syscall.c\<close>): fetching integers, pointers and strings from the calling
  process's memory, with the checks that keep the kernel inside it. \<open>syscall.c\<close> and its
  clients use fields of \<open>struct proc\<close> that \<open>proc.h\<close> does not have yet (\<open>sz\<close>, \<open>ofile\<close>, \<open>tf\<close>,
  \<open>pgdir\<close>); they are kept here in a second array, indexed like \<open>ptable.proc\<close>.
\<close>

section \<open>Process state that the system calls use\<close>

record trapframe =
  tf_edi :: uint
  tf_esi :: uint
  tf_ebp :: uint
  tf_oesp :: uint
  tf_ebx :: uint
  tf_edx :: uint
  tf_ecx :: uint
  tf_eax :: uint
  tf_gs :: ushort
  tf_fs :: ushort
  tf_es :: ushort
  tf_ds :: ushort
  tf_trapno :: uint
  tf_err :: uint
  tf_eip :: uint
  tf_cs :: ushort
  tf_eflags :: uint
  tf_esp :: uint
  tf_ss :: ushort

abbreviation NOFILE :: nat where "NOFILE \<equiv> 16"

record uproc =
  u_sz :: uint
  u_ofile :: "nat option list"
  u_tf :: trapframe
  u_pgdir :: uint

record kernst = filest +
  uarea :: "uproc list"
  ticks :: uint

type_synonym 'a sys_env = "'a kernst_scheme kenv"

text \<open>The current process; a null \<open>proc\<close> is a fault.\<close>

definition myu :: "'a kernst_scheme \<Rightarrow> uproc res" where
  "myu s = (case curproc s of None \<Rightarrow> Inl (Fault ''proc'') | Some i \<Rightarrow>
     if i < length (uarea s) then Inr (uarea s ! i) else Inl (Fault ''proc''))"

definition set_myu :: "(uproc \<Rightarrow> uproc) \<Rightarrow> 'a kernst_scheme \<Rightarrow> 'a kernst_scheme" where
  "set_myu f s = (case curproc s of None \<Rightarrow> s
     | Some i \<Rightarrow> s\<lparr>uarea := (uarea s)[i := f (uarea s ! i)]\<rparr>)"

section \<open>Fetching arguments\<close>

text \<open>\<open>None\<close> stands for the result -1. Virtual addresses of the process index \<open>mem\<close> directly.\<close>

definition fetchint :: "uint \<Rightarrow> 'a kernst_scheme \<Rightarrow> uint option res" where
  "fetchint addr s =
     bind_res (myu s) (\<lambda>u.
     if addr \<ge> u_sz u \<or> addr + 4 > u_sz u then Inr None
     else Inr (Some (rd32 (mem s) addr)))"

text \<open>The pointer is \<open>addr\<close> itself; the result is the length of the string.\<close>

definition fetchstr :: "uint \<Rightarrow> 'a kernst_scheme \<Rightarrow> nat option res" where
  "fetchstr addr s =
     bind_res (myu s) (\<lambda>u.
     if addr \<ge> u_sz u then Inr None
     else Inr (find (\<lambda>k. mem s (addr + of_nat k) = 0) [0..<unat (u_sz u) - unat addr]))"

definition argint :: "int \<Rightarrow> 'a kernst_scheme \<Rightarrow> uint option res" where
  "argint n s =
     bind_res (myu s) (\<lambda>u. fetchint (tf_esp (u_tf u) + 4 + of_int (4 * n)) s)"

definition argptr :: "int \<Rightarrow> int \<Rightarrow> 'a kernst_scheme \<Rightarrow> uint option res" where
  "argptr n sz s =
     bind_res (argint n s) (\<lambda>a. case a of None \<Rightarrow> Inr None | Some i \<Rightarrow>
     bind_res (myu s) (\<lambda>u.
     if sz < 0 \<or> i \<ge> u_sz u \<or> i + of_int sz > u_sz u then Inr None
     else Inr (Some i)))"

text \<open>The string itself, which the callers read through the pointer.\<close>

definition argstr :: "int \<Rightarrow> 'a kernst_scheme \<Rightarrow> uchar list option res" where
  "argstr n s =
     bind_res (argint n s) (\<lambda>a. case a of None \<Rightarrow> Inr None | Some addr \<Rightarrow>
     bind_res (fetchstr addr s) (\<lambda>len.
     Inr (map_option (load_bytes (mem s) addr) len)))"

section \<open>The checks keep the kernel inside the process\<close>

text \<open>A range check with 32-bit sums is the check with unbounded ones, below \<open>KBASE\<close>.\<close>

lemma range_check:
  assumes "z \<le> KBASE" "n < 2 ^ 31"
  shows "\<not> (p \<ge> z \<or> p + of_nat n > z) \<longleftrightarrow> unat p < unat z \<and> unat p + n \<le> unat z"
proof (cases "p < z")
  case True
  then have "unat p + n < 2 ^ 32" using assms by (simp add: word_less_nat_alt word_le_nat_alt)
  then have "unat (p + of_nat n) = unat p + n" by (rule unat_add_small)
  then show ?thesis using True by (auto simp: word_less_nat_alt word_le_nat_alt)
qed (auto simp: word_less_nat_alt word_le_nat_alt)

lemma fetchint_exact:
  assumes "myu s = Inr u" "u_sz u \<le> KBASE"
  shows "fetchint addr s = Inr (if unat addr + 4 \<le> unat (u_sz u) then Some (rd32 (mem s) addr) else None)"
  using range_check[OF assms(2), of 4 addr] assms(1) by (auto simp: fetchint_def)

lemma argint_exact:
  fixes n :: int
  assumes "myu s = Inr u" "u_sz u \<le> KBASE"
  defines "sp \<equiv> tf_esp (u_tf u) + 4 + of_int (4 * n)"
  shows "argint n s = Inr (if unat sp + 4 \<le> unat (u_sz u) then Some (rd32 (mem s) sp) else None)"
  by (simp only: argint_def assms(1) bind_res_Inr sp_def fetchint_exact[OF assms(1,2)])

text \<open>The string ends inside the process, and has no 0 byte before its end.\<close>

lemma find_upt:
  assumes "find P [0..<n] = Some k"
  shows "k < n" "P k" "\<And>j. j < k \<Longrightarrow> \<not> P j"
proof -
  obtain i where i: "i < n" "P ([0..<n] ! i)" "k = [0..<n] ! i" "\<forall>j<i. \<not> P ([0..<n] ! j)"
    using assms by (auto simp: find_Some_iff)
  then have "k = i" by simp
  then show "k < n" "P k" "\<And>j. j < k \<Longrightarrow> \<not> P j" using i by auto
qed

lemma fetchstr_bound:
  assumes "fetchstr addr s = Inr (Some len)" "myu s = Inr u"
  shows "unat addr + len < unat (u_sz u) \<and> mem s (addr + of_nat len) = 0
    \<and> (\<forall>j<len. mem s (addr + of_nat j) \<noteq> 0)"
proof -
  have "find (\<lambda>k. mem s (addr + of_nat k) = 0) [0..<unat (u_sz u) - unat addr] = Some len"
    using assms by (auto simp: fetchstr_def split: if_splits)
  note f = find_upt[OF this]
  then show ?thesis by auto
qed

text \<open>
  C28: the check of a pointer argument is exact. For a process below the kernel, \<open>argptr\<close> gives the
  pointer exactly when the stack slot of the argument and the whole block lie inside the
  process, in unbounded arithmetic: no address or size that wraps around gets through, and
  nothing that is inside is refused except an empty block at the very end.
\<close>

theorem argptr_exact:
  fixes n :: int
  assumes "myu s = Inr u" "u_sz u \<le> KBASE" "sz < 2 ^ 31"
  defines "sp \<equiv> tf_esp (u_tf u) + 4 + of_int (4 * n)"
  defines "p \<equiv> rd32 (mem s) sp"
  shows "argptr n sz s = Inr (if unat sp + 4 \<le> unat (u_sz u) \<and> 0 \<le> sz
      \<and> unat p < unat (u_sz u) \<and> unat p + nat sz \<le> unat (u_sz u) then Some p else None)"
proof -
  have A: "argint n s = Inr (if unat sp + 4 \<le> unat (u_sz u) then Some p else None)"
    unfolding p_def sp_def by (rule argint_exact[OF assms(1,2)])
  have "(p \<ge> u_sz u \<or> p + of_int sz > u_sz u) \<longleftrightarrow> \<not> (unat p < unat (u_sz u) \<and> unat p + nat sz \<le> unat (u_sz u))"
    if "0 \<le> sz"
  proof -
    have "nat sz < 2 ^ 31" using assms(3) that by simp
    from range_check[OF assms(2) this, of p] show ?thesis using that by auto
  qed
  then show ?thesis by (cases "0 \<le> sz") (auto simp: argptr_def A assms(1) not_less)
qed

lemma argptr_exact_witness:
  "\<forall>s0 :: kernst. \<forall>f. let s = s0\<lparr>curproc := Some 0, mem := (\<lambda>_. 0),
       uarea := [\<lparr>u_sz = 4096, u_ofile = [], u_tf = f\<lparr>tf_esp := 100\<rparr>, u_pgdir = 0\<rparr>]\<rparr>
     in argptr 0 4096 s = Inr (Some 0) \<and> argptr 0 4097 s = Inr None \<and> argptr 0 (-1) s = Inr None"
proof (intro allI, unfold Let_def)
  fix s0 :: kernst and f
  define u where "u = \<lparr>u_sz = 4096, u_ofile = [], u_tf = f\<lparr>tf_esp := 100\<rparr>, u_pgdir = 0\<rparr>"
  define s where "s = s0\<lparr>curproc := Some 0, mem := (\<lambda>_. 0), uarea := [u]\<rparr>"
  have m: "myu s = Inr u" and z: "u_sz u \<le> KBASE" by (simp_all add: s_def myu_def u_def)
  have "rd32 (mem s) a = 0" for a by (simp add: s_def rd32_def word32_def)
  then show "argptr 0 4096 (s0\<lparr>curproc := Some 0, mem := (\<lambda>_. 0), uarea := [\<lparr>u_sz = 4096, u_ofile = [],
      u_tf = f\<lparr>tf_esp := 100\<rparr>, u_pgdir = 0\<rparr>]\<rparr>) = Inr (Some 0)
    \<and> argptr 0 4097 (s0\<lparr>curproc := Some 0, mem := (\<lambda>_. 0), uarea := [\<lparr>u_sz = 4096, u_ofile = [],
      u_tf = f\<lparr>tf_esp := 100\<rparr>, u_pgdir = 0\<rparr>]\<rparr>) = Inr None
    \<and> argptr 0 (-1) (s0\<lparr>curproc := Some 0, mem := (\<lambda>_. 0), uarea := [\<lparr>u_sz = 4096, u_ofile = [],
      u_tf = f\<lparr>tf_esp := 100\<rparr>, u_pgdir = 0\<rparr>]\<rparr>) = Inr None"
    using argptr_exact[OF m z, of 4096 0] argptr_exact[OF m z, of 4097 0] argptr_exact[OF m z, of "-1" 0]
    unfolding u_def[symmetric] s_def[symmetric] by (simp add: u_def)
qed

end
