(* ===== verification/Sysfile.thy ===== *)
theory Sysfile
  imports Syscall
begin

text \<open>
  The file-system calls (\<open>sysfile.c\<close>), handler by handler: argument checks, the transaction
  around each call, and the paths that release what was acquired.
\<close>

section \<open>File descriptors\<close>

text \<open>\<open>argfd\<close>: the descriptor and its file, \<open>None\<close> for the result -1.\<close>

definition argfd :: "int \<Rightarrow> 'a kernst_scheme \<Rightarrow> (nat \<times> nat) option res" where
  "argfd n s =
     bind_res (argint n s) (\<lambda>a. case a of None \<Rightarrow> Inr None | Some w \<Rightarrow>
     bind_res (myu s) (\<lambda>u.
     if sint w < 0 \<or> sint w \<ge> int NOFILE then Inr None
     else Inr (map_option (Pair (unat w)) (u_ofile u ! unat w))))"

definition set_fd :: "nat \<Rightarrow> nat option \<Rightarrow> 'a kernst_scheme \<Rightarrow> 'a kernst_scheme" where
  "set_fd fd f = set_myu (\<lambda>u. u\<lparr>u_ofile := (u_ofile u)[fd := f]\<rparr>)"

definition fdalloc :: "nat \<Rightarrow> 'a kernst_scheme \<Rightarrow> (nat option \<times> 'a kernst_scheme) res" where
  "fdalloc f s =
     bind_res (myu s) (\<lambda>u.
     case find (\<lambda>fd. u_ofile u ! fd = None) [0..<NOFILE] of
       Some fd \<Rightarrow> Inr (Some fd, set_fd fd (Some f) s)
     | None \<Rightarrow> Inr (None, s))"

text \<open>Calls return through \<open>outcome\<close> because reading and writing a pipe may sleep.\<close>

abbreviation failed :: "'s \<Rightarrow> (outcome \<times> 's) res" where "failed s \<equiv> Inr (Done (-1), s)"

definition sys_dup :: "'a kernst_scheme \<Rightarrow> (outcome \<times> 'a kernst_scheme) res" where
  "sys_dup s =
     bind_res (argfd 0 s) (\<lambda>a. case a of None \<Rightarrow> failed s | Some (_, f) \<Rightarrow>
     bind_res (fdalloc f s) (\<lambda>(fd, s). case fd of None \<Rightarrow> failed s | Some fd \<Rightarrow>
     bind_res (filedup f s) (\<lambda>(_, s). Inr (Done (int fd), s))))"

definition sys_read :: "'a sys_env \<Rightarrow> 'a kernst_scheme \<Rightarrow> (outcome \<times> 'a kernst_scheme) res" where
  "sys_read E s =
     bind_res (argfd 0 s) (\<lambda>a. case a of None \<Rightarrow> failed s | Some (_, f) \<Rightarrow>
     bind_res (argint 2 s) (\<lambda>n. case n of None \<Rightarrow> failed s | Some n \<Rightarrow>
     bind_res (argptr 1 (sint n) s) (\<lambda>p. case p of None \<Rightarrow> failed s | Some p \<Rightarrow>
     fileread E f p (sint n) s)))"

definition sys_write :: "'a sys_env \<Rightarrow> 'a kernst_scheme \<Rightarrow> (outcome \<times> 'a kernst_scheme) res" where
  "sys_write E s =
     bind_res (argfd 0 s) (\<lambda>a. case a of None \<Rightarrow> failed s | Some (_, f) \<Rightarrow>
     bind_res (argint 2 s) (\<lambda>n. case n of None \<Rightarrow> failed s | Some n \<Rightarrow>
     bind_res (argptr 1 (sint n) s) (\<lambda>p. case p of None \<Rightarrow> failed s | Some p \<Rightarrow>
     filewrite E f p (sint n) s)))"

definition sys_close :: "'a sys_env \<Rightarrow> 'a kernst_scheme \<Rightarrow> (outcome \<times> 'a kernst_scheme) res" where
  "sys_close E s =
     bind_res (argfd 0 s) (\<lambda>a. case a of None \<Rightarrow> failed s | Some (fd, f) \<Rightarrow>
     bind_res (fileclose E f (set_fd fd None s)) (\<lambda>s. Inr (Done 0, s)))"

text \<open>\<open>struct stat\<close> as the compiler lays it out: two bytes of padding after each \<open>short\<close>.\<close>

definition encode_stat :: "memory \<Rightarrow> uint \<Rightarrow> stat \<Rightarrow> memory" where
  "encode_stat m a st =
     (let m = store_bytes m a (le16 (st_type st));
          m = wr32 m (a + 4) (of_int (st_dev st));
          m = wr32 m (a + 8) (st_ino st);
          m = store_bytes m (a + 12) (le16 (st_nlink st))
      in wr32 m (a + 16) (st_size st))"

definition sys_fstat :: "'a sys_env \<Rightarrow> 'a kernst_scheme \<Rightarrow> (outcome \<times> 'a kernst_scheme) res" where
  "sys_fstat E s =
     bind_res (argfd 0 s) (\<lambda>a. case a of None \<Rightarrow> failed s | Some (_, f) \<Rightarrow>
     bind_res (argptr 1 20 s) (\<lambda>p. case p of None \<Rightarrow> failed s | Some p \<Rightarrow>
     bind_res (filestat E f s) (\<lambda>(st, s). case st of None \<Rightarrow> failed s | Some st \<Rightarrow>
     Inr (Done 0, s\<lparr>mem := encode_stat (mem s) p st\<rparr>))))"

section \<open>Links\<close>

text \<open>The 14-byte buffer \<open>name\<close> on the stack; its bytes are read only up to the 0 that \<open>skipelem\<close> puts.\<close>

abbreviation name_buf :: "uchar list" where "name_buf \<equiv> replicate DIRSIZ 0"

definition add_nlink :: "nat \<Rightarrow> ushort \<Rightarrow> 'a fsst_scheme \<Rightarrow> 'a fsst_scheme" where
  "add_nlink ip d = upd_inode ip (\<lambda>n. n\<lparr>d_nlink := d_nlink n + d\<rparr>)"

text \<open>\<open>end_op(); return r;\<close>\<close>

definition end_ret :: "'a sys_env \<Rightarrow> int \<Rightarrow> 'a kernst_scheme \<Rightarrow> (outcome \<times> 'a kernst_scheme) res" where
  "end_ret E r s = bind_res (end_op (k_rw E) s) (\<lambda>s. Inr (Done r, s))"

definition link_bad :: "'a sys_env \<Rightarrow> nat \<Rightarrow> 'a kernst_scheme \<Rightarrow> (outcome \<times> 'a kernst_scheme) res" where
  "link_bad E ip s =
     bind_res (ilock E (Some ip) s) (\<lambda>s.
     bind_res (iupdate E ip (add_nlink ip (-1) s)) (\<lambda>s.
     bind_res (iunlockput E ip s) (end_ret E (-1))))"

definition sys_link :: "'a sys_env \<Rightarrow> 'a kernst_scheme \<Rightarrow> (outcome \<times> 'a kernst_scheme) res" where
  "sys_link E s =
     bind_res (argstr 0 s) (\<lambda>a. case a of None \<Rightarrow> failed s | Some old \<Rightarrow>
     bind_res (argstr 1 s) (\<lambda>a. case a of None \<Rightarrow> failed s | Some new \<Rightarrow>
     bind_res (begin_op s) (\<lambda>s.
     bind_res (namei E old s) (\<lambda>(ip, s). case ip of None \<Rightarrow> end_ret E (-1) s | Some ip \<Rightarrow>
     bind_res (ilock E (Some ip) s) (\<lambda>s.
     if d_type (icache s ! ip) = T_DIR then
       bind_res (iunlockput E ip s) (end_ret E (-1))
     else
       bind_res (iupdate E ip (add_nlink ip 1 s)) (\<lambda>s.
       bind_res (iunlock (Some ip) s) (\<lambda>s.
       bind_res (nameiparent E new name_buf s) (\<lambda>(dp, name, s). case dp of None \<Rightarrow> link_bad E ip s | Some dp \<Rightarrow>
       bind_res (ilock E (Some dp) s) (\<lambda>s.
       bind_res (if i_dev (icache s ! dp) \<noteq> i_dev (icache s ! ip) then Inr (-1, s)
                 else dirlink E dp name (i_inum (icache s ! ip)) s) (\<lambda>(r, s).
       if r < 0 then bind_res (iunlockput E dp s) (link_bad E ip)
       else
         bind_res (iunlockput E dp s) (\<lambda>s.
         bind_res (iput E ip s) (end_ret E 0))))))))))))"

text \<open>\<open>isdirempty\<close>, from offset \<open>off\<close>.\<close>

fun isdirempty_loop :: "nat \<Rightarrow> 'a fs_env \<Rightarrow> nat \<Rightarrow> uint \<Rightarrow> 'a fsst_scheme \<Rightarrow> (bool \<times> 'a fsst_scheme) res" where
  "isdirempty_loop fuel E dp off s =
     (if off < d_size (icache s ! dp) then
        case fuel of 0 \<Rightarrow> Inl (Blocks ''isdirempty'') | Suc fuel \<Rightarrow>
          bind_res (readi_data E dp off DESIZE s) (\<lambda>(r, bytes, s).
          bind_res (panic_if (r \<noteq> 16) ''isdirempty: readi'') (\<lambda>_.
          if de_inum (decode_dirent bytes) \<noteq> 0 then Inr (False, s)
          else isdirempty_loop fuel E dp (off + DESIZE) s))
      else Inr (True, s))"

definition isdirempty :: "'a fs_env \<Rightarrow> nat \<Rightarrow> 'a fsst_scheme \<Rightarrow> (bool \<times> 'a fsst_scheme) res" where
  "isdirempty E dp s = isdirempty_loop (2 ^ 28) E dp (2 * DESIZE) s"

definition unlink_bad :: "'a sys_env \<Rightarrow> nat \<Rightarrow> 'a kernst_scheme \<Rightarrow> (outcome \<times> 'a kernst_scheme) res" where
  "unlink_bad E dp s = bind_res (iunlockput E dp s) (end_ret E (-1))"

text \<open>The two names that cannot be unlinked.\<close>

abbreviation dot :: "uchar list" where "dot \<equiv> [46]"
abbreviation dotdot :: "uchar list" where "dotdot \<equiv> [46, 46]"

definition sys_unlink :: "'a sys_env \<Rightarrow> 'a kernst_scheme \<Rightarrow> (outcome \<times> 'a kernst_scheme) res" where
  "sys_unlink E s =
     bind_res (argstr 0 s) (\<lambda>a. case a of None \<Rightarrow> failed s | Some path \<Rightarrow>
     bind_res (begin_op s) (\<lambda>s.
     bind_res (nameiparent E path name_buf s) (\<lambda>(dp, name, s). case dp of None \<Rightarrow> end_ret E (-1) s | Some dp \<Rightarrow>
     bind_res (ilock E (Some dp) s) (\<lambda>s.
     if namecmp name dot = 0 \<or> namecmp name dotdot = 0 then unlink_bad E dp s
     else
       bind_res (dirlookup E dp name s) (\<lambda>(found, s). case found of None \<Rightarrow> unlink_bad E dp s | Some (ip, off) \<Rightarrow>
       bind_res (ilock E (Some ip) s) (\<lambda>s.
       bind_res (panic_if (sint (d_nlink (icache s ! ip)) < 1) ''unlink: nlink < 1'') (\<lambda>_.
       bind_res (if d_type (icache s ! ip) = T_DIR then isdirempty E ip s else Inr (True, s)) (\<lambda>(empty, s).
       if \<not> empty then bind_res (iunlockput E ip s) (unlink_bad E dp)
       else
         bind_res (writei_data E dp (\<lambda>_. 0) off DESIZE s) (\<lambda>(r, s).
         bind_res (panic_if (r \<noteq> 16) ''unlink: writei'') (\<lambda>_.
         bind_res (if d_type (icache s ! ip) = T_DIR then iupdate E dp (add_nlink dp (-1) s) else Inr s) (\<lambda>s.
         bind_res (iunlockput E dp s) (\<lambda>s.
         bind_res (iupdate E ip (add_nlink ip (-1) s)) (\<lambda>s.
         bind_res (iunlockput E ip s) (end_ret E 0))))))))))))))"

section \<open>Creating and opening\<close>

definition create ::
  "'a sys_env \<Rightarrow> uchar list \<Rightarrow> ushort \<Rightarrow> ushort \<Rightarrow> ushort \<Rightarrow> 'a kernst_scheme \<Rightarrow> (nat option \<times> 'a kernst_scheme) res" where
  "create E path type major minor s =
     bind_res (nameiparent E path name_buf s) (\<lambda>(dp, name, s). case dp of None \<Rightarrow> Inr (None, s) | Some dp \<Rightarrow>
     bind_res (ilock E (Some dp) s) (\<lambda>s.
     bind_res (dirlookup E dp name s) (\<lambda>(found, s). case found of
       Some (ip, _) \<Rightarrow>
         bind_res (iunlockput E dp s) (\<lambda>s.
         bind_res (ilock E (Some ip) s) (\<lambda>s.
         if type = T_FILE \<and> d_type (icache s ! ip) = T_FILE then Inr (Some ip, s)
         else bind_res (iunlockput E ip s) (\<lambda>s. Inr (None, s))))
     | None \<Rightarrow>
         bind_res (ialloc E (i_dev (icache s ! dp)) type s) (\<lambda>(ip, s).
         bind_res (ilock E (Some ip) s) (\<lambda>s.
         bind_res (iupdate E ip (upd_inode ip (\<lambda>n. n\<lparr>d_major := major, d_minor := minor, d_nlink := 1\<rparr>) s)) (\<lambda>s.
         bind_res (
           if type = T_DIR then
             bind_res (iupdate E dp (add_nlink dp 1 s)) (\<lambda>s.
             bind_res (dirlink E ip dot (i_inum (icache s ! ip)) s) (\<lambda>(r, s).
             bind_res (panic_if (r < 0) ''create dots'') (\<lambda>_.
             bind_res (dirlink E ip dotdot (i_inum (icache s ! dp)) s) (\<lambda>(r, s).
             bind_res (panic_if (r < 0) ''create dots'') (\<lambda>_. Inr s)))))
           else Inr s) (\<lambda>s.
         bind_res (dirlink E dp name (i_inum (icache s ! ip)) s) (\<lambda>(r, s).
         bind_res (panic_if (r < 0) ''create: dirlink'') (\<lambda>_.
         bind_res (iunlockput E dp s) (\<lambda>s. Inr (Some ip, s)))))))))))"

abbreviation O_RDONLY :: uint where "O_RDONLY \<equiv> 0"
abbreviation O_WRONLY :: uint where "O_WRONLY \<equiv> 1"
abbreviation O_RDWR :: uint where "O_RDWR \<equiv> 2"
abbreviation O_CREATE :: uint where "O_CREATE \<equiv> 0x200"

text \<open>The inode to open, locked; \<open>None\<close> when there is none or a directory would be written.\<close>

definition open_inode :: "'a sys_env \<Rightarrow> uchar list \<Rightarrow> uint \<Rightarrow> 'a kernst_scheme \<Rightarrow> (nat option \<times> 'a kernst_scheme) res" where
  "open_inode E path omode s =
     (if omode AND O_CREATE \<noteq> 0 then create E path T_FILE 0 0 s
      else
        bind_res (namei E path s) (\<lambda>(ip, s). case ip of None \<Rightarrow> Inr (None, s) | Some ip \<Rightarrow>
        bind_res (ilock E (Some ip) s) (\<lambda>s.
        if d_type (icache s ! ip) = T_DIR \<and> omode \<noteq> O_RDONLY then
          bind_res (iunlockput E ip s) (\<lambda>s. Inr (None, s))
        else Inr (Some ip, s))))"

definition open_bad :: "'a sys_env \<Rightarrow> nat option \<Rightarrow> nat \<Rightarrow> 'a kernst_scheme \<Rightarrow> (outcome \<times> 'a kernst_scheme) res" where
  "open_bad E f ip s =
     bind_res (close_if E f s) (\<lambda>s. bind_res (iunlockput E ip s) (end_ret E (-1)))"

definition sys_open :: "'a sys_env \<Rightarrow> 'a kernst_scheme \<Rightarrow> (outcome \<times> 'a kernst_scheme) res" where
  "sys_open E s =
     bind_res (argstr 0 s) (\<lambda>a. case a of None \<Rightarrow> failed s | Some path \<Rightarrow>
     bind_res (argint 1 s) (\<lambda>a. case a of None \<Rightarrow> failed s | Some omode \<Rightarrow>
     bind_res (begin_op s) (\<lambda>s.
     bind_res (open_inode E path omode s) (\<lambda>(ip, s). case ip of None \<Rightarrow> end_ret E (-1) s | Some ip \<Rightarrow>
     bind_res (filealloc s) (\<lambda>(f, s). case f of None \<Rightarrow> open_bad E None ip s | Some f \<Rightarrow>
     bind_res (fdalloc f s) (\<lambda>(fd, s). case fd of None \<Rightarrow> open_bad E (Some f) ip s | Some fd \<Rightarrow>
     bind_res (iunlock (Some ip) s) (\<lambda>s.
     bind_res (end_op (k_rw E) s) (\<lambda>s.
     Inr (Done (int fd), upd_file f (\<lambda>x. x\<lparr>f_type := FD_INODE, f_ip := ip, f_off := 0,
       f_readable := (omode AND O_WRONLY = 0),
       f_writable := (omode AND O_WRONLY \<noteq> 0 \<or> omode AND O_RDWR \<noteq> 0)\<rparr>) s)))))))))"

definition sys_mkdir :: "'a sys_env \<Rightarrow> 'a kernst_scheme \<Rightarrow> (outcome \<times> 'a kernst_scheme) res" where
  "sys_mkdir E s =
     bind_res (begin_op s) (\<lambda>s.
     bind_res (argstr 0 s) (\<lambda>a. case a of None \<Rightarrow> end_ret E (-1) s | Some path \<Rightarrow>
     bind_res (create E path T_DIR 0 0 s) (\<lambda>(ip, s). case ip of None \<Rightarrow> end_ret E (-1) s | Some ip \<Rightarrow>
     bind_res (iunlockput E ip s) (end_ret E 0))))"

definition sys_mknod :: "'a sys_env \<Rightarrow> 'a kernst_scheme \<Rightarrow> (outcome \<times> 'a kernst_scheme) res" where
  "sys_mknod E s =
     bind_res (begin_op s) (\<lambda>s.
     bind_res (argstr 0 s) (\<lambda>a. case a of None \<Rightarrow> end_ret E (-1) s | Some path \<Rightarrow>
     bind_res (argint 1 s) (\<lambda>a. case a of None \<Rightarrow> end_ret E (-1) s | Some major \<Rightarrow>
     bind_res (argint 2 s) (\<lambda>a. case a of None \<Rightarrow> end_ret E (-1) s | Some minor \<Rightarrow>
     bind_res (create E path T_DEV (ucast major) (ucast minor) s) (\<lambda>(ip, s).
     case ip of None \<Rightarrow> end_ret E (-1) s | Some ip \<Rightarrow>
     bind_res (iunlockput E ip s) (end_ret E 0))))))"

definition sys_chdir :: "'a sys_env \<Rightarrow> 'a kernst_scheme \<Rightarrow> (outcome \<times> 'a kernst_scheme) res" where
  "sys_chdir E s =
     bind_res (begin_op s) (\<lambda>s.
     bind_res (argstr 0 s) (\<lambda>a. case a of None \<Rightarrow> end_ret E (-1) s | Some path \<Rightarrow>
     bind_res (namei E path s) (\<lambda>(ip, s). case ip of None \<Rightarrow> end_ret E (-1) s | Some ip \<Rightarrow>
     bind_res (ilock E (Some ip) s) (\<lambda>s.
     if d_type (icache s ! ip) \<noteq> T_DIR then bind_res (iunlockput E ip s) (end_ret E (-1))
     else
       bind_res (iunlock (Some ip) s) (\<lambda>s.
       bind_res (myproc s) (\<lambda>p.
       bind_res (iput E (p_cwd p) s) (\<lambda>s.
       bind_res (end_op (k_rw E) s) (\<lambda>s.
       Inr (Done 0, set_myproc (\<lambda>p. p\<lparr>p_cwd := ip\<rparr>) s)))))))))"

section \<open>Exec and pipe\<close>

abbreviation MAXARG :: nat where "MAXARG \<equiv> 32"

text \<open>The argument vector, from index \<open>i\<close>: the strings, or \<open>None\<close> for the result -1.\<close>

fun fetch_argv :: "nat \<Rightarrow> uint \<Rightarrow> nat \<Rightarrow> 'a kernst_scheme \<Rightarrow> uchar list list option res" where
  "fetch_argv 0 uargv i s = Inr None"
| "fetch_argv (Suc r) uargv i s =
     bind_res (fetchint (uargv + 4 * of_nat i) s) (\<lambda>a. case a of None \<Rightarrow> Inr None | Some uarg \<Rightarrow>
     if uarg = 0 then Inr (Some [])
     else
       bind_res (fetchstr uarg s) (\<lambda>l. case l of None \<Rightarrow> Inr None | Some l \<Rightarrow>
       bind_res (fetch_argv r uargv (Suc i) s) (\<lambda>rest.
       Inr (map_option ((#) (load_bytes (mem s) uarg l)) rest))))"

definition sys_exec ::
  "(uchar list \<Rightarrow> uchar list list \<Rightarrow> 'a kernst_scheme \<Rightarrow> (int \<times> 'a kernst_scheme) res) \<Rightarrow>
   'a kernst_scheme \<Rightarrow> (outcome \<times> 'a kernst_scheme) res" where
  "sys_exec exec s =
     bind_res (argstr 0 s) (\<lambda>a. case a of None \<Rightarrow> failed s | Some path \<Rightarrow>
     bind_res (argint 1 s) (\<lambda>a. case a of None \<Rightarrow> failed s | Some uargv \<Rightarrow>
     bind_res (fetch_argv MAXARG uargv 0 s) (\<lambda>v. case v of None \<Rightarrow> failed s | Some argv \<Rightarrow>
     bind_res (exec path argv s) (\<lambda>(r, s). Inr (Done r, s)))))"

definition pipe_undo :: "'a sys_env \<Rightarrow> nat \<Rightarrow> nat \<Rightarrow> 'a kernst_scheme \<Rightarrow> (outcome \<times> 'a kernst_scheme) res" where
  "pipe_undo E rf wfile s =
     bind_res (fileclose E rf s) (\<lambda>s. bind_res (fileclose E wfile s) (\<lambda>s. failed s))"

definition sys_pipe :: "'a sys_env \<Rightarrow> 'a kernst_scheme \<Rightarrow> (outcome \<times> 'a kernst_scheme) res" where
  "sys_pipe E s =
     bind_res (argptr 0 8 s) (\<lambda>a. case a of None \<Rightarrow> failed s | Some fd \<Rightarrow>
     bind_res (pipealloc E s) (\<lambda>(r, s). case r of None \<Rightarrow> failed s | Some (rf, wfile) \<Rightarrow>
     bind_res (fdalloc rf s) (\<lambda>(a, s). case a of None \<Rightarrow> pipe_undo E rf wfile s | Some fd0 \<Rightarrow>
     bind_res (fdalloc wfile s) (\<lambda>(b, s). case b of None \<Rightarrow> pipe_undo E rf wfile (set_fd fd0 None s) | Some fd1 \<Rightarrow>
     Inr (Done 0, s\<lparr>mem := wr32 (wr32 (mem s) fd (of_nat fd0)) (fd + 4) (of_nat fd1)\<rparr>)))))"

end
