(* ===== verification/Trap.thy ===== *)
theory Trap
  imports Sysfile
begin

text \<open>
  Running a program (\<open>exec.c\<close>), the remaining system calls (\<open>sysproc.c\<close>), the dispatch of system
  calls (\<open>syscall.c\<close>) and traps (\<open>trap.c\<close>).
\<close>

section \<open>What these files call outside the state of the system calls\<close>

text \<open>
  \<open>fork\<close>, \<open>exit\<close>, \<open>wait\<close>, \<open>kill\<close> and \<open>yield\<close> (\<open>proc.c\<close> does not have them yet), the user part of
  \<open>vm.c\<close>, \<open>safestrcpy\<close>, none of which the repository defines; \<open>cmostime\<close>, \<open>lapiceoi\<close> and the interrupt handlers of the
  devices, which it does define and theories \<open>Devices\<close>, \<open>Ide\<close>, \<open>Kbd\<close> and \<open>Console\<close> model, over the state of the devices; and the addresses of the two locals of \<open>exec\<close>.
\<close>

record 's procops =
  x_fork :: "'s \<Rightarrow> (int \<times> 's) res"
  x_exit :: "'s \<Rightarrow> 's res"
  x_wait :: "'s \<Rightarrow> (int \<times> 's) res"
  x_kill :: "int \<Rightarrow> 's \<Rightarrow> (int \<times> 's) res"
  x_yield :: "'s \<Rightarrow> 's res"
  x_allocuvm :: "uint \<Rightarrow> uint \<Rightarrow> uint \<Rightarrow> 's \<Rightarrow> (uint \<times> 's) res"
  x_loaduvm :: "uint \<Rightarrow> uint \<Rightarrow> nat \<Rightarrow> uint \<Rightarrow> uint \<Rightarrow> 's \<Rightarrow> (int \<times> 's) res"
  x_clearpteu :: "uint \<Rightarrow> uint \<Rightarrow> 's \<Rightarrow> 's res"
  x_copyout :: "uint \<Rightarrow> uint \<Rightarrow> uchar list \<Rightarrow> 's \<Rightarrow> (int \<times> 's) res"
  x_switchuvm :: "'s \<Rightarrow> 's res"
  x_freevm :: "uint \<Rightarrow> 's \<Rightarrow> 's res"
  x_safestrcpy :: "uchar list \<Rightarrow> nat \<Rightarrow> string"
  x_cmostime :: "uint \<Rightarrow> 's \<Rightarrow> 's res"
  x_lapiceoi :: "'s \<Rightarrow> 's res"
  x_ideintr :: "'s \<Rightarrow> 's res"
  x_kbdintr :: "'s \<Rightarrow> 's res"
  x_uartintr :: "'s \<Rightarrow> 's res"
  x_cpunum :: "'s \<Rightarrow> nat"
  x_data :: uint
  x_elf :: uint
  x_ph :: uint

type_synonym 'a proc_ops = "'a kernst_scheme procops"

section \<open>Exec\<close>

record elfhdr =
  e_magic :: uint
  e_elf :: "uchar list"
  e_type :: ushort
  e_machine :: ushort
  e_version :: uint
  e_entry :: uint
  e_phoff :: uint
  e_shoff :: uint
  e_flags :: uint
  e_ehsize :: ushort
  e_phentsize :: ushort
  e_phnum :: ushort
  e_shentsize :: ushort
  e_shnum :: ushort
  e_shstrndx :: ushort

record proghdr =
  ph_type :: uint
  ph_off :: uint
  ph_vaddr :: uint
  ph_paddr :: uint
  ph_filesz :: uint
  ph_memsz :: uint
  ph_flags :: uint
  ph_align :: uint

abbreviation ELF_MAGIC :: uint where "ELF_MAGIC \<equiv> 0x464C457F"

definition decode_elf :: "uchar list \<Rightarrow> elfhdr" where
  "decode_elf bs = \<lparr>e_magic = field32 0 bs, e_elf = take 12 (drop 4 bs), e_type = field16 8 bs,
     e_machine = field16 9 bs, e_version = field32 5 bs, e_entry = field32 6 bs, e_phoff = field32 7 bs,
     e_shoff = field32 8 bs, e_flags = field32 9 bs, e_ehsize = field16 20 bs, e_phentsize = field16 21 bs,
     e_phnum = field16 22 bs, e_shentsize = field16 23 bs, e_shnum = field16 24 bs,
     e_shstrndx = field16 25 bs\<rparr>"

definition decode_ph :: "uchar list \<Rightarrow> proghdr" where
  "decode_ph bs = \<lparr>ph_type = field32 0 bs, ph_off = field32 1 bs, ph_vaddr = field32 2 bs,
     ph_paddr = field32 3 bs, ph_filesz = field32 4 bs, ph_memsz = field32 5 bs, ph_flags = field32 6 bs,
     ph_align = field32 7 bs\<rparr>"

text \<open>The loop over the program headers; \<open>None\<close> is the jump to \<open>bad\<close>.\<close>

fun exec_load ::
  "'a sys_env \<Rightarrow> 'a proc_ops \<Rightarrow> nat \<Rightarrow> uint \<Rightarrow> nat \<Rightarrow> uint \<Rightarrow> uint \<Rightarrow> 'a kernst_scheme \<Rightarrow> (uint option \<times> 'a kernst_scheme) res" where
  "exec_load E P ip pgdir 0 off sz s = Inr (Some sz, s)"
| "exec_load E P ip pgdir (Suc n) off sz s =
     bind_res (readi E ip (x_ph P) off 32 s) (\<lambda>(r, s).
     if r \<noteq> 32 then Inr (None, s)
     else
       let ph = decode_ph (load_bytes (mem s) (x_ph P) 32) in
       if ph_type ph \<noteq> 1 then exec_load E P ip pgdir n (off + 32) sz s
       else if ph_memsz ph < ph_filesz ph then Inr (None, s)
       else if ph_vaddr ph + ph_memsz ph < ph_vaddr ph then Inr (None, s)
       else
         bind_res (x_allocuvm P pgdir sz (ph_vaddr ph + ph_memsz ph) s) (\<lambda>(sz, s).
         if sz = 0 then Inr (None, s)
         else if ph_vaddr ph mod PGSIZE \<noteq> 0 then Inr (None, s)
         else
           bind_res (x_loaduvm P pgdir (ph_vaddr ph) ip (ph_off ph) (ph_filesz ph) s) (\<lambda>(r, s).
           if r < 0 then Inr (None, s)
           else exec_load E P ip pgdir n (off + 32) sz s)))"

text \<open>Pushing the argument strings: the stack pointer and the addresses, last argument last.\<close>

fun push_args ::
  "'a proc_ops \<Rightarrow> uint \<Rightarrow> nat \<Rightarrow> uchar list list \<Rightarrow> uint \<Rightarrow> uint list \<Rightarrow> 'a kernst_scheme \<Rightarrow>
   ((uint \<times> uint list) option \<times> 'a kernst_scheme) res" where
  "push_args P pgdir argc [] sp us s = Inr (Some (sp, us), s)"
| "push_args P pgdir argc (a # as) sp us s =
     (if argc \<ge> MAXARG then Inr (None, s)
      else
        let sp = (sp - (of_nat (length a) + 1)) AND NOT 3 in
        bind_res (x_copyout P pgdir sp (a @ [0]) s) (\<lambda>(r, s).
        if r < 0 then Inr (None, s) else push_args P pgdir (Suc argc) as sp (us @ [sp]) s))"

text \<open>The program's name: what follows the last slash.\<close>

definition last_elem :: "uchar list \<Rightarrow> uchar list" where
  "last_elem path = rev (takeWhile (\<lambda>c. c \<noteq> slash) (rev path))"

text \<open>The label \<open>bad\<close>: what was acquired so far is given back.\<close>

definition exec_bad ::
  "'a sys_env \<Rightarrow> 'a proc_ops \<Rightarrow> uint \<Rightarrow> nat option \<Rightarrow> 'a kernst_scheme \<Rightarrow> (int \<times> 'a kernst_scheme) res" where
  "exec_bad E P pgdir ip s =
     bind_res (if pgdir \<noteq> 0 then x_freevm P pgdir s else Inr s) (\<lambda>s.
     case ip of None \<Rightarrow> Inr (-1, s)
     | Some ip \<Rightarrow> bind_res (iunlockput E ip s) (\<lambda>s. bind_res (end_op (k_rw E) s) (\<lambda>s. Inr (-1, s))))"

text \<open>The second half: the user stack, and the switch to the new image.\<close>

definition exec_stack ::
  "'a sys_env \<Rightarrow> 'a proc_ops \<Rightarrow> uchar list \<Rightarrow> uchar list list \<Rightarrow> uint \<Rightarrow> uint \<Rightarrow> uint \<Rightarrow> 'a kernst_scheme \<Rightarrow>
   (int \<times> 'a kernst_scheme) res" where
  "exec_stack E P path argv pgdir entry sz s =
     bind_res (x_allocuvm P pgdir (PGROUNDUP sz) (PGROUNDUP sz + 2 * PGSIZE) s) (\<lambda>(sz, s).
     if sz = 0 then exec_bad E P pgdir None s
     else
       bind_res (x_clearpteu P pgdir (sz - 2 * PGSIZE) s) (\<lambda>s.
       bind_res (push_args P pgdir 0 argv sz [] s) (\<lambda>(r, s). case r of None \<Rightarrow> exec_bad E P pgdir None s
       | Some (sp, us) \<Rightarrow>
         let argc = of_nat (length us);
             ustack = [0xffffffff, argc, sp - (argc + 1) * 4] @ us @ [0];
             sp = sp - (3 + argc + 1) * 4
         in
         bind_res (x_copyout P pgdir sp (concat (map le32 ustack)) s) (\<lambda>(r, s).
         if r < 0 then exec_bad E P pgdir None s
         else
           let s = set_myproc (\<lambda>p. p\<lparr>p_name := x_safestrcpy P (last_elem path) 16\<rparr>) s in
           bind_res (myu s) (\<lambda>u.
           let oldpgdir = u_pgdir u;
               s = set_myu (\<lambda>u. u\<lparr>u_pgdir := pgdir, u_sz := sz,
                     u_tf := (u_tf u)\<lparr>tf_eip := entry, tf_esp := sp\<rparr>\<rparr>) s
           in bind_res (x_switchuvm P s) (\<lambda>s.
              bind_res (x_freevm P oldpgdir s) (\<lambda>s. Inr (0, s)))))))) "

definition exec ::
  "'a sys_env \<Rightarrow> 'a proc_ops \<Rightarrow> uchar list \<Rightarrow> uchar list list \<Rightarrow> 'a kernst_scheme \<Rightarrow> (int \<times> 'a kernst_scheme) res" where
  "exec E P path argv s =
     bind_res (begin_op s) (\<lambda>s.
     bind_res (namei E path s) (\<lambda>(ip, s). case ip of
       None \<Rightarrow> bind_res (end_op (k_rw E) s) (\<lambda>s. Inr (-1, s))
     | Some ip \<Rightarrow>
       bind_res (ilock E (Some ip) s) (\<lambda>s.
       bind_res (readi E ip (x_elf P) 0 52 s) (\<lambda>(r, s).
       let elf = decode_elf (load_bytes (mem s) (x_elf P) 52) in
       if r \<noteq> 52 \<or> e_magic elf \<noteq> ELF_MAGIC then exec_bad E P 0 (Some ip) s
       else
         bind_res (setupkvm (x_data P) s) (\<lambda>(pgdir, s).
         if pgdir = 0 then exec_bad E P 0 (Some ip) s
         else
           bind_res (exec_load E P ip pgdir (unat (e_phnum elf)) (e_phoff elf) 0 s) (\<lambda>(r, s). case r of
             None \<Rightarrow> exec_bad E P pgdir (Some ip) s
           | Some sz \<Rightarrow>
             bind_res (iunlockput E ip s) (\<lambda>s.
             bind_res (end_op (k_rw E) s) (\<lambda>s.
             exec_stack E P path argv pgdir (e_entry elf) sz s))))))))"

section \<open>Process calls\<close>

definition done_call :: "(int \<times> 's) res \<Rightarrow> (outcome \<times> 's) res" where
  "done_call m = bind_res m (\<lambda>(r, s). Inr (Done r, s))"

definition sys_fork :: "'a proc_ops \<Rightarrow> 'a kernst_scheme \<Rightarrow> (outcome \<times> 'a kernst_scheme) res" where
  "sys_fork P s = done_call (x_fork P s)"

definition sys_exit :: "'a proc_ops \<Rightarrow> 'a kernst_scheme \<Rightarrow> (outcome \<times> 'a kernst_scheme) res" where
  "sys_exit P s = bind_res (x_exit P s) (\<lambda>s. Inr (Done 0, s))"

definition sys_wait :: "'a proc_ops \<Rightarrow> 'a kernst_scheme \<Rightarrow> (outcome \<times> 'a kernst_scheme) res" where
  "sys_wait P s = done_call (x_wait P s)"

definition sys_kill :: "'a proc_ops \<Rightarrow> 'a kernst_scheme \<Rightarrow> (outcome \<times> 'a kernst_scheme) res" where
  "sys_kill P s =
     bind_res (argint 0 s) (\<lambda>a. case a of None \<Rightarrow> failed s | Some pid \<Rightarrow> done_call (x_kill P (sint pid) s))"

definition sys_getpid :: "'a kernst_scheme \<Rightarrow> (outcome \<times> 'a kernst_scheme) res" where
  "sys_getpid s = bind_res (myproc s) (\<lambda>p. Inr (Done (p_pid p), s))"

text \<open>\<open>sys_sbrk\<close> returns the old size; the call of \<open>growproc\<close> is commented out.\<close>

definition sys_sbrk :: "'a kernst_scheme \<Rightarrow> (outcome \<times> 'a kernst_scheme) res" where
  "sys_sbrk s =
     bind_res (argint 0 s) (\<lambda>a. case a of None \<Rightarrow> failed s | Some n \<Rightarrow>
     bind_res (myu s) (\<lambda>u. Inr (Done (sint (u_sz u)), s)))"

text \<open>
  The loop of \<open>sys_sleep\<close>, with \<open>tickslock\<close> held; the comparison is unsigned. After a sleep the
  same loop goes on with the same \<open>ticks0\<close>, which the outcome carries.
\<close>

definition sleep_loop :: "uint \<Rightarrow> uint \<Rightarrow> 'a kernst_scheme \<Rightarrow> (outcome \<times> 'a kernst_scheme) res" where
  "sleep_loop ticks0 n s =
     (if ticks s - ticks0 < n then
        bind_res (killed s) (\<lambda>k.
        if k then bind_res (release L_ticks s) (\<lambda>s. failed s)
        else bind_res (sleep Ch_ticks (Some L_ticks) s) (\<lambda>s. Inr (Asleep (unat ticks0), s)))
      else bind_res (release L_ticks s) (\<lambda>s. Inr (Done 0, s)))"

definition sys_sleep :: "'a kernst_scheme \<Rightarrow> (outcome \<times> 'a kernst_scheme) res" where
  "sys_sleep s =
     bind_res (argint 0 s) (\<lambda>a. case a of None \<Rightarrow> failed s | Some n \<Rightarrow>
     bind_res (acquire L_ticks s) (\<lambda>s. sleep_loop (ticks s) n s))"

definition sys_uptime :: "'a kernst_scheme \<Rightarrow> (outcome \<times> 'a kernst_scheme) res" where
  "sys_uptime s =
     bind_res (acquire L_ticks s) (\<lambda>s.
     let xticks = ticks s in
     bind_res (release L_ticks s) (\<lambda>s. Inr (Done (sint xticks), s)))"

definition sys_date :: "'a proc_ops \<Rightarrow> 'a kernst_scheme \<Rightarrow> (outcome \<times> 'a kernst_scheme) res" where
  "sys_date P s =
     bind_res (argptr 0 24 s) (\<lambda>a. case a of None \<Rightarrow> failed s | Some r \<Rightarrow>
     bind_res (x_cmostime P r s) (\<lambda>s. Inr (Done 0, s)))"

section \<open>Dispatch\<close>

text \<open>\<open>syscalls[]\<close> by number (\<open>syscall.h\<close>); entry 0 and everything from 23 on is missing.\<close>

definition syscalls ::
  "'a sys_env \<Rightarrow> 'a proc_ops \<Rightarrow> nat \<Rightarrow> ('a kernst_scheme \<Rightarrow> (outcome \<times> 'a kernst_scheme) res) option" where
  "syscalls E P num = (if num = 0 then None else
     let table = [sys_fork P, sys_exit P, sys_wait P, sys_pipe E, sys_read E, sys_kill P,
       sys_exec (exec E P), sys_fstat E, sys_chdir E, sys_dup, sys_getpid, sys_sbrk, sys_sleep, sys_uptime,
       sys_open E, sys_write E, sys_mknod E, sys_unlink E, sys_link E, sys_mkdir E, sys_close E, sys_date P]
     in if num - 1 < length table then Some (table ! (num - 1)) else None)"

definition get_syscall_name :: "int \<Rightarrow> string" where
  "get_syscall_name num = (if 1 \<le> num \<and> num \<le> 22 then
     [''fork'', ''exit'', ''wait'', ''pipe'', ''read'', ''kill'', ''exec'', ''fstat'', ''chdir'', ''dup'',
      ''getpid'', ''sbrk'', ''sleep'', ''uptime'', ''open'', ''write'', ''mknod'', ''unlink'', ''link'',
      ''mkdir'', ''close'', ''date''] ! nat (num - 1)
     else ''unknown'')"

definition set_eax :: "uint \<Rightarrow> 'a kernst_scheme \<Rightarrow> 'a kernst_scheme" where
  "set_eax v = set_myu (\<lambda>u. u\<lparr>u_tf := (u_tf u)\<lparr>tf_eax := v\<rparr>\<rparr>)"

text \<open>\<open>syscall\<close>; an unknown number is reported on the console and gives -1. A call that sleeps is not over.\<close>

definition syscall :: "'a sys_env \<Rightarrow> 'a proc_ops \<Rightarrow> 'a kernst_scheme \<Rightarrow> (outcome \<times> 'a kernst_scheme) res" where
  "syscall E P s =
     bind_res (myu s) (\<lambda>u.
     let num = sint (tf_eax (u_tf u)) in
     case (if num > 0 then syscalls E P (nat num) else None) of
       Some f \<Rightarrow>
         bind_res (f s) (\<lambda>(out, s). case out of
           Done r \<Rightarrow> Inr (out, set_eax (of_int r) s)
         | Asleep k \<Rightarrow> Inr (out, s))
     | None \<Rightarrow> Inr (Done 0, set_eax (-1) s))"

section \<open>Traps\<close>

abbreviation T_IRQ0 :: uint where "T_IRQ0 \<equiv> 32"
abbreviation T_SYSCALL :: uint where "T_SYSCALL \<equiv> 64"
abbreviation IRQ_TIMER :: uint where "IRQ_TIMER \<equiv> 0"
abbreviation IRQ_KBD :: uint where "IRQ_KBD \<equiv> 1"
abbreviation IRQ_COM1 :: uint where "IRQ_COM1 \<equiv> 4"
abbreviation IRQ_IDE :: uint where "IRQ_IDE \<equiv> 14"
abbreviation IRQ_SPURIOUS :: uint where "IRQ_SPURIOUS \<equiv> 31"

text \<open>\<open>idt[]\<close> after \<open>tvinit\<close>, with \<open>vectors[]\<close> from the generated assembly.\<close>

definition tvinit :: "(nat \<Rightarrow> uint) \<Rightarrow> gatedesc list" where
  "tvinit vectors =
     (map (\<lambda>i. SETGATE False (push_bit 3 1) (vectors i) 0) [0..<256])
       [unat T_SYSCALL := SETGATE True (push_bit 3 1) (vectors (unat T_SYSCALL)) 3]"

definition exit_if :: "'a proc_ops \<Rightarrow> (proc \<Rightarrow> bool) \<Rightarrow> 'a kernst_scheme \<Rightarrow> 'a kernst_scheme res" where
  "exit_if P c s = (case curproc s of None \<Rightarrow> Inr s
     | Some i \<Rightarrow> if c (ptable s ! i) then x_exit P s else Inr s)"

definition trap_syscall ::
  "'a sys_env \<Rightarrow> 'a proc_ops \<Rightarrow> trapframe \<Rightarrow> 'a kernst_scheme \<Rightarrow> (outcome \<times> 'a kernst_scheme) res" where
  "trap_syscall E P tf s =
     bind_res (myproc s) (\<lambda>_.
     bind_res (exit_if P p_killed s) (\<lambda>s.
     bind_res (syscall E P (set_myu (\<lambda>u. u\<lparr>u_tf := tf\<rparr>) s)) (\<lambda>(out, s). case out of
       Asleep k \<Rightarrow> Inr (out, s)
     | Done _ \<Rightarrow> bind_res (exit_if P p_killed s) (\<lambda>s. Inr (Done 0, s)))))"

definition timer_tick :: "'a kernst_scheme \<Rightarrow> 'a kernst_scheme res" where
  "timer_tick s =
     bind_res (acquire L_ticks s) (\<lambda>s.
     bind_res (wakeup Ch_ticks (s\<lparr>ticks := ticks s + 1\<rparr>)) (\<lambda>s.
     release L_ticks s))"

text \<open>The \<open>switch\<close>; what it prints is left out.\<close>

definition trap_switch :: "'a proc_ops \<Rightarrow> trapframe \<Rightarrow> 'a kernst_scheme \<Rightarrow> 'a kernst_scheme res" where
  "trap_switch P tf s = (let t = tf_trapno tf in
     if t = T_IRQ0 + IRQ_TIMER then
       bind_res (if x_cpunum P s = 0 then timer_tick s else Inr s) (x_lapiceoi P)
     else if t = T_IRQ0 + IRQ_IDE then bind_res (x_ideintr P s) (x_lapiceoi P)
     else if t = T_IRQ0 + IRQ_IDE + 1 then Inr s
     else if t = T_IRQ0 + IRQ_KBD then bind_res (x_kbdintr P s) (x_lapiceoi P)
     else if t = T_IRQ0 + IRQ_COM1 then bind_res (x_uartintr P s) (x_lapiceoi P)
     else if t = T_IRQ0 + 7 \<or> t = T_IRQ0 + IRQ_SPURIOUS then x_lapiceoi P s
     else if curproc s = None \<or> tf_cs tf AND 3 = 0 then Inl (Panic ''trap'')
     else Inr (set_myproc (\<lambda>p. p\<lparr>p_killed := True\<rparr>) s))"

definition trap :: "'a sys_env \<Rightarrow> 'a proc_ops \<Rightarrow> trapframe \<Rightarrow> 'a kernst_scheme \<Rightarrow> (outcome \<times> 'a kernst_scheme) res" where
  "trap E P tf s =
     (if tf_trapno tf = T_SYSCALL then trap_syscall E P tf s
      else
        let user = tf_cs tf AND 3 = 3 in
        bind_res (trap_switch P tf s) (\<lambda>s.
        bind_res (exit_if P (\<lambda>p. p_killed p \<and> user) s) (\<lambda>s.
        bind_res (
          case curproc s of None \<Rightarrow> Inr s
          | Some i \<Rightarrow> if p_state (ptable s ! i) = RUNNING \<and> tf_trapno tf = T_IRQ0 + IRQ_TIMER
              then x_yield P s else Inr s) (\<lambda>s.
        bind_res (exit_if P (\<lambda>p. p_killed p \<and> user) s) (\<lambda>s. Inr (Done 0, s))))))"

end
