(* ===== verification/Ports.thy ===== *)
theory Ports
  imports Proc
begin

text \<open>
  The machine as device drivers see it: the port instructions of \<open>x86.h\<close> and the
  memory-mapped registers of the APICs. What a device answers is not under the program's
  control: the reads are an arbitrary function of the moment and the port, fixed in the state,
  and the writes are recorded in the order they are made.
\<close>

datatype bus =
    Out8 ushort uchar | Out16 ushort ushort | Out32 ushort uint
  | Mmio uint uint

record devst = kcore +
  port_in :: "nat \<Rightarrow> ushort \<Rightarrow> uchar"
  port_in32 :: "nat \<Rightarrow> ushort \<Rightarrow> uint"
  mmio_in :: "nat \<Rightarrow> uint \<Rightarrow> uint"
  clk :: nat
  bus_out :: "bus list"

definition emit :: "bus \<Rightarrow> 'a devst_scheme \<Rightarrow> 'a devst_scheme" where
  "emit e s = s\<lparr>bus_out := bus_out s @ [e], clk := Suc (clk s)\<rparr>"

definition inb :: "ushort \<Rightarrow> 'a devst_scheme \<Rightarrow> uchar \<times> 'a devst_scheme" where
  "inb port s = (port_in s (clk s) port, s\<lparr>clk := Suc (clk s)\<rparr>)"

definition outb :: "ushort \<Rightarrow> uchar \<Rightarrow> 'a devst_scheme \<Rightarrow> 'a devst_scheme" where
  "outb port data s = emit (Out8 port data) s"

definition outw :: "ushort \<Rightarrow> ushort \<Rightarrow> 'a devst_scheme \<Rightarrow> 'a devst_scheme" where
  "outw port data s = emit (Out16 port data) s"

text \<open>\<open>insl\<close> and \<open>outsl\<close> move \<open>cnt\<close> words, here as the list of the words.\<close>

fun insl :: "ushort \<Rightarrow> nat \<Rightarrow> 'a devst_scheme \<Rightarrow> uint list \<times> 'a devst_scheme" where
  "insl port 0 s = ([], s)"
| "insl port (Suc cnt) s =
     (let w = port_in32 s (clk s) port; (ws, s) = insl port cnt (s\<lparr>clk := Suc (clk s)\<rparr>) in (w # ws, s))"

fun outsl :: "ushort \<Rightarrow> uint list \<Rightarrow> 'a devst_scheme \<Rightarrow> 'a devst_scheme" where
  "outsl port [] s = s"
| "outsl port (w # ws) s = outsl port ws (emit (Out32 port w) s)"

text \<open>The three halfwords that \<open>lgdt\<close> and \<open>lidt\<close> hand to the processor: limit and base.\<close>

definition lgdt :: "uint \<Rightarrow> int \<Rightarrow> ushort list" where
  "lgdt p sz = [word_of_int (sz - 1), ucast p, ucast (drop_bit 16 p)]"

definition lidt :: "uint \<Rightarrow> int \<Rightarrow> ushort list" where
  "lidt p sz = [word_of_int (sz - 1), ucast p, ucast (drop_bit 16 p)]"

definition mmio_read :: "uint \<Rightarrow> 'a devst_scheme \<Rightarrow> uint \<times> 'a devst_scheme" where
  "mmio_read a s = (mmio_in s (clk s) a, s\<lparr>clk := Suc (clk s)\<rparr>)"

definition mmio_write :: "uint \<Rightarrow> uint \<Rightarrow> 'a devst_scheme \<Rightarrow> 'a devst_scheme" where
  "mmio_write a v s = emit (Mmio a v) s"

text \<open>A sequence of port writes.\<close>

fun outbs :: "(ushort \<times> uchar) list \<Rightarrow> 'a devst_scheme \<Rightarrow> 'a devst_scheme" where
  "outbs [] s = s"
| "outbs ((p, v) # ps) s = outbs ps (outb p v s)"

section \<open>Frame facts\<close>

text \<open>
  Talking to a device changes neither what the kernel holds nor what the device will answer;
  both are carried by the equality of everything but the clock and the record of writes.
\<close>

definition dev_same :: "'a devst_scheme \<Rightarrow> 'a devst_scheme \<Rightarrow> bool" where
  "dev_same s t \<longleftrightarrow> held t = held s \<and> ptable t = ptable s \<and> curproc t = curproc s
     \<and> port_in t = port_in s \<and> port_in32 t = port_in32 s \<and> mmio_in t = mmio_in s
     \<and> devst.more t = devst.more s"

lemma dev_same_refl [simp]: "dev_same s s"
  by (simp add: dev_same_def)

lemma dev_same_trans: "dev_same s t \<Longrightarrow> dev_same t u \<Longrightarrow> dev_same s u"
  by (simp add: dev_same_def)

lemma dev_same_io [simp]:
  "dev_same s (emit e t) = dev_same s t" "dev_same s (outb p v t) = dev_same s t"
  "dev_same s (snd (inb p t)) = dev_same s t"
  by (simp_all add: dev_same_def emit_def outb_def inb_def)

lemma inb_frame [simp]:
  "held (snd (inb p s)) = held s" "bus_out (snd (inb p s)) = bus_out s"
  "devst.more (snd (inb p s)) = devst.more s" "curproc (snd (inb p s)) = curproc s"
  "ptable (snd (inb p s)) = ptable s"
  "fst (inb p s) = port_in s (clk s) p" "clk (snd (inb p s)) = Suc (clk s)"
  "port_in (snd (inb p s)) = port_in s"
  by (simp_all add: inb_def)

lemma emit_frame [simp]:
  "held (emit e s) = held s" "bus_out (emit e s) = bus_out s @ [e]"
  "devst.more (emit e s) = devst.more s" "curproc (emit e s) = curproc s"
  "ptable (emit e s) = ptable s" "clk (emit e s) = Suc (clk s)" "port_in (emit e s) = port_in s"
  by (simp_all add: emit_def)

lemma bus_outb [simp]: "bus_out (outb p v s) = bus_out s @ [Out8 p v]"
  by (simp add: outb_def)

lemma bus_outbs: "bus_out (outbs ps s) = bus_out s @ map (\<lambda>(p, v). Out8 p v) ps"
  by (induction ps s rule: outbs.induct) simp_all

lemma insl_length: "length (fst (insl p n s)) = n"
  by (induction p n s rule: insl.induct) (simp_all add: Let_def case_prod_unfold)

lemma bus_insl: "bus_out (snd (insl p n s)) = bus_out s"
  by (induction p n s rule: insl.induct) (simp_all add: Let_def case_prod_unfold)

lemma bus_outsl: "bus_out (outsl p ws s) = bus_out s @ map (Out32 p) ws"
  by (induction p ws s rule: outsl.induct) simp_all

end
