(* ===== verification/Boot.thy ===== *)
theory Boot
  imports Ports Trap
begin

text \<open>
  The boot loader (\<open>bootmain.c\<close>), the entry of the kernel (\<open>main.c\<close>) and its first page
  directory. The disk controller's answers are arbitrary.
\<close>

record bootst = devst +
  bmem :: memory

abbreviation (input) SECTSIZE :: uint where "SECTSIZE \<equiv> 512"

text \<open>\<open>waitdisk\<close>, given \<open>fuel\<close> looks at the status port.\<close>

fun waitdisk :: "nat \<Rightarrow> 'a bootst_scheme \<Rightarrow> 'a bootst_scheme res" where
  "waitdisk 0 s = Inl (Blocks ''waitdisk'')"
| "waitdisk (Suc fuel) s =
     (let (r, s) = inb 0x1F7 s in if r AND 0xC0 \<noteq> 0x40 then waitdisk fuel s else Inr s)"

definition readsect :: "nat \<Rightarrow> uint \<Rightarrow> uint \<Rightarrow> 'a bootst_scheme \<Rightarrow> 'a bootst_scheme res" where
  "readsect fuel dst offset s =
     bind_res (waitdisk fuel s) (\<lambda>s.
     let s = outbs [(0x1F2, 1), (0x1F3, ucast offset), (0x1F4, ucast (drop_bit 8 offset)),
                    (0x1F5, ucast (drop_bit 16 offset)), (0x1F6, ucast (drop_bit 24 offset) OR 0xE0), (0x1F7, 0x20)] s
     in bind_res (waitdisk fuel s) (\<lambda>s.
        let (ws, s) = insl 0x1F0 128 s in
        Inr (s\<lparr>bmem := store_bytes (bmem s) dst (concat (map le32 ws))\<rparr>)))"

text \<open>The loop of \<open>readseg\<close>, for at most \<open>n\<close> sectors; there are at most \<open>2 ^ 23 + 1\<close>.\<close>

fun readseg_loop :: "nat \<Rightarrow> nat \<Rightarrow> uint \<Rightarrow> uint \<Rightarrow> uint \<Rightarrow> 'a bootst_scheme \<Rightarrow> 'a bootst_scheme res" where
  "readseg_loop 0 fuel pa epa offset s = Inl (Blocks ''readseg'')"
| "readseg_loop (Suc n) fuel pa epa offset s =
     (if pa < epa then
        bind_res (readsect fuel pa offset s) (readseg_loop n fuel (pa + SECTSIZE) epa (offset + 1))
      else Inr s)"

definition readseg :: "nat \<Rightarrow> uint \<Rightarrow> uint \<Rightarrow> uint \<Rightarrow> 'a bootst_scheme \<Rightarrow> 'a bootst_scheme res" where
  "readseg fuel pa count offset s =
     readseg_loop (2 ^ 23 + 2) fuel (pa - offset mod SECTSIZE) (pa + count) (offset div SECTSIZE + 1) s"

text \<open>The program headers from \<open>ph\<close>, \<open>n\<close> of them.\<close>

fun load_segments :: "nat \<Rightarrow> nat \<Rightarrow> uint \<Rightarrow> 'a bootst_scheme \<Rightarrow> 'a bootst_scheme res" where
  "load_segments 0 fuel ph s = Inr s"
| "load_segments (Suc n) fuel ph s =
     (let h = decode_ph (load_bytes (bmem s) ph 32) in
      bind_res (readseg fuel (ph_paddr h) (ph_filesz h) (ph_off h) s) (\<lambda>s.
      let s = (if ph_memsz h > ph_filesz h
               then s\<lparr>bmem := stosb (bmem s) (ph_paddr h + ph_filesz h) 0 (unat (ph_memsz h - ph_filesz h))\<rparr> else s)
      in load_segments n fuel (ph + 32) s))"

text \<open>\<open>bootmain\<close>: the entry point it jumps to, \<open>None\<close> when the image is no ELF file.\<close>

definition bootmain :: "nat \<Rightarrow> 'a bootst_scheme \<Rightarrow> (uint option \<times> 'a bootst_scheme) res" where
  "bootmain fuel s =
     bind_res (readseg fuel 0x10000 4096 0 s) (\<lambda>s.
     let elf = decode_elf (load_bytes (bmem s) 0x10000 52) in
     if e_magic elf \<noteq> ELF_MAGIC then Inr (None, s)
     else bind_res (load_segments (unat (e_phnum elf)) fuel (0x10000 + e_phoff elf) s) (\<lambda>s.
          Inr (Some (e_entry (decode_elf (load_bytes (bmem s) 0x10000 52))), s)))"

text \<open>The kernel's \<open>main\<close>; \<open>kend\<close> and \<open>data\<close> are the linker's symbols.\<close>

definition kmain :: "uint \<Rightarrow> uint \<Rightarrow> 'a vm_scheme \<Rightarrow> 'a vm_scheme res" where
  "kmain kend data s = bind_res (kinit1 kend kend (P2V (4 * 1024 * 1024)) s) (kvmalloc data)"

definition entrypgdir :: "uint list" where
  "entrypgdir = (replicate 1024 0)[0 := PTE_P OR PTE_W OR 0x80, unat (drop_bit 22 KBASE) := PTE_P OR PTE_W OR 0x80]"

end
