(* ===== verification/Devices.thy ===== *)
theory Devices
  imports Ports Mmu
begin

text \<open>
  The interrupt controllers and timers (\<open>picirq.c\<close>, \<open>ioapic.c\<close>, \<open>lapic.c\<close>, \<open>timer.c\<close>): each
  routine as the sequence of register writes it makes, depending on what the devices answer.
\<close>

abbreviation (input) b8 :: "uint \<Rightarrow> uchar" where "b8 \<equiv> ucast"

text \<open>
  The variables of the four files: the mask of the 8259A, whether there is an I/O APIC and
  its identity (\<open>mp.c\<close> fills these in), the address of the local APIC (0 without one).
\<close>

record irqst = devst +
  irqmask :: ushort
  ismp :: bool
  ioapicid :: uint
  lapic :: uint
  apicids :: "uchar list"

section \<open>8259A\<close>

abbreviation (input) IO_PIC1 :: ushort where "IO_PIC1 \<equiv> 0x20"
abbreviation (input) IO_PIC2 :: ushort where "IO_PIC2 \<equiv> 0xA0"
abbreviation (input) IRQ_SLAVE :: nat where "IRQ_SLAVE \<equiv> 2"

definition picsetmask :: "ushort \<Rightarrow> 'a irqst_scheme \<Rightarrow> 'a irqst_scheme" where
  "picsetmask m s =
     outb (IO_PIC2 + 1) (ucast (drop_bit 8 m)) (outb (IO_PIC1 + 1) (ucast m) (s\<lparr>irqmask := m\<rparr>))"

definition picenable :: "nat \<Rightarrow> 'a irqst_scheme \<Rightarrow> 'a irqst_scheme" where
  "picenable irq s = picsetmask (irqmask s AND NOT (push_bit irq 1)) s"

definition picinit :: "'a irqst_scheme \<Rightarrow> 'a irqst_scheme" where
  "picinit s =
     (let s = outbs [(IO_PIC1 + 1, 0xFF), (IO_PIC2 + 1, 0xFF),
                     (IO_PIC1, 0x11), (IO_PIC1 + 1, 32), (IO_PIC1 + 1, push_bit IRQ_SLAVE 1), (IO_PIC1 + 1, 0x3),
                     (IO_PIC2, 0x11), (IO_PIC2 + 1, 32 + 8), (IO_PIC2 + 1, 2), (IO_PIC2 + 1, 0x3),
                     (IO_PIC1, 0x68), (IO_PIC1, 0x0a), (IO_PIC2, 0x68), (IO_PIC2, 0x0a)] s
      in if irqmask s \<noteq> 0xFFFF then picsetmask (irqmask s) s else s)"

section \<open>I/O APIC\<close>

abbreviation IOAPIC :: uint where "IOAPIC \<equiv> 0xFEC00000"
abbreviation REG_ID :: uint where "REG_ID \<equiv> 0"
abbreviation REG_VER :: uint where "REG_VER \<equiv> 1"
abbreviation REG_TABLE :: uint where "REG_TABLE \<equiv> 0x10"
abbreviation INT_DISABLED :: uint where "INT_DISABLED \<equiv> 0x10000"

text \<open>The register is selected at offset 0 and accessed at offset 16.\<close>

definition ioapicread :: "uint \<Rightarrow> 'a irqst_scheme \<Rightarrow> uint \<times> 'a irqst_scheme" where
  "ioapicread reg s = mmio_read (IOAPIC + 16) (mmio_write IOAPIC reg s)"

definition ioapicwrite :: "uint \<Rightarrow> uint \<Rightarrow> 'a irqst_scheme \<Rightarrow> 'a irqst_scheme" where
  "ioapicwrite reg data s = mmio_write (IOAPIC + 16) data (mmio_write IOAPIC reg s)"

text \<open>\<open>ioapicinit\<close>; the message on a wrong identity goes to the console and is left out.\<close>

definition ioapicinit :: "'a irqst_scheme \<Rightarrow> 'a irqst_scheme" where
  "ioapicinit s = (if \<not> ismp s then s else
     let (v, s) = ioapicread REG_VER s;
         maxintr = unat (drop_bit 16 v AND 0xFF);
         (idr, s) = ioapicread REG_ID s
     in fold (\<lambda>i s. ioapicwrite (REG_TABLE + 2 * of_nat i + 1) 0
               (ioapicwrite (REG_TABLE + 2 * of_nat i) (INT_DISABLED OR (32 + of_nat i)) s))
          [0..<Suc maxintr] s)"

definition ioapicenable :: "uint \<Rightarrow> uint \<Rightarrow> 'a irqst_scheme \<Rightarrow> 'a irqst_scheme" where
  "ioapicenable irq cpunum s = (if \<not> ismp s then s else
     ioapicwrite (REG_TABLE + 2 * irq + 1) (push_bit 24 cpunum)
       (ioapicwrite (REG_TABLE + 2 * irq) (32 + irq) s))"

section \<open>Local APIC\<close>

text \<open>The register numbers are the byte offsets divided by 4.\<close>

abbreviation LA_ID :: uint where "LA_ID \<equiv> 0x20 div 4"
abbreviation LA_VER :: uint where "LA_VER \<equiv> 0x30 div 4"
abbreviation LA_TPR :: uint where "LA_TPR \<equiv> 0x80 div 4"
abbreviation LA_EOI :: uint where "LA_EOI \<equiv> 0xB0 div 4"
abbreviation LA_SVR :: uint where "LA_SVR \<equiv> 0xF0 div 4"
abbreviation LA_ESR :: uint where "LA_ESR \<equiv> 0x280 div 4"
abbreviation LA_ICRLO :: uint where "LA_ICRLO \<equiv> 0x300 div 4"
abbreviation LA_ICRHI :: uint where "LA_ICRHI \<equiv> 0x310 div 4"
abbreviation LA_TIMER :: uint where "LA_TIMER \<equiv> 0x320 div 4"
abbreviation LA_PCINT :: uint where "LA_PCINT \<equiv> 0x340 div 4"
abbreviation LA_LINT0 :: uint where "LA_LINT0 \<equiv> 0x350 div 4"
abbreviation LA_LINT1 :: uint where "LA_LINT1 \<equiv> 0x360 div 4"
abbreviation LA_ERROR :: uint where "LA_ERROR \<equiv> 0x370 div 4"
abbreviation LA_TICR :: uint where "LA_TICR \<equiv> 0x380 div 4"
abbreviation LA_TDCR :: uint where "LA_TDCR \<equiv> 0x3E0 div 4"
abbreviation LA_INIT :: uint where "LA_INIT \<equiv> 0x500"
abbreviation LA_STARTUP :: uint where "LA_STARTUP \<equiv> 0x600"
abbreviation LA_DELIVS :: uint where "LA_DELIVS \<equiv> 0x1000"
abbreviation LA_ASSERT :: uint where "LA_ASSERT \<equiv> 0x4000"
abbreviation LA_LEVEL :: uint where "LA_LEVEL \<equiv> 0x8000"
abbreviation LA_BCAST :: uint where "LA_BCAST \<equiv> 0x80000"
abbreviation LA_MASKED :: uint where "LA_MASKED \<equiv> 0x10000"

definition lapicr :: "uint \<Rightarrow> 'a irqst_scheme \<Rightarrow> uint \<times> 'a irqst_scheme" where
  "lapicr i s = mmio_read (lapic s + 4 * i) s"

definition lapicw :: "uint \<Rightarrow> uint \<Rightarrow> 'a irqst_scheme \<Rightarrow> 'a irqst_scheme" where
  "lapicw i v s = snd (lapicr LA_ID (mmio_write (lapic s + 4 * i) v s))"

fun lapicws :: "(uint \<times> uint) list \<Rightarrow> 'a irqst_scheme \<Rightarrow> 'a irqst_scheme" where
  "lapicws [] s = s"
| "lapicws ((i, v) # ws) s = lapicws ws (lapicw i v s)"

text \<open>\<open>while(lapic[ICRLO] & DELIVS);\<close> with \<open>fuel\<close> looks at the register; a device that never
  answers blocks the machine.\<close>

fun wait_delivered :: "nat \<Rightarrow> 'a irqst_scheme \<Rightarrow> 'a irqst_scheme res" where
  "wait_delivered 0 s = Inl (Blocks ''lapic'')"
| "wait_delivered (Suc fuel) s =
     (let (v, s) = lapicr LA_ICRLO s in if v AND LA_DELIVS \<noteq> 0 then wait_delivered fuel s else Inr s)"

definition lapicinit :: "nat \<Rightarrow> 'a irqst_scheme \<Rightarrow> 'a irqst_scheme res" where
  "lapicinit fuel s = (if lapic s = 0 then Inr s else
     let s = lapicws [(LA_SVR, 0x100 OR (32 + 31)), (LA_TDCR, 0xB), (LA_TIMER, 0x20000 OR 32),
                      (LA_TICR, 10000000), (LA_LINT0, LA_MASKED), (LA_LINT1, LA_MASKED)] s;
         (v, s) = lapicr LA_VER s;
         s = (if drop_bit 16 v AND 0xFF \<ge> 4 then lapicw LA_PCINT LA_MASKED s else s);
         s = lapicws [(LA_ERROR, 32 + 19), (LA_ESR, 0), (LA_ESR, 0), (LA_EOI, 0), (LA_ICRHI, 0),
                      (LA_ICRLO, LA_BCAST OR LA_INIT OR LA_LEVEL)] s
     in bind_res (wait_delivered fuel s) (\<lambda>s. Inr (lapicw LA_TPR 0 s)))"

text \<open>\<open>cpunum\<close>; the warning printed once when interrupts are on is left out.\<close>

definition cpunum :: "'a irqst_scheme \<Rightarrow> (nat \<times> 'a irqst_scheme) res" where
  "cpunum s = (if lapic s = 0 then Inr (0, s) else
     let (v, s) = lapicr LA_ID s; apicid = drop_bit 24 v in
     case find (\<lambda>i. ucast (apicids s ! i) = apicid) [0..<length (apicids s)] of
       Some i \<Rightarrow> Inr (i, s)
     | None \<Rightarrow> Inl (Panic ''unknown apicid''))"

definition lapiceoi :: "'a irqst_scheme \<Rightarrow> 'a irqst_scheme" where
  "lapiceoi s = (if lapic s \<noteq> 0 then lapicw LA_EOI 0 s else s)"

text \<open>The warm reset vector is two halfwords at physical address \<open>0x467\<close>.\<close>

abbreviation CMOS_PORT :: ushort where "CMOS_PORT \<equiv> 0x70"

definition lapicstartap :: "uchar \<Rightarrow> uint \<Rightarrow> 'a irqst_scheme \<Rightarrow> (uint \<times> ushort) list \<times> 'a irqst_scheme" where
  "lapicstartap apicid addr s =
     (let s = outbs [(CMOS_PORT, 0xF), (CMOS_PORT + 1, 0x0A)] s;
          wrv = P2V (push_bit 4 0x40 OR 0x67);
          s = lapicws [(LA_ICRHI, push_bit 24 (ucast apicid)), (LA_ICRLO, LA_INIT OR LA_LEVEL OR LA_ASSERT),
                       (LA_ICRLO, LA_INIT OR LA_LEVEL),
                       (LA_ICRHI, push_bit 24 (ucast apicid)), (LA_ICRLO, LA_STARTUP OR drop_bit 12 addr),
                       (LA_ICRHI, push_bit 24 (ucast apicid)), (LA_ICRLO, LA_STARTUP OR drop_bit 12 addr)] s
      in ([(wrv, 0), (wrv + 2, ucast (drop_bit 4 addr))], s))"

section \<open>Real-time clock\<close>

record rtcdate =
  second :: uint
  minute :: uint
  hour :: uint
  day :: uint
  month :: uint
  year :: uint

definition cmos_read :: "uchar \<Rightarrow> 'a irqst_scheme \<Rightarrow> uint \<times> 'a irqst_scheme" where
  "cmos_read reg s = (let (v, s) = inb (CMOS_PORT + 1) (outb CMOS_PORT reg s) in (ucast v, s))"

definition fill_rtcdate :: "'a irqst_scheme \<Rightarrow> rtcdate \<times> 'a irqst_scheme" where
  "fill_rtcdate s =
     (let (se, s) = cmos_read 0 s; (mi, s) = cmos_read 2 s; (ho, s) = cmos_read 4 s;
          (da, s) = cmos_read 7 s; (mo, s) = cmos_read 8 s; (ye, s) = cmos_read 9 s
      in (\<lparr>second = se, minute = mi, hour = ho, day = da, month = mo, year = ye\<rparr>, s))"

text \<open>The loop reads the date twice until it did not change in between.\<close>

fun stable_date :: "nat \<Rightarrow> 'a irqst_scheme \<Rightarrow> (rtcdate \<times> 'a irqst_scheme) res" where
  "stable_date 0 s = Inl (Blocks ''cmostime'')"
| "stable_date (Suc fuel) s =
     (let (t1, s) = fill_rtcdate s; (a, s) = cmos_read 0xa s in
      if a AND 0x80 \<noteq> 0 then stable_date fuel s
      else let (t2, s) = fill_rtcdate s in
           if t1 = t2 then Inr (t1, s) else stable_date fuel s)"

definition bcd_conv :: "uint \<Rightarrow> uint" where
  "bcd_conv x = drop_bit 4 x * 10 + (x AND 0xf)"

definition cmostime :: "nat \<Rightarrow> 'a irqst_scheme \<Rightarrow> (rtcdate \<times> 'a irqst_scheme) res" where
  "cmostime fuel s =
     (let (sb, s) = cmos_read 0xb s; bcd = (sb AND 4 = 0) in
      bind_res (stable_date fuel s) (\<lambda>(t, s).
      let t = (if bcd then \<lparr>second = bcd_conv (second t), minute = bcd_conv (minute t), hour = bcd_conv (hour t),
                 day = bcd_conv (day t), month = bcd_conv (month t), year = bcd_conv (year t)\<rparr> else t)
      in Inr (t\<lparr>year := year t + 2000\<rparr>, s)))"

section \<open>Timer\<close>

definition timer_div :: "nat \<Rightarrow> nat" where
  "timer_div x = (1193182 + x div 2) div x"

definition timerinit :: "'a irqst_scheme \<Rightarrow> 'a irqst_scheme" where
  "timerinit s = picenable 0 (outbs [(0x43, 0x00 OR 0x04 OR 0x30),
     (0x40, of_nat (timer_div 100 mod 256)), (0x40, of_nat (timer_div 100 div 256))] s)"

end
