(* ===== verification/Ide.thy ===== *)
theory Ide
  imports Devices Bio
begin

text \<open>
  The IDE disk driver (\<open>ide.c\<close>): a queue of buffers linked by \<open>qnext\<close>, the first of which is
  being transferred, the commands sent to the controller, and the interrupt that finishes the
  transfer. The sectors the controller delivers are what \<open>insl\<close> reads from the data port.
\<close>

record idest = irqst +
  ide_bufs :: "nat \<Rightarrow> buf"
  idequeue :: "nat option"
  havedisk1 :: bool

abbreviation (input) FSSIZE_blocks :: uint where "FSSIZE_blocks \<equiv> 1000"

definition upd_ibuf :: "nat \<Rightarrow> (buf \<Rightarrow> buf) \<Rightarrow> 'a idest_scheme \<Rightarrow> 'a idest_scheme" where
  "upd_ibuf i f s = s\<lparr>ide_bufs := (ide_bufs s)(i := f (ide_bufs s i))\<rparr>"

text \<open>\<open>idewait\<close>, given \<open>fuel\<close> looks at the status port; a controller that stays busy blocks the CPU.\<close>

fun idewait :: "nat \<Rightarrow> bool \<Rightarrow> 'a idest_scheme \<Rightarrow> (int \<times> 'a idest_scheme) res" where
  "idewait 0 checkerr s = Inl (Blocks ''idewait'')"
| "idewait (Suc fuel) checkerr s =
     (let (r, s) = inb 0x1f7 s in
      if r AND (0x80 OR 0x40) \<noteq> 0x40 then idewait fuel checkerr s
      else if checkerr \<and> r AND (0x20 OR 0x01) \<noteq> 0 then Inr (-1, s)
      else Inr (0, s))"

text \<open>The probe of disk 1 looks at most 1000 times.\<close>

fun ide_probe :: "nat \<Rightarrow> 'a idest_scheme \<Rightarrow> 'a idest_scheme" where
  "ide_probe 0 s = s"
| "ide_probe (Suc n) s =
     (let (r, s) = inb 0x1f7 s in if r \<noteq> 0 then s\<lparr>havedisk1 := True\<rparr> else ide_probe n s)"

definition ideinit :: "nat \<Rightarrow> uint \<Rightarrow> 'a idest_scheme \<Rightarrow> 'a idest_scheme res" where
  "ideinit fuel ncpu s =
     bind_res (idewait fuel False (ioapicenable 14 (ncpu - 1) (picenable 14 s))) (\<lambda>(_, s).
     Inr (outb 0x1f6 0xe0 (ide_probe 1000 (outb 0x1f6 (0xe0 OR 0x10) s))))"

definition words_of :: "uchar list \<Rightarrow> uint list" where
  "words_of d = map (\<lambda>k. word32 (take 4 (drop (4 * k) d))) [0..<128]"

text \<open>One sector per block, so the single-sector commands are used.\<close>

definition idestart :: "nat \<Rightarrow> nat option \<Rightarrow> 'a idest_scheme \<Rightarrow> 'a idest_scheme res" where
  "idestart fuel p s = (case p of None \<Rightarrow> Inl (Panic ''idestart'') | Some i \<Rightarrow>
     let b = ide_bufs s i; sector = b_blockno b in
     bind_res (panic_if (b_blockno b \<ge> FSSIZE_blocks) ''incorrect blockno'') (\<lambda>_.
     bind_res (idewait fuel False s) (\<lambda>(_, s).
     let s = outbs [(0x3f6, 0), (0x1f2, 1), (0x1f3, ucast sector), (0x1f4, ucast (drop_bit 8 sector)),
                    (0x1f5, ucast (drop_bit 16 sector)),
                    (0x1f6, 0xe0 OR push_bit 4 (ucast (b_dev b AND 1)) OR (ucast (drop_bit 24 sector) AND 0x0f))] s
     in Inr (if b_dirty b then outsl 0x1f0 (words_of (b_data b)) (outb 0x1f7 0x30 s)
             else outb 0x1f7 0x20 s))))"

text \<open>The interrupt: the first buffer of the queue is done, the next one is started.\<close>

definition ideintr :: "nat \<Rightarrow> 'a idest_scheme \<Rightarrow> 'a idest_scheme res" where
  "ideintr fuel s =
     bind_res (acquire L_ide s) (\<lambda>s.
     case idequeue s of None \<Rightarrow> release L_ide s
     | Some i \<Rightarrow>
       let s = s\<lparr>idequeue := b_qnext (ide_bufs s i)\<rparr> in
       bind_res (
         if b_dirty (ide_bufs s i) then Inr s
         else bind_res (idewait fuel True s) (\<lambda>(r, s).
           if r \<ge> 0 then
             let (ws, s) = insl 0x1f0 128 s in Inr (upd_ibuf i (\<lambda>b. b\<lparr>b_data := concat (map le32 ws)\<rparr>) s)
           else Inr s)) (\<lambda>s.
       let s = upd_ibuf i (\<lambda>b. b\<lparr>b_flags := b_flags b OR B_VALID\<rparr>) s;
           s = upd_ibuf i (\<lambda>b. b\<lparr>b_flags := b_flags b AND NOT B_DIRTY\<rparr>) s
       in bind_res (wakeup (Ch_bufio i) s) (\<lambda>s.
          bind_res (if idequeue s \<noteq> None then idestart fuel (idequeue s) s else Inr s) (\<lambda>s.
          release L_ide s))))"

text \<open>The last buffer of the queue, by at most 30 links: each of the 30 buffers is there once.\<close>

fun queue_last :: "nat \<Rightarrow> (nat \<Rightarrow> buf) \<Rightarrow> nat \<Rightarrow> nat res" where
  "queue_last 0 m i = Inl (Blocks ''idequeue'')"
| "queue_last (Suc n) m i = (case b_qnext (m i) of None \<Rightarrow> Inr i | Some j \<Rightarrow> queue_last n m j)"

definition ide_append :: "nat \<Rightarrow> 'a idest_scheme \<Rightarrow> 'a idest_scheme res" where
  "ide_append i s =
     (let s = upd_ibuf i (\<lambda>b. b\<lparr>b_qnext := None\<rparr>) s in
      case idequeue s of None \<Rightarrow> Inr (s\<lparr>idequeue := Some i\<rparr>)
      | Some j \<Rightarrow> bind_res (queue_last NBUF (ide_bufs s) j) (\<lambda>k.
          Inr (upd_ibuf k (\<lambda>b. b\<lparr>b_qnext := Some i\<rparr>) s)))"

text \<open>
  \<open>iderw\<close> up to the wait: the caller sleeps until the interrupt has made the buffer valid and
  clean, which cannot happen at once because the request has only been queued.
\<close>

definition ide_rw :: "nat \<Rightarrow> nat \<Rightarrow> 'a idest_scheme \<Rightarrow> 'a idest_scheme res" where
  "ide_rw fuel i s =
     bind_res (holdingsleep (L_buf i) (b_lock (ide_bufs s i)) s) (\<lambda>(h, s).
     bind_res (panic_if (\<not> h) ''iderw: buf not locked'') (\<lambda>_.
     bind_res (panic_if (b_flags (ide_bufs s i) AND (B_VALID OR B_DIRTY) = B_VALID) ''iderw: nothing to do'') (\<lambda>_.
     bind_res (panic_if (b_dev (ide_bufs s i) \<noteq> 0 \<and> \<not> havedisk1 s) ''iderw: ide disk 1 not present'') (\<lambda>_.
     bind_res (acquire L_ide s) (\<lambda>s.
     bind_res (ide_append i s) (\<lambda>s.
     bind_res (if idequeue s = Some i then idestart fuel (Some i) s else Inr s) (\<lambda>s.
     if b_flags (ide_bufs s i) AND (B_VALID OR B_DIRTY) \<noteq> B_VALID
     then sleep (Ch_bufio i) (Some L_ide) s else release L_ide s)))))))"

section \<open>The queue\<close>

text \<open>\<open>queued s xs\<close>: the queue holds the buffers \<open>xs\<close>, linked by \<open>qnext\<close>.\<close>

fun qchain :: "(nat \<Rightarrow> buf) \<Rightarrow> nat option \<Rightarrow> nat list \<Rightarrow> bool" where
  "qchain m p [] \<longleftrightarrow> p = None"
| "qchain m p (x # xs) \<longleftrightarrow> p = Some x \<and> qchain m (b_qnext (m x)) xs"

lemma qchain_cong: "(\<And>x. x \<in> set xs \<Longrightarrow> b_qnext (m' x) = b_qnext (m x)) \<Longrightarrow> qchain m' p xs = qchain m p xs"
  by (induction xs arbitrary: p) auto

lemma queue_last_ok: "qchain m (Some x) (x # xs) \<Longrightarrow> length xs < n \<Longrightarrow> queue_last n m x = Inr (last (x # xs))"
proof (induction xs arbitrary: x n)
  case Nil
  then show ?case by (cases n) auto
next
  case (Cons y ys)
  then show ?case by (cases n) auto
qed

lemma qchain_append:
  assumes "qchain m p xs" "xs \<noteq> []" "distinct (xs @ [i])" "b_qnext (m i) = None"
  shows "qchain (m(last xs := (m (last xs))\<lparr>b_qnext := Some i\<rparr>)) p (xs @ [i])"
  using assms
proof (induction xs arbitrary: p)
  case (Cons x xs)
  show ?case
  proof (cases "xs = []")
    case True
    then show ?thesis using Cons.prems by auto
  next
    case False
    have ne: "x \<noteq> last (x # xs)" using Cons.prems(3) False by (auto dest: last_in_set)
    then show ?thesis using Cons False by auto
  qed
qed simp

text \<open>
  Requests are served in order. Appending a buffer that is not in the queue puts it at its
  end: with the interrupt handler, which serves the head and moves on along \<open>qnext\<close>, requests
  are served first come, first served. The links of the buffers outside the queue do not matter.
\<close>

theorem ide_append_last:
  assumes "qchain (ide_bufs s) (idequeue s) xs" "distinct (xs @ [i])" "length xs \<le> NBUF"
  shows "\<exists>t. ide_append i s = Inr t \<and> qchain (ide_bufs t) (idequeue t) (xs @ [i])
     \<and> (\<forall>k. (ide_bufs t k)\<lparr>b_qnext := None\<rparr> = (ide_bufs s k)\<lparr>b_qnext := None\<rparr>)"
proof (cases xs)
  case Nil
  then show ?thesis using assms(1) by (auto simp: ide_append_def upd_ibuf_def Let_def)
next
  case (Cons x ys)
  let ?m = "(ide_bufs s)(i := (ide_bufs s i)\<lparr>b_qnext := None\<rparr>)"
  have q: "qchain ?m (idequeue s) xs" using assms(1,2) by (subst qchain_cong) auto
  then have "queue_last NBUF ?m x = Inr (last xs)"
    using Cons assms(3) queue_last_ok[of ?m x ys NBUF] by simp
  moreover have "idequeue s = Some x" using q Cons by simp
  moreover have "qchain (?m(last xs := (?m (last xs))\<lparr>b_qnext := Some i\<rparr>)) (idequeue s) (xs @ [i])"
    using q Cons assms(2) by (intro qchain_append) auto
  moreover have "last xs \<noteq> i" using assms(2) Cons by (auto dest: last_in_set)
  ultimately show ?thesis by (auto simp: ide_append_def upd_ibuf_def Let_def)
qed

end
