(* ===== verification/Format.thy ===== *)
theory Format
  imports Prelude "HOL-Library.Char_ord"
begin

text \<open>
  The conversion of an integer to text that the kernel's \<open>cprintf\<close> and the user library's
  \<open>printf\<close> share (they differ in the case of the hexadecimal digits), and the conversion
  back that \<open>atoi\<close> makes.
\<close>

text \<open>The \<open>do\<close> loop of \<open>printint\<close>, least significant digit first; \<open>base\<close> is 10 or 16.\<close>

function digits_rev :: "nat \<Rightarrow> nat \<Rightarrow> nat list" where
  "digits_rev base x =
     (x mod base) # (if base \<le> 1 \<or> x div base = 0 then [] else digits_rev base (x div base))"
  by pat_completeness auto
termination
  by (relation "measure snd") (auto simp: div_greater_zero_iff intro!: div_less_dividend)

declare digits_rev.simps [simp del]

text \<open>\<open>printint(xx, base, sg)\<close> with the array of digits; \<open>x = -xx\<close> is computed in \<open>uint\<close>.\<close>

definition int_text :: "string \<Rightarrow> int \<Rightarrow> nat \<Rightarrow> bool \<Rightarrow> string" where
  "int_text digits xx base sg =
     (let neg = sg \<and> xx < 0; x = unat (word_of_int (if neg then - xx else xx) :: uint)
      in (if neg then ''-'' else []) @ rev (map (\<lambda>d. digits ! d) (digits_rev base x)))"

section \<open>Values of digit sequences\<close>

fun value_rev :: "nat \<Rightarrow> nat list \<Rightarrow> nat" where
  "value_rev base [] = 0"
| "value_rev base (d # ds) = d + base * value_rev base ds"

lemma digits_rev_value: "base > 1 \<Longrightarrow> value_rev base (digits_rev base x) = x"
proof (induction base x rule: digits_rev.induct)
  case (1 base x)
  then show ?case using mod_less[of x base] by (subst digits_rev.simps) (auto simp: Let_def div_eq_0_iff)
qed

lemma digits_rev_less: "base > 1 \<Longrightarrow> d \<in> set (digits_rev base x) \<Longrightarrow> d < base"
proof (induction base x rule: digits_rev.induct)
  case (1 base x)
  then show ?case by (subst (asm) digits_rev.simps) (auto split: if_splits)
qed

lemma digits_rev_nonempty [simp]: "digits_rev base x \<noteq> []"
  by (subst digits_rev.simps) simp

text \<open>A number below \<open>base ^ k\<close> has at most \<open>k\<close> digits: what \<open>char buf[16]\<close> has to hold.\<close>

lemma length_digits_rev: "base > 1 \<Longrightarrow> x < base ^ k \<Longrightarrow> k > 0 \<Longrightarrow> length (digits_rev base x) \<le> k"
proof (induction base x arbitrary: k rule: digits_rev.induct)
  case (1 base x)
  show ?case
  proof (cases "x div base = 0")
    case True
    then show ?thesis using 1 by (subst digits_rev.simps) simp
  next
    case False
    then have "base \<le> x" using 1(2) by (meson div_less linorder_not_less)
    then obtain k' where k: "k = Suc k'" "k' > 0"
      using 1(2-4) by (cases k; cases "k - 1") auto
    have "x div base < base ^ k'"
      using 1(3) k by (simp add: less_mult_imp_div_less mult.commute)
    then show ?thesis using 1 False k by (subst digits_rev.simps) auto
  qed
qed

end
