(* ===== verification/Console.thy ===== *)
theory Console
  imports Devices Pipe Format
begin

text \<open>
  The console (\<open>console.c\<close>) and the serial port below it (\<open>uart.c\<close>), with \<open>procdump\<close> of
  \<open>proc.c\<close>, which prints on it: formatted output, the text screen, the line editor that the
  keyboard and serial interrupts feed, and the device functions \<open>consoleread\<close> and
  \<open>consolewrite\<close>. A character code is an integer as in the code; the screen memory is a
  function from cells to halfwords.
\<close>

record consst = irqst +
  cons_locking :: bool
  panicked :: bool
  uart :: bool
  crt :: "nat \<Rightarrow> ushort"
  in_buf :: "uchar list"
  in_r :: uint
  in_w :: uint
  in_e :: uint
  cons_devsw :: bool

section \<open>Serial port\<close>

abbreviation COM1 :: ushort where "COM1 \<equiv> 0x3f8"

fun uart_wait :: "nat \<Rightarrow> 'a consst_scheme \<Rightarrow> 'a consst_scheme" where
  "uart_wait 0 s = s"
| "uart_wait (Suc n) s =
     (let (v, s) = inb (COM1 + 5) s in if v AND 0x20 \<noteq> 0 then s else uart_wait n s)"

definition uartputc :: "int \<Rightarrow> 'a consst_scheme \<Rightarrow> 'a consst_scheme" where
  "uartputc c s = (if uart s then outb COM1 (word_of_int c) (uart_wait 128 s) else s)"

definition uartgetc :: "'a consst_scheme \<Rightarrow> int \<times> 'a consst_scheme" where
  "uartgetc s = (if \<not> uart s then (-1, s) else
     let (v, s) = inb (COM1 + 5) s in
     if v AND 0x01 = 0 then (-1, s) else let (d, s) = inb COM1 s in (uint d, s))"

definition uartinit :: "'a consst_scheme \<Rightarrow> 'a consst_scheme" where
  "uartinit s =
     (let s = outbs [(COM1 + 2, 0), (COM1 + 3, 0x80), (COM1, 115200 div 9600), (COM1 + 1, 0),
                     (COM1 + 3, 0x03), (COM1 + 4, 0), (COM1 + 1, 0x01)] s;
          (v, s) = inb (COM1 + 5) s
      in if v = 0xFF then s else
        let s = s\<lparr>uart := True\<rparr>; (_, s) = inb (COM1 + 2) s; (_, s) = inb COM1 s;
            s = ioapicenable 4 0 (picenable 4 s)
        in fold (\<lambda>ch. uartputc (of_char ch)) (''xv6...'' @ [CHR 0x0A]) s)"

section \<open>The text screen\<close>

abbreviation (input) BACKSPACE :: int where "BACKSPACE \<equiv> 0x100"
abbreviation (input) CRTPORT :: ushort where "CRTPORT \<equiv> 0x3d4"
abbreviation (input) newline :: int where "newline \<equiv> 10"

definition cursor :: "uchar \<Rightarrow> uchar \<Rightarrow> nat" where
  "cursor hi lo = unat (push_bit 8 (ucast hi) OR ucast lo :: uint)"

text \<open>Where the cursor goes and what is written there, before scrolling.\<close>

definition cga_advance :: "int \<Rightarrow> nat \<Rightarrow> (nat \<Rightarrow> ushort) \<Rightarrow> nat \<times> (nat \<Rightarrow> ushort)" where
  "cga_advance c pos m =
     (if c = newline then (pos + (80 - pos mod 80), m)
      else if c = BACKSPACE then (if pos > 0 then pos - 1 else pos, m)
      else (pos + 1, m(pos := (word_of_int c AND 0xff) OR 0x0700)))"

definition cga_scroll :: "nat \<Rightarrow> (nat \<Rightarrow> ushort) \<Rightarrow> nat \<times> (nat \<Rightarrow> ushort)" where
  "cga_scroll pos m =
     (if pos div 80 \<ge> 24 then
        let m = (\<lambda>k. if k < 23 * 80 then m (k + 80) else m k); pos = pos - 80 in
        (pos, \<lambda>k. if pos \<le> k \<and> k < 24 * 80 then 0 else m k)
      else (pos, m))"

definition cgaputc :: "int \<Rightarrow> 'a consst_scheme \<Rightarrow> 'a consst_scheme res" where
  "cgaputc c s =
     (let (hi, s) = inb (CRTPORT + 1) (outb CRTPORT 14 s);
          (lo, s) = inb (CRTPORT + 1) (outb CRTPORT 15 s);
          (pos, m) = cga_advance c (cursor hi lo) (crt s)
      in if pos > 25 * 80 then Inl (Panic ''pos under/overflow'') else
        let (pos, m) = cga_scroll pos m;
            s = outbs [(CRTPORT, 14), (CRTPORT + 1, of_nat (pos div 256)),
                       (CRTPORT, 15), (CRTPORT + 1, of_nat pos)] s
        in Inr (s\<lparr>crt := m(pos := 0x20 OR 0x0700)\<rparr>))"

text \<open>\<open>consputc\<close>; after a panic every CPU that prints stops.\<close>

definition consputc :: "int \<Rightarrow> 'a consst_scheme \<Rightarrow> 'a consst_scheme res" where
  "consputc c s = (if panicked s then Inl (Blocks ''panicked'') else
     cgaputc c (if c = BACKSPACE then uartputc 8 (uartputc 32 (uartputc 8 s)) else uartputc c s))"

fun cons_puts :: "int list \<Rightarrow> 'a consst_scheme \<Rightarrow> 'a consst_scheme res" where
  "cons_puts [] s = Inr s"
| "cons_puts (c # cs) s = bind_res (consputc c s) (cons_puts cs)"

section \<open>Formatted output\<close>

definition printint_text :: "int \<Rightarrow> nat \<Rightarrow> bool \<Rightarrow> string" where
  "printint_text = int_text ''0123456789abcdef''"

definition codes :: "string \<Rightarrow> int list" where
  "codes = map of_char"

definition printint :: "int \<Rightarrow> nat \<Rightarrow> bool \<Rightarrow> 'a consst_scheme \<Rightarrow> 'a consst_scheme res" where
  "printint xx base sg = cons_puts (codes (printint_text xx base sg))"

text \<open>
  A word of the variable arguments is a number or a string pointer (\<open>None\<close> for a null one);
  reading past the arguments or a number as a pointer is a fault.
\<close>

datatype carg = Num uint | Str "string option"

fun cprintf_loop :: "string \<Rightarrow> carg list \<Rightarrow> 'a consst_scheme \<Rightarrow> 'a consst_scheme res" where
  "cprintf_loop [] as s = Inr s"
| "cprintf_loop (c # cs) as s =
     (if c \<noteq> CHR ''%'' then bind_res (consputc (of_char c) s) (cprintf_loop cs as)
      else case cs of [] \<Rightarrow> Inr s | d # cs \<Rightarrow>
        if d = CHR ''d'' then
          (case as of Num w # as \<Rightarrow> bind_res (printint (sint w) 10 True s) (cprintf_loop cs as)
           | _ \<Rightarrow> Inl (Fault ''cprintf''))
        else if d = CHR ''x'' \<or> d = CHR ''p'' then
          (case as of Num w # as \<Rightarrow> bind_res (printint (sint w) 16 False s) (cprintf_loop cs as)
           | _ \<Rightarrow> Inl (Fault ''cprintf''))
        else if d = CHR ''s'' then
          (case as of Str p # as \<Rightarrow>
             bind_res (cons_puts (codes (case p of None \<Rightarrow> ''(null)'' | Some t \<Rightarrow> t)) s) (cprintf_loop cs as)
           | _ \<Rightarrow> Inl (Fault ''cprintf''))
        else if d = CHR ''%'' then bind_res (consputc (of_char d) s) (cprintf_loop cs as)
        else bind_res (consputc (of_char CHR ''%'') s) (\<lambda>s.
             bind_res (consputc (of_char d) s) (cprintf_loop cs as)))"

definition cprintf :: "string option \<Rightarrow> carg list \<Rightarrow> 'a consst_scheme \<Rightarrow> 'a consst_scheme res" where
  "cprintf fmt as s =
     (let locking = cons_locking s in
      bind_res (if locking then acquire L_cons s else Inr s) (\<lambda>s.
      case fmt of None \<Rightarrow> Inl (Panic ''null fmt'') | Some f \<Rightarrow>
      bind_res (cprintf_loop f as s) (\<lambda>s.
      if locking then release L_cons s else Inr s)))"

text \<open>What \<open>panic\<close> does before it spins for ever: the state the other CPUs see.\<close>

definition panic_prints :: "uint \<Rightarrow> uint list \<Rightarrow> string \<Rightarrow> 'a consst_scheme \<Rightarrow> 'a consst_scheme res" where
  "panic_prints apicid pcs msg s =
     bind_res (cprintf (Some ''cpu with apicid %d: panic: '') [Num apicid] (s\<lparr>cons_locking := False\<rparr>)) (\<lambda>s.
     bind_res (cprintf (Some msg) [] s) (\<lambda>s.
     bind_res (cprintf (Some [CHR 0x0A]) [] s) (\<lambda>s.
     bind_res (for_res 0 10 (\<lambda>i s. cprintf (Some '' %p'') [Num (pcs ! i)] s) s) (\<lambda>s.
     Inr (s\<lparr>panicked := True\<rparr>)))))"

text \<open>\<open>procdump\<close>: one line for every used slot of the process table.\<close>

definition state_name :: "procstate \<Rightarrow> string" where
  "state_name st = (case st of UNUSED \<Rightarrow> ''unused'' | EMBRYO \<Rightarrow> ''embyro'' | SLEEPING \<Rightarrow> ''sleeping''
     | RUNNABLE \<Rightarrow> ''runnable'' | RUNNING \<Rightarrow> ''running'' | ZOMBIE \<Rightarrow> ''zombie'')"

definition procdump :: "'a consst_scheme \<Rightarrow> 'a consst_scheme res" where
  "procdump s =
     for_res 0 (length (ptable s)) (\<lambda>i s.
       let p = ptable s ! i in
       if p_state p = UNUSED then Inr s else
         bind_res (cprintf (Some ''%d %s %s'')
             [Num (word_of_int (p_pid p)), Str (Some (state_name (p_state p))), Str (Some (p_name p))] s) (\<lambda>s.
         cprintf (Some [CHR 0x0A]) [] s)) s"

section \<open>Input\<close>

abbreviation INPUT_BUF :: uint where "INPUT_BUF \<equiv> 128"
abbreviation (input) ctl_P :: int where "ctl_P \<equiv> 16"
abbreviation (input) ctl_U :: int where "ctl_U \<equiv> 21"
abbreviation (input) ctl_H :: int where "ctl_H \<equiv> 8"
abbreviation (input) ctl_D :: int where "ctl_D \<equiv> 4"

text \<open>The loop of kill line; \<open>e - w\<close> turns are enough.\<close>

fun kill_line :: "nat \<Rightarrow> 'a consst_scheme \<Rightarrow> 'a consst_scheme res" where
  "kill_line 0 s = Inr s"
| "kill_line (Suc n) s =
     (if in_e s \<noteq> in_w s \<and> in_buf s ! unat ((in_e s - 1) mod INPUT_BUF) \<noteq> word_of_int newline then
        bind_res (consputc BACKSPACE (s\<lparr>in_e := in_e s - 1\<rparr>)) (kill_line n)
      else Inr s)"

text \<open>The \<open>switch\<close> on one character; a process listing is only noted and done later.\<close>

definition cons_char :: "int \<Rightarrow> 'a consst_scheme \<Rightarrow> 'a consst_scheme res" where
  "cons_char c s =
     (if c = ctl_P then Inr s
      else if c = ctl_U then kill_line (unat (in_e s - in_w s)) s
      else if c = ctl_H \<or> c = 0x7f then
        (if in_e s \<noteq> in_w s then consputc BACKSPACE (s\<lparr>in_e := in_e s - 1\<rparr>) else Inr s)
      else if c \<noteq> 0 \<and> in_e s - in_r s < INPUT_BUF then
        let c = (if c = 13 then newline else c);
            s = s\<lparr>in_buf := (in_buf s)[unat (in_e s mod INPUT_BUF) := word_of_int c], in_e := in_e s + 1\<rparr>
        in bind_res (consputc c s) (\<lambda>s.
           if c = newline \<or> c = ctl_D \<or> in_e s = in_r s + INPUT_BUF then
             wakeup Ch_input (s\<lparr>in_w := in_e s\<rparr>)
           else Inr s)
      else Inr s)"

text \<open>\<open>consoleintr(getc)\<close>, given \<open>fuel\<close> calls of \<open>getc\<close>.\<close>

fun consoleintr_loop ::
  "nat \<Rightarrow> ('a consst_scheme \<Rightarrow> int \<times> 'a consst_scheme) \<Rightarrow> bool \<Rightarrow> 'a consst_scheme \<Rightarrow> (bool \<times> 'a consst_scheme) res" where
  "consoleintr_loop 0 getc dump s = Inl (Blocks ''consoleintr'')"
| "consoleintr_loop (Suc fuel) getc dump s =
     (let (c, s) = getc s in
      if c < 0 then Inr (dump, s)
      else bind_res (cons_char c s) (consoleintr_loop fuel getc (dump \<or> c = ctl_P)))"

definition consoleintr ::
  "nat \<Rightarrow> ('a consst_scheme \<Rightarrow> int \<times> 'a consst_scheme) \<Rightarrow> 'a consst_scheme \<Rightarrow> 'a consst_scheme res" where
  "consoleintr fuel getc s =
     bind_res (acquire L_cons s) (\<lambda>s.
     bind_res (consoleintr_loop fuel getc False s) (\<lambda>(dump, s).
     bind_res (release L_cons s) (\<lambda>s.
     if dump then procdump s else Inr s)))"

definition uartintr :: "nat \<Rightarrow> 'a consst_scheme \<Rightarrow> 'a consst_scheme res" where
  "uartintr fuel s = consoleintr fuel uartgetc s"

section \<open>Device functions\<close>

text \<open>
  \<open>consoleread\<close>: the bytes moved to \<open>dst\<close> are a component of the result. \<open>iu\<close> and \<open>il\<close> are
  \<open>iunlock(ip)\<close> and \<open>ilock(ip)\<close>: theory \<open>Inode\<close> models them over the records of the file system, which the records of the devices
  do not extend, so they are arguments. A reader that finds the buffer empty goes to sleep: the outcome is
  \<open>Asleep\<close> with the number of bytes it has, and the rest of the call is not followed.
\<close>

fun consoleread_loop ::
  "nat \<Rightarrow> uchar list \<Rightarrow> 'a consst_scheme \<Rightarrow> (outcome \<times> uchar list \<times> 'a consst_scheme) res" where
  "consoleread_loop 0 got s = Inr (Done (int (length got)), got, s)"
| "consoleread_loop (Suc n) got s =
     (if in_r s = in_w s then
        bind_res (killed s) (\<lambda>k.
        if k then Inr (Done (-1), got, s)
        else bind_res (sleep Ch_input (Some L_cons) s) (\<lambda>s. Inr (Asleep (length got), got, s)))
      else
        let c = in_buf s ! unat (in_r s mod INPUT_BUF) in
        if c = word_of_int ctl_D then
          Inr (Done (int (length got)), got, if got \<noteq> [] then s else s\<lparr>in_r := in_r s + 1\<rparr>)
        else if c = word_of_int newline then
          Inr (Done (int (length got) + 1), got @ [c], s\<lparr>in_r := in_r s + 1\<rparr>)
        else consoleread_loop n (got @ [c]) (s\<lparr>in_r := in_r s + 1\<rparr>))"

definition consoleread ::
  "('a consst_scheme \<Rightarrow> 'a consst_scheme res) \<Rightarrow> ('a consst_scheme \<Rightarrow> 'a consst_scheme res) \<Rightarrow> int \<Rightarrow>
   'a consst_scheme \<Rightarrow> (outcome \<times> uchar list \<times> 'a consst_scheme) res" where
  "consoleread iu il n s =
     bind_res (iu s) (\<lambda>s.
     bind_res (acquire L_cons s) (\<lambda>s.
     bind_res (consoleread_loop (nat n) [] s) (\<lambda>(out, got, s).
     case out of Asleep k \<Rightarrow> Inr (out, got, s)
     | Done r \<Rightarrow> bind_res (release L_cons s) (\<lambda>s.
                 bind_res (il s) (\<lambda>s. Inr (out, got, s))))))"

definition consolewrite ::
  "('a consst_scheme \<Rightarrow> 'a consst_scheme res) \<Rightarrow> ('a consst_scheme \<Rightarrow> 'a consst_scheme res) \<Rightarrow> uchar list \<Rightarrow>
   'a consst_scheme \<Rightarrow> (int \<times> 'a consst_scheme) res" where
  "consolewrite iu il bs s =
     bind_res (iu s) (\<lambda>s.
     bind_res (acquire L_cons s) (\<lambda>s.
     bind_res (cons_puts (map uint bs) s) (\<lambda>s.
     bind_res (release L_cons s) (\<lambda>s.
     bind_res (il s) (\<lambda>s. Inr (int (length bs), s))))))"

definition consoleinit :: "'a consst_scheme \<Rightarrow> 'a consst_scheme" where
  "consoleinit s = ioapicenable 1 0 (picenable 1 (s\<lparr>cons_devsw := True, cons_locking := True\<rparr>))"

end
