(* ===== verification/Line_Discipline.thy ===== *)
theory Line_Discipline
  imports Console
begin

text \<open>
  What the console promises: the cursor stays on the screen, and the circular input buffer
  with its three indices behaves as a line editor over two lists, the committed input and the
  line being edited.
\<close>

section \<open>The screen\<close>

lemma cursor_value: "cursor hi lo = 256 * unat hi + unat lo"
proof -
  have hi: "unat hi < 2 ^ LENGTH(8)" and lo: "unat lo < 2 ^ LENGTH(8)" by (rule unsigned_less)+
  have d: "(push_bit 8 (ucast hi) :: uint) AND ucast lo = 0"
    by (auto intro!: bit_word_eqI simp: bit_simps)
  have "unat (push_bit 8 (ucast hi) :: uint) = 256 * unat hi"
    using hi by (simp add: push_bit_eq_mult unat_word_ariths unsigned_ucast_eq take_bit_nat_eq_self mod_less)
  moreover have "unat (ucast lo :: uint) = unat lo"
    using lo by (simp add: unsigned_ucast_eq take_bit_nat_eq_self)
  moreover have "256 * unat hi + unat lo < 2 ^ 32"
    using hi lo by simp
  ultimately show ?thesis
    unfolding cursor_def disjunctive_add_eq_or[OF d, symmetric] by (simp add: unat_word_ariths)
qed

lemma cursor_sent: "q < 2 ^ 16 \<Longrightarrow> cursor (of_nat (q div 256)) (of_nat q) = q"
  by (simp add: cursor_value unat_of_nat take_bit_eq_mod)

lemma advance_bounds:
  assumes "pos < 24 * 80" "cga_advance c pos m = (p, m')"
  shows "p \<le> 24 * 80" "\<forall>k \<ge> 24 * 80. m' k = m k"
    "c \<noteq> newline \<Longrightarrow> c \<noteq> BACKSPACE \<Longrightarrow> p > 0 \<and> m' (p - 1) = (word_of_int c AND 0xff) OR 0x0700"
proof -
  have "pos + (80 - pos mod 80) \<le> 24 * 80"
  proof -
    have "pos div 80 < 24" using assms(1) by simp
    then have "pos div 80 * 80 + 80 \<le> 24 * 80" by simp
    moreover have "pos = pos div 80 * 80 + pos mod 80" "pos mod 80 < 80" by simp_all
    ultimately show ?thesis by linarith
  qed
  then show "p \<le> 24 * 80" "\<forall>k \<ge> 24 * 80. m' k = m k"
    using assms by (auto simp: cga_advance_def split: if_splits)
  show "c \<noteq> newline \<Longrightarrow> c \<noteq> BACKSPACE \<Longrightarrow> p > 0 \<and> m' (p - 1) = (word_of_int c AND 0xff) OR 0x0700"
    using assms by (auto simp: cga_advance_def split: if_splits)
qed

lemma scroll_bounds:
  assumes "pos \<le> 24 * 80" "cga_scroll pos m = (p, m')"
  shows "p < 24 * 80" "\<forall>k \<ge> 24 * 80. m' k = m k" "pos > 0 \<Longrightarrow> p > 0 \<and> m' (p - 1) = m (pos - 1)"
    "pos = 24 * 80 \<Longrightarrow> \<forall>k < 23 * 80. m' k = m (k + 80)"
  using assms by (auto simp: cga_scroll_def Let_def split: if_splits)

text \<open>Output changes the clock, the record of writes and the screen, nothing else.\<close>

definition silent :: "'a consst_scheme \<Rightarrow> 'a consst_scheme" where
  "silent s = s\<lparr>clk := 0, bus_out := [], crt := \<lambda>_. 0\<rparr>"

definition quiet :: "'a consst_scheme \<Rightarrow> 'a consst_scheme \<Rightarrow> bool" where
  "quiet s t \<longleftrightarrow> silent t = silent s"

lemma silent_io [simp]:
  "silent (emit e s) = silent s" "silent (outb p v s) = silent s" "silent (snd (inb p s)) = silent s"
  "silent (s\<lparr>crt := m\<rparr>) = silent s"
  by (simp_all add: silent_def emit_def outb_def inb_def)

lemma crt_io [simp]:
  "crt (emit e s) = crt s" "crt (outb p v s) = crt s" "crt (snd (inb p s)) = crt s"
  by (simp_all add: emit_def outb_def inb_def)

lemma silent_outbs [simp]: "silent (outbs ps s) = silent s"
  by (induction ps s rule: outbs.induct) simp_all

lemma silent_uart_wait [simp]: "silent (uart_wait n s) = silent s"
  by (induction n arbitrary: s) (simp_all add: case_prod_unfold Let_def)

lemma silent_uartputc [simp]: "silent (uartputc c s) = silent s"
  by (simp add: uartputc_def)

lemma quiet_frame:
  assumes "quiet s t"
  shows "held t = held s" "ptable t = ptable s" "curproc t = curproc s" "port_in t = port_in s"
    "in_buf t = in_buf s" "in_r t = in_r s" "in_w t = in_w s" "in_e t = in_e s" "uart t = uart s"
    "panicked t = panicked s" "cons_locking t = cons_locking s" "consst.more t = consst.more s"
  using assms by (cases s; cases t; simp add: quiet_def silent_def)+

lemma cgaputc_quiet: "cgaputc c s = Inr t \<Longrightarrow> quiet s t"
  by (auto simp: cgaputc_def quiet_def case_prod_unfold Let_def split: if_splits)

lemma consputc_quiet: "consputc c s = Inr t \<Longrightarrow> quiet s t"
  unfolding consputc_def quiet_def
  by (auto split: if_splits dest!: cgaputc_quiet simp: quiet_def)

text \<open>The display controller reports a cell of the screen, whenever the cursor is read.\<close>

definition cga_ok :: "'a devst_scheme \<Rightarrow> bool" where
  "cga_ok s \<longleftrightarrow> (\<forall>t. cursor (port_in s t (CRTPORT + 1)) (port_in s (t + 2) (CRTPORT + 1)) < 24 * 80)"

lemma cgaputc_runs:
  assumes "cursor (port_in s (Suc (clk s)) (CRTPORT + 1)) (port_in s (Suc (Suc (Suc (clk s)))) (CRTPORT + 1)) < 24 * 80"
  shows "\<exists>t q. cgaputc c s = Inr t \<and> q < 24 * 80
     \<and> bus_out t = bus_out s @ [Out8 CRTPORT 14, Out8 CRTPORT 15, Out8 CRTPORT 14,
         Out8 (CRTPORT + 1) (of_nat (q div 256)), Out8 CRTPORT 15, Out8 (CRTPORT + 1) (of_nat q)]
     \<and> crt t q = 0x20 OR 0x0700 \<and> (\<forall>k \<ge> 24 * 80. crt t k = crt s k)
     \<and> (c \<noteq> newline \<and> c \<noteq> BACKSPACE \<longrightarrow> q > 0 \<and> crt t (q - 1) = (word_of_int c AND 0xff) OR 0x0700)"
proof -
  obtain p m where a: "cga_advance c (cursor (port_in s (Suc (clk s)) (CRTPORT + 1)) (port_in s (Suc (Suc (Suc (clk s)))) (CRTPORT + 1))) (crt s) = (p, m)"
    by (metis surj_pair)
  obtain q m' where b: "cga_scroll p m = (q, m')" by (metis surj_pair)
  note A = advance_bounds[OF assms a] and B = scroll_bounds[OF advance_bounds(1)[OF assms a] b]
  have p: "\<not> 2000 < p" using A(1) by simp
  define t where "t = (outbs [(CRTPORT, 14), (CRTPORT + 1, of_nat (q div 256)), (CRTPORT, 15), (CRTPORT + 1, of_nat q)]
     (snd (inb (CRTPORT + 1) (outb CRTPORT 15 (snd (inb (CRTPORT + 1) (outb CRTPORT 14 s)))))))\<lparr>crt := m'(q := 0x20 OR 0x0700)\<rparr>"
  have t: "cgaputc c s = Inr t"
    using a b p by (simp add: cgaputc_def Let_def case_prod_unfold outb_def t_def)
  have "bus_out t = bus_out s @ [Out8 CRTPORT 14, Out8 CRTPORT 15, Out8 CRTPORT 14,
         Out8 (CRTPORT + 1) (of_nat (q div 256)), Out8 CRTPORT 15, Out8 (CRTPORT + 1) (of_nat q)]"
    by (simp add: t_def outb_def)
  moreover have "crt t = m'(q := 0x20 OR 0x0700)" by (simp add: t_def)
  moreover have "\<forall>k \<ge> 24 * 80. (m'(q := 0x20 OR 0x0700)) k = crt s k" using A(2) B(1,2) by auto
  moreover have "c \<noteq> newline \<and> c \<noteq> BACKSPACE \<longrightarrow> q > 0 \<and> (m'(q := 0x20 OR 0x0700)) (q - 1) = (word_of_int c AND 0xff) OR 0x0700"
    using A(3) B(3) by auto
  ultimately show ?thesis using t B(1) by auto
qed

lemma quiet_cga_ok: "quiet s t \<Longrightarrow> cga_ok t = cga_ok s"
  by (simp add: cga_ok_def quiet_frame)

lemma consputc_runs:
  assumes "cga_ok s" "\<not> panicked s"
  shows "\<exists>t. consputc c s = Inr t \<and> quiet s t"
proof -
  let ?u = "if c = BACKSPACE then uartputc 8 (uartputc 32 (uartputc 8 s)) else uartputc c s"
  have "quiet s ?u" by (simp add: quiet_def)
  then have "cga_ok ?u" using assms(1) quiet_cga_ok by blast
  then have "\<exists>t. cgaputc c ?u = Inr t"
    using cgaputc_runs[of ?u c] unfolding cga_ok_def by (auto dest: spec[of _ "Suc (clk ?u)"])
  then obtain t where "consputc c s = Inr t" using assms(2) by (auto simp: consputc_def)
  then show ?thesis using consputc_quiet by blast
qed

section \<open>The input ring\<close>

text \<open>The \<open>n\<close> bytes of the ring from index \<open>a\<close>. The indices are counters that wrap at \<open>2 ^ 32\<close>.\<close>

definition ring_seg :: "uchar list \<Rightarrow> uint \<Rightarrow> nat \<Rightarrow> uchar list" where
  "ring_seg d a n = map (\<lambda>k. d ! unat ((a + of_nat k) mod INPUT_BUF)) [0..<n]"

lemma length_ring_seg [simp]: "length (ring_seg d a n) = n"
  by (simp add: ring_seg_def)

lemma ring_seg_0 [simp]: "ring_seg d a 0 = []"
  by (simp add: ring_seg_def)

lemma ring_seg_Suc: "ring_seg d a (Suc n) = ring_seg d a n @ [d ! unat ((a + of_nat n) mod INPUT_BUF)]"
  by (simp add: ring_seg_def)

lemma ring_seg_Cons: "ring_seg d a (Suc n) = d ! unat (a mod INPUT_BUF) # ring_seg d (a + 1) n"
  by (simp add: ring_seg_def upt_conv_Cons map_Suc_upt[symmetric] algebra_simps del: upt_Suc)

lemma ring_seg_append: "ring_seg d a n @ ring_seg d (a + of_nat n) k = ring_seg d a (n + k)"
  by (induction k) (simp_all add: ring_seg_Suc algebra_simps)

lemma ring_pos: "unat ((a + of_nat k :: uint) mod INPUT_BUF) = (unat a + k) mod 128"
proof -
  have "(unat a + k) mod 2 ^ 32 mod 128 = (unat a + k) mod 128"
    by (rule mod_mod_cancel) simp
  then show ?thesis by (simp add: unat_mod unat_word_ariths unat_of_nat mod_simps)
qed

lemma ring_seg_write:
  assumes "length d = 128" "n < 128"
  shows "ring_seg (d[unat ((a + of_nat n) mod INPUT_BUF) := b]) a n = ring_seg d a n"
    "(d[unat ((a + of_nat n) mod INPUT_BUF) := b]) ! unat ((a + of_nat n) mod INPUT_BUF) = b"
proof -
  have ne: "(unat a + n) mod 128 \<noteq> (unat a + k) mod 128" if "k < n" for k
    using ring_distinct[of n 128 k "unat a"] assms(2) that by linarith
  show "ring_seg (d[unat ((a + of_nat n) mod INPUT_BUF) := b]) a n = ring_seg d a n"
    by (simp add: ring_seg_def ring_pos ne)
  show "(d[unat ((a + of_nat n) mod INPUT_BUF) := b]) ! unat ((a + of_nat n) mod INPUT_BUF) = b"
    using assms(1) by (simp add: ring_pos)
qed

section \<open>The line editor\<close>

text \<open>
  The specification: \<open>com\<close> is what readers may take, \<open>ed\<close> the line being edited. Control-U
  drops the line, backspace its last byte; a byte is added while there is room for it, and a
  newline, a control-D or a full buffer commits the line.
\<close>

definition edit :: "int \<Rightarrow> uchar list \<times> uchar list \<Rightarrow> uchar list \<times> uchar list" where
  "edit c = (\<lambda>(com, ed).
     if c = ctl_P then (com, ed)
     else if c = ctl_U then (com, [])
     else if c = ctl_H \<or> c = 0x7f then (com, butlast ed)
     else if c \<noteq> 0 \<and> length com + length ed < 128 then
       let c = (if c = 13 then newline else c); ed = ed @ [word_of_int c] in
       if c = newline \<or> c = ctl_D \<or> length com + length ed = 128 then (com @ ed, []) else (com, ed)
     else (com, ed))"

definition committed :: "'a consst_scheme \<Rightarrow> uchar list" where
  "committed s = ring_seg (in_buf s) (in_r s) (unat (in_w s - in_r s))"

definition editing :: "'a consst_scheme \<Rightarrow> uchar list" where
  "editing s = ring_seg (in_buf s) (in_w s) (unat (in_e s - in_w s))"

text \<open>The invariant: the indices are in order, and the line being edited is one line.\<close>

definition input_ok :: "'a consst_scheme \<Rightarrow> bool" where
  "input_ok s \<longleftrightarrow> length (in_buf s) = 128
     \<and> unat (in_w s - in_r s) + unat (in_e s - in_w s) \<le> 128
     \<and> word_of_int newline \<notin> set (editing s)"

lemma index_sums:
  assumes "unat (w - r) + unat (e - w) \<le> (128 :: nat)"
  shows "unat (e - r :: uint) = unat (w - r) + unat (e - w)"
proof -
  have "e - r = (w - r) + (e - w)" by simp
  then show ?thesis using assms unat_add_small[of "w - r" "unat (e - w)"] by simp
qed

lemma input_frame:
  assumes "quiet s t"
  shows "committed t = committed s" "editing t = editing s" "input_ok t = input_ok s"
  using quiet_frame[OF assms] by (simp_all add: committed_def editing_def input_ok_def)

lemma silent_input [simp]:
  "silent (s\<lparr>in_e := x\<rparr>) = (silent s)\<lparr>in_e := x\<rparr>" "silent (s\<lparr>in_w := x\<rparr>) = (silent s)\<lparr>in_w := x\<rparr>"
  "silent (s\<lparr>in_buf := d\<rparr>) = (silent s)\<lparr>in_buf := d\<rparr>"
  by (simp_all add: silent_def)

lemma cga_ok_upd [simp]: "cga_ok (s\<lparr>in_e := x\<rparr>) = cga_ok s" "cga_ok (s\<lparr>in_w := x\<rparr>) = cga_ok s"
  "cga_ok (s\<lparr>in_buf := d\<rparr>) = cga_ok s"
  by (simp_all add: cga_ok_def)

lemma edit_end:
  assumes "unat (e - w :: uint) = Suc n"
  shows "e \<noteq> w" "e - 1 = w + of_nat n" "unat ((e - 1) - w) = n" "e = w + of_nat (Suc n)"
proof -
  have "of_nat (unat (e - w)) = e - w" by simp
  then have "e - w = of_nat (Suc n)" by (simp only: assms)
  then show e: "e = w + of_nat (Suc n)" by (simp add: algebra_simps)
  then show "e - 1 = w + of_nat n" by simp
  moreover have "n < 2 ^ 32" using assms unsigned_less[of "e - w", where ?'a = nat] by simp
  ultimately show "unat ((e - 1) - w) = n" by (simp add: unat_of_nat take_bit_nat_eq_self)
  show "e \<noteq> w" using assms by auto
qed

lemma editing_Suc:
  assumes "unat (in_e s - in_w s) = Suc n"
  shows "editing s = ring_seg (in_buf s) (in_w s) n @ [in_buf s ! unat ((in_e s - 1) mod INPUT_BUF)]"
    "editing (s\<lparr>in_e := in_e s - 1\<rparr>) = ring_seg (in_buf s) (in_w s) n"
  using edit_end[OF assms] assms by (simp_all add: editing_def ring_seg_Suc)

lemma input_ok_drop:
  assumes "input_ok s" "unat (in_e s - in_w s) = Suc n"
  shows "input_ok (s\<lparr>in_e := in_e s - 1\<rparr>)" "committed (s\<lparr>in_e := in_e s - 1\<rparr>) = committed s"
    "editing (s\<lparr>in_e := in_e s - 1\<rparr>) = butlast (editing s)"
  using assms edit_end(3)[OF assms(2)] editing_Suc[OF assms(2)]
  by (auto simp: input_ok_def committed_def)

lemma kill_line_runs:
  assumes "unat (in_e s - in_w s) = n" "input_ok s" "cga_ok s" "\<not> panicked s"
  shows "\<exists>t. kill_line n s = Inr t \<and> quiet (s\<lparr>in_e := in_w s\<rparr>) t"
  using assms
proof (induction n arbitrary: s)
  case 0
  then have "in_e s = in_w s" by (simp add: unat_eq_0)
  then have "s\<lparr>in_e := in_w s\<rparr> = s" by (cases s) simp
  then show ?case by (simp add: quiet_def)
next
  case (Suc n)
  let ?s = "s\<lparr>in_e := in_e s - 1\<rparr>"
  obtain u where u: "consputc BACKSPACE ?s = Inr u" "quiet ?s u"
    using consputc_runs[of ?s BACKSPACE] Suc.prems by auto
  note F = quiet_frame[OF u(2)]
  have "unat (in_e u - in_w u) = n" using edit_end(3)[OF Suc.prems(1)] F by simp
  moreover have "input_ok u" using input_ok_drop(1)[OF Suc.prems(2,1)] input_frame(3)[OF u(2)] by simp
  moreover have "cga_ok u" "\<not> panicked u" using quiet_cga_ok[OF u(2)] Suc.prems F by simp_all
  ultimately obtain t where t: "kill_line n u = Inr t" "quiet (u\<lparr>in_e := in_w u\<rparr>) t"
    using Suc.IH by blast
  have "in_buf s ! unat ((in_e s - 1) mod INPUT_BUF) \<noteq> word_of_int newline"
    using Suc.prems(2) editing_Suc(1)[OF Suc.prems(1)] by (auto simp: input_ok_def)
  then have "kill_line (Suc n) s = Inr t"
    using edit_end(1)[OF Suc.prems(1)] u(1) t(1) by simp
  moreover have "quiet (s\<lparr>in_e := in_w s\<rparr>) t" using t(2) u(2) F by (simp add: quiet_def)
  ultimately show ?case by blast
qed

text \<open>The room test of the code, on the specification.\<close>

lemma room_iff:
  assumes "unat (in_w s - in_r s) + unat (in_e s - in_w s) \<le> 128"
  shows "in_e s - in_r s < INPUT_BUF \<longleftrightarrow> length (committed s) + length (editing s) < 128"
    "in_e s = in_r s + INPUT_BUF \<longleftrightarrow> length (committed s) + length (editing s) = 128"
proof -
  have e: "unat (in_e s - in_r s) = length (committed s) + length (editing s)"
    using index_sums[OF assms] by (simp add: committed_def editing_def)
  then show "in_e s - in_r s < INPUT_BUF \<longleftrightarrow> length (committed s) + length (editing s) < 128"
    by (simp add: word_less_nat_alt)
  have "in_e s = in_r s + INPUT_BUF \<longleftrightarrow> in_e s - in_r s = INPUT_BUF" by (auto simp: algebra_simps)
  also have "\<dots> \<longleftrightarrow> unat (in_e s - in_r s) = 128" by (simp add: word_unat_eq_iff)
  finally show "in_e s = in_r s + INPUT_BUF \<longleftrightarrow> length (committed s) + length (editing s) = 128"
    using e by simp
qed

definition add_byte :: "uchar \<Rightarrow> 'a consst_scheme \<Rightarrow> 'a consst_scheme" where
  "add_byte b s = s\<lparr>in_buf := (in_buf s)[unat (in_e s mod INPUT_BUF) := b], in_e := in_e s + 1\<rparr>"

lemma add_byte_lists:
  assumes "input_ok s" "length (committed s) + length (editing s) < 128"
  shows "committed (add_byte b s) = committed s" "editing (add_byte b s) = editing s @ [b]"
    "length (in_buf (add_byte b s)) = 128"
    "unat (in_w (add_byte b s) - in_r (add_byte b s)) + unat (in_e (add_byte b s) - in_w (add_byte b s)) \<le> 128"
proof -
  let ?d = "in_buf s" and ?r = "in_r s" and ?w = "in_w s" and ?e = "in_e s"
  let ?c = "unat (?w - ?r)" and ?n = "unat (?e - ?w)"
  have d: "length ?d = 128" and l: "?c + ?n < 128"
    using assms by (simp_all add: input_ok_def committed_def editing_def)
  have w: "?w = ?r + of_nat ?c" and ew: "?e = ?w + of_nat ?n" by simp_all
  have er: "?e = ?r + of_nat (?c + ?n)" by simp
  have n1: "unat (?e + 1 - ?w) = Suc ?n"
    using unat_add_small[of "?e - ?w" 1] l by (simp add: algebra_simps)
  let ?d' = "?d[unat (?e mod INPUT_BUF) := b]"
  have "ring_seg ?d' ?r (?c + ?n) = ring_seg ?d ?r (?c + ?n)"
    using ring_seg_write(1)[OF d l, of ?r b] er by simp
  then have "ring_seg ?d' ?r ?c = ring_seg ?d ?r ?c"
    by (simp add: ring_seg_append[symmetric])
  then show "committed (add_byte b s) = committed s" by (simp add: committed_def add_byte_def)
  have n: "?n < 128" using l by simp
  have "ring_seg ?d' ?w (Suc ?n) = ring_seg ?d ?w ?n @ [b]"
    using ring_seg_write[OF d n, of ?w b] ew by (simp add: ring_seg_Suc)
  then show "editing (add_byte b s) = editing s @ [b]"
    using n1 by (simp add: editing_def add_byte_def)
  show "length (in_buf (add_byte b s)) = 128" using d by (simp add: add_byte_def)
  show "unat (in_w (add_byte b s) - in_r (add_byte b s)) + unat (in_e (add_byte b s) - in_w (add_byte b s)) \<le> 128"
    using n1 l by (simp add: add_byte_def)
qed

lemma commit_lists:
  assumes "length (in_buf s) = 128" "unat (in_w s - in_r s) + unat (in_e s - in_w s) \<le> 128"
  shows "committed (s\<lparr>in_w := in_e s\<rparr>) = committed s @ editing s" "editing (s\<lparr>in_w := in_e s\<rparr>) = []"
    "input_ok (s\<lparr>in_w := in_e s\<rparr>)"
proof -
  have "in_w s = in_r s + of_nat (unat (in_w s - in_r s))" by simp
  then show "committed (s\<lparr>in_w := in_e s\<rparr>) = committed s @ editing s"
    using ring_seg_append[of "in_buf s" "in_r s" "unat (in_w s - in_r s)" "unat (in_e s - in_w s)"] index_sums[OF assms(2)]
    by (simp add: committed_def editing_def)
  show e: "editing (s\<lparr>in_w := in_e s\<rparr>) = []" by (simp add: editing_def)
  show "input_ok (s\<lparr>in_w := in_e s\<rparr>)"
    using assms index_sums[OF assms(2)] e by (simp add: input_ok_def)
qed

lemma code_eq: "\<lbrakk>0 \<le> c; c < 256; 0 \<le> d; d < 256\<rbrakk> \<Longrightarrow> (word_of_int c :: uchar) = word_of_int d \<longleftrightarrow> c = d"
  by (simp add: word_of_int_eq_iff take_bit_int_eq_self)

lemma committed_wakeup [simp]: "committed (wakeup1 ch s) = committed s" "editing (wakeup1 ch s) = editing s"
  "input_ok (wakeup1 ch s) = input_ok s"
  by (simp_all add: wakeup1_def committed_def editing_def input_ok_def)

lemma add_char_runs:
  assumes "input_ok s" "cga_ok s" "\<not> panicked s" "L_ptable \<notin> held s" "0 \<le> c" "c < 256"
    and room: "length (committed s) + length (editing s) < 128" and "c \<noteq> 13"
  shows "\<exists>t. bind_res (consputc c (add_byte (word_of_int c) s)) (\<lambda>s.
       if c = newline \<or> c = ctl_D \<or> in_e s = in_r s + INPUT_BUF then wakeup Ch_input (s\<lparr>in_w := in_e s\<rparr>) else Inr s) = Inr t
     \<and> input_ok t
     \<and> (let ed = editing s @ [word_of_int c] in
        if c = newline \<or> c = ctl_D \<or> length (committed s) + length ed = 128
        then committed t = committed s @ ed \<and> editing t = []
        else committed t = committed s \<and> editing t = ed)"
proof -
  let ?b = "word_of_int c :: uchar"
  let ?s = "add_byte ?b s"
  note A = add_byte_lists[OF assms(1) room, of ?b]
  have "cga_ok ?s" "\<not> panicked ?s" using assms(2,3) by (simp_all add: add_byte_def cga_ok_def)
  then obtain u where u: "consputc c ?s = Inr u" "quiet ?s u" using consputc_runs by blast
  note F = quiet_frame[OF u(2)] and I = input_frame[OF u(2)]
  have le: "unat (in_w u - in_r u) + unat (in_e u - in_w u) \<le> 128" using A(4) F by simp
  have full: "in_e u = in_r u + INPUT_BUF \<longleftrightarrow> length (committed s) + length (editing s @ [?b]) = 128"
    using room_iff(2)[OF le] A I by simp
  have h: "L_ptable \<notin> held u" using assms(4) F by (simp add: add_byte_def)
  show ?thesis
  proof (cases "c = newline \<or> c = ctl_D \<or> length (committed s) + length (editing s @ [?b]) = 128")
    case True
    have "length (in_buf u) = 128" using A(3) F by simp
    note C = commit_lists[OF this le]
    have "wakeup Ch_input (u\<lparr>in_w := in_e u\<rparr>) = Inr (wakeup1 Ch_input (u\<lparr>in_w := in_e u\<rparr>))" using h by simp
    then show ?thesis using u(1) True full C A I by (auto simp: Let_def)
  next
    case False
    have "?b \<noteq> word_of_int newline" using code_eq[of c newline] False assms(5,6) by simp
    then have "input_ok u" using assms(1) A F I(2) le by (auto simp: input_ok_def)
    then show ?thesis using u(1) False full A I by (auto simp: Let_def)
  qed
qed

text \<open>The cases of the editor: a character is erased, or one is typed.\<close>

lemma erase_edits:
  assumes "input_ok s" "cga_ok s" "\<not> panicked s" "c = ctl_H \<or> c = 0x7f"
  shows "\<exists>t. cons_char c s = Inr t \<and> input_ok t \<and> (committed t, editing t) = edit c (committed s, editing s)"
proof (cases "in_e s = in_w s")
  case True
  then have "editing s = []" by (simp add: editing_def)
  then show ?thesis using True assms(1,4) by (auto simp: cons_char_def edit_def)
next
  case False
  then have "unat (in_e s - in_w s) \<noteq> 0" by (simp add: unat_eq_0)
  then obtain n where n: "unat (in_e s - in_w s) = Suc n" by (cases "unat (in_e s - in_w s)") auto
  obtain t where t: "consputc BACKSPACE (s\<lparr>in_e := in_e s - 1\<rparr>) = Inr t" "quiet (s\<lparr>in_e := in_e s - 1\<rparr>) t"
    using consputc_runs[of "s\<lparr>in_e := in_e s - 1\<rparr>" BACKSPACE] assms(2,3) by auto
  then show ?thesis
    using input_frame[OF t(2)] input_ok_drop[OF assms(1) n] assms(4) False by (auto simp: cons_char_def edit_def)
qed

lemma typed_edits:
  assumes "input_ok s" "cga_ok s" "\<not> panicked s" "L_ptable \<notin> held s" "0 \<le> c" "c < 256"
    and k: "c \<noteq> ctl_P" "c \<noteq> ctl_U" "c \<noteq> ctl_H" "c \<noteq> 0x7f"
  shows "\<exists>t. cons_char c s = Inr t \<and> input_ok t \<and> (committed t, editing t) = edit c (committed s, editing s)"
proof -
  have le: "unat (in_w s - in_r s) + unat (in_e s - in_w s) \<le> 128" using assms(1) by (simp add: input_ok_def)
  note R = room_iff(1)[OF le]
  let ?c = "if c = 13 then newline else c"
  have c: "0 \<le> ?c" "?c < 256" "?c \<noteq> 13" using assms(5,6) by simp_all
  show ?thesis
  proof (cases "c \<noteq> 0 \<and> length (committed s) + length (editing s) < 128")
    case True
    note A = add_char_runs[OF assms(1-4) c(1,2) _ c(3)]
    have eq: "cons_char c s = bind_res (consputc ?c (add_byte (word_of_int ?c) s)) (\<lambda>s.
        if ?c = newline \<or> ?c = ctl_D \<or> in_e s = in_r s + INPUT_BUF then wakeup Ch_input (s\<lparr>in_w := in_e s\<rparr>) else Inr s)"
      using k True R by (simp add: cons_char_def add_byte_def Let_def)
    then obtain t where t: "cons_char c s = Inr t" "input_ok t"
      and l: "let ed = editing s @ [word_of_int ?c] in
        if ?c = newline \<or> ?c = ctl_D \<or> length (committed s) + length ed = 128
        then committed t = committed s @ ed \<and> editing t = []
        else committed t = committed s \<and> editing t = ed"
      using A[OF conjunct2[OF True]] unfolding eq[symmetric] by blast
    have "(committed t, editing t) = edit c (committed s, editing s)"
      using l True k unfolding edit_def Let_def by (simp only: split_conv if_False if_True simp_thms) (simp split: if_splits)
    then show ?thesis using t by blast
  next
    case False
    then show ?thesis using k R assms(1) by (auto simp: cons_char_def edit_def)
  qed
qed

text \<open>
  C23: the line editor. For every character code, the \<open>switch\<close> of \<open>consoleintr\<close> returns, keeps
  the invariant of the input ring, and changes the committed input and the line being edited
  exactly as the specification \<open>edit\<close> says: the display may do what it likes as long as it
  reports a cell of the screen for the cursor.
\<close>

theorem console_line_editor:
  assumes "input_ok s" "cga_ok s" "\<not> panicked s" "L_ptable \<notin> held s" "0 \<le> c" "c < 256"
  shows "\<exists>t. cons_char c s = Inr t \<and> input_ok t
     \<and> (committed t, editing t) = edit c (committed s, editing s)"
proof -
  consider "c = ctl_P" | "c = ctl_U" | "c = ctl_H \<or> c = 0x7f"
    | "c \<noteq> ctl_P" "c \<noteq> ctl_U" "c \<noteq> ctl_H" "c \<noteq> 0x7f" by blast
  then show ?thesis
  proof cases
    case 1
    then show ?thesis using assms(1) by (simp add: cons_char_def edit_def)
  next
    case 2
    obtain t where t: "kill_line (unat (in_e s - in_w s)) s = Inr t" "quiet (s\<lparr>in_e := in_w s\<rparr>) t"
      using kill_line_runs assms by blast
    have "input_ok t" "committed t = committed s" "editing t = []"
      using input_frame[OF t(2)] assms(1) by (simp_all add: input_ok_def committed_def editing_def)
    then show ?thesis using t(1) 2 by (simp add: cons_char_def edit_def)
  next
    case 3
    then show ?thesis by (rule erase_edits[OF assms(1-3)])
  next
    case 4
    then show ?thesis by (rule typed_edits[OF assms])
  qed
qed

definition console_idle :: consst where
  "console_idle = \<lparr>held = {}, ptable = [], curproc = None, port_in = (\<lambda>_ _. 0), port_in32 = (\<lambda>_ _. 0),
     mmio_in = (\<lambda>_ _. 0), clk = 0, bus_out = [], irqmask = 0xFFFB, ismp = False, ioapicid = 0, lapic = 0,
     apicids = [], cons_locking = True, panicked = False, uart = True, crt = (\<lambda>_. 0),
     in_buf = replicate 128 0, in_r = 0, in_w = 0, in_e = 0, cons_devsw = True\<rparr>"

lemma console_idle_ok:
  "input_ok console_idle" "cga_ok console_idle" "committed console_idle = []" "editing console_idle = []"
  by (simp_all add: input_ok_def cga_ok_def committed_def editing_def console_idle_def cursor_value)

theorem console_line_editor_witness:
  "\<exists>t. cons_char 65 console_idle = Inr t \<and> input_ok t \<and> (committed t, editing t) = ([], [65])"
  using console_line_editor[of console_idle 65] console_idle_ok
  by (simp add: console_idle_def edit_def)

text \<open>
  C36: the cursor stays on the screen. If the display reports a cell of the 80 by 24 screen,
  \<open>cgaputc\<close> does not panic, sends back a cell of the screen, writes no memory beyond the
  screen, and leaves a printed character just before the new cursor, even when it has scrolled.
\<close>

theorem cgaputc_on_screen:
  assumes "cursor (port_in s (Suc (clk s)) (CRTPORT + 1)) (port_in s (Suc (Suc (Suc (clk s)))) (CRTPORT + 1)) < 24 * 80"
  shows "\<exists>t q. cgaputc c s = Inr t \<and> q < 24 * 80
     \<and> (\<exists>hi lo. bus_out t = bus_out s @ [Out8 CRTPORT 14, Out8 CRTPORT 15, Out8 CRTPORT 14,
          Out8 (CRTPORT + 1) hi, Out8 CRTPORT 15, Out8 (CRTPORT + 1) lo] \<and> cursor hi lo = q)
     \<and> crt t q = 0x20 OR 0x0700 \<and> (\<forall>k \<ge> 24 * 80. crt t k = crt s k)
     \<and> (c \<noteq> newline \<and> c \<noteq> BACKSPACE \<longrightarrow> q > 0 \<and> crt t (q - 1) = (word_of_int c AND 0xff) OR 0x0700)"
proof -
  obtain t q where t: "cgaputc c s = Inr t" "q < 24 * 80"
    "bus_out t = bus_out s @ [Out8 CRTPORT 14, Out8 CRTPORT 15, Out8 CRTPORT 14,
         Out8 (CRTPORT + 1) (of_nat (q div 256)), Out8 CRTPORT 15, Out8 (CRTPORT + 1) (of_nat q)]"
    "crt t q = 0x20 OR 0x0700" "\<forall>k \<ge> 24 * 80. crt t k = crt s k"
    "c \<noteq> newline \<and> c \<noteq> BACKSPACE \<longrightarrow> q > 0 \<and> crt t (q - 1) = (word_of_int c AND 0xff) OR 0x0700"
    using cgaputc_runs[OF assms] by blast
  moreover have "cursor (of_nat (q div 256)) (of_nat q) = q" using t(2) by (intro cursor_sent) simp
  ultimately show ?thesis by blast
qed

theorem cgaputc_on_screen_witness:
  "\<exists>t :: consst. \<exists>q > 0. cgaputc 65 console_idle = Inr t \<and> q < 24 * 80 \<and> crt t (q - 1) = (65 AND 0xff) OR 0x0700"
  using cgaputc_on_screen[of console_idle 65] by (auto simp: console_idle_def cursor_value)

section \<open>Reading lines\<close>

text \<open>What a read of \<open>n\<close> bytes takes from the committed input, \<open>None\<close> when it has to wait for more;
  \<open>started\<close> tells that some byte was taken before.\<close>

fun line_read :: "bool \<Rightarrow> nat \<Rightarrow> uchar list \<Rightarrow> (uchar list \<times> uchar list) option" where
  "line_read started 0 com = Some ([], com)"
| "line_read started (Suc n) [] = None"
| "line_read started (Suc n) (b # com) =
     (if b = word_of_int ctl_D then Some ([], if started then b # com else com)
      else if b = word_of_int newline then Some ([b], com)
      else map_option (\<lambda>(g, rest). (b # g, rest)) (line_read True n com))"

lemma committed_Cons:
  assumes "in_r s \<noteq> in_w s"
  shows "committed s = in_buf s ! unat (in_r s mod INPUT_BUF) # committed (s\<lparr>in_r := in_r s + 1\<rparr>)"
    "editing (s\<lparr>in_r := in_r s + 1\<rparr>) = editing s"
proof -
  have "unat (in_w s - in_r s) \<noteq> 0" using assms by (simp add: unat_eq_0)
  then have "unat (in_w s - in_r s) = Suc (unat (in_w s - in_r s - 1))"
    by (metis add.commute diff_add_cancel unatSuc unat_eq_0)
  moreover have "in_w s - in_r s - 1 = in_w s - (in_r s + 1)" by simp
  ultimately show "committed s = in_buf s ! unat (in_r s mod INPUT_BUF) # committed (s\<lparr>in_r := in_r s + 1\<rparr>)"
    by (simp add: committed_def ring_seg_Cons)
  show "editing (s\<lparr>in_r := in_r s + 1\<rparr>) = editing s" by (simp add: editing_def)
qed

lemma consoleread_loop_returns:
  assumes "line_read (got \<noteq> []) n (committed s) = Some (g, rest)"
  shows "\<exists>r. consoleread_loop n got s = Inr (Done (int (length (got @ g))), got @ g, s\<lparr>in_r := r\<rparr>)
    \<and> committed (s\<lparr>in_r := r\<rparr>) = rest"
  using assms
proof (induction n arbitrary: got s g)
  case 0
  then show ?case by (intro exI[of _ "in_r s"]) simp
next
  case (Suc n)
  then have ne: "in_r s \<noteq> in_w s" by (auto simp: committed_def)
  let ?b = "in_buf s ! unat (in_r s mod INPUT_BUF)" and ?s = "s\<lparr>in_r := in_r s + 1\<rparr>"
  note C = committed_Cons(1)[OF ne]
  consider "?b = word_of_int ctl_D" | "?b \<noteq> word_of_int ctl_D" "?b = word_of_int newline"
    | "?b \<noteq> word_of_int ctl_D" "?b \<noteq> word_of_int newline" by blast
  then show ?case
  proof cases
    case 1
    then show ?thesis
      using Suc.prems ne C by (intro exI[of _ "if got \<noteq> [] then in_r s else in_r s + 1"]) auto
  next
    case 2
    then show ?thesis
      using Suc.prems ne C by (intro exI[of _ "in_r s + 1"]) auto
  next
    case 3
    then obtain g' where g: "g = ?b # g'" "line_read True n (committed ?s) = Some (g', rest)"
      using Suc.prems C by auto
    then obtain r where "consoleread_loop n (got @ [?b]) ?s = Inr (Done (int (length ((got @ [?b]) @ g'))), (got @ [?b]) @ g', ?s\<lparr>in_r := r\<rparr>)"
      "committed (?s\<lparr>in_r := r\<rparr>) = rest"
      using Suc.IH[of "got @ [?b]" ?s g'] by auto
    then show ?thesis using 3 ne g(1) by (intro exI[of _ r]) simp
  qed
qed

lemma line_read_line:
  assumes "word_of_int newline \<notin> set line" "word_of_int ctl_D \<notin> set line"
  shows "n \<le> length line \<Longrightarrow> line_read st n (line @ com) = Some (take n line, drop n line @ com)"
    "n > length line \<Longrightarrow> line_read st n (line @ word_of_int newline # com) = Some (line @ [word_of_int newline], com)"
    "n > length line \<Longrightarrow> line_read st n (line @ word_of_int ctl_D # com)
       = Some (line, if st \<or> line \<noteq> [] then word_of_int ctl_D # com else com)"
  using assms
  by (induction line arbitrary: n st; case_tac n; simp)+

text \<open>
  C37: what a reader gets. When the committed input starts with a line (and a reader wants all
  of it), \<open>consoleread\<close> returns the line with its newline and leaves the rest; when it wants
  less, it gets that many bytes and the rest of the line stays; a control-D ends the read, and
  stays in the buffer when bytes were read before it, so that the next read returns 0. The caller's
  \<open>iunlock\<close> and \<open>ilock\<close> may do anything to the state that leaves the committed input alone; the second has to return
  only from the states that the read leads to.
\<close>

theorem consoleread_line:
  assumes "iu s = Inr u" "committed u = committed s" "L_cons \<notin> held u"
    and "\<And>r. \<exists>y. il (u\<lparr>in_r := r\<rparr>) = Inr y \<and> committed y = committed (u\<lparr>in_r := r\<rparr>)"
    and "word_of_int newline \<notin> set line" "word_of_int ctl_D \<notin> set line"
    and "committed s = line @ b # com" "b = word_of_int newline \<or> b = word_of_int ctl_D"
  shows "\<exists>got t. consoleread iu il n s = Inr (Done (int (length got)), got, t)
     \<and> (if n \<le> int (length line) then got = take (nat n) line \<and> committed t = drop (nat n) line @ b # com
        else if b = word_of_int newline then got = line @ [b] \<and> committed t = com
        else got = line \<and> committed t = (if line = [] then com else b # com))"
proof -
  let ?u = "u\<lparr>held := insert L_cons (held u)\<rparr>"
  have cu: "committed ?u = line @ b # com" using assms(2,7) by (simp add: committed_def)
  have "\<exists>got rest. line_read False (nat n) (committed ?u) = Some (got, rest)
     \<and> (if n \<le> int (length line) then got = take (nat n) line \<and> rest = drop (nat n) line @ b # com
        else if b = word_of_int newline then got = line @ [b] \<and> rest = com
        else got = line \<and> rest = (if line = [] then com else b # com))"
    using line_read_line[OF assms(5,6), of "nat n"] assms(8) unfolding cu
    by (cases "n \<le> int (length line)") (auto simp: nat_le_iff zless_nat_eq_int_zless)
  then obtain got rest where g: "line_read False (nat n) (committed ?u) = Some (got, rest)"
    and d: "if n \<le> int (length line) then got = take (nat n) line \<and> rest = drop (nat n) line @ b # com
        else if b = word_of_int newline then got = line @ [b] \<and> rest = com
        else got = line \<and> rest = (if line = [] then com else b # com)" by blast
  obtain r where r: "consoleread_loop (nat n) [] ?u = Inr (Done (int (length got)), got, ?u\<lparr>in_r := r\<rparr>)"
    "committed (?u\<lparr>in_r := r\<rparr>) = rest"
    using consoleread_loop_returns[of "[]" "nat n" ?u got rest] g by auto
  obtain y where y: "il (u\<lparr>in_r := r\<rparr>) = Inr y" "committed y = committed (u\<lparr>in_r := r\<rparr>)"
    using assms(4) by blast
  have "?u\<lparr>in_r := r\<rparr>\<lparr>held := insert L_cons (held u) - {L_cons}\<rparr> = u\<lparr>in_r := r\<rparr>"
    using assms(3) by (cases u) auto
  then have "consoleread iu il n s = Inr (Done (int (length got)), got, y)"
    using assms(1,3) r(1) y(1) by (simp add: consoleread_def)
  moreover have "committed y = rest" using y(2) r(2) by (simp add: committed_def)
  ultimately show ?thesis using d by blast
qed

text \<open>The inode's lock stands for a spin lock that is let go and taken again, so the second fails where it is held.\<close>

definition console_hi :: consst where
  "console_hi = console_idle\<lparr>held := {L_icache}, in_buf := [104, 105, 10] @ replicate 125 0, in_w := 3, in_e := 3\<rparr>"

theorem consoleread_line_witness:
  "(\<exists>t. consoleread (release L_icache) (acquire L_icache) 10 console_hi = Inr (Done 3, [104, 105, 10], t) \<and> committed t = [])
    \<and> (\<exists>e. acquire L_icache console_hi = Inl e)"
proof -
  let ?u = "console_hi\<lparr>held := {}\<rparr>"
  have c: "committed ?u = committed console_hi" "committed (?u\<lparr>in_r := r, held := {L_icache}\<rparr>) = committed (?u\<lparr>in_r := r\<rparr>)" for r
    by (simp_all add: committed_def)
  have u: "release L_icache console_hi = Inr ?u" "L_cons \<notin> held ?u" "acquire L_icache (?u\<lparr>in_r := r\<rparr>) = Inr (?u\<lparr>in_r := r, held := {L_icache}\<rparr>)" for r
    by (simp_all add: console_hi_def)
  have "committed console_hi = [104, 105] @ 10 # []"
    by (simp add: console_hi_def console_idle_def committed_def ring_seg_def upt_rec)
  then have "\<exists>got t. consoleread (release L_icache) (acquire L_icache) 10 console_hi = Inr (Done (int (length got)), got, t)
     \<and> got = [104, 105] @ [10] \<and> committed t = []"
    using consoleread_line[of "release L_icache" console_hi ?u "acquire L_icache" "[104, 105]" 10 "[]" 10] u c by auto
  moreover have "acquire L_icache console_hi = Inl (Panic ''acquire'')" by (simp add: console_hi_def acquire_def)
  ultimately show ?thesis by auto
qed

end
