(* ===== verification/Kbd.thy ===== *)
theory Kbd
  imports Console
begin

text \<open>
  The keyboard (\<open>kbd.c\<close>, \<open>kbd.h\<close>): the tables of scan codes and the translation of one scan
  code under the current modifiers.
\<close>

record kbdst = consst +
  kshift :: uint

abbreviation (input) K_SHIFT :: uint where "K_SHIFT \<equiv> 1"
abbreviation (input) K_CTL :: uint where "K_CTL \<equiv> 2"
abbreviation (input) K_ALT :: uint where "K_ALT \<equiv> 4"
abbreviation (input) K_CAPSLOCK :: uint where "K_CAPSLOCK \<equiv> 8"
abbreviation (input) K_NUMLOCK :: uint where "K_NUMLOCK \<equiv> 16"
abbreviation (input) K_SCROLLLOCK :: uint where "K_SCROLLLOCK \<equiv> 32"
abbreviation (input) K_E0ESC :: uint where "K_E0ESC \<equiv> 64"

text \<open>An array of 256 entries: the first ones in order, then entries by index, the others 0.\<close>

definition table256 :: "uchar list \<Rightarrow> (nat \<times> uchar) list \<Rightarrow> uchar list" where
  "table256 xs es = fold (\<lambda>(i, v) t. t[i := v]) es (xs @ replicate (256 - length xs) 0)"

definition chars8 :: "string \<Rightarrow> uchar list" where
  "chars8 = map of_char"

definition shiftcode :: "uchar list" where
  "shiftcode = table256 [] [(0x1D, 2), (0x2A, 1), (0x36, 1), (0x38, 4), (0x9D, 2), (0xB8, 4)]"

definition togglecode :: "uchar list" where
  "togglecode = table256 [] [(0x3A, 8), (0x45, 16), (0x46, 32)]"

definition keypad :: "(nat \<times> uchar) list" where
  "keypad = [(0xC8, 0xE2), (0xD0, 0xE3), (0xC9, 0xE6), (0xD1, 0xE7), (0xCB, 0xE4), (0xCD, 0xE5),
     (0x97, 0xE0), (0xCF, 0xE1), (0xD2, 0xE8), (0xD3, 0xE9)]"

definition normalmap :: "uchar list" where
  "normalmap = table256
     ([0, 0x1B] @ chars8 ''1234567890-='' @ [8, 9] @ chars8 ''qwertyuiop[]'' @ [10, 0] @ chars8 ''asdfghjkl;'' @ [39, 96, 0, 92]
      @ chars8 ''zxcvbnm,./'' @ [0] @ chars8 ''*'' @ [0] @ chars8 '' '' @ replicate 13 0
      @ chars8 ''789-456+1230.'')
     ([(0x9C, 10), (0xB5, 47)] @ keypad)"

definition shiftmap :: "uchar list" where
  "shiftmap = table256
     ([0, 27] @ chars8 ''!@#$%^&*()_+'' @ [8, 9] @ chars8 ''QWERTYUIOP{}'' @ [10, 0] @ chars8 ''ASDFGHJKL:'' @ [34, 126, 0, 124]
      @ chars8 ''ZXCVBNM<>?'' @ [0] @ chars8 ''*'' @ [0] @ chars8 '' '' @ replicate 13 0
      @ chars8 ''789-456+1230.'')
     ([(0x9C, 10), (0xB5, 47)] @ keypad)"

text \<open>\<open>C(x)\<close> is \<open>x - '@'\<close>.\<close>

definition ctl :: "string \<Rightarrow> uchar list" where
  "ctl = map (\<lambda>c. of_char c - 64)"

definition ctlmap :: "uchar list" where
  "ctlmap = table256
     (replicate 16 0 @ ctl ''QWERTYUIOP'' @ [0, 0, 13, 0] @ ctl ''ASDFGHJKL'' @ [0, 0, 0, 0, 92 - 64]
      @ ctl ''ZXCVBNM'' @ [0, 0] @ ctl ''/'' @ [0, 0])
     ([(0x9C, 13), (0xB5, 47 - 64)] @ keypad)"

definition charcode :: "uint \<Rightarrow> uchar list" where
  "charcode k = [normalmap, shiftmap, ctlmap, ctlmap] ! unat k"

text \<open>The translation of one scan code: the character (0 for none) and the new modifiers.\<close>

definition caps :: "uint \<Rightarrow> uint" where
  "caps c = (if 97 \<le> c \<and> c \<le> 122 then c + 65 - 97 else if 65 \<le> c \<and> c \<le> 90 then c + 97 - 65 else c)"

definition kbd_key :: "uint \<Rightarrow> uint \<Rightarrow> uint \<times> uint" where
  "kbd_key data shift =
     (let shift = shift OR ucast (shiftcode ! unat data);
          shift = shift XOR ucast (togglecode ! unat data);
          c = ucast (charcode (shift AND (K_CTL OR K_SHIFT)) ! unat data)
      in (if shift AND K_CAPSLOCK \<noteq> 0 then caps c else c, shift))"

definition kbd_scan :: "uint \<Rightarrow> uint \<Rightarrow> uint \<times> uint" where
  "kbd_scan data shift =
     (if data = 0xE0 then (0, shift OR K_E0ESC)
      else if data AND 0x80 \<noteq> 0 then
        let data = (if shift AND K_E0ESC \<noteq> 0 then data else data AND 0x7F)
        in (0, shift AND NOT (ucast (shiftcode ! unat data) OR K_E0ESC))
      else if shift AND K_E0ESC \<noteq> 0 then kbd_key (data OR 0x80) (shift AND NOT K_E0ESC)
      else kbd_key data shift)"

definition kbdgetc :: "'a kbdst_scheme \<Rightarrow> int \<times> 'a kbdst_scheme" where
  "kbdgetc s =
     (let (st, s) = inb 0x64 s in
      if st AND 1 = 0 then (-1, s)
      else let (data, s) = inb 0x60 s; (c, shift) = kbd_scan (ucast data) (kshift s)
           in (sint c, s\<lparr>kshift := shift\<rparr>))"

definition kbdintr :: "nat \<Rightarrow> 'a kbdst_scheme \<Rightarrow> 'a kbdst_scheme res" where
  "kbdintr fuel s = consoleintr fuel kbdgetc s"

section \<open>The tables\<close>

lemma fold_update_length: "length (fold (\<lambda>(i, v) t. t[i := v]) es t) = length t"
  by (induction es arbitrary: t) auto

lemma table256_length: "length xs \<le> 256 \<Longrightarrow> length (table256 xs es) = 256"
  by (simp add: table256_def fold_update_length)

lemma table_lengths: "length shiftcode = 256" "length togglecode = 256" "length normalmap = 256"
  "length shiftmap = 256" "length ctlmap = 256"
  by (simp_all add: shiftcode_def togglecode_def normalmap_def shiftmap_def ctlmap_def table256_length
      chars8_def ctl_def)

text \<open>A letter key of the plain table is a letter key of the shifted one, and no modifier.\<close>

lemma letter_keys:
  assumes "i < 256" "97 \<le> normalmap ! i" "normalmap ! i \<le> 122"
  shows "shiftmap ! i = normalmap ! i - 32" "shiftcode ! i = 0" "togglecode ! i = 0" "i < 0x80"
proof -
  let ?ks = "zip normalmap (zip shiftmap (zip shiftcode (zip togglecode [0..<256])))"
  have "list_all (\<lambda>(n, h, k, t, i). 97 \<le> n \<and> n \<le> 122 \<longrightarrow> h = n - 32 \<and> k = 0 \<and> t = 0 \<and> i < 0x80) ?ks"
    by code_simp
  moreover have "(normalmap ! i, shiftmap ! i, shiftcode ! i, togglecode ! i, i) \<in> set ?ks"
    using assms(1) by (auto simp: set_zip table_lengths intro!: exI[of _ i])
  ultimately show "shiftmap ! i = normalmap ! i - 32" "shiftcode ! i = 0" "togglecode ! i = 0" "i < 0x80"
    using assms(2,3) by (auto simp: list_all_iff)
qed

lemma low_bit7: "unat (d :: uint) < 128 \<Longrightarrow> d AND 0x80 = 0"
proof -
  assume "unat d < 128"
  then have "unat (take_bit 7 d) = unat d" by (simp add: unsigned_take_bit_eq take_bit_nat_eq_self)
  then have "take_bit 7 d = d" by (simp only: word_unat_eq_iff)
  then have "\<not> bit d 7" by (metis bit_take_bit_iff less_irrefl)
  then have "d AND 2 ^ 7 = 0" by (simp only: and_exp_eq_0_iff_not_bit not_False_eq_True)
  then show ?thesis by simp
qed

lemma modifier_index:
  assumes "(sh :: uint) AND 2 = 0"
  shows "sh AND (2 OR 1) = (if sh AND 1 \<noteq> 0 then 1 else 0)"
proof -
  have "sh AND 1 = 0 \<or> sh AND 1 = 1" by (simp add: and_one_eq mod2_eq_if)
  moreover have "sh AND (2 OR 1) = (sh AND 2) OR (sh AND 1)" by (rule bit.conj_disj_distrib)
  ultimately show ?thesis using assms by auto
qed

lemma letter_codes:
  assumes "97 \<le> n" "n \<le> (122 :: uchar)"
  shows "caps (ucast n) = ucast n - 32" "caps (ucast (n - 32)) = ucast n" "(ucast (n - 32) :: uint) = ucast n - 32"
proof -
  have n: "97 \<le> unat n" "unat n \<le> 122" using assms by (simp_all add: word_le_nat_alt)
  have w: "unat (ucast n :: uint) = unat n"
    using n by (simp add: unsigned_ucast_eq take_bit_nat_eq_self)
  have s: "unat (n - 32) = unat n - 32" using n by (simp add: unat_sub word_le_nat_alt)
  have t: "unat (ucast n - 32 :: uint) = unat n - 32" using n w by (simp add: unat_sub word_le_nat_alt)
  have "unat (ucast (n - 32) :: uint) = unat (n - 32)"
    using n s by (simp add: unsigned_ucast_eq take_bit_nat_eq_self)
  then show u: "(ucast (n - 32) :: uint) = ucast n - 32" using s t by (simp only: word_unat_eq_iff)
  have "65 \<le> unat n - 32" "unat n - 32 \<le> 90" using n by arith+
  then show "caps (ucast n) = ucast n - 32" "caps (ucast (n - 32)) = ucast n"
    unfolding u using n w t by (simp_all add: caps_def word_le_nat_alt)
qed

text \<open>
  Typing a letter. While no E0 prefix is pending and Control is up, the scan code of a
  letter gives the lower-case letter when Shift and Caps Lock agree and the upper-case letter
  when they differ, and leaves the modifiers alone.
\<close>

theorem kbd_letter_case:
  assumes "unat d < 256" "97 \<le> normalmap ! unat d" "normalmap ! unat d \<le> 122"
    and "sh AND K_E0ESC = 0" "sh AND K_CTL = 0"
  shows "kbd_scan d sh =
     (ucast (normalmap ! unat d) - (if (sh AND K_SHIFT \<noteq> 0) \<noteq> (sh AND K_CAPSLOCK \<noteq> 0) then 32 else 0), sh)"
proof -
  note K = letter_keys[OF assms(1-3)]
  have "d \<noteq> 0xE0" using K(4) by auto
  then have "kbd_scan d sh = kbd_key d sh" using low_bit7[OF K(4)] assms(4) by (simp add: kbd_scan_def)
  also have "\<dots> = (ucast (normalmap ! unat d) - (if (sh AND K_SHIFT \<noteq> 0) \<noteq> (sh AND K_CAPSLOCK \<noteq> 0) then 32 else 0), sh)"
    using K letter_codes[OF assms(2,3)] modifier_index[OF assms(5)]
    by (simp add: kbd_key_def Let_def charcode_def)
  finally show ?thesis .
qed

lemma key_q: "normalmap ! 16 = 113"
  by code_simp

theorem kbd_letter_case_witness: "kbd_scan 0x10 0 = (113, 0) \<and> kbd_scan 0x10 1 = (81, 1)"
  using kbd_letter_case[of 16 0] kbd_letter_case[of 16 1] key_q by simp

end
