(* ===== verification/Ulib.thy ===== *)
theory Ulib
  imports Format Cstring "HOL-Library.List_Lexorder"
begin

text \<open>
  The user library: \<open>ulib.c\<close> and \<open>printf.c\<close>. A C string is the list of its characters, without
  the terminating 0 that ends it; a routine that reads up to the 0 recurses to the end of the
  list. Reads from a file descriptor are the list of what the successive reads return.
\<close>

section \<open>Strings\<close>

abbreviation (input) NUL :: char where "NUL \<equiv> CHR 0x00"
abbreviation (input) NL :: char where "NL \<equiv> CHR 0x0A"
abbreviation (input) CR :: char where "CR \<equiv> CHR 0x0D"

text \<open>\<open>strcpy\<close> into the buffer \<open>s\<close>; copying past its end is a fault.\<close>

definition strcpy :: "string \<Rightarrow> string \<Rightarrow> string res" where
  "strcpy s t = (if length t < length s then Inr (t @ [NUL] @ drop (length t + 1) s) else Inl (Fault ''strcpy''))"

text \<open>The value of the terminating 0 or of the next character, as an unsigned char.\<close>

definition uch :: "string \<Rightarrow> int" where
  "uch s = (case s of [] \<Rightarrow> 0 | c # _ \<Rightarrow> of_char c)"

fun strcmp :: "string \<Rightarrow> string \<Rightarrow> int" where
  "strcmp (a # p) (b # q) = (if a = b then strcmp p q else uch (a # p) - uch (b # q))"
| "strcmp p q = uch p - uch q"

definition strlen :: "string \<Rightarrow> nat" where
  "strlen s = length s"

definition memset_u :: "memory \<Rightarrow> uint \<Rightarrow> int \<Rightarrow> uint \<Rightarrow> memory" where
  "memset_u m dst c n = stosb m dst (word_of_int c) (unat n)"

text \<open>\<open>strchr\<close> gives the offset of the first match; it never finds the terminating 0.\<close>

fun strchr :: "string \<Rightarrow> char \<Rightarrow> nat option" where
  "strchr [] c = None"
| "strchr (x # xs) c =
     (if x = NUL then None else if x = c then Some 0 else map_option Suc (strchr xs c))"

text \<open>The loop of \<open>gets\<close>: \<open>room\<close> bytes fit; each read gives one character or ends the input.\<close>

fun gets_loop :: "nat \<Rightarrow> char option list \<Rightarrow> string" where
  "gets_loop 0 rs = []"
| "gets_loop (Suc room) [] = []"
| "gets_loop (Suc room) (None # rs) = []"
| "gets_loop (Suc room) (Some c # rs) = c # (if c = NL \<or> c = CR then [] else gets_loop room rs)"

definition gets :: "nat \<Rightarrow> char option list \<Rightarrow> string" where
  "gets mx rs = gets_loop (mx - 1) rs"

text \<open>\<open>n = n*10 + *s++ - '0'\<close> in an \<open>int\<close>.\<close>

fun atoi_loop :: "uint \<Rightarrow> string \<Rightarrow> uint" where
  "atoi_loop n [] = n"
| "atoi_loop n (c # s) =
     (if CHR ''0'' \<le> c \<and> c \<le> CHR ''9'' then atoi_loop (n * 10 + of_char c - 48) s else n)"

definition atoi :: "string \<Rightarrow> int" where
  "atoi s = sint (atoi_loop 0 s)"

text \<open>The user's \<open>memmove\<close> copies upwards, whatever the overlap; \<open>n\<close> is signed.\<close>

definition memmove_u :: "memory \<Rightarrow> uint \<Rightarrow> uint \<Rightarrow> int \<Rightarrow> memory" where
  "memmove_u m dst src n = copy_up m dst src (nat n)"

section \<open>Printing\<close>

text \<open>
  \<open>printf\<close> as the characters it writes, one call of \<open>write\<close> each. \<open>pct\<close> says that the state
  is \<open>'%'\<close>; an argument is a number or a string pointer, and a missing one is a fault.
\<close>

datatype uarg = Unum uint | Ustr "string option"

definition printint_u :: "uint \<Rightarrow> nat \<Rightarrow> bool \<Rightarrow> string" where
  "printint_u xx base sg = int_text ''0123456789ABCDEF'' (sint xx) base sg"

fun printf_loop :: "bool \<Rightarrow> string \<Rightarrow> uarg list \<Rightarrow> string res" where
  "printf_loop pct [] as = Inr []"
| "printf_loop False (c # f) as =
     (if c = CHR ''%'' then printf_loop True f as
      else bind_res (printf_loop False f as) (\<lambda>t. Inr (c # t)))"
| "printf_loop True (c # f) as =
     (if c = CHR ''d'' then
        (case as of Unum w # as \<Rightarrow> bind_res (printf_loop False f as) (\<lambda>t. Inr (printint_u w 10 True @ t))
         | _ \<Rightarrow> Inl (Fault ''printf''))
      else if c = CHR ''x'' \<or> c = CHR ''p'' then
        (case as of Unum w # as \<Rightarrow> bind_res (printf_loop False f as) (\<lambda>t. Inr (printint_u w 16 False @ t))
         | _ \<Rightarrow> Inl (Fault ''printf''))
      else if c = CHR ''s'' then
        (case as of Ustr p # as \<Rightarrow>
           bind_res (printf_loop False f as) (\<lambda>t. Inr ((case p of None \<Rightarrow> ''(null)'' | Some s \<Rightarrow> s) @ t))
         | _ \<Rightarrow> Inl (Fault ''printf''))
      else if c = CHR ''c'' then
        (case as of Unum w # as \<Rightarrow> bind_res (printf_loop False f as) (\<lambda>t. Inr (char_of (unat w) # t))
         | _ \<Rightarrow> Inl (Fault ''printf''))
      else if c = CHR ''%'' then bind_res (printf_loop False f as) (\<lambda>t. Inr (c # t))
      else bind_res (printf_loop False f as) (\<lambda>t. Inr (CHR ''%'' # c # t)))"

definition printf :: "string \<Rightarrow> uarg list \<Rightarrow> string res" where
  "printf fmt as = printf_loop False fmt as"

section \<open>Comparison and conversion\<close>

lemma uch_Cons [simp]: "uch (c # s) = of_char c" "uch [] = 0"
  by (simp_all add: uch_def)

lemma int_char: "(of_char c :: int) = int (of_char c)"
  by (simp add: of_nat_of_char)

lemma of_char_pos: "c \<noteq> NUL \<Longrightarrow> (of_char c :: int) > 0"
proof -
  assume "c \<noteq> NUL"
  then have "(of_char c :: nat) \<noteq> of_char NUL" by (simp only: of_char_eq_iff not_False_eq_True)
  then show ?thesis by (simp add: int_char)
qed

lemma char_less_int: "(of_char a :: int) < of_char b \<longleftrightarrow> a < b"
  by (simp add: int_char less_char_def)

lemma uch_ge: "uch s \<ge> 0" "NUL \<notin> set s \<Longrightarrow> uch s = 0 \<longleftrightarrow> s = []" "NUL \<notin> set s \<Longrightarrow> 0 < uch s \<longleftrightarrow> s \<noteq> []"
  using of_char_pos by (cases s; force simp: int_char)+

lemma Nil_less: "[] < (s :: string) \<longleftrightarrow> s \<noteq> []"
  by (cases s) auto

text \<open>
  Comparison. On strings without the 0 character, \<open>strcmp\<close> is 0 exactly for equal strings
  and negative exactly when the first string comes before the second in the order of the
  dictionary on unsigned characters.
\<close>

theorem strcmp_order:
  assumes "NUL \<notin> set p" "NUL \<notin> set q"
  shows "(strcmp p q = 0 \<longleftrightarrow> p = q) \<and> (strcmp p q < 0 \<longleftrightarrow> p < q)"
  using assms
  by (induction p q rule: strcmp.induct) (auto simp: char_less_int uch_ge Nil_less not_less)

theorem strcmp_order_witness: "strcmp ''abc'' ''abd'' < 0 \<and> strcmp ''ab'' ''ab'' = 0"
  using strcmp_order[of "''abc''" "''abd''"] strcmp_order[of "''ab''" "''ab''"] by (simp add: less_char_def)

section \<open>Numbers\<close>

lemma digit_codes:
  assumes "d < 10"
  shows "(of_char (''0123456789ABCDEF'' ! d) :: uint) = 48 + of_nat d"
    "CHR ''0'' \<le> ''0123456789ABCDEF'' ! d" "''0123456789ABCDEF'' ! d \<le> CHR ''9''"
proof -
  have "d \<in> {0, 1, 2, 3, 4, 5, 6, 7, 8, 9}" using assms by auto
  then show "(of_char (''0123456789ABCDEF'' ! d) :: uint) = 48 + of_nat d"
    "CHR ''0'' \<le> ''0123456789ABCDEF'' ! d" "''0123456789ABCDEF'' ! d \<le> CHR ''9''"
    by (auto simp: less_eq_char_def)
qed

lemma atoi_loop_digits:
  "\<forall>d \<in> set ds. d < 10 \<Longrightarrow>
    atoi_loop n (map ((!) ''0123456789ABCDEF'') (rev ds)) = n * 10 ^ length ds + of_nat (value_rev 10 ds)"
proof (induction ds arbitrary: n)
  case (Cons d ds)
  have a: "atoi_loop n (xs @ ys) = atoi_loop (atoi_loop n xs) ys"
    if "\<forall>c \<in> set xs. CHR ''0'' \<le> c \<and> c \<le> CHR ''9''" for n xs ys
    using that by (induction xs arbitrary: n) auto
  have "\<forall>c \<in> set (map ((!) ''0123456789ABCDEF'') (rev ds)). CHR ''0'' \<le> c \<and> c \<le> CHR ''9''"
    using Cons.prems digit_codes(2,3) by auto
  from a[OF this, of n "[''0123456789ABCDEF'' ! d]"] Cons show ?case
    by (simp add: digit_codes algebra_simps)
qed simp

lemma atoi_digits: "atoi_loop 0 (map ((!) ''0123456789ABCDEF'') (rev (digits_rev 10 x))) = of_nat x"
  using atoi_loop_digits[of "digits_rev 10 x" 0] digits_rev_less[of 10] by (simp add: digits_rev_value)

lemma printint_u_sign:
  "printint_u w 10 True = (if 0 \<le> sint w then map ((!) ''0123456789ABCDEF'') (rev (digits_rev 10 (unat w)))
     else CHR ''-'' # map ((!) ''0123456789ABCDEF'') (rev (digits_rev 10 (unat (- w)))))"
  by (simp add: printint_u_def int_text_def rev_map)

text \<open>
  C40: printing and reading back. A word that is not negative as an \<open>int\<close> is printed by
  \<open>%d\<close> as a text that \<open>atoi\<close> converts back to it. The text of a negative word is a minus sign and the digits of its
  negation, which \<open>atoi\<close> reads back as the wrapped negation; the whole text is read as 0, because \<open>atoi\<close> knows no sign.
\<close>

theorem atoi_printint:
  "if 0 \<le> sint w then atoi (printint_u w 10 True) = sint w
   else atoi (printint_u w 10 True) = 0 \<and> (\<exists>t. printint_u w 10 True = CHR ''-'' # t \<and> atoi t = sint (- w))"
proof (cases "0 \<le> sint w")
  case False
  then show ?thesis by (simp add: printint_u_sign atoi_def atoi_digits less_eq_char_def)
qed (simp add: printint_u_sign atoi_def atoi_digits)

theorem atoi_printint_witness: "atoi (printint_u 1984 10 True) = 1984 \<and> atoi (printint_u (- 5) 10 True) = 0"
  using atoi_printint[of 1984] atoi_printint[of "- 5"] by simp

text \<open>
  The buffer of \<open>printint\<close>. In base 10 or 16, signed or not, in the kernel and in the user
  library, the text of any 32-bit value fits the 16 bytes of \<open>buf\<close> (it never has more than 11).
\<close>

theorem printint_fits:
  assumes "base = 10 \<or> base = 16"
  shows "length (printint_u w base sg) \<le> 11"
proof -
  have "length (digits_rev base x) \<le> 10" if "x < 2 ^ 32" for x
    using assms length_digits_rev[of base x 10] that by auto
  moreover have "unat (v :: uint) < 2 ^ 32" for v using unsigned_less[of v, where ?'a = nat] by simp
  ultimately have D: "length (digits_rev base (unat v)) \<le> 10" for v :: uint by blast
  show ?thesis using D[of w] D[of "word_of_int (- sint w)"] by (simp add: printint_u_def int_text_def Let_def)
qed

theorem printint_fits_witness: "length (printint_u 0x80000000 10 True) \<le> 11"
  using printint_fits[of 10] by simp

section \<open>Overlapping copies\<close>

lemma copy_up_last: "copy_up m d s (Suc n) = (copy_up m d s n)(d + of_nat n := copy_up m d s n (s + of_nat n))"
proof (induction n arbitrary: m d s)
  case (Suc n)
  have "copy_up m d s (Suc (Suc n)) = copy_up (m(d := m s)) (d + 1) (s + 1) (Suc n)" by (rule copy_up.simps(2))
  also have "\<dots> = (copy_up m d s (Suc n))(d + 1 + of_nat n := copy_up m d s (Suc n) (s + 1 + of_nat n))"
    unfolding Suc.IH copy_up.simps(2)[symmetric] ..
  finally show ?case by (simp add: algebra_simps del: copy_up.simps)
qed simp

lemma near_inj: "\<lbrakk>unat s + i < 2 ^ 32; unat s + j < 2 ^ 32\<rbrakk> \<Longrightarrow> (s :: uint) + of_nat i = s + of_nat j \<longleftrightarrow> i = j"
  by (metis add_left_cancel unat_add_small)

lemma copy_up_smears:
  assumes "0 < k" "unat s + k + n < 2 ^ 32"
  shows "j < n \<Longrightarrow> copy_up m (s + of_nat k) s n (s + of_nat (k + j)) = m (s + of_nat (j mod k))"
    "i < k \<Longrightarrow> copy_up m (s + of_nat k) s n (s + of_nat i) = m (s + of_nat i)"
  using assms(2)
proof (induction n arbitrary: i j)
  case (Suc n)
  { case 2
    then show ?case
      using Suc.IH(2)[of j] near_inj[of s j "k + n"] unfolding copy_up_last by (simp add: add.assoc)
  next
    case 1
    have w: "copy_up m (s + of_nat k) s n (s + of_nat n) = m (s + of_nat (n mod k))"
    proof (cases "n < k")
      case True
      then show ?thesis using Suc.IH(2)[of n] 1 by simp
    next
      case False
      then show ?thesis using Suc.IH(1)[of "n - k"] 1 assms(1) by (simp add: le_mod_geq)
    qed
    show ?case
    proof (cases "j = n")
      case True
      then show ?thesis using w unfolding copy_up_last by (simp add: add.assoc)
    next
      case False
      then show ?thesis
        using Suc.IH(1)[of j] 1 near_inj[of s "k + j" "k + n"] unfolding copy_up_last by (simp add: add.assoc)
    qed
  }
qed simp_all

text \<open>
  The user library's \<open>memmove\<close> on overlapping ranges. When the destination starts \<open>k > 0\<close>
  bytes above the source, inside it, the first \<open>k\<close> bytes of the source are repeated over the
  whole destination: the bytes above them are lost, where the kernel's \<open>memmove\<close> keeps them.
\<close>

theorem memmove_u_smears:
  assumes "0 < k" "j < n" "unat src + k + n < 2 ^ 32"
  shows "memmove_u m (src + of_nat k) src (int n) (src + of_nat (k + j)) = m (src + of_nat (j mod k))"
  using copy_up_smears(1)[OF assms(1,3,2), of m] by (simp add: memmove_u_def)

theorem memmove_u_smears_witness:
  "memmove_u (\<lambda>a. ucast a) 0x101 0x100 3 0x103 = (0 :: uchar)"
  using memmove_u_smears[of 1 2 3 "0x100" "\<lambda>a. ucast a"] by simp

end
