(* ===== verification/User_Calls.thy ===== *)
theory User_Calls
  imports Ulib
begin

text \<open>
  User programs as the system calls they make. A program is a tree: it makes a call and
  continues according to the reply, the result and what the call stored: the descriptors of \<open>pipe\<close>, the
  bytes of \<open>read\<close>, the fields of \<open>fstat\<close>, the time of \<open>date\<close>. \<open>fork\<close> replies 0 in the child. \<open>Sprint\<close> is a
  call of \<open>printf\<close> with its text. \<open>More\<close> stands for the rest of a program whose loop has used up its bound.
\<close>

record ustat =
  us_type :: int
  us_dev :: int
  us_ino :: uint
  us_nlink :: int
  us_size :: uint

record utime =
  ut_second :: uint
  ut_minute :: uint
  ut_hour :: uint
  ut_day :: uint
  ut_month :: uint
  ut_year :: uint

datatype stored = Nothing | Fds int int | Bytes string | Stat ustat | Time utime

type_synonym reply = "int \<times> stored"

datatype sysreq =
    Sexec string "string list" | Sopen string int | Sclose int | Sdup int | Spipe | Sfork | Swait
  | Schdir string | Slink string string | Sunlink string | Smkdir string | Smknod string int int
  | Skill int | Ssleep int | Sread int nat | Swrite int string | Sfstat int | Sdate | Sprint int string

datatype prog = Exit | More | Call sysreq "reply \<Rightarrow> prog"

abbreviation do_call :: "sysreq \<Rightarrow> prog \<Rightarrow> prog" where
  "do_call r k \<equiv> Call r (\<lambda>_. k)"

text \<open>What a call stored; memory that it left alone has any contents, here zeros.\<close>

fun fds_of :: "stored \<Rightarrow> int \<times> int" where
  "fds_of (Fds a b) = (a, b)"
| "fds_of _ = (0, 0)"

fun bytes_of :: "stored \<Rightarrow> string" where
  "bytes_of (Bytes bs) = bs"
| "bytes_of _ = []"

fun stat_of :: "stored \<Rightarrow> ustat" where
  "stat_of (Stat st) = st"
| "stat_of _ = \<lparr>us_type = 0, us_dev = 0, us_ino = 0, us_nlink = 0, us_size = 0\<rparr>"

fun time_of :: "stored \<Rightarrow> utime" where
  "time_of (Time r) = r"
| "time_of _ = \<lparr>ut_second = 0, ut_minute = 0, ut_hour = 0, ut_day = 0, ut_month = 0, ut_year = 0\<rparr>"

text \<open>The text that \<open>printf\<close> writes for a format and its arguments, and for a format that ends its line.\<close>

definition printed :: "string \<Rightarrow> uarg list \<Rightarrow> string" where
  "printed fmt as = (case printf fmt as of Inr t \<Rightarrow> t | Inl _ \<Rightarrow> [])"

definition println :: "string \<Rightarrow> uarg list \<Rightarrow> string" where
  "println fmt as = printed (fmt @ [NL]) as"

text \<open>The calls a program makes when the replies are \<open>rs\<close>, and what is left of it.\<close>

fun run :: "prog \<Rightarrow> reply list \<Rightarrow> sysreq list \<times> prog" where
  "run p [] = ([], p)"
| "run Exit rs = ([], Exit)"
| "run More rs = ([], More)"
| "run (Call r k) (x # rs) = (let (cs, p) = run (k x) rs in (r # cs, p))"

section \<open>Small programs\<close>

text \<open>\<open>echo.c\<close>, \<open>kill.c\<close>, \<open>ln.c\<close>, \<open>mkdir.c\<close>, \<open>rm.c\<close>, \<open>zombie.c\<close>; \<open>args\<close> is \<open>argv\<close> after the name.\<close>

fun echo_main :: "string list \<Rightarrow> prog" where
  "echo_main [] = Exit"
| "echo_main (a # as) = do_call (Sprint 1 (a @ (if as \<noteq> [] then '' '' else [NL]))) (echo_main as)"

fun kill_all :: "string list \<Rightarrow> prog" where
  "kill_all [] = Exit"
| "kill_all (a # as) = do_call (Skill (atoi a)) (kill_all as)"

definition kill_main :: "string list \<Rightarrow> prog" where
  "kill_main args = (if args = [] then do_call (Sprint 2 (''usage: kill pid...'' @ [NL])) Exit else kill_all args)"

definition ln_main :: "string list \<Rightarrow> prog" where
  "ln_main args = (case args of [old, new] \<Rightarrow>
       Call (Slink old new) (\<lambda>(r, _). if r < 0
         then do_call (Sprint 2 (''link '' @ old @ '' '' @ new @ '': failed'' @ [NL])) Exit else Exit)
     | _ \<Rightarrow> do_call (Sprint 2 (''Usage: ln old new'' @ [NL])) Exit)"

fun mkdir_all :: "string list \<Rightarrow> prog" where
  "mkdir_all [] = Exit"
| "mkdir_all (a # as) =
     Call (Smkdir a) (\<lambda>(r, _). if r < 0
       then do_call (Sprint 2 (''mkdir: '' @ a @ '' failed to create'' @ [NL])) Exit else mkdir_all as)"

definition mkdir_main :: "string list \<Rightarrow> prog" where
  "mkdir_main args = (if args = [] then do_call (Sprint 2 (''Usage: mkdir files...'' @ [NL])) Exit else mkdir_all args)"

fun rm_all :: "string list \<Rightarrow> prog" where
  "rm_all [] = Exit"
| "rm_all (a # as) =
     Call (Sunlink a) (\<lambda>(r, _). if r < 0
       then do_call (Sprint 2 (''rm: '' @ a @ '' failed to delete'' @ [NL])) Exit else rm_all as)"

definition rm_main :: "string list \<Rightarrow> prog" where
  "rm_main args = (if args = [] then do_call (Sprint 2 (''Usage: rm files...'' @ [NL])) Exit else rm_all args)"

definition zombie_main :: prog where
  "zombie_main = Call Sfork (\<lambda>(r, _). if r > 0 then do_call (Ssleep 5) Exit else Exit)"

text \<open>\<open>init.c\<close>: \<open>n\<close> rounds of starting a shell, waiting for at most \<open>w\<close> children in each.\<close>

fun init_wait :: "nat \<Rightarrow> int \<Rightarrow> prog \<Rightarrow> prog" where
  "init_wait 0 pid k = More"
| "init_wait (Suc w) pid k =
     Call Swait (\<lambda>(wpid, _). if wpid \<ge> 0 \<and> wpid \<noteq> pid
       then do_call (Sprint 1 (''zombie!'' @ [NL])) (init_wait w pid k) else k)"

fun init_loop :: "nat \<Rightarrow> nat \<Rightarrow> prog" where
  "init_loop 0 w = More"
| "init_loop (Suc n) w =
     do_call (Sprint 1 (''init: starting sh'' @ [NL]))
       (Call Sfork (\<lambda>(pid, _).
          if pid < 0 then do_call (Sprint 1 (''init: fork failed'' @ [NL])) Exit
          else if pid = 0 then
            do_call (Sexec ''sh'' [''sh'']) (do_call (Sprint 1 (''init: exec sh failed'' @ [NL])) Exit)
          else init_wait w pid (init_loop n w)))"

definition init_main :: "nat \<Rightarrow> nat \<Rightarrow> prog" where
  "init_main n w =
     (let k = do_call (Sdup 0) (do_call (Sdup 0) (init_loop n w)) in
      Call (Sopen ''console'' 2) (\<lambda>(r, _). if r < 0
        then do_call (Smknod ''console'' 1 1) (do_call (Sopen ''console'' 2) k) else k))"

end
