(* ===== verification/Grep.thy ===== *)
theory Grep
  imports Ulib
begin

text \<open>
  \<open>grep.c\<close>: the matcher of Kernighan and Pike and the loop that cuts the input into lines,
  with the meaning of the patterns given separately. A pattern or a text is the list of its
  characters before the terminating 0.
\<close>

section \<open>The matcher\<close>

fun matchhere :: "string \<Rightarrow> string \<Rightarrow> bool" and matchstar :: "char \<Rightarrow> string \<Rightarrow> string \<Rightarrow> bool" where
  "matchhere [] text = True"
| "matchhere (c # re) text =
     (if re \<noteq> [] \<and> hd re = CHR ''*'' then matchstar c (tl re) text
      else if c = CHR ''$'' \<and> re = [] then text = []
      else case text of [] \<Rightarrow> False
        | t # ts \<Rightarrow> (c = CHR ''.'' \<or> c = t) \<and> matchhere re ts)"
| "matchstar c re text =
     (matchhere re text \<or>
      (case text of [] \<Rightarrow> False | t # ts \<Rightarrow> (t = c \<or> c = CHR ''.'') \<and> matchstar c re ts))"

fun match_any :: "string \<Rightarrow> string \<Rightarrow> bool" where
  "match_any re text = (matchhere re text \<or> (case text of [] \<Rightarrow> False | _ # ts \<Rightarrow> match_any re ts))"

definition match :: "string \<Rightarrow> string \<Rightarrow> bool" where
  "match re text = (if re \<noteq> [] \<and> hd re = CHR ''^'' then matchhere (tl re) text else match_any re text)"

declare match_any.simps [simp del]

section \<open>The loop over the input\<close>

text \<open>
  The inner loop: every complete line of the buffer is matched and written if it matches;
  what is left is the start of the next line. The bound is the number of characters.
\<close>

fun grep_lines :: "nat \<Rightarrow> string \<Rightarrow> string \<Rightarrow> string list \<times> string" where
  "grep_lines 0 pat p = ([], p)"
| "grep_lines (Suc n) pat p =
     (case strchr p NL of None \<Rightarrow> ([], p)
      | Some q \<Rightarrow>
          let (out, rest) = grep_lines n pat (drop (Suc q) p)
          in (if match pat (take q p) then take (Suc q) p # out else out, rest))"

section \<open>The meaning of a pattern\<close>

datatype atom = Any | Lit char
datatype item = One atom | Many atom | Eol

definition atom_of :: "char \<Rightarrow> atom" where
  "atom_of c = (if c = CHR ''.'' then Any else Lit c)"

fun items :: "string \<Rightarrow> item list" where
  "items [] = []"
| "items [c] = (if c = CHR ''$'' then [Eol] else [One (atom_of c)])"
| "items (c # d # re) = (if d = CHR ''*'' then Many (atom_of c) # items re else One (atom_of c) # items (d # re))"

fun fits :: "atom \<Rightarrow> char \<Rightarrow> bool" where
  "fits Any x = True"
| "fits (Lit c) x = (x = c)"

text \<open>\<open>begins is t\<close>: some beginning of the text \<open>t\<close> is described by the items.\<close>

inductive begins :: "item list \<Rightarrow> string \<Rightarrow> bool" where
  begins_Nil: "begins [] t"
| begins_One: "fits a x \<Longrightarrow> begins is t \<Longrightarrow> begins (One a # is) (x # t)"
| begins_Many: "\<forall>x \<in> set u. fits a x \<Longrightarrow> begins is t \<Longrightarrow> begins (Many a # is) (u @ t)"
| begins_Eol: "begins [Eol] []"

inductive_simps begins_simps: "begins [] t" "begins (One a # is) t" "begins (Many a # is) t" "begins (Eol # is) t"

lemma fits_atom: "fits (atom_of c) x \<longleftrightarrow> c = CHR ''.'' \<or> c = x"
  by (auto simp: atom_of_def)

lemma begins_Many_step:
  "begins (Many a # is) t \<longleftrightarrow> begins is t \<or> (\<exists>x u. t = x # u \<and> fits a x \<and> begins (Many a # is) u)"
proof
  assume "begins (Many a # is) t"
  then obtain u v where t: "t = u @ v" "\<forall>x \<in> set u. fits a x" "begins is v" by (auto simp: begins_simps)
  then show "begins is t \<or> (\<exists>x u. t = x # u \<and> fits a x \<and> begins (Many a # is) u)"
    by (cases u) (auto intro: begins_Many)
next
  assume "begins is t \<or> (\<exists>x u. t = x # u \<and> fits a x \<and> begins (Many a # is) u)"
  then show "begins (Many a # is) t"
  proof (elim disjE exE conjE)
    assume "begins is t"
    then show ?thesis using begins_Many[of "[]" a "is" t] by simp
  next
    fix x u assume t: "t = x # u" "fits a x" "begins (Many a # is) u"
    then obtain v w where "u = v @ w" "\<forall>y \<in> set v. fits a y" "begins is w" by (auto simp: begins_simps)
    then show ?thesis using t begins_Many[of "x # v" a "is" w] by simp
  qed
qed

lemma matcher_begins:
  "matchhere re s \<longleftrightarrow> begins (items re) s"
  "matchstar c re s \<longleftrightarrow> begins (Many (atom_of c) # items re) s"
proof (induction re s and c re s rule: matchhere_matchstar.induct)
  case (2 c re s)
  show ?case
  proof (cases re)
    case Nil
    then show ?thesis by (auto simp: begins_simps fits_atom split: list.splits)
  next
    case (Cons d re')
    then show ?thesis using 2 by (auto simp: begins_simps fits_atom split: list.splits)
  qed
next
  case (3 c re s)
  then show ?case
    by (subst begins_Many_step) (auto simp: fits_atom split: list.splits)
qed (simp add: begins_simps)

lemma match_any_iff: "match_any re s \<longleftrightarrow> (\<exists>u v. s = u @ v \<and> matchhere re v)"
proof (induction s)
  case Nil
  then show ?case by (subst match_any.simps) auto
next
  case (Cons t ts)
  have "(\<exists>u v. t # ts = u @ v \<and> matchhere re v) \<longleftrightarrow> matchhere re (t # ts) \<or> (\<exists>u v. ts = u @ v \<and> matchhere re v)"
    by (auto simp: Cons_eq_append_conv)
  then show ?case using Cons by (subst match_any.simps) simp
qed

text \<open>
  C25: the matcher is correct. \<open>match\<close> accepts a text exactly when some suffix of it begins with
  what the pattern describes, or the text itself does when the pattern starts with a caret,
  where a character stands for itself, a dot for any one character, a star repeats the
  character before it any number of times and a dollar sign at the end is the end of the text.
\<close>

theorem match_correct:
  "match re text \<longleftrightarrow>
     (if re \<noteq> [] \<and> hd re = CHR ''^'' then begins (items (tl re)) text
      else (\<exists>u v. text = u @ v \<and> begins (items re) v))"
  by (simp add: match_def match_any_iff matcher_begins)

section \<open>Lines\<close>

lemma strchr_line: "\<lbrakk>NUL \<notin> set l; NL \<notin> set l\<rbrakk> \<Longrightarrow> strchr (l @ NL # p) NL = Some (length l)"
  by (induction l) auto

lemma strchr_none: "\<lbrakk>NL \<notin> set l\<rbrakk> \<Longrightarrow> strchr l NL = None"
  by (induction l) auto

definition text_of :: "string list \<Rightarrow> string" where
  "text_of ls = concat (map (\<lambda>l. l @ [NL]) ls)"

definition is_line :: "string \<Rightarrow> bool" where
  "is_line l \<longleftrightarrow> NUL \<notin> set l \<and> NL \<notin> set l"

lemma grep_lines_text:
  "\<lbrakk>\<forall>l \<in> set ls. is_line l; NL \<notin> set r; length ls \<le> n\<rbrakk> \<Longrightarrow>
    grep_lines n pat (text_of ls @ r) = (map (\<lambda>l. l @ [NL]) (filter (match pat) ls), r)"
proof (induction ls arbitrary: n)
  case Nil
  then show ?case by (cases n) (simp_all add: text_of_def strchr_none)
next
  case (Cons l ls)
  then obtain n' where n: "n = Suc n'" by (cases n) auto
  have "grep_lines n' pat (text_of ls @ r) = (map (\<lambda>l. l @ [NL]) (filter (match pat) ls), r)"
    using Cons n by simp
  moreover have "strchr (text_of (l # ls) @ r) NL = Some (length l)"
    using Cons.prems strchr_line[of l "text_of ls @ r"] by (simp add: text_of_def is_line_def)
  ultimately show ?case by (simp add: n text_of_def)
qed

lemma length_text_of: "length ls \<le> length (text_of ls)"
  by (induction ls) (auto simp: text_of_def)

end
