(* ===== verification/User_Files.thy ===== *)
theory User_Files
  imports User_Calls Grep
begin

text \<open>
  User programs that read files: \<open>cat.c\<close>, \<open>wc.c\<close>, the main function of \<open>grep.c\<close>, \<open>ls.c\<close>, \<open>date.c\<close>, and
  the tests \<open>stressfs.c\<close> and \<open>forktest.c\<close>; an environment of files that serves their calls, and what the
  programs print in it. The number \<open>n\<close> bounds the turns of a loop over reads.
\<close>

section \<open>Filters\<close>

text \<open>\<open>cat(fd)\<close>, and then \<open>k\<close>.\<close>

fun cat :: "nat \<Rightarrow> int \<Rightarrow> prog \<Rightarrow> prog" where
  "cat 0 fd k = More"
| "cat (Suc n) fd k =
     Call (Sread fd 512) (\<lambda>(r, x).
     if r > 0 then
       Call (Swrite 1 (bytes_of x)) (\<lambda>(w, _).
       if w \<noteq> r then do_call (Sprint 1 (println ''cat: write error'' [])) Exit
       else cat n fd k)
     else if r < 0 then do_call (Sprint 1 (println ''cat: read error'' [])) Exit
     else k)"

fun cat_all :: "nat \<Rightarrow> string list \<Rightarrow> prog" where
  "cat_all n [] = Exit"
| "cat_all n (a # as) =
     Call (Sopen a 0) (\<lambda>(fd, _).
     if fd < 0 then do_call (Sprint 1 (println ''cat: cannot open %s'' [Ustr (Some a)])) Exit
     else cat n fd (do_call (Sclose fd) (cat_all n as)))"

definition cat_main :: "nat \<Rightarrow> string list \<Rightarrow> prog" where
  "cat_main n args = (if args = [] then cat n 0 Exit else cat_all n args)"

definition wc_space :: "char \<Rightarrow> bool" where
  "wc_space c \<longleftrightarrow> strchr ('' '' @ [CR, CHR 0x09, NL, CHR 0x0B]) c \<noteq> None"

record wcst =
  wl :: nat
  ww :: nat
  wch :: nat
  inword :: bool

definition wc_char :: "char \<Rightarrow> wcst \<Rightarrow> wcst" where
  "wc_char ch s =
     (let s = s\<lparr>wch := wch s + 1\<rparr>;
          s = (if ch = NL then s\<lparr>wl := wl s + 1\<rparr> else s)
      in if wc_space ch then s\<lparr>inword := False\<rparr>
         else if \<not> inword s then s\<lparr>ww := ww s + 1, inword := True\<rparr>
         else s)"

fun wc_loop :: "nat \<Rightarrow> int \<Rightarrow> string \<Rightarrow> prog \<Rightarrow> wcst \<Rightarrow> prog" where
  "wc_loop 0 fd name k s = More"
| "wc_loop (Suc n) fd name k s =
     Call (Sread fd 512) (\<lambda>(r, x).
     if r > 0 then wc_loop n fd name k (fold wc_char (bytes_of x) s)
     else if r < 0 then do_call (Sprint 1 (println ''wc: read error'' [])) Exit
     else do_call (Sprint 1 (println ''%d %d %d %s''
       [Unum (of_nat (wl s)), Unum (of_nat (ww s)), Unum (of_nat (wch s)), Ustr (Some name)])) k)"

definition wc :: "nat \<Rightarrow> int \<Rightarrow> string \<Rightarrow> prog \<Rightarrow> prog" where
  "wc n fd name k = wc_loop n fd name k \<lparr>wl = 0, ww = 0, wch = 0, inword = False\<rparr>"

fun wc_all :: "nat \<Rightarrow> string list \<Rightarrow> prog" where
  "wc_all n [] = Exit"
| "wc_all n (a # as) =
     Call (Sopen a 0) (\<lambda>(fd, _).
     if fd < 0 then do_call (Sprint 1 (println ''wc: cannot open %s'' [Ustr (Some a)])) Exit
     else wc n fd a (do_call (Sclose fd) (wc_all n as)))"

definition wc_main :: "nat \<Rightarrow> string list \<Rightarrow> prog" where
  "wc_main n args = (if args = [] then wc n 0 [] Exit else wc_all n args)"

text \<open>
  \<open>grep(pattern, fd)\<close> with the buffer \<open>buf\<close> of \<open>m\<close> bytes; the lines that match are written one by one.
  \<open>grep_lines\<close> (theory \<open>Grep\<close>) is the loop over the lines of the buffer.
\<close>

fun writes :: "string list \<Rightarrow> prog \<Rightarrow> prog" where
  "writes [] k = k"
| "writes (l # ls) k = do_call (Swrite 1 l) (writes ls k)"

fun grep_fd :: "nat \<Rightarrow> string \<Rightarrow> int \<Rightarrow> string \<Rightarrow> prog \<Rightarrow> prog" where
  "grep_fd 0 pat fd buf k = More"
| "grep_fd (Suc n) pat fd buf k =
     Call (Sread fd (1024 - length buf - 1)) (\<lambda>(r, x).
     if r > 0 then
       let b = buf @ bytes_of x; (out, rest) = grep_lines (length b) pat b in
       writes out (grep_fd n pat fd (if length rest = length b then [] else rest) k)
     else k)"

fun grep_all :: "nat \<Rightarrow> string \<Rightarrow> string list \<Rightarrow> prog" where
  "grep_all n pat [] = Exit"
| "grep_all n pat (a # as) =
     Call (Sopen a 0) (\<lambda>(fd, _).
     if fd < 0 then do_call (Sprint 1 (println ''grep: cannot open %s'' [Ustr (Some a)])) Exit
     else grep_fd n pat fd [] (do_call (Sclose fd) (grep_all n pat as)))"

definition grep_main :: "nat \<Rightarrow> string list \<Rightarrow> prog" where
  "grep_main n args = (case args of
     [] \<Rightarrow> do_call (Sprint 2 (println ''usage: grep pattern [file ...]'' [])) Exit
   | [pat] \<Rightarrow> grep_fd n pat 0 [] Exit
   | pat # as \<Rightarrow> grep_all n pat as)"

section \<open>Listing\<close>

text \<open>\<open>fmtname\<close> of \<open>ls.c\<close>: what follows the last slash, padded to 14 characters.\<close>

definition fmtname :: "string \<Rightarrow> string" where
  "fmtname path =
     (let p = rev (takeWhile (\<lambda>c. c \<noteq> CHR ''/'') (rev path)) in
      if length p \<ge> 14 then p else p @ replicate (14 - length p) CHR '' '')"

text \<open>\<open>stat\<close> of \<open>ulib.c\<close>; \<open>k\<close> gets the result and what was stored.\<close>

definition stat_call :: "string \<Rightarrow> (int \<Rightarrow> stored \<Rightarrow> prog) \<Rightarrow> prog" where
  "stat_call path k =
     Call (Sopen path 0) (\<lambda>(fd, _).
     if fd < 0 then k (-1) Nothing
     else Call (Sfstat fd) (\<lambda>(r, x). do_call (Sclose fd) (k r x)))"

definition ls_line :: "string \<Rightarrow> ustat \<Rightarrow> string" where
  "ls_line path st = println ''%s %d %d %d''
     [Ustr (Some (fmtname path)), Unum (word_of_int (us_type st)), Unum (us_ino st), Unum (us_size st)]"

text \<open>An entry of a directory, as the number and the name up to its 0 byte.\<close>

definition entry_of :: "string \<Rightarrow> nat \<times> string" where
  "entry_of bs = (of_char (bs ! 0) + 256 * of_char (bs ! 1), takeWhile (\<lambda>c. c \<noteq> NUL) (take 14 (drop 2 bs)))"

fun ls_entries :: "nat \<Rightarrow> int \<Rightarrow> string \<Rightarrow> prog \<Rightarrow> prog" where
  "ls_entries 0 fd path k = More"
| "ls_entries (Suc n) fd path k =
     Call (Sread fd 16) (\<lambda>(r, x).
     if r = 16 then
       let (inum, name) = entry_of (bytes_of x); p = path @ ''/'' @ name in
       if inum = 0 then ls_entries n fd path k
       else stat_call p (\<lambda>r st.
         if r < 0 then do_call (Sprint 1 (println ''ls: cannot stat %s'' [Ustr (Some p)])) (ls_entries n fd path k)
         else do_call (Sprint 1 (ls_line p (stat_of st))) (ls_entries n fd path k))
     else k)"

definition ls :: "nat \<Rightarrow> string \<Rightarrow> prog \<Rightarrow> prog" where
  "ls n path k =
     Call (Sopen path 0) (\<lambda>(fd, _).
     if fd < 0 then do_call (Sprint 2 (println ''ls: cannot open %s'' [Ustr (Some path)])) k
     else Call (Sfstat fd) (\<lambda>(r, x).
     let st = stat_of x; done = do_call (Sclose fd) k in
     if r < 0 then do_call (Sprint 2 (println ''ls: cannot stat %s'' [Ustr (Some path)])) done
     else if us_type st = 2 then do_call (Sprint 1 (ls_line path st)) done
     else if us_type st = 1 then
       if length path + 1 + 14 + 1 > 512 then do_call (Sprint 1 (println ''ls: path too long'' [])) done
       else ls_entries n fd path done
     else done))"

fun ls_all :: "nat \<Rightarrow> string list \<Rightarrow> prog" where
  "ls_all n [] = Exit"
| "ls_all n (a # as) = ls n a (ls_all n as)"

definition ls_main :: "nat \<Rightarrow> string list \<Rightarrow> prog" where
  "ls_main n args = (if args = [] then ls n ''.'' Exit else ls_all n args)"

section \<open>Other programs\<close>

text \<open>\<open>date.c\<close>; the line it prints has no newline.\<close>

definition date_main :: prog where
  "date_main =
     Call Sdate (\<lambda>(r, x).
     if r \<noteq> 0 then do_call (Sprint 2 (println ''date failed'' [])) Exit
     else let t = time_of x in
       do_call (Sprint 1 (printed ''Date is %d/%d/%d %d-%d-%d''
         [Unum (ut_month t), Unum (ut_day t), Unum (ut_year t), Unum (ut_hour t), Unum (ut_minute t), Unum (ut_second t)])) Exit)"

text \<open>\<open>stressfs.c\<close>: the first \<open>i\<close> forks of a process made it a child; it writes and reads its own file.\<close>

fun repeat_call :: "nat \<Rightarrow> sysreq \<Rightarrow> prog \<Rightarrow> prog" where
  "repeat_call 0 r k = k"
| "repeat_call (Suc n) r k = do_call r (repeat_call n r k)"

definition stressfs_work :: "nat \<Rightarrow> prog" where
  "stressfs_work i =
     (let path = ''stressfs'' @ [char_of (48 + i)] in
      do_call (Sprint 1 (println ''write %d'' [Unum (of_nat i)]))
        (Call (Sopen path (0x200 + 2)) (\<lambda>(fd, _).
         repeat_call 20 (Swrite fd (replicate 512 CHR ''a''))
        (do_call (Sclose fd)
        (do_call (Sprint 1 (println ''read'' []))
        (Call (Sopen path 0) (\<lambda>(fd, _).
         repeat_call 20 (Sread fd 512)
        (do_call (Sclose fd)
        (do_call Swait Exit)))))))))"

fun stressfs_forks :: "nat \<Rightarrow> nat \<Rightarrow> prog" where
  "stressfs_forks 0 i = stressfs_work i"
| "stressfs_forks (Suc n) i = Call Sfork (\<lambda>(pid, _). if pid > 0 then stressfs_work i else stressfs_forks n (Suc i))"

definition stressfs_main :: prog where
  "stressfs_main = do_call (Sprint 1 (println ''stressfs starting'' [])) (stressfs_forks 4 0)"

text \<open>\<open>forktest.c\<close>, whose \<open>printf\<close> writes the format as it is.\<close>

fun forktest_wait :: "nat \<Rightarrow> prog" where
  "forktest_wait 0 = Call Swait (\<lambda>(r, _).
     if r \<noteq> -1 then do_call (Swrite 1 (''wait got too many'' @ [NL])) Exit
     else do_call (Swrite 1 (''fork test OK'' @ [NL])) Exit)"
| "forktest_wait (Suc n) = Call Swait (\<lambda>(r, _).
     if r < 0 then do_call (Swrite 1 (''wait stopped early'' @ [NL])) Exit
     else forktest_wait n)"

text \<open>\<open>m\<close> more forks are tried after \<open>n\<close> that succeeded.\<close>

fun forktest_fork :: "nat \<Rightarrow> nat \<Rightarrow> prog" where
  "forktest_fork 0 n = do_call (Swrite 1 (''fork claimed to work N times!'' @ [NL])) Exit"
| "forktest_fork (Suc m) n = Call Sfork (\<lambda>(pid, _).
     if pid < 0 then forktest_wait n
     else if pid = 0 then Exit
     else forktest_fork m (Suc n))"

definition forktest :: prog where
  "forktest = do_call (Swrite 1 (''fork test'' @ [NL])) (forktest_fork 1000 0)"

section \<open>Files\<close>

text \<open>
  An environment that serves the calls: files with their contents, the open descriptors with what is
  left to read of each, and all output. The \<open>i\<close>-th read returns at most \<open>u_cut i\<close> bytes (and at least one
  before the end), as reads from a pipe may.
\<close>

record uenv =
  u_file :: "string \<Rightarrow> (ustat \<times> string) option"
  u_fds :: "(ustat \<times> string) option list"
  u_cut :: "nat \<Rightarrow> nat"
  u_reads :: nat
  u_out :: "(int \<times> string) list"

definition opened :: "uenv \<Rightarrow> int \<Rightarrow> (ustat \<times> string) option" where
  "opened e fd = (if 0 \<le> fd \<and> fd < int (length (u_fds e)) then u_fds e ! nat fd else None)"

definition take_bytes :: "nat \<Rightarrow> string \<Rightarrow> uenv \<Rightarrow> nat" where
  "take_bytes n rest e = min n (min (length rest) (max 1 (u_cut e (u_reads e))))"

fun serve :: "uenv \<Rightarrow> sysreq \<Rightarrow> reply \<times> uenv" where
  "serve e (Sopen p m) = (case u_file e p of None \<Rightarrow> ((-1, Nothing), e)
     | Some f \<Rightarrow> (case find (\<lambda>i. u_fds e ! i = None) [0..<length (u_fds e)] of
         None \<Rightarrow> ((-1, Nothing), e)
       | Some i \<Rightarrow> ((int i, Nothing), e\<lparr>u_fds := (u_fds e)[i := Some f]\<rparr>)))"
| "serve e (Sclose fd) = (case opened e fd of None \<Rightarrow> ((-1, Nothing), e)
     | Some _ \<Rightarrow> ((0, Nothing), e\<lparr>u_fds := (u_fds e)[nat fd := None]\<rparr>))"
| "serve e (Sread fd n) = (case opened e fd of None \<Rightarrow> ((-1, Nothing), e)
     | Some (st, rest) \<Rightarrow> let m = take_bytes n rest e in
         ((int m, Bytes (take m rest)),
          e\<lparr>u_fds := (u_fds e)[nat fd := Some (st, drop m rest)], u_reads := Suc (u_reads e)\<rparr>))"
| "serve e (Sfstat fd) = (case opened e fd of None \<Rightarrow> ((-1, Nothing), e) | Some (st, _) \<Rightarrow> ((0, Stat st), e))"
| "serve e (Swrite fd bs) = ((int (length bs), Nothing), e\<lparr>u_out := u_out e @ [(fd, bs)]\<rparr>)"
| "serve e (Sprint fd t) = ((0, Nothing), e\<lparr>u_out := u_out e @ [(fd, t)]\<rparr>)"
| "serve e _ = ((-1, Nothing), e)"

text \<open>A program in the environment: whether it exits, and the environment then.\<close>

primrec exec_prog :: "prog \<Rightarrow> uenv \<Rightarrow> bool \<times> uenv" where
  "exec_prog Exit e = (True, e)"
| "exec_prog More e = (False, e)"
| "exec_prog (Call r k) e = exec_prog (k (fst (serve e r))) (snd (serve e r))"

definition out_on :: "int \<Rightarrow> uenv \<Rightarrow> string" where
  "out_on fd e = concat (map snd (filter (\<lambda>(i, _). i = fd) (u_out e)))"

text \<open>From \<open>e\<close> to \<open>t\<close> the text was printed and nothing else happened, except to the descriptors.\<close>

definition printed_to :: "uenv \<Rightarrow> string \<Rightarrow> uenv \<Rightarrow> bool" where
  "printed_to e txt t \<longleftrightarrow> u_file t = u_file e \<and> u_cut t = u_cut e \<and> length (u_fds t) = length (u_fds e) \<and> out_on 1 t = out_on 1 e @ txt"

lemma printed_to_refl [simp]: "printed_to e [] e"
  by (simp add: printed_to_def)

lemma printed_to_trans: "printed_to e x t \<Longrightarrow> printed_to t y u \<Longrightarrow> printed_to e (x @ y) u"
  by (simp add: printed_to_def)

text \<open>A piece of a program that reads an open file to its end and prints \<open>g\<close> of its content.\<close>

definition filters :: "(string \<Rightarrow> bool) \<Rightarrow> (string \<Rightarrow> string) \<Rightarrow> ((nat \<Rightarrow> nat) \<Rightarrow> bool) \<Rightarrow> (int \<Rightarrow> prog \<Rightarrow> prog) \<Rightarrow> bool" where
  "filters ok g cuts P \<longleftrightarrow> (\<forall>e fd k st c. opened e fd = Some (st, c) \<longrightarrow> ok c \<longrightarrow> cuts (u_cut e) \<longrightarrow>
     (\<exists>t. exec_prog (P fd k) e = exec_prog k t \<and> printed_to e (g c) t \<and> u_fds t = (u_fds e)[nat fd := Some (st, [])]))"

text \<open>Reading, and what it leaves open.\<close>

lemma take_bytes_pos: "0 < n \<Longrightarrow> 0 < take_bytes n rest e \<longleftrightarrow> rest \<noteq> []" "take_bytes n rest e \<le> length rest"
  by (auto simp: take_bytes_def)

definition after_read :: "nat \<Rightarrow> int \<Rightarrow> ustat \<Rightarrow> string \<Rightarrow> uenv \<Rightarrow> uenv" where
  "after_read n fd st c e = (let m = take_bytes n c e in
     e\<lparr>u_fds := (u_fds e)[nat fd := Some (st, drop m c)], u_reads := Suc (u_reads e)\<rparr>)"

lemma read_reply:
  assumes "opened e fd = Some (st, c)"
  shows "serve e (Sread fd n) = ((int (take_bytes n c e), Bytes (take (take_bytes n c e) c)), after_read n fd st c e)"
    "opened (after_read n fd st c e) fd = Some (st, drop (take_bytes n c e) c)"
    "printed_to e [] (after_read n fd st c e)"
    "(u_fds (after_read n fd st c e))[nat fd := x] = (u_fds e)[nat fd := x]" "u_cut (after_read n fd st c e) = u_cut e"
  using assms by (auto simp: after_read_def Let_def opened_def printed_to_def out_on_def split: if_splits)

lemma write_env:
  "serve e (Swrite 1 bs) = ((int (length bs), Nothing), snd (serve e (Swrite 1 bs)))" "printed_to e bs (snd (serve e (Swrite 1 bs)))"
  "serve e (Sprint 1 bs) = ((0, Nothing), snd (serve e (Sprint 1 bs)))" "printed_to e bs (snd (serve e (Sprint 1 bs)))"
  "u_fds (snd (serve e (Swrite 1 bs))) = u_fds e" "u_fds (snd (serve e (Sprint 1 bs))) = u_fds e"
  by (simp_all add: printed_to_def out_on_def)

text \<open>Opening a file, filtering it, closing it.\<close>

lemma file_filtered:
  assumes P: "filters ok g cuts P" and f: "u_file e a = Some (st, c)" "ok c" "cuts (u_cut e)"
    and i: "i < length (u_fds e)" "u_fds e ! i = None"
  obtains t where "exec_prog (Call (Sopen a 0) (\<lambda>(fd, _). if fd < 0 then X else P fd (do_call (Sclose fd) k))) e = exec_prog k t"
    "printed_to e (g c) t" "u_fds t = u_fds e"
proof -
  obtain j where j: "find (\<lambda>i. u_fds e ! i = None) [0..<length (u_fds e)] = Some j"
    using i by (cases "find (\<lambda>i. u_fds e ! i = None) [0..<length (u_fds e)]") (auto simp: find_None_iff)
  then have jj: "j < length (u_fds e)" "u_fds e ! j = None" by (auto simp: find_Some_iff)
  let ?e = "e\<lparr>u_fds := (u_fds e)[j := Some (st, c)]\<rparr>"
  have o: "opened ?e (int j) = Some (st, c)" using jj by (simp add: opened_def)
  have c: "cuts (u_cut ?e)" using f(3) by simp
  obtain t where t: "exec_prog (P (int j) (do_call (Sclose (int j)) k)) ?e = exec_prog (do_call (Sclose (int j)) k) t"
    "printed_to ?e (g c) t" "u_fds t = (u_fds ?e)[nat (int j) := Some (st, [])]"
    using P[unfolded filters_def, rule_format, OF o f(2) c] by blast
  let ?t = "t\<lparr>u_fds := (u_fds t)[j := None]\<rparr>"
  have "exec_prog (do_call (Sclose (int j)) k) t = exec_prog k ?t" using t(3) jj by (simp add: opened_def)
  moreover have "u_fds ?t = u_fds e" using t(3) jj list_update_id[of "u_fds e" j] by simp
  moreover have "printed_to e (g c) ?t" using t(2) by (simp add: printed_to_def out_on_def)
  ultimately show thesis using that[of ?t] t(1) f(1) j by simp
qed

lemma cat_filters: "filters (\<lambda>c. length c < n) (\<lambda>c. c) (\<lambda>_. True) (cat n)"
proof (induction n)
  case (Suc n)
  show ?case
    unfolding filters_def
  proof (intro allI impI)
    fix e fd k st c
    assume o: "opened e fd = Some (st, c)" and l: "length c < Suc n"
    define m where "m = take_bytes 512 c e"
    define u where "u = after_read 512 fd st c e"
    note R = read_reply[OF o, of 512, folded m_def u_def]
    have m: "0 < m \<longleftrightarrow> c \<noteq> []" "m \<le> length c" using take_bytes_pos[of 512 c e] by (simp_all add: m_def)
    show "\<exists>t. exec_prog (cat (Suc n) fd k) e = exec_prog k t \<and> printed_to e c t \<and> u_fds t = (u_fds e)[nat fd := Some (st, [])]"
    proof (cases "c = []")
      case True
      then show ?thesis using R m by (intro exI[of _ u]) (auto simp: u_def after_read_def Let_def)
    next
      case False
      define v where "v = snd (serve u (Swrite 1 (take m c)))"
      note W = write_env(1,2,5)[of u "take m c", folded v_def]
      have ov: "opened v fd = Some (st, drop m c)" using R(2) W(3) by (simp add: opened_def split: if_splits)
      have lv: "length (drop m c) < n" using l m False by simp
      obtain t where t: "exec_prog (cat n fd k) v = exec_prog k t" "printed_to v (drop m c) t" "u_fds t = (u_fds v)[nat fd := Some (st, [])]"
        using Suc.IH[unfolded filters_def, rule_format, OF ov lv TrueI] by blast
      have "fst (serve u (Swrite 1 (take m c))) = (int m, Nothing)" using m by simp
      then have "exec_prog (cat (Suc n) fd k) e = exec_prog (cat n fd k) v" using R(1) m False by (simp add: v_def del: serve.simps)
      moreover have "printed_to e c t"
        using printed_to_trans[OF R(3) printed_to_trans[OF W(2) t(2)]] by simp
      ultimately show ?thesis using t(1,3) W(3) R(4) by auto
    qed
  qed
qed (simp add: filters_def)

text \<open>The words of a text: the maximal runs of characters that are no spaces.\<close>

fun word_count :: "bool \<Rightarrow> string \<Rightarrow> nat" where
  "word_count prev [] = 0"
| "word_count prev (c # cs) = (if \<not> wc_space c \<and> \<not> prev then 1 else 0) + word_count (\<not> wc_space c) cs"

lemma wc_chars:
  "fold wc_char cs s = \<lparr>wl = wl s + length (filter ((=) NL) cs), ww = ww s + word_count (inword s) cs,
     wch = wch s + length cs, inword = (if cs = [] then inword s else \<not> wc_space (last cs))\<rparr>"
  by (induction cs arbitrary: s) (auto simp: wc_char_def Let_def)

definition wc_text :: "string \<Rightarrow> wcst \<Rightarrow> string" where
  "wc_text name s = println ''%d %d %d %s'' [Unum (of_nat (wl s)), Unum (of_nat (ww s)), Unum (of_nat (wch s)), Ustr (Some name)]"

lemma wc_loop_filters: "filters (\<lambda>c. length c < n) (\<lambda>c. wc_text name (fold wc_char c s)) (\<lambda>_. True) (\<lambda>fd k. wc_loop n fd name k s)"
proof (induction n arbitrary: s)
  case (Suc n)
  show ?case
    unfolding filters_def
  proof (intro allI impI)
    fix e fd k st c
    assume o: "opened e fd = Some (st, c)" and l: "length c < Suc n"
    define m where "m = take_bytes 512 c e"
    define u where "u = after_read 512 fd st c e"
    note R = read_reply[OF o, of 512, folded m_def u_def]
    have m: "0 < m \<longleftrightarrow> c \<noteq> []" "m \<le> length c" using take_bytes_pos[of 512 c e] by (simp_all add: m_def)
    show "\<exists>t. exec_prog (wc_loop (Suc n) fd name k s) e = exec_prog k t \<and> printed_to e (wc_text name (fold wc_char c s)) t
        \<and> u_fds t = (u_fds e)[nat fd := Some (st, [])]"
    proof (cases "c = []")
      case True
      let ?t = "snd (serve u (Sprint 1 (wc_text name s)))"
      have "exec_prog (wc_loop (Suc n) fd name k s) e = exec_prog k ?t"
        using R(1) m True by (simp add: wc_text_def del: serve.simps)
      moreover have "u_fds ?t = (u_fds e)[nat fd := Some (st, [])]"
        using True write_env(6)[of u "wc_text name s"] by (simp add: u_def after_read_def Let_def del: serve.simps)
      ultimately show ?thesis using printed_to_trans[OF R(3) write_env(4)[of u "wc_text name s"]] True by auto
    next
      case False
      then have lu: "length (drop m c) < n" using l m by simp
      have f: "fold wc_char (drop m c) (fold wc_char (take m c) s) = fold wc_char c s"
        by (metis append_take_drop_id comp_apply fold_append)
      obtain t where t: "exec_prog (wc_loop n fd name k (fold wc_char (take m c) s)) u = exec_prog k t"
        "printed_to u (wc_text name (fold wc_char c s)) t" "u_fds t = (u_fds u)[nat fd := Some (st, [])]"
        using Suc.IH[of "fold wc_char (take m c) s", unfolded filters_def, rule_format, OF R(2) lu TrueI] unfolding f by blast
      have "exec_prog (wc_loop (Suc n) fd name k s) e = exec_prog k t" using R(1) m False t(1) by (simp del: serve.simps)
      then show ?thesis using printed_to_trans[OF R(3) t(2)] t(3) R(4) by auto
    qed
  qed
qed (simp add: filters_def)

section \<open>grep\<close>

text \<open>The lines that end in \<open>cs\<close>, when \<open>acc\<close> is the beginning of the first one, and the beginning of the next one.\<close>

fun cut_lines :: "string \<Rightarrow> string \<Rightarrow> string list \<times> string" where
  "cut_lines acc [] = ([], acc)"
| "cut_lines acc (c # cs) =
     (if c = NL then (let (xs, r) = cut_lines [] cs in (acc # xs, r)) else cut_lines (acc @ [c]) cs)"

lemma cut_lines_append:
  "cut_lines acc (b @ c) = (let (xs, r) = cut_lines acc b; (xs', r') = cut_lines r c in (xs @ xs', r'))"
  by (induction acc b rule: cut_lines.induct) (auto simp: case_prod_unfold Let_def)

lemma cut_lines_text:
  "cut_lines acc b = (xs, r) \<Longrightarrow> NL \<notin> set acc \<Longrightarrow> NUL \<notin> set (acc @ b) \<Longrightarrow>
    text_of xs @ r = acc @ b \<and> NL \<notin> set r \<and> (\<forall>l\<in>set xs. is_line l)"
proof (induction acc b arbitrary: xs rule: cut_lines.induct)
  case (2 acc c cs)
  show ?case
  proof (cases "c = NL")
    case True
    obtain ms q where m: "cut_lines [] cs = (ms, q)" by (metis surj_pair)
    then have l: "xs = acc # ms" "r = q" using 2(3) True by auto
    have "text_of ms @ q = cs \<and> NL \<notin> set q \<and> (\<forall>l\<in>set ms. is_line l)"
      using 2(1)[OF True, of ms] m l(2) 2(5) by simp
    moreover have "is_line acc" using 2(4,5) by (simp add: is_line_def)
    ultimately show ?thesis using True l by (simp add: text_of_def)
  next
    case False
    then show ?thesis using 2(2)[OF False, of xs] 2(3-5) by simp
  qed
qed (simp add: text_of_def)

lemma cut_lines_none: "fst (cut_lines acc c) = [] \<longleftrightarrow> NL \<notin> set c"
  by (induction acc c rule: cut_lines.induct) (auto simp: case_prod_unfold Let_def)

lemma cut_lines_first: "fst (cut_lines acc c) = l # xs \<Longrightarrow> length acc \<le> length l"
  by (induction acc c rule: cut_lines.induct) (auto simp: case_prod_unfold Let_def split: if_splits)

definition matching :: "string \<Rightarrow> string list \<Rightarrow> string" where
  "matching pat xs = concat (map (\<lambda>l. l @ [NL]) (filter (match pat) xs))"

lemma writes_run:
  "exec_prog (writes out k) e = exec_prog k (snd (exec_prog (writes out Exit) e)) \<and> printed_to e (concat out) (snd (exec_prog (writes out Exit) e))
    \<and> u_fds (snd (exec_prog (writes out Exit) e)) = u_fds e"
proof (induction out arbitrary: e)
  case (Cons l out)
  let ?u = "snd (serve e (Swrite 1 l))"
  show ?case using Cons.IH[of ?u] write_env(2,5)[of e l] printed_to_trans[of e l ?u "concat out"] by (simp del: serve.simps)
qed simp

text \<open>The buffer \<open>r\<close> and one read: the lines of the buffer, or the whole buffer dropped.\<close>

lemma grep_turn:
  fixes pat :: string
  assumes r: "NL \<notin> set r" "length r \<le> 1022" and c: "NUL \<notin> set (r @ c)" "\<forall>l\<in>set (fst (cut_lines r c)). length l \<le> 1022"
    and m: "m = min (1023 - length r) (length c)"
  defines "b \<equiv> r @ take m c" and "p \<equiv> grep_lines (length (r @ take m c)) pat (r @ take m c)"
  defines "q \<equiv> (if length (snd p) = length b then [] else snd p)"
  shows "matching pat (fst (cut_lines r c)) = concat (fst p) @ matching pat (fst (cut_lines q (drop m c)))"
    "NL \<notin> set q" "length q \<le> 1022" "NUL \<notin> set (q @ drop m c)" "\<forall>l\<in>set (fst (cut_lines q (drop m c))). length l \<le> 1022"
proof -
  obtain xs s where L: "cut_lines r (take m c) = (xs, s)" by (metis surj_pair)
  obtain ms t where M: "cut_lines s (drop m c) = (ms, t)" by (metis surj_pair)
  have C: "cut_lines r c = (xs @ ms, t)"
    using cut_lines_append[of r "take m c" "drop m c"] L M by simp
  have z: "NUL \<notin> set (r @ take m c)" "NUL \<notin> set (drop m c)" using c(1) by (auto dest: in_set_takeD in_set_dropD)
  have T: "text_of xs @ s = b" "NL \<notin> set s" "\<forall>l\<in>set xs. is_line l"
    using cut_lines_text[OF L r(1) z(1)] by (simp_all add: b_def)
  have lb: "length b = length (text_of xs) + length s" using T(1) by (metis length_append)
  then have "length xs \<le> length b" using length_text_of[of xs] by linarith
  then have p: "p = (map (\<lambda>l. l @ [NL]) (filter (match pat) xs), s)"
    using grep_lines_text[OF T(3,2), of "length b" pat] by (simp add: p_def T(1) flip: b_def)
  have b: "length b \<le> 1023" using m r(2) by (simp add: b_def)
  have s0: "NUL \<notin> set s" using z(1) T(1) unfolding b_def[symmetric] by (metis Un_iff set_append)
  show "matching pat (fst (cut_lines r c)) = concat (fst p) @ matching pat (fst (cut_lines q (drop m c)))"
    "NL \<notin> set q" "length q \<le> 1022" "NUL \<notin> set (q @ drop m c)" "\<forall>l\<in>set (fst (cut_lines q (drop m c))). length l \<le> 1022"
  proof -
    have ne: "length s < length b \<longleftrightarrow> xs \<noteq> []" using lb length_text_of[of xs] by (cases xs) (auto simp: text_of_def)
    have "fst (cut_lines q (drop m c)) = ms"
    proof (cases "xs = []")
      case True
      then have q: "q = []" using ne lb by (simp add: q_def p)
      have s: "s = b" using T(1) True by (simp add: text_of_def)
      have "NL \<notin> set (drop m c)"
      proof
        assume n: "NL \<in> set (drop m c)"
        then have "length b = 1023" using m r(2) by (auto simp: b_def min_def split: if_splits)
        moreover obtain l xs' where l: "ms = l # xs'" using cut_lines_none[of s "drop m c"] M n by (cases ms) auto
        then have "length s \<le> length l" using cut_lines_first[of s "drop m c"] M by simp
        moreover have "length l \<le> 1022" using c(2) C True l by simp
        ultimately show False using s by simp
      qed
      then show ?thesis using q cut_lines_none[of "[]" "drop m c"] cut_lines_none[of s "drop m c"] M by simp
    next
      case False
      then show ?thesis using ne M by (simp add: q_def p)
    qed
    then show "matching pat (fst (cut_lines r c)) = concat (fst p) @ matching pat (fst (cut_lines q (drop m c)))"
      "\<forall>l\<in>set (fst (cut_lines q (drop m c))). length l \<le> 1022"
      using C c(2) by (auto simp: matching_def p)
    show "NL \<notin> set q" "NUL \<notin> set (q @ drop m c)" using T(2) s0 z(2) by (auto simp: q_def p)
    have "text_of xs \<noteq> [] \<Longrightarrow> 1 \<le> length (text_of xs)" by (cases "text_of xs") simp_all
    then show "length q \<le> 1022" using lb b by (auto simp: q_def p)
  qed
qed

lemma grep_loop:
  assumes "opened e fd = Some (st, c)" "\<forall>i. 1023 \<le> u_cut e i" "length c < n"
    and "NL \<notin> set r" "length r \<le> 1022" "NUL \<notin> set (r @ c)" "\<forall>l\<in>set (fst (cut_lines r c)). length l \<le> 1022"
  shows "\<exists>t. exec_prog (grep_fd n pat fd r k) e = exec_prog k t \<and> printed_to e (matching pat (fst (cut_lines r c))) t
    \<and> u_fds t = (u_fds e)[nat fd := Some (st, [])]"
  using assms
proof (induction n arbitrary: e c r)
  case (Suc n)
  define m where "m = take_bytes (1023 - length r) c e"
  define u where "u = after_read (1023 - length r) fd st c e"
  note R = read_reply[OF Suc.prems(1), of "1023 - length r", folded m_def u_def]
  have "1023 \<le> u_cut e (u_reads e)" using Suc.prems(2) by blast
  then have m: "m = min (1023 - length r) (length c)" by (simp add: m_def take_bytes_def)
  have m0: "0 < m \<longleftrightarrow> c \<noteq> []" using Suc.prems(5) by (simp add: m)
  show ?case
  proof (cases "c = []")
    case True
    then show ?thesis using R m by (intro exI[of _ u]) (auto simp: u_def after_read_def Let_def matching_def)
  next
    case False
    let ?b = "r @ take m c"
    let ?p = "grep_lines (length ?b) pat ?b"
    define q where "q = (if length (snd ?p) = length ?b then [] else snd ?p)"
    note G = grep_turn[OF Suc.prems(4-7) m, of pat, folded q_def]
    define v where "v = snd (exec_prog (writes (fst ?p) Exit) u)"
    have W: "exec_prog (writes (fst ?p) k') u = exec_prog k' v" "printed_to u (concat (fst ?p)) v" "u_fds v = u_fds u" for k'
      using writes_run[of "fst ?p" k' u] by (simp_all add: v_def)
    have o: "opened v fd = Some (st, drop m c)" using R(2) W(3) by (simp add: opened_def split: if_splits)
    have cv: "\<forall>i. 1023 \<le> u_cut v i" using W(2) R(5) Suc.prems(2) by (simp add: printed_to_def)
    have "0 < length c" using False by simp
    then have l: "length (drop m c) < n" using Suc.prems(3) m0 False unfolding length_drop by linarith
    obtain t where t: "exec_prog (grep_fd n pat fd q k) v = exec_prog k t"
      "printed_to v (matching pat (fst (cut_lines q (drop m c)))) t" "u_fds t = (u_fds v)[nat fd := Some (st, [])]"
      using Suc.IH[OF o cv l G(2-5)] by blast
    have "exec_prog (grep_fd (Suc n) pat fd r k) e = exec_prog (grep_fd n pat fd q k) v"
      using R(1) m0 False W(1)[of "grep_fd n pat fd q k"] by (simp add: Let_def case_prod_unfold q_def del: serve.simps)
    moreover have "printed_to e (matching pat (fst (cut_lines r c))) t"
      using printed_to_trans[OF R(3) printed_to_trans[OF W(2) t(2)]] by (simp add: G(1))
    ultimately show ?thesis using t(1,3) W(3) R(4) by auto
  qed
qed simp

lemma grep_filters:
  "filters (\<lambda>c. length c < n \<and> NUL \<notin> set c \<and> (\<forall>l\<in>set (fst (cut_lines [] c)). length l \<le> 1022))
    (\<lambda>c. matching pat (fst (cut_lines [] c))) (\<lambda>cut. \<forall>i. 1023 \<le> cut i) (\<lambda>fd. grep_fd n pat fd [])"
  unfolding filters_def using grep_loop[where r = "[]"] by simp

section \<open>Programs over files\<close>

text \<open>The output of a filter over its arguments; the first one that cannot be opened ends the program.\<close>

fun all_text :: "string \<Rightarrow> (string \<Rightarrow> string \<Rightarrow> string) \<Rightarrow> (string \<Rightarrow> (ustat \<times> string) option) \<Rightarrow> string list \<Rightarrow> string" where
  "all_text prg g F [] = []"
| "all_text prg g F (a # as) = (case F a of
     None \<Rightarrow> println (prg @ '': cannot open %s'') [Ustr (Some a)]
   | Some (_, c) \<Rightarrow> g a c @ all_text prg g F as)"

text \<open>The loop over the arguments, as the three programs have it.\<close>

lemma each_file:
  assumes "\<And>a. a \<in> set as \<Longrightarrow> filters ok (g a) cuts (P a)"
    and "\<And>a st c. a \<in> set as \<Longrightarrow> u_file e a = Some (st, c) \<Longrightarrow> ok c" "cuts (u_cut e)"
    and "i < length (u_fds e)" "u_fds e ! i = None"
    and Q: "Q [] = Exit" "\<And>a as. Q (a # as) = Call (Sopen a 0) (\<lambda>(fd, _). if fd < 0 then do_call (Sprint 1 (println (prg @ '': cannot open %s'') [Ustr (Some a)])) Exit
       else P a fd (do_call (Sclose fd) (Q as)))"
  shows "\<exists>t. exec_prog (Q as) e = (True, t) \<and> printed_to e (all_text prg g (u_file e) as) t"
  using assms(1-5)
proof (induction as arbitrary: e)
  case (Cons a as)
  show ?case
  proof (cases "u_file e a")
    case None
    then show ?thesis using write_env(4)[of e] by (simp add: Q(2))
  next
    case (Some f)
    obtain st c where f: "u_file e a = Some (st, c)" using Some by (cases f) auto
    have ok: "ok c" by (rule Cons.prems(2)[OF _ f]) simp
    have p: "filters ok (g a) cuts (P a)" by (rule Cons.prems(1)) simp
    obtain t where t: "exec_prog (Q (a # as)) e = exec_prog (Q as) t" "printed_to e (g a c) t" "u_fds t = u_fds e"
      unfolding Q(2) by (rule file_filtered[OF p f ok Cons.prems(3-5), of _ "Q as"]) blast
    have s: "u_file t = u_file e" "u_cut t = u_cut e" using t(2) by (simp_all add: printed_to_def)
    have ih: "\<exists>u. exec_prog (Q as) t = (True, u) \<and> printed_to t (all_text prg g (u_file t) as) u"
      by (rule Cons.IH) (use Cons.prems s t(3) in auto)
    then show ?thesis using t(1,2) f s printed_to_trans by fastforce
  qed
qed (simp add: Q(1))

lemma cat_prints:
  assumes "args \<noteq> []" "\<And>a st c. a \<in> set args \<Longrightarrow> u_file e a = Some (st, c) \<Longrightarrow> length c < n"
    and "i < length (u_fds e)" "u_fds e ! i = None"
  shows "\<exists>t. exec_prog (cat_main n args) e = (True, t) \<and> printed_to e (all_text ''cat'' (\<lambda>_ c. c) (u_file e) args) t"
proof -
  have m: "cat_main n args = cat_all n args" using assms(1) by (simp add: cat_main_def)
  note C = each_file[where Q = "cat_all n" and P = "\<lambda>_. cat n" and prg = "''cat''", OF cat_filters _ _ assms(3,4)]
  show ?thesis unfolding m by (rule C) (use assms(2) in auto)
qed

lemma wc_prints:
  assumes "args \<noteq> []" "\<And>a st c. a \<in> set args \<Longrightarrow> u_file e a = Some (st, c) \<Longrightarrow> length c < n"
    and "i < length (u_fds e)" "u_fds e ! i = None"
  shows "\<exists>t. exec_prog (wc_main n args) e = (True, t) \<and> printed_to e (all_text ''wc'' (\<lambda>a c. println ''%d %d %d %s''
    [Unum (of_nat (length (filter ((=) NL) c))), Unum (of_nat (word_count False c)), Unum (of_nat (length c)), Ustr (Some a)]) (u_file e) args) t"
proof -
  have m: "wc_main n args = wc_all n args" using assms(1) by (simp add: wc_main_def)
  have "filters (\<lambda>c. length c < n) (\<lambda>c. println ''%d %d %d %s''
      [Unum (of_nat (length (filter ((=) NL) c))), Unum (of_nat (word_count False c)), Unum (of_nat (length c)), Ustr (Some a)])
    (\<lambda>_. True) (\<lambda>fd k. wc n fd a k)" for a
    using wc_loop_filters[of n a "\<lparr>wl = 0, ww = 0, wch = 0, inword = False\<rparr>"] by (simp add: wc_text_def wc_chars wc_def)
  note W = each_file[where Q = "wc_all n" and P = "\<lambda>a fd k. wc n fd a k" and cuts = "\<lambda>_. True" and ok = "\<lambda>c. length c < n" and prg = "''wc''",
      OF this _ _ assms(3,4)]
  show ?thesis unfolding m by (rule W) (use assms(2) in auto)
qed

text \<open>
  C38: \<open>grep\<close> over files. For files without 0 bytes whose lines have at most 1022 characters, and reads that return
  all that fits the buffer (or the rest of the file), \<open>grep\<close> prints exactly the matching lines of every argument in order, also those
  that the end of the buffer cuts in two, up to the first file that cannot be opened, and exits. A last line without a newline is not printed. Reads that
  return less may lose lines, as the theorem below shows.
\<close>

theorem grep_prints_files:
  assumes "as \<noteq> []" "\<And>a st c. a \<in> set as \<Longrightarrow> u_file e a = Some (st, c) \<Longrightarrow>
      length c < n \<and> NUL \<notin> set c \<and> (\<forall>l\<in>set (fst (cut_lines [] c)). length l \<le> 1022)"
    and "\<forall>i. 1023 \<le> u_cut e i" "i < length (u_fds e)" "u_fds e ! i = None"
  shows "\<exists>t. exec_prog (grep_main n (pat # as)) e = (True, t)
    \<and> printed_to e (all_text ''grep'' (\<lambda>_ c. concat (map (\<lambda>l. l @ [NL]) (filter (match pat) (fst (cut_lines [] c))))) (u_file e) as) t"
proof -
  have m: "grep_main n (pat # as) = grep_all n pat as" using assms(1) by (cases as) (simp_all add: grep_main_def)
  note G = each_file[where Q = "grep_all n pat" and P = "\<lambda>_ fd. grep_fd n pat fd []" and prg = "''grep''",
      OF grep_filters _ assms(3-5)]
  show ?thesis unfolding m matching_def[symmetric] by (rule G) (use assms(2) in auto)
qed

definition grep_env :: uenv where
  "grep_env = \<lparr>u_file = [''f'' \<mapsto> (\<lparr>us_type = 2, us_dev = 1, us_ino = 5, us_nlink = 1, us_size = 8\<rparr>, ''ab'' @ [NL] @ ''c'' @ [NL] @ ''xa'' @ [NL])],
     u_fds = [None], u_cut = (\<lambda>_. 1023), u_reads = 0, u_out = []\<rparr>"

lemma grep_prints_files_witness:
  "\<exists>t. exec_prog (grep_main 9 [''a'', ''f'']) grep_env = (True, t) \<and> out_on 1 t = ''ab'' @ [NL] @ ''xa'' @ [NL]"
proof -
  have m: "match ''a'' ''ab''" "\<not> match ''a'' ''c''" "match ''a'' ''xa''" by code_simp+
  have "\<exists>t. exec_prog (grep_main 9 [''a'', ''f'']) grep_env = (True, t)
      \<and> printed_to grep_env (all_text ''grep'' (\<lambda>_ c. concat (map (\<lambda>l. l @ [NL]) (filter (match ''a'') (fst (cut_lines [] c))))) (u_file grep_env) [''f'']) t"
    by (rule grep_prints_files[where i = 0]) (auto simp: grep_env_def)
  then show ?thesis using m by (auto simp: printed_to_def out_on_def grep_env_def)
qed

text \<open>
  A line lost. When a read ends in the middle of a line and brought no newline (as reads
  from a pipe or the console do), the beginning of the line is dropped: here the reads return two bytes
  at a time, the line \<open>abc\<close> matches, and nothing is written.
\<close>

theorem grep_loses_split_line:
  "match ''abc'' ''abc'' \<and> (let (ended, t) = exec_prog (grep_main 9 [''abc''])
      \<lparr>u_file = Map.empty, u_fds = [Some (stat_of Nothing, ''abc'' @ [NL])], u_cut = (\<lambda>_. 2), u_reads = 0, u_out = []\<rparr>
     in ended \<and> u_out t = [] \<and> u_reads t = 3)"
  by code_simp

section \<open>ls\<close>

text \<open>The entries that a directory holds, and the lines that \<open>ls\<close> prints for a path.\<close>

fun records :: "string \<Rightarrow> string list" where
  "records c = (if length c < 16 then [] else take 16 c # records (drop 16 c))"

declare records.simps [simp del]

definition entry_text :: "(string \<Rightarrow> (ustat \<times> string) option) \<Rightarrow> string \<Rightarrow> string \<Rightarrow> string" where
  "entry_text F path bs = (let (inum, name) = entry_of bs; p = path @ ''/'' @ name in
     if inum = 0 then [] else case F p of
       None \<Rightarrow> println ''ls: cannot stat %s'' [Ustr (Some p)]
     | Some (st, _) \<Rightarrow> ls_line p st)"

definition ls_text :: "(string \<Rightarrow> (ustat \<times> string) option) \<Rightarrow> string \<Rightarrow> string" where
  "ls_text F path = (case F path of None \<Rightarrow> []
     | Some (st, c) \<Rightarrow>
         if us_type st = 2 then ls_line path st
         else if us_type st = 1 then
           if length path + 16 > 512 then println ''ls: path too long'' []
           else concat (map (entry_text F path) (records c))
         else [])"

text \<open>Opening a path takes the first free descriptor; \<open>stat\<close> gives it back.\<close>

lemma open_reply:
  assumes "i < length (u_fds e)" "u_fds e ! i = None"
  obtains j where "j < length (u_fds e)" "u_fds e ! j = None" "u_file e p = None \<Longrightarrow> serve e (Sopen p m) = ((-1, Nothing), e)"
    "\<And>f. u_file e p = Some f \<Longrightarrow> serve e (Sopen p m) = ((int j, Nothing), e\<lparr>u_fds := (u_fds e)[j := Some f]\<rparr>)"
proof -
  obtain j where j: "find (\<lambda>i. u_fds e ! i = None) [0..<length (u_fds e)] = Some j"
    using assms by (cases "find (\<lambda>i. u_fds e ! i = None) [0..<length (u_fds e)]") (auto simp: find_None_iff)
  then have "j < length (u_fds e)" "u_fds e ! j = None" by (auto simp: find_Some_iff)
  then show thesis using that[of j] j by simp
qed

lemma close_reply: "j < length (u_fds e) \<Longrightarrow> serve (e\<lparr>u_fds := (u_fds e)[j := Some f]\<rparr>) (Sclose (int j)) = ((0, Nothing), e\<lparr>u_fds := (u_fds e)[j := None]\<rparr>)"
  by (simp add: opened_def)

lemma stat_run:
  assumes "i < length (u_fds e)" "u_fds e ! i = None"
  shows "exec_prog (stat_call p kk) e = (case u_file e p of None \<Rightarrow> exec_prog (kk (-1) Nothing) e
    | Some (st, _) \<Rightarrow> exec_prog (kk 0 (Stat st)) e)"
proof -
  obtain j where j: "j < length (u_fds e)" "u_fds e ! j = None" "u_file e p = None \<Longrightarrow> serve e (Sopen p 0) = ((-1, Nothing), e)"
    "\<And>f. u_file e p = Some f \<Longrightarrow> serve e (Sopen p 0) = ((int j, Nothing), e\<lparr>u_fds := (u_fds e)[j := Some f]\<rparr>)"
    by (rule open_reply[OF assms, of p 0]) (rule that)
  have "serve (e\<lparr>u_fds := (u_fds e)[j := Some f]\<rparr>) (Sfstat (int j)) = ((0, Stat (fst f)), e\<lparr>u_fds := (u_fds e)[j := Some f]\<rparr>)" for f
    using j(1) by (simp add: opened_def split: prod.split)
  note S = this
  have e: "e\<lparr>u_fds := (u_fds e)[j := None]\<rparr> = e" using j(2) list_update_id[of "u_fds e" j] by simp
  show ?thesis
  proof (cases "u_file e p")
    case None
    then show ?thesis using j(3) by (simp add: stat_call_def del: serve.simps)
  next
    case (Some f)
    then show ?thesis
      by (cases f) (simp add: stat_call_def j(4) S close_reply[OF j(1)] e del: serve.simps)
  qed
qed

lemma ls_entries_run:
  assumes "opened e fd = Some (st, c)" "i < length (u_fds e)" "u_fds e ! i = None" "\<forall>i. 16 \<le> u_cut e i" "length (records c) < n"
  shows "\<exists>t. exec_prog (ls_entries n fd path k) e = exec_prog k t \<and> printed_to e (concat (map (entry_text (u_file e) path) (records c))) t
    \<and> u_fds t = (u_fds e)[nat fd := Some (st, [])]"
  using assms
proof (induction n arbitrary: e c)
  case (Suc n)
  define u where "u = after_read 16 fd st c e"
  have "16 \<le> u_cut e (u_reads e)" using Suc.prems(4) by blast
  then have m: "take_bytes 16 c e = min 16 (length c)" by (simp add: take_bytes_def)
  note R = read_reply[OF Suc.prems(1), of 16, unfolded m, folded u_def]
  show ?case
  proof (cases "length c < 16")
    case True
    then have "records c = []" by (subst records.simps) simp
    then show ?thesis using R True by (intro exI[of _ u]) (simp add: u_def after_read_def Let_def m del: serve.simps)
  next
    case False
    then have rc: "records c = take 16 c # records (drop 16 c)" by (subst records.simps) simp
    obtain inum name where en: "entry_of (take 16 c) = (inum, name)" by (metis surj_pair)
    let ?p = "path @ ''/'' @ name"
    have ne: "nat fd \<noteq> i" using Suc.prems(1,3) by (auto simp: opened_def split: if_splits)
    have fu: "u_fds u = (u_fds e)[nat fd := Some (st, drop 16 c)]" using False by (simp add: u_def after_read_def m Let_def)
    have iu: "i < length (u_fds u)" "u_fds u ! i = None" "u_file u = u_file e" using Suc.prems(2,3) ne fu R(3) by (simp_all add: printed_to_def)
    define v where "v = (if inum = 0 then u else snd (serve u (Sprint 1 (entry_text (u_file e) path (take 16 c)))))"
    have v: "printed_to u (entry_text (u_file e) path (take 16 c)) v" "u_fds v = u_fds u"
      using write_env(4,6)[of u "entry_text (u_file e) path (take 16 c)"] by (auto simp: v_def entry_text_def en Let_def)
    have "exec_prog (ls_entries (Suc n) fd path k) e = exec_prog (ls_entries n fd path k) v"
    proof (cases "inum = 0")
      case True
      then show ?thesis using R(1) False en by (simp add: v_def Let_def del: serve.simps)
    next
      case False2: False
      then show ?thesis
        using R(1) False en stat_run[OF iu(1,2), of ?p] iu(3)
        by (simp add: v_def Let_def entry_text_def del: serve.simps split: option.split)
    qed
    moreover have "opened v fd = Some (st, drop 16 c)" "i < length (u_fds v)" "u_fds v ! i = None" "\<forall>i. 16 \<le> u_cut v i" "length (records (drop 16 c)) < n"
      using R(2,5) False v iu Suc.prems(4,5) rc by (auto simp: opened_def printed_to_def split: if_splits)
    from Suc.IH[OF this] obtain t where "exec_prog (ls_entries n fd path k) v = exec_prog k t"
      "printed_to v (concat (map (entry_text (u_file v) path) (records (drop 16 c)))) t" "u_fds t = (u_fds v)[nat fd := Some (st, [])]" by blast
    moreover have "u_file v = u_file e" using v(1) iu(3) by (simp add: printed_to_def)
    ultimately show ?thesis
      using printed_to_trans[OF R(3) printed_to_trans[OF v(1)]] R(4) v(2) rc by auto
  qed
qed simp

lemma err_env:
  "serve e (Sprint 2 t) = ((0, Nothing), snd (serve e (Sprint 2 t)))" "printed_to e [] (snd (serve e (Sprint 2 t)))"
  "u_fds (snd (serve e (Sprint 2 t))) = u_fds e"
  by (simp_all add: printed_to_def out_on_def)

lemma ls_run:
  assumes f: "i < j" "j < length (u_fds e)" "u_fds e ! i = None" "u_fds e ! j = None" and c: "\<forall>i. 16 \<le> u_cut e i"
    and n: "\<And>st d. u_file e path = Some (st, d) \<Longrightarrow> length (records d) < n"
  shows "\<exists>t. exec_prog (ls n path k) e = exec_prog k t \<and> printed_to e (ls_text (u_file e) path) t \<and> u_fds t = u_fds e"
proof -
  have il: "i < length (u_fds e)" using f(1,2) by simp
  obtain q where q: "q < length (u_fds e)" "u_fds e ! q = None" "u_file e path = None \<Longrightarrow> serve e (Sopen path 0) = ((-1, Nothing), e)"
    "\<And>f. u_file e path = Some f \<Longrightarrow> serve e (Sopen path 0) = ((int q, Nothing), e\<lparr>u_fds := (u_fds e)[q := Some f]\<rparr>)"
    by (rule open_reply[OF il f(3), of path 0]) (rule that)
  show ?thesis
  proof (cases "u_file e path")
    case None
    then show ?thesis
      using q(3) err_env[of e] by (auto simp: ls_def ls_text_def simp del: serve.simps)
  next
    case (Some fl)
    obtain st d where d: "u_file e path = Some (st, d)" using Some by (cases fl) auto
    define u where "u = e\<lparr>u_fds := (u_fds e)[q := Some (st, d)]\<rparr>"
    have u: "opened u (int q) = Some (st, d)" "printed_to e [] u" "u_file u = u_file e" "u_cut u = u_cut e"
      using q(1) by (simp_all add: u_def opened_def printed_to_def out_on_def)
    have S: "serve u (Sfstat (int q)) = ((0, Stat st), u)" using u(1) by simp
    have fin: "\<exists>t. exec_prog (do_call (Sclose (int q)) k) v = exec_prog k t \<and> printed_to v [] t \<and> u_fds t = u_fds e"
      if "u_fds v = (u_fds e)[q := Some x]" for v x
      using that q(1,2) list_update_id[of "u_fds e" q]
      by (intro exI[of _ "v\<lparr>u_fds := (u_fds v)[q := None]\<rparr>"]) (simp add: opened_def printed_to_def out_on_def)
    have L: "exec_prog (ls n path k) e = exec_prog (if us_type st = 2 then do_call (Sprint 1 (ls_line path st)) (do_call (Sclose (int q)) k)
       else if us_type st = 1 then
         if length path + 1 + 14 + 1 > 512 then do_call (Sprint 1 (println ''ls: path too long'' [])) (do_call (Sclose (int q)) k)
         else ls_entries n (int q) path (do_call (Sclose (int q)) k)
       else do_call (Sclose (int q)) k) u"
      using q(4)[OF d] S by (simp add: ls_def Let_def del: serve.simps flip: u_def)
    have P: "\<exists>t. exec_prog (do_call (Sprint 1 x) (do_call (Sclose (int q)) k)) u = exec_prog k t \<and> printed_to e x t \<and> u_fds t = u_fds e" for x
      using fin[of "snd (serve u (Sprint 1 x))" "(st, d)"] write_env(4,6)[of u x] printed_to_trans[OF u(2), of x] printed_to_trans[of e x _ "[]"]
      by (fastforce simp: u_def simp del: serve.simps)
    obtain r where r: "r < length (u_fds u)" "u_fds u ! r = None"
      using f il that[of i] that[of j] by (cases "q = i") (simp_all add: u_def)
    have E: "\<exists>t. exec_prog (ls_entries n (int q) path (do_call (Sclose (int q)) k)) u = exec_prog k t
        \<and> printed_to e (concat (map (entry_text (u_file e) path) (records d))) t \<and> u_fds t = u_fds e"
    proof -
      obtain v where v: "exec_prog (ls_entries n (int q) path (do_call (Sclose (int q)) k)) u = exec_prog (do_call (Sclose (int q)) k) v"
        "printed_to u (concat (map (entry_text (u_file e) path) (records d))) v" "u_fds v = (u_fds u)[nat (int q) := Some (st, [])]"
        using ls_entries_run[OF u(1) r, of n path "do_call (Sclose (int q)) k"] c n[OF d] unfolding u(3,4) by blast
      have fv: "u_fds v = (u_fds e)[q := Some (st, [])]" using v(3) by (simp add: u_def)
      show ?thesis using fin[OF fv] v(1) printed_to_trans[OF printed_to_trans[OF u(2) v(2)], of "[]"] by (auto simp del: exec_prog.simps)
    qed
    have N: "\<exists>t. exec_prog (do_call (Sclose (int q)) k) u = exec_prog k t \<and> printed_to e [] t \<and> u_fds t = u_fds e"
      using fin[of u "(st, d)"] printed_to_trans[OF u(2), of "[]"] by (auto simp: u_def)
    show ?thesis using P E N unfolding L by (simp add: ls_text_def d del: exec_prog.simps)
  qed
qed

text \<open>
  C39: \<open>ls\<close> over paths. With two free descriptors and reads that return whole entries, \<open>ls\<close> exits and has printed, for
  every argument in order, the line of a file, or a line for each entry of a directory with an inode, its
  name padded and its type, number and size, and nothing for devices; what cannot be opened is reported and skipped.
\<close>

theorem ls_lists:
  assumes "i < j" "j < length (u_fds e)" "u_fds e ! i = None" "u_fds e ! j = None" "\<forall>i. 16 \<le> u_cut e i"
    and "\<And>p st d. u_file e p = Some (st, d) \<Longrightarrow> length (records d) < n"
  shows "\<exists>t. exec_prog (ls_main n args) e = (True, t)
    \<and> printed_to e (concat (map (ls_text (u_file e)) (if args = [] then [''.''] else args))) t"
proof -
  have "\<exists>t. exec_prog (ls_all n as) e = (True, t) \<and> printed_to e (concat (map (ls_text (u_file e)) as)) t" for as
    using assms
  proof (induction as arbitrary: e)
    case (Cons a as)
    obtain t where t: "exec_prog (ls n a (ls_all n as)) e = exec_prog (ls_all n as) t" "printed_to e (ls_text (u_file e) a) t" "u_fds t = u_fds e"
      using ls_run[OF Cons.prems(1-5), of a n "ls_all n as"] Cons.prems(6)[of a] by blast
    have s: "u_file t = u_file e" "u_cut t = u_cut e" using t(2) by (simp_all add: printed_to_def)
    have "\<exists>u. exec_prog (ls_all n as) t = (True, u) \<and> printed_to t (concat (map (ls_text (u_file t)) as)) u"
      by (rule Cons.IH) (use Cons.prems s t(3) in auto)
    then show ?case using t(1) printed_to_trans[OF t(2)] s by auto
  qed simp
  from this[of args] this[of "[''.'']"] show ?thesis by (simp add: ls_main_def)
qed

text \<open>An example: a directory with the entries \<open>.\<close>, a free one, and \<open>sh\<close>.\<close>

definition ls_env :: uenv where
  "ls_env = \<lparr>u_file = (let d = \<lparr>us_type = 1, us_dev = 1, us_ino = 1, us_nlink = 1, us_size = 48\<rparr>; z = CHR 0x00 in
     [''.'' \<mapsto> (d, [CHR 0x01, z, CHR ''.''] @ replicate 13 z @ replicate 16 z @ [CHR 0x11, z, CHR ''s'', CHR ''h''] @ replicate 12 z),
      ''./.'' \<mapsto> (d, []), ''./sh'' \<mapsto> (d\<lparr>us_type := 2, us_ino := 17, us_size := 1500\<rparr>, [])]),
     u_fds = [None, None], u_cut = (\<lambda>_. 512), u_reads = 0, u_out = []\<rparr>"

lemma ls_lists_witness:
  "\<exists>t. exec_prog (ls_main 9 []) ls_env = (True, t)
     \<and> out_on 1 t = ''.              1 1 48'' @ [NL] @ ''sh             2 17 1500'' @ [NL]"
proof -
  have "\<exists>t. exec_prog (ls_main 9 []) ls_env = (True, t)
      \<and> printed_to ls_env (concat (map (ls_text (u_file ls_env)) (if [] = ([] :: string list) then [''.''] else []))) t"
  proof (rule ls_lists[where i = 0 and j = 1])
    show "length (records d) < 9" if "u_file ls_env p = Some (st, d)" for p st d
      using that by (auto simp: ls_env_def Let_def records.simps split: if_splits)
  qed (simp_all add: ls_env_def)
  moreover have "ls_text (u_file ls_env) ''.'' = ''.              1 1 48'' @ [NL] @ ''sh             2 17 1500'' @ [NL]"
    by code_simp
  moreover have "out_on 1 ls_env = []" by (simp add: out_on_def ls_env_def)
  ultimately show ?thesis by (auto simp: printed_to_def)
qed

end
