(* ===== verification/Shell.thy ===== *)
theory Shell
  imports User_Calls
begin

text \<open>
  The shell (\<open>sh.c\<close>): tokens, the recursive-descent parser, and the execution of a parsed
  command as the tree of system calls it makes (theory \<open>User_Calls\<close>). A \<open>char *\<close> into the command line is a position
  in it; reading at the end of the line gives the terminating 0. The parser functions take a
  bound on the depth of calls, and running out of it is a \<open>Fault\<close>; the theorem on termination
  shows that the bound \<open>parsecmd\<close> starts with is enough for every line.
\<close>

section \<open>Commands\<close>

abbreviation MAXARGS :: nat where "MAXARGS \<equiv> 10"
abbreviation O_RDONLY :: int where "O_RDONLY \<equiv> 0"
abbreviation O_WRONLY :: int where "O_WRONLY \<equiv> 1"
abbreviation O_RDWR :: int where "O_RDWR \<equiv> 2"
abbreviation O_CREATE :: int where "O_CREATE \<equiv> 0x200"

text \<open>A word is where it starts (\<open>argv\<close>, \<open>file\<close>) and where it ends (\<open>eargv\<close>, \<open>efile\<close>).\<close>

datatype cmd =
    Exec "(nat \<times> nat) list"
  | Redir cmd nat nat int int
  | Pipe cmd cmd
  | List cmd cmd
  | Back cmd

section \<open>Tokens\<close>

definition whitespace :: string where
  "whitespace = '' '' @ [CHR 0x09, CR, NL, CHR 0x0B]"

definition symbols :: string where
  "symbols = ''<|>&;()''"

definition at_pos :: "string \<Rightarrow> nat \<Rightarrow> char" where
  "at_pos s i = (if i < length s then s ! i else NUL)"

definition is_ws :: "char \<Rightarrow> bool" where
  "is_ws c \<longleftrightarrow> strchr whitespace c \<noteq> None"

definition is_sym :: "char \<Rightarrow> bool" where
  "is_sym c \<longleftrightarrow> strchr symbols c \<noteq> None"

text \<open>\<open>while(s < es && strchr(whitespace, *s)) s++;\<close>\<close>

definition skip_ws :: "string \<Rightarrow> nat \<Rightarrow> nat" where
  "skip_ws s i = i + length (takeWhile is_ws (drop i s))"

text \<open>\<open>gettoken\<close>: the token, where its text starts and ends, and the new position.\<close>

definition gettoken :: "string \<Rightarrow> nat \<Rightarrow> char \<times> nat \<times> nat \<times> nat" where
  "gettoken s i =
     (let q = skip_ws s i; c = at_pos s q;
          (ret, e) = (if c = NUL then (c, q)
            else if c \<in> set ''|();&<'' then (c, q + 1)
            else if c = CHR ''>'' then
              if at_pos s (q + 1) = CHR ''>'' then (CHR ''+'', q + 2) else (c, q + 1)
            else (CHR ''a'', q + length (takeWhile (\<lambda>x. \<not> is_ws x \<and> \<not> is_sym x) (drop q s))))
      in (ret, q, e, skip_ws s e))"

definition peek :: "string \<Rightarrow> nat \<Rightarrow> string \<Rightarrow> bool \<times> nat" where
  "peek s i toks = (let j = skip_ws s i; c = at_pos s j in (c \<noteq> NUL \<and> strchr toks c \<noteq> None, j))"

section \<open>Parser\<close>

fun parseredirs :: "nat \<Rightarrow> string \<Rightarrow> cmd \<Rightarrow> nat \<Rightarrow> (cmd \<times> nat) res" where
  "parseredirs 0 s cmd i = Inl (Fault ''fuel'')"
| "parseredirs (Suc n) s cmd i =
     (let (b, i) = peek s i ''<>'' in
      if \<not> b then Inr (cmd, i)
      else
        let (tok, _, _, i) = gettoken s i; (t, q, eq, i) = gettoken s i in
        if t \<noteq> CHR ''a'' then Inl (Panic ''missing file for redirection'')
        else parseredirs n s
          (if tok = CHR ''<'' then Redir cmd q eq O_RDONLY 0 else Redir cmd q eq (O_WRONLY + O_CREATE) 1) i)"

text \<open>The arguments are stored in the exec node, which the redirections may have wrapped.\<close>

fun set_argv :: "(nat \<times> nat) list \<Rightarrow> cmd \<Rightarrow> cmd" where
  "set_argv as (Exec _) = Exec as"
| "set_argv as (Redir c q eq mode fd) = Redir (set_argv as c) q eq mode fd"
| "set_argv as c = c"

fun parse_args :: "nat \<Rightarrow> string \<Rightarrow> (nat \<times> nat) list \<Rightarrow> cmd \<Rightarrow> nat \<Rightarrow> (cmd \<times> nat) res" where
  "parse_args 0 s as ret i = Inl (Fault ''fuel'')"
| "parse_args (Suc n) s as ret i =
     (let (b, i) = peek s i ''|)&;'' in
      if b then Inr (set_argv as ret, i)
      else
        let (tok, q, eq, i) = gettoken s i in
        if tok = NUL then Inr (set_argv as ret, i)
        else if tok \<noteq> CHR ''a'' then Inl (Panic ''syntax'')
        else if length as + 1 \<ge> MAXARGS then Inl (Panic ''too many args'')
        else bind_res (parseredirs n s ret i) (\<lambda>(ret, i). parse_args n s (as @ [(q, eq)]) ret i))"

text \<open>\<open>while(peek(ps, es, "&"))\<close> of \<open>parseline\<close>\<close>

fun parse_backs :: "nat \<Rightarrow> string \<Rightarrow> cmd \<Rightarrow> nat \<Rightarrow> (cmd \<times> nat) res" where
  "parse_backs 0 s cmd i = Inl (Fault ''fuel'')"
| "parse_backs (Suc n) s cmd i =
     (let (b, i) = peek s i ''&'' in
      if b then let (_, _, _, i) = gettoken s i in parse_backs n s (Back cmd) i
      else Inr (cmd, i))"

fun parseline :: "nat \<Rightarrow> string \<Rightarrow> nat \<Rightarrow> (cmd \<times> nat) res"
  and parsepipe :: "nat \<Rightarrow> string \<Rightarrow> nat \<Rightarrow> (cmd \<times> nat) res"
  and parseexec :: "nat \<Rightarrow> string \<Rightarrow> nat \<Rightarrow> (cmd \<times> nat) res"
  and parseblock :: "nat \<Rightarrow> string \<Rightarrow> nat \<Rightarrow> (cmd \<times> nat) res" where
  "parseline 0 s i = Inl (Fault ''fuel'')"
| "parseline (Suc n) s i =
     bind_res (parsepipe n s i) (\<lambda>(cmd, i).
     bind_res (parse_backs n s cmd i) (\<lambda>(cmd, i).
     let (b, i) = peek s i '';'' in
     if b then
       let (_, _, _, i) = gettoken s i in
       bind_res (parseline n s i) (\<lambda>(r, i). Inr (List cmd r, i))
     else Inr (cmd, i)))"
| "parsepipe 0 s i = Inl (Fault ''fuel'')"
| "parsepipe (Suc n) s i =
     bind_res (parseexec n s i) (\<lambda>(cmd, i).
     let (b, i) = peek s i ''|'' in
     if b then
       let (_, _, _, i) = gettoken s i in
       bind_res (parsepipe n s i) (\<lambda>(r, i). Inr (Pipe cmd r, i))
     else Inr (cmd, i))"
| "parseexec 0 s i = Inl (Fault ''fuel'')"
| "parseexec (Suc n) s i =
     (let (b, i) = peek s i ''('' in
      if b then parseblock n s i
      else bind_res (parseredirs n s (Exec []) i) (\<lambda>(ret, i). parse_args n s [] ret i))"
| "parseblock 0 s i = Inl (Fault ''fuel'')"
| "parseblock (Suc n) s i =
     (let (b, i) = peek s i ''('' in
      if \<not> b then Inl (Panic ''parseblock'')
      else
        let (_, _, _, i) = gettoken s i in
        bind_res (parseline n s i) (\<lambda>(cmd, i).
        let (b, i) = peek s i '')'' in
        if \<not> b then Inl (Panic ''syntax - missing )'')
        else let (_, _, _, i) = gettoken s i in parseredirs n s cmd i))"

text \<open>\<open>nulterminate\<close> writes a 0 at the end of every word of the buffer.\<close>

fun nulterminate :: "cmd \<Rightarrow> string \<Rightarrow> string" where
  "nulterminate (Exec as) buf = fold (\<lambda>(q, eq) b. b[eq := NUL]) as buf"
| "nulterminate (Redir c q eq mode fd) buf = (nulterminate c buf)[eq := NUL]"
| "nulterminate (Pipe l r) buf = nulterminate r (nulterminate l buf)"
| "nulterminate (List l r) buf = nulterminate r (nulterminate l buf)"
| "nulterminate (Back c) buf = nulterminate c buf"

text \<open>
  \<open>parsecmd\<close>: the command and the line with the words cut; \<open>buf\<close> has the terminating 0. The
  message that shows the leftovers is left out, and \<open>malloc\<close> does not fail.
\<close>

definition parsecmd :: "string \<Rightarrow> (cmd \<times> string) res" where
  "parsecmd s =
     bind_res (parseline (4 * length s + 4) s 0) (\<lambda>(cmd, i).
     let (_, i) = peek s i [] in
     if i \<noteq> length s then Inl (Panic ''syntax'')
     else Inr (cmd, nulterminate cmd (s @ [NUL])))"

section \<open>Execution\<close>

definition sh_panic :: "string \<Rightarrow> prog" where
  "sh_panic msg = Call (Sprint 2 (msg @ [NL])) (\<lambda>_. Exit)"

definition fork1 :: "(int \<Rightarrow> prog) \<Rightarrow> prog" where
  "fork1 k = Call Sfork (\<lambda>(pid, _). if pid = -1 then sh_panic ''fork'' else k pid)"

text \<open>A C string of the buffer, and the arguments of an exec node.\<close>

definition cstr :: "string \<Rightarrow> nat \<Rightarrow> string" where
  "cstr buf q = takeWhile (\<lambda>c. c \<noteq> NUL) (drop q buf)"

primrec runcmd :: "string \<Rightarrow> cmd \<Rightarrow> prog" where
  "runcmd buf (Exec as) =
     (if as = [] then Exit
      else let argv = map (\<lambda>(q, eq). cstr buf q) as in
        Call (Sexec (hd argv) argv) (\<lambda>_.
        Call (Sprint 2 (''exec '' @ hd argv @ '' failed'' @ [NL])) (\<lambda>_. Exit)))"
| "runcmd buf (Redir c q eq mode fd) =
     Call (Sclose fd) (\<lambda>_.
     Call (Sopen (cstr buf q) mode) (\<lambda>(r, _).
     if r < 0 then Call (Sprint 2 (''open '' @ cstr buf q @ '' failed'' @ [NL])) (\<lambda>_. Exit)
     else runcmd buf c))"
| "runcmd buf (List l r) =
     fork1 (\<lambda>pid. if pid = 0 then runcmd buf l else Call Swait (\<lambda>_. runcmd buf r))"
| "runcmd buf (Pipe l r) =
     Call Spipe (\<lambda>(res, p). let (p0, p1) = fds_of p in
     if res < 0 then sh_panic ''pipe''
     else fork1 (\<lambda>pid. if pid = 0 then
         Call (Sclose 1) (\<lambda>_. Call (Sdup p1) (\<lambda>_. Call (Sclose p0) (\<lambda>_. Call (Sclose p1) (\<lambda>_. runcmd buf l))))
       else fork1 (\<lambda>pid. if pid = 0 then
         Call (Sclose 0) (\<lambda>_. Call (Sdup p0) (\<lambda>_. Call (Sclose p0) (\<lambda>_. Call (Sclose p1) (\<lambda>_. runcmd buf r))))
       else Call (Sclose p0) (\<lambda>_. Call (Sclose p1) (\<lambda>_. Call Swait (\<lambda>_. Call Swait (\<lambda>_. Exit)))))))"
| "runcmd buf (Back c) =
     fork1 (\<lambda>pid. if pid = 0 then runcmd buf c else Exit)"

text \<open>
  \<open>main\<close>: \<open>n\<close> bounds the calls of \<open>open("console")\<close>, \<open>lines\<close> are what \<open>getcmd\<close> reads before the
  end of the input (each with its newline).
\<close>

fun open_console :: "nat \<Rightarrow> prog \<Rightarrow> prog" where
  "open_console 0 k = k"
| "open_console (Suc n) k =
     Call (Sopen ''console'' O_RDWR) (\<lambda>(fd, _).
     if fd \<ge> 0 then (if fd \<ge> 3 then Call (Sclose fd) (\<lambda>_. k) else open_console n k) else k)"

fun sh_lines :: "string list \<Rightarrow> prog" where
  "sh_lines [] = Call (Sprint 2 ''$ '') (\<lambda>_. Exit)"
| "sh_lines (l # ls) =
     Call (Sprint 2 ''$ '') (\<lambda>_.
     if take 3 l = ''cd '' then
       Call (Schdir (drop 3 (butlast l))) (\<lambda>(r, _).
       if r < 0 then Call (Sprint 2 (''cannot cd '' @ drop 3 (butlast l) @ [NL])) (\<lambda>_. sh_lines ls)
       else sh_lines ls)
     else fork1 (\<lambda>pid. if pid = 0 then
         (case parsecmd l of
            Inr (cmd, buf) \<Rightarrow> runcmd buf cmd
          | Inl (Panic msg) \<Rightarrow> sh_panic msg
          | Inl _ \<Rightarrow> Exit)
       else Call Swait (\<lambda>_. sh_lines ls)))"

definition sh_main :: "string list \<Rightarrow> prog" where
  "sh_main lines = open_console 4 (sh_lines lines)"

end
