(* ===== verification/Shell_Parser.thy ===== *)
theory Shell_Parser
  imports Shell
begin

text \<open>
  The parser of the shell terminates on every line and understands what it is given: the calls
  of the recursive descent move forward in the line.
\<close>

section \<open>The parser makes progress\<close>

lemma skip_ws_bounds: "i \<le> length s \<Longrightarrow> i \<le> skip_ws s i \<and> skip_ws s i \<le> length s"
  using length_takeWhile_le[of is_ws "drop i s"] by (simp add: skip_ws_def)

lemma skip_ws_stop: "skip_ws s i < length s \<Longrightarrow> \<not> is_ws (s ! skip_ws s i)"
  using nth_length_takeWhile[of is_ws "drop i s"] by (simp add: skip_ws_def)

lemma skip_ws_idem: "i \<le> length s \<Longrightarrow> skip_ws s (skip_ws s i) = skip_ws s i"
proof -
  assume i: "i \<le> length s"
  have "takeWhile is_ws (drop (skip_ws s i) s) = []"
    using skip_ws_stop[of s i] by (auto simp: takeWhile_eq_Nil_iff hd_drop_conv_nth)
  then show ?thesis by (simp add: skip_ws_def)
qed

lemma sym_chars: "is_sym c \<longleftrightarrow> c \<in> set ''<|>&;()''"
  by (auto simp: is_sym_def symbols_def)

lemma gettoken_bounds:
  assumes "i \<le> length s" "gettoken s i = (t, q, e, j)"
  shows "i \<le> j" "j \<le> length s" "t \<noteq> NUL \<Longrightarrow> i < j" "t = NUL \<longleftrightarrow> at_pos s (skip_ws s i) = NUL"
proof -
  let ?q = "skip_ws s i"
  have q: "i \<le> ?q" "?q \<le> length s" using skip_ws_bounds[OF assms(1)] by auto
  have j: "j = skip_ws s e" and t: "t = NUL \<longleftrightarrow> at_pos s ?q = NUL"
    using assms(2) by (auto simp: gettoken_def Let_def split: if_splits)
  have e: "?q \<le> e" "e \<le> length s" "t \<noteq> NUL \<Longrightarrow> ?q < e"
  proof -
    let ?c = "at_pos s ?q" and ?w = "takeWhile (\<lambda>x. \<not> is_ws x \<and> \<not> is_sym x) (drop ?q s)"
    have "?q < length s" if "?c \<noteq> NUL" using that by (auto simp: at_pos_def split: if_splits)
    moreover have "?q + 1 < length s" if "at_pos s (?q + 1) = CHR ''>''"
      using that by (auto simp: at_pos_def split: if_splits)
    moreover have "?q + length ?w \<le> length s"
      using length_takeWhile_le[of "\<lambda>x. \<not> is_ws x \<and> \<not> is_sym x" "drop ?q s"] q by simp
    moreover have "?w \<noteq> []" if "?c \<noteq> NUL" "?c \<notin> set ''|();&<''" "?c \<noteq> CHR ''>''"
    proof -
      have l: "?q < length s" using that(1) by (auto simp: at_pos_def split: if_splits)
      then have "\<not> is_ws (s ! ?q)" "s ! ?q = ?c" using skip_ws_stop by (auto simp: at_pos_def)
      moreover have "\<not> is_sym ?c" using that by (auto simp: sym_chars)
      ultimately show ?thesis using l by (auto simp: takeWhile_eq_Nil_iff hd_drop_conv_nth)
    qed
    ultimately show "?q \<le> e" "e \<le> length s" "t \<noteq> NUL \<Longrightarrow> ?q < e"
      using assms(2) q by (auto simp: gettoken_def Let_def split: if_splits)
  qed
  show "t = NUL \<longleftrightarrow> at_pos s (skip_ws s i) = NUL" by (rule t)
  show "i \<le> j" "j \<le> length s" "t \<noteq> NUL \<Longrightarrow> i < j" using e q skip_ws_bounds[OF e(2)] j by auto
qed

lemma peek_bounds:
  assumes "i \<le> length s" "peek s i toks = (b, j)"
  shows "i \<le> j" "j \<le> length s" "skip_ws s j = j"
    "b \<Longrightarrow> gettoken s j = (t, q, e, k) \<Longrightarrow> j < k \<and> k \<le> length s"
proof -
  have j: "j = skip_ws s i" "b \<Longrightarrow> at_pos s j \<noteq> NUL" using assms(2) by (auto simp: peek_def Let_def)
  show "i \<le> j" and l: "j \<le> length s" using skip_ws_bounds[OF assms(1)] j by auto
  show s: "skip_ws s j = j" using skip_ws_idem[OF assms(1)] j by simp
  show "b \<Longrightarrow> gettoken s j = (t, q, e, k) \<Longrightarrow> j < k \<and> k \<le> length s"
    using gettoken_bounds[OF l, of t q e k] j s by auto
qed

text \<open>A parser result is fine if it is a syntax error or an advanced position in the line.\<close>

definition parsed :: "string \<Rightarrow> nat \<Rightarrow> (cmd \<times> nat) res \<Rightarrow> bool" where
  "parsed s i r \<longleftrightarrow> (case r of Inr (c, j) \<Rightarrow> i \<le> j \<and> j \<le> length s | Inl e \<Rightarrow> \<exists>msg. e = Panic msg)"

lemma parsed_simps [simp]: "parsed s i (Inr (c, j)) \<longleftrightarrow> i \<le> j \<and> j \<le> length s" "parsed s i (Inl (Panic msg))"
  by (simp_all add: parsed_def)

lemma parsed_bind:
  assumes "parsed s i m" "\<And>c j. i \<le> j \<Longrightarrow> j \<le> length s \<Longrightarrow> parsed s i (f (c, j))"
  shows "parsed s i (bind_res m f)"
  using assms by (cases m) (auto simp: parsed_def)

lemma parsed_mono: "parsed s j m \<Longrightarrow> i \<le> j \<Longrightarrow> parsed s i m"
  by (auto simp: parsed_def split: sum.splits)

lemma parseredirs_parsed: "i \<le> length s \<Longrightarrow> length s - i < n \<Longrightarrow> parsed s i (parseredirs n s cmd i)"
proof (induction n arbitrary: cmd i)
  case (Suc n)
  obtain b j where p: "peek s i ''<>'' = (b, j)" by (metis surj_pair)
  note P = peek_bounds[OF Suc.prems(1) p]
  obtain t q e k where g: "gettoken s j = (t, q, e, k)" by (metis surj_pair)
  obtain t' q' e' k' where g': "gettoken s k = (t', q', e', k')" by (metis surj_pair)
  show ?case
  proof (cases b)
    case True
    note G = P(4)[OF True g]
    note G' = gettoken_bounds[OF conjunct2[OF G] g']
    have "parsed s i (parseredirs n s c k')" for c
      using Suc.prems P G G' by (intro parsed_mono[OF Suc.IH, of k' i]) auto
    then show ?thesis using True p g g' by simp
  qed (use P p in simp)
qed simp

lemma parse_args_parsed: "i \<le> length s \<Longrightarrow> length s - i < n \<Longrightarrow> parsed s i (parse_args n s as ret i)"
proof (induction n arbitrary: as ret i)
  case (Suc n)
  obtain b j where p: "peek s i ''|)&;'' = (b, j)" by (metis surj_pair)
  note P = peek_bounds[OF Suc.prems(1) p]
  obtain t q e k where g: "gettoken s j = (t, q, e, k)" by (metis surj_pair)
  note G = gettoken_bounds[OF P(2) g]
  have loop: "parsed s i (bind_res (parseredirs n s ret k) (\<lambda>(ret, i). parse_args n s (as @ [(q, e)]) ret i))" if "t \<noteq> NUL"
  proof (rule parsed_mono[of s k], rule parsed_bind)
    have k: "length s - k < n" using that Suc.prems P G by auto
    show "parsed s k (parseredirs n s ret k)" using k G by (intro parseredirs_parsed)
    fix c m assume "k \<le> m" "m \<le> length s"
    then show "parsed s k ((\<lambda>(ret, i). parse_args n s (as @ [(q, e)]) ret i) (c, m))"
      using k by (auto intro!: parsed_mono[OF Suc.IH, of m k])
  qed (use P G in auto)
  show ?case using P G loop p g by auto
qed simp

lemma parse_backs_parsed: "i \<le> length s \<Longrightarrow> length s - i < n \<Longrightarrow> parsed s i (parse_backs n s cmd i)"
proof (induction n arbitrary: cmd i)
  case (Suc n)
  obtain b j where p: "peek s i ''&'' = (b, j)" by (metis surj_pair)
  note P = peek_bounds[OF Suc.prems(1) p]
  obtain t q e k where g: "gettoken s j = (t, q, e, k)" by (metis surj_pair)
  show ?case
  proof (cases b)
    case True
    note G = P(4)[OF True g]
    have "parsed s i (parse_backs n s (Back cmd) k)"
      using Suc.prems P G by (intro parsed_mono[OF Suc.IH, of k i]) auto
    then show ?thesis using True p g by simp
  qed (use P p in simp)
qed simp

text \<open>The part of a parser function that starts after a one-character token.\<close>

lemma parsed_after_token:
  assumes "i \<le> length s" "peek s i toks = (True, j)" "gettoken s j = (t, q, e, k)"
    and "\<And>k. i < k \<Longrightarrow> k \<le> length s \<Longrightarrow> parsed s k (f k)"
  shows "parsed s i (f k)"
  using peek_bounds[OF assms(1,2)] assms(3,4) by (metis le_less_trans less_imp_le parsed_mono)

lemma parser_parsed:
  "i \<le> length s \<Longrightarrow> 4 * (length s - i) + 4 \<le> n \<Longrightarrow> parsed s i (parseline n s i)"
  "i \<le> length s \<Longrightarrow> 4 * (length s - i) + 3 \<le> n \<Longrightarrow> parsed s i (parsepipe n s i)"
  "i \<le> length s \<Longrightarrow> 4 * (length s - i) + 2 \<le> n \<Longrightarrow> parsed s i (parseexec n s i)"
  "i \<le> length s \<Longrightarrow> 4 * (length s - i) + 1 \<le> n \<Longrightarrow> parsed s i (parseblock n s i)"
proof (induction n arbitrary: i)
  case (Suc n)
  { case 1
    show ?case
      unfolding parseline.simps
    proof (rule parsed_bind)
      show "parsed s i (parsepipe n s i)" using 1 Suc.IH(2)[of i] by simp
      fix c j assume j: "i \<le> j" "j \<le> length s"
      show "parsed s i ((\<lambda>(cmd, i). bind_res (parse_backs n s cmd i) (\<lambda>(cmd, i).
          let (b, i) = peek s i '';'' in if b then let (_, _, _, i) = gettoken s i in
            bind_res (parseline n s i) (\<lambda>(r, i). Inr (List cmd r, i)) else Inr (cmd, i))) (c, j))"
        unfolding split_conv
      proof (rule parsed_mono[of s j], rule parsed_bind)
        show "parsed s j (parse_backs n s c j)" using 1 j by (intro parse_backs_parsed) auto
        fix c k assume k: "j \<le> k" "k \<le> length s"
        obtain b m where p: "peek s k '';'' = (b, m)" by (metis surj_pair)
        obtain t q e l where g: "gettoken s m = (t, q, e, l)" by (metis surj_pair)
        have "parsed s k (bind_res (parseline n s l) (\<lambda>(r, i). Inr (List c r, i)))" if b
        proof (rule parsed_after_token[OF k(2) _ g, where f = "\<lambda>l. bind_res (parseline n s l) (\<lambda>(r, i). Inr (List c r, i))"])
          show "peek s k '';'' = (True, m)" using p that by simp
          fix l assume l: "k < l" "l \<le> length s"
          then show "parsed s l (bind_res (parseline n s l) (\<lambda>(r, i). Inr (List c r, i)))"
            using 1 j k Suc.IH(1)[of l] by (intro parsed_bind) auto
        qed
        then show "parsed s j ((\<lambda>(cmd, i). let (b, i) = peek s i '';'' in if b then let (_, _, _, i) = gettoken s i in
            bind_res (parseline n s i) (\<lambda>(r, i). Inr (List cmd r, i)) else Inr (cmd, i)) (c, k))"
          using k p g peek_bounds[OF k(2) p] by (auto intro: parsed_mono)
      qed (use j in simp)
    qed
  next
    case 2
    show ?case
      unfolding parsepipe.simps
    proof (rule parsed_bind)
      show "parsed s i (parseexec n s i)" using 2 Suc.IH(3)[of i] by simp
      fix c k assume k: "i \<le> k" "k \<le> length s"
      obtain b m where p: "peek s k ''|'' = (b, m)" by (metis surj_pair)
      obtain t q e l where g: "gettoken s m = (t, q, e, l)" by (metis surj_pair)
      have "parsed s k (bind_res (parsepipe n s l) (\<lambda>(r, i). Inr (Pipe c r, i)))" if b
      proof (rule parsed_after_token[OF k(2) _ g, where f = "\<lambda>l. bind_res (parsepipe n s l) (\<lambda>(r, i). Inr (Pipe c r, i))"])
        show "peek s k ''|'' = (True, m)" using p that by simp
        fix l assume l: "k < l" "l \<le> length s"
        then show "parsed s l (bind_res (parsepipe n s l) (\<lambda>(r, i). Inr (Pipe c r, i)))"
          using 2 k Suc.IH(2)[of l] by (intro parsed_bind) auto
      qed
      then show "parsed s i ((\<lambda>(cmd, i). let (b, i) = peek s i ''|'' in if b then let (_, _, _, i) = gettoken s i in
          bind_res (parsepipe n s i) (\<lambda>(r, i). Inr (Pipe cmd r, i)) else Inr (cmd, i)) (c, k))"
        using k p g peek_bounds[OF k(2) p] by (auto intro: parsed_mono)
    qed
  next
    case 3
    obtain b j where p: "peek s i ''('' = (b, j)" by (metis surj_pair)
    note P = peek_bounds[OF 3(1) p]
    have "parsed s j (bind_res (parseredirs n s (Exec []) j) (\<lambda>(ret, i). parse_args n s [] ret i))"
    proof (rule parsed_bind)
      show "parsed s j (parseredirs n s (Exec []) j)" using 3 P by (intro parseredirs_parsed) auto
      fix c k assume "j \<le> k" "k \<le> length s"
      then show "parsed s j ((\<lambda>(ret, i). parse_args n s [] ret i) (c, k))"
        using 3 P by (auto intro!: parsed_mono[OF parse_args_parsed, of k s n j])
    qed
    moreover have "parsed s j (parseblock n s j)" using 3 P Suc.IH(4)[of j] by auto
    ultimately show ?case using p P by (auto intro: parsed_mono)
  next
    case 4
    obtain b j where p: "peek s i ''('' = (b, j)" by (metis surj_pair)
    obtain t q e k where g: "gettoken s j = (t, q, e, k)" by (metis surj_pair)
    let ?f = "\<lambda>k. bind_res (parseline n s k) (\<lambda>(cmd, i). let (b, i) = peek s i '')'' in
        if \<not> b then Inl (Panic ''syntax - missing )'')
        else let (_, _, _, i) = gettoken s i in parseredirs n s cmd i)"
    have "parsed s i (?f k)" if b
    proof (rule parsed_after_token[OF 4(1) _ g, where f = ?f])
      show "peek s i ''('' = (True, j)" using p that by simp
      fix k assume k: "i < k" "k \<le> length s"
      show "parsed s k (?f k)"
      proof (rule parsed_bind)
        show "parsed s k (parseline n s k)" using 4 k Suc.IH(1)[of k] by auto
        fix c l assume l: "k \<le> l" "l \<le> length s"
        obtain b' m where p': "peek s l '')'' = (b', m)" by (metis surj_pair)
        obtain t' q' e' r where g': "gettoken s m = (t', q', e', r)" by (metis surj_pair)
        have "parsed s l (parseredirs n s c r)" if b'
        proof (rule parsed_after_token[OF l(2) _ g', where f = "parseredirs n s c"])
          show "peek s l '')'' = (True, m)" using p' that by simp
          fix r assume "l < r" "r \<le> length s"
          then show "parsed s r (parseredirs n s c r)" using 4 k l by (intro parseredirs_parsed) auto
        qed
        then show "parsed s k ((\<lambda>(cmd, i). let (b, i) = peek s i '')'' in
            if \<not> b then Inl (Panic ''syntax - missing )'')
            else let (_, _, _, i) = gettoken s i in parseredirs n s cmd i) (c, l))"
          using l p' g' by (auto intro: parsed_mono)
      qed
    qed
    then show ?case using p g by simp
  }
qed simp_all

text \<open>
  C27: the parser terminates. For every command line, the recursive descent returns a command
  or one of its syntax errors: the bound on the depth of calls is never exhausted, and the
  pointer into the line never passes its end.
\<close>

theorem parsecmd_terminates:
  "(\<exists>cmd buf. parsecmd s = Inr (cmd, buf)) \<or> (\<exists>msg. parsecmd s = Inl (Panic msg))"
proof -
  have "parsed s 0 (parseline (4 * length s + 4) s 0)" by (rule parser_parsed(1)) simp_all
  then show ?thesis
    by (cases "parseline (4 * length s + 4) s 0") (auto simp: parsecmd_def parsed_def case_prod_unfold Let_def)
qed

end
