(* ===== verification/Umalloc.thy ===== *)
theory Umalloc
  imports Memory
begin

text \<open>
  The allocator of user programs (\<open>umalloc.c\<close>), after Kernighan and Ritchie: a circular list of
  free blocks in order of address. A block begins with a header of 8 bytes, a pointer and the
  size of the block in headers; \<open>hptr\<close> and \<open>hsize\<close> are these two fields as functions of the
  header's address, \<open>hbase\<close> is the static header \<open>base\<close>. \<open>sbrk\<close> is a parameter.
\<close>

record heap =
  hptr :: "uint \<Rightarrow> uint"
  hsize :: "uint \<Rightarrow> uint"
  freep :: uint

definition set_ptr :: "uint \<Rightarrow> uint \<Rightarrow> heap \<Rightarrow> heap" where
  "set_ptr p v h = h\<lparr>hptr := (hptr h)(p := v)\<rparr>"

definition set_size :: "uint \<Rightarrow> uint \<Rightarrow> heap \<Rightarrow> heap" where
  "set_size p v h = h\<lparr>hsize := (hsize h)(p := v)\<rparr>"

text \<open>The search of \<open>free\<close> for the place of the block, by at most \<open>fuel\<close> links.\<close>

fun free_place :: "nat \<Rightarrow> uint \<Rightarrow> uint \<Rightarrow> heap \<Rightarrow> uint res" where
  "free_place 0 bp p h = Inl (Blocks ''free'')"
| "free_place (Suc fuel) bp p h =
     (if bp > p \<and> bp < hptr h p then Inr p
      else if p \<ge> hptr h p \<and> (bp > p \<or> bp < hptr h p) then Inr p
      else free_place fuel bp (hptr h p) h)"

definition free_join :: "uint \<Rightarrow> uint \<Rightarrow> heap \<Rightarrow> heap" where
  "free_join bp p h =
     (let h = (if bp + 8 * hsize h bp = hptr h p
               then set_ptr bp (hptr h (hptr h p)) (set_size bp (hsize h bp + hsize h (hptr h p)) h)
               else set_ptr bp (hptr h p) h);
          h = (if p + 8 * hsize h p = bp
               then set_ptr p (hptr h bp) (set_size p (hsize h p + hsize h bp) h)
               else set_ptr p bp h)
      in h\<lparr>freep := p\<rparr>)"

definition ufree :: "nat \<Rightarrow> uint \<Rightarrow> heap \<Rightarrow> heap res" where
  "ufree fuel ap h =
     (let bp = ap - 8 in bind_res (free_place fuel bp (freep h) h) (\<lambda>p. Inr (free_join bp p h)))"

text \<open>\<open>morecore\<close>; \<open>sbrk\<close> gives the old break or -1.\<close>

definition morecore :: "nat \<Rightarrow> (uint \<Rightarrow> uint) \<Rightarrow> uint \<Rightarrow> heap \<Rightarrow> (uint \<times> heap) res" where
  "morecore fuel sbrk nu h =
     (let nu = (if nu < 4096 then 4096 else nu); p = sbrk (nu * 8) in
      if p = -1 then Inr (0, h)
      else bind_res (ufree fuel (p + 8) (set_size p nu h)) (\<lambda>h. Inr (freep h, h)))"

definition take_block :: "uint \<Rightarrow> uint \<Rightarrow> uint \<Rightarrow> heap \<Rightarrow> uint \<times> heap" where
  "take_block nunits prevp p h =
     (let (p, h) = (if hsize h p = nunits then (p, set_ptr prevp (hptr h p) h)
            else let h = set_size p (hsize h p - nunits) h; q = p + 8 * hsize h p
                 in (q, set_size q nunits h))
      in (p + 8, h\<lparr>freep := prevp\<rparr>))"

fun malloc_loop :: "nat \<Rightarrow> (uint \<Rightarrow> uint) \<Rightarrow> uint \<Rightarrow> uint \<Rightarrow> uint \<Rightarrow> heap \<Rightarrow> (uint \<times> heap) res" where
  "malloc_loop 0 sbrk nunits prevp p h = Inl (Blocks ''malloc'')"
| "malloc_loop (Suc fuel) sbrk nunits prevp p h =
     (if hsize h p \<ge> nunits then Inr (take_block nunits prevp p h)
      else if p = freep h then
        bind_res (morecore fuel sbrk nunits h) (\<lambda>(p, h).
        if p = 0 then Inr (0, h) else malloc_loop fuel sbrk nunits p (hptr h p) h)
      else malloc_loop fuel sbrk nunits p (hptr h p) h)"

definition units :: "uint \<Rightarrow> uint" where
  "units nbytes = (nbytes + 8 - 1) div 8 + 1"

definition malloc :: "nat \<Rightarrow> (uint \<Rightarrow> uint) \<Rightarrow> uint \<Rightarrow> uint \<Rightarrow> heap \<Rightarrow> (uint \<times> heap) res" where
  "malloc fuel sbrk hbase nbytes h =
     (let nunits = units nbytes;
          h = (if freep h = 0 then set_size hbase 0 (set_ptr hbase hbase (h\<lparr>freep := hbase\<rparr>)) else h)
      in malloc_loop fuel sbrk nunits (freep h) (hptr h (freep h)) h)"

section \<open>Sizes\<close>

text \<open>A block of \<open>units n\<close> headers has room for its header and \<open>n\<close> bytes, unless \<open>n\<close> is within 7 of \<open>2 ^ 32\<close>.\<close>

lemma units_enough:
  assumes "unat n + 7 < 2 ^ 32"
  shows "unat n + 8 \<le> 8 * unat (units n)" "8 * unat (units n) < unat n + 16"
proof -
  have a: "unat (n + 7) = unat n + 7" using assms unat_add_small[of n 7] by simp
  have d: "unat ((n + 7) div 8) = (unat n + 7) div 8" by (simp add: unat_div a)
  have "(unat n + 7) div 8 + 1 < 2 ^ 32" using assms by simp
  then have u: "unat (units n) = (unat n + 7) div 8 + 1"
    using d unat_add_small[of "(n + 7) div 8" 1] by (simp add: units_def add.commute)
  have "(unat n + 7) div 8 * 8 + (unat n + 7) mod 8 = unat n + 7" "(unat n + 7) mod 8 < 8" by simp_all
  then show "unat n + 8 \<le> 8 * unat (units n)" "8 * unat (units n) < unat n + 16" using u by linarith+
qed

end
