(* ===== verification/Mkfs.thy ===== *)
theory Mkfs
  imports Directory
begin

text \<open>
  \<open>mkfs.c\<close>, the tool that builds the file system image: the image is a function from sectors to
  their bytes, a failed \<open>assert\<close> is a fault. The host is little-endian.
\<close>

abbreviation FSSIZE :: nat where "FSSIZE \<equiv> 1000"
abbreviation NINODES :: nat where "NINODES \<equiv> 200"

definition nbitmap :: nat where "nbitmap = FSSIZE div (BSIZE * 8) + 1"
definition ninodeblocks :: nat where "ninodeblocks = NINODES div unat IPB + 1"
definition nlog :: nat where "nlog = 30"
definition nmeta :: nat where "nmeta = 2 + nlog + ninodeblocks + nbitmap"

record mkst =
  img :: "nat \<Rightarrow> block"
  freeinode :: uint
  freeblock :: uint

text \<open>The bytes in intel order, read back as a number of the host.\<close>

definition xshort :: "ushort \<Rightarrow> ushort" where
  "xshort x = word16 [ucast x, ucast (drop_bit 8 x)]"

definition xint :: "uint \<Rightarrow> uint" where
  "xint x = word32 [ucast x, ucast (drop_bit 8 x), ucast (drop_bit 16 x), ucast (drop_bit 24 x)]"

definition mk_sb :: superblock where
  "mk_sb = \<lparr>sb_size = xint (of_nat FSSIZE), sb_nblocks = xint (of_nat (FSSIZE - nmeta)), sb_ninodes = xint (of_nat NINODES),
     sb_nlog = xint (of_nat nlog), sb_logstart = xint 2, sb_inodestart = xint (of_nat (2 + nlog)),
     sb_bmapstart = xint (of_nat (2 + nlog + ninodeblocks))\<rparr>"

definition sb_bytes :: "superblock \<Rightarrow> uchar list" where
  "sb_bytes sb = le32 (sb_size sb) @ le32 (sb_nblocks sb) @ le32 (sb_ninodes sb) @ le32 (sb_nlog sb)
     @ le32 (sb_logstart sb) @ le32 (sb_inodestart sb) @ le32 (sb_bmapstart sb)"

definition wsect :: "uint \<Rightarrow> block \<Rightarrow> mkst \<Rightarrow> mkst" where
  "wsect sec buf s = s\<lparr>img := (img s)(unat sec := buf)\<rparr>"

definition rsect :: "uint \<Rightarrow> mkst \<Rightarrow> block" where
  "rsect sec s = img s (unat sec)"

definition winode :: "uint \<Rightarrow> dinode \<Rightarrow> mkst \<Rightarrow> mkst" where
  "winode inum d s = (let bn = IBLOCK inum mk_sb in wsect bn (put_dinode inum d (rsect bn s)) s)"

definition rinode :: "uint \<Rightarrow> mkst \<Rightarrow> dinode" where
  "rinode inum s = get_dinode inum (rsect (IBLOCK inum mk_sb) s)"

definition mk_ialloc :: "ushort \<Rightarrow> mkst \<Rightarrow> uint \<times> mkst" where
  "mk_ialloc type s =
     (let inum = freeinode s; s = s\<lparr>freeinode := inum + 1\<rparr>;
          din = zero_dinode\<lparr>d_type := xshort type, d_nlink := xshort 1, d_size := xint 0\<rparr>
      in (inum, winode inum din s))"

definition mk_balloc :: "nat \<Rightarrow> mkst \<Rightarrow> mkst res" where
  "mk_balloc used s =
     (if used < BSIZE * 8
      then Inr (wsect (sb_bmapstart mk_sb) (fold set_bit_used [0..<used] (replicate BSIZE 0)) s)
      else Inl (Fault ''assert''))"

text \<open>Where the block \<open>fbn\<close> of the file goes, allocating it (and the indirect block) when needed.\<close>

definition mk_block :: "dinode \<Rightarrow> nat \<Rightarrow> mkst \<Rightarrow> uint \<times> dinode \<times> mkst" where
  "mk_block din fbn s =
     (if fbn < NDIRECT then
        let (din, s) = (if xint (d_addrs din ! fbn) = 0
              then (din\<lparr>d_addrs := (d_addrs din)[fbn := xint (freeblock s)]\<rparr>, s\<lparr>freeblock := freeblock s + 1\<rparr>)
              else (din, s))
        in (xint (d_addrs din ! fbn), din, s)
      else
        let (din, s) = (if xint (d_addrs din ! NDIRECT) = 0
              then (din\<lparr>d_addrs := (d_addrs din)[NDIRECT := xint (freeblock s)]\<rparr>, s\<lparr>freeblock := freeblock s + 1\<rparr>)
              else (din, s));
            ind = rsect (xint (d_addrs din ! NDIRECT)) s;
            (ind, s) = (if field32 (fbn - NDIRECT) ind = 0
              then let ind = put32 (fbn - NDIRECT) (xint (freeblock s)) ind
                   in (ind, wsect (xint (d_addrs din ! NDIRECT)) ind (s\<lparr>freeblock := freeblock s + 1\<rparr>))
              else (ind, s))
        in (xint (field32 (fbn - NDIRECT) ind), din, s))"

text \<open>\<open>iappend\<close>: each turn of the loop moves at least one byte.\<close>

fun iappend_loop :: "nat \<Rightarrow> dinode \<Rightarrow> nat \<Rightarrow> uchar list \<Rightarrow> mkst \<Rightarrow> (dinode \<times> nat \<times> mkst) res" where
  "iappend_loop 0 din off p s = Inr (din, off, s)"
| "iappend_loop (Suc fuel) din off p s =
     (if p = [] then Inr (din, off, s)
      else
        let fbn = off div BSIZE in
        if \<not> fbn < MAXFILE then Inl (Fault ''assert'')
        else
          let (x, din, s) = mk_block din fbn s;
              n1 = min (length p) ((fbn + 1) * BSIZE - off);
              buf = blit (rsect x s) (off - fbn * BSIZE) (take n1 p)
          in iappend_loop fuel din (off + n1) (drop n1 p) (wsect x buf s))"

definition iappend :: "uint \<Rightarrow> uchar list \<Rightarrow> mkst \<Rightarrow> mkst res" where
  "iappend inum p s =
     (let din = rinode inum s in
      bind_res (iappend_loop (length p) din (unat (xint (d_size din))) p s) (\<lambda>(din, off, s).
      Inr (winode inum (din\<lparr>d_size := xint (of_nat off)\<rparr>) s)))"

section \<open>The image\<close>

definition mk_dirent :: "uint \<Rightarrow> uchar list \<Rightarrow> uchar list" where
  "mk_dirent inum nm = encode_dirent \<lparr>de_inum = xshort (ucast inum), de_name = copy_name DIRSIZ nm\<rparr>"

text \<open>One file of the command line: its name and what the successive reads return.\<close>

definition add_file :: "uint \<Rightarrow> uchar list \<times> uchar list list \<Rightarrow> mkst \<Rightarrow> mkst res" where
  "add_file rootino f s = (case f of (nm, chunks) \<Rightarrow>
     if slash \<in> set nm then Inl (Fault ''assert'')
     else
       let nm = (case nm of [] \<Rightarrow> nm | c # cs \<Rightarrow> if c = 95 then cs else nm);
           (inum, s) = mk_ialloc T_FILE s
       in bind_res (iappend rootino (mk_dirent inum nm) s) (\<lambda>s.
          foldl (\<lambda>m chunk. bind_res m (iappend inum chunk)) (Inr s) (takeWhile (\<lambda>c. c \<noteq> []) chunks)))"

definition mk_start :: "(nat \<Rightarrow> block) \<Rightarrow> mkst" where
  "mk_start old = \<lparr>img = (\<lambda>k. if k < FSSIZE then replicate BSIZE 0 else old k),
     freeinode = 1, freeblock = of_nat nmeta\<rparr>"

definition mkfs_main :: "(nat \<Rightarrow> block) \<Rightarrow> (uchar list \<times> uchar list list) list \<Rightarrow> mkst res" where
  "mkfs_main old files =
     (let s = wsect 1 (blit (replicate BSIZE 0) 0 (sb_bytes mk_sb)) (mk_start old);
          (rootino, s) = mk_ialloc T_DIR s
      in if rootino \<noteq> ROOTINO then Inl (Fault ''assert'') else
        bind_res (iappend rootino (mk_dirent rootino [46]) s) (\<lambda>s.
        bind_res (iappend rootino (mk_dirent rootino [46, 46]) s) (\<lambda>s.
        bind_res (foldl (\<lambda>m f. bind_res m (add_file rootino f)) (Inr s) files) (\<lambda>s.
        let din = rinode rootino s; off = unat (xint (d_size din)); off = (off div BSIZE + 1) * BSIZE;
            s = winode rootino (din\<lparr>d_size := xint (of_nat off)\<rparr>) s
        in mk_balloc (unat (freeblock s)) s))))"

section \<open>The geometry\<close>

lemma word16_bytes: "word16 [ucast x, ucast (drop_bit 8 x)] = (x :: ushort)"
proof (rule bit_word_eqI)
  fix n assume "n < LENGTH(16)"
  then consider "n < 8" | "8 \<le> n" "n < 16" by fastforce
  then show "bit (word16 [ucast x, ucast (drop_bit 8 x)]) n = bit x n"
    by cases (auto simp: word16_def bit_simps)
qed

lemma xshort_id [simp]: "xshort x = x"
  by (simp add: xshort_def word16_bytes)

lemma xint_id [simp]: "xint x = x"
  using word32_le32[of x] by (simp add: xint_def le32_def)

lemma mk_sb_fields:
  "sb_size mk_sb = 1000" "sb_nblocks mk_sb = 941" "sb_ninodes mk_sb = 200" "sb_nlog mk_sb = 30"
  "sb_logstart mk_sb = 2" "sb_inodestart mk_sb = 32" "sb_bmapstart mk_sb = 58"
  by (simp_all add: mk_sb_def nmeta_def nlog_def ninodeblocks_def nbitmap_def)

end
