(* ===== verification/Icache.thy ===== *)
theory Icache
  imports Inode Memide Machine
begin

text \<open>
  The inode cache keeps its shape: whatever sequence of inode operations runs, the cache has its
  \<open>NINODE\<close> entries with thirteen block numbers each, no reference count is negative, and no
  two entries in use are the same inode.
\<close>

section \<open>What the lower layers leave alone\<close>

text \<open>
  A step that returns leaves the file system's part of the state alone. These facts need no
  invariant of the lower layers, only that the step returned.
\<close>

named_theorems frames \<open>the part of the state above a layer, after a step of the layer\<close>

lemma acquire_frame [frames]: "acquire l s = Inr t \<Longrightarrow> bcache.more t = bcache.more s"
  for s :: "'a bcache_scheme"
  by (auto simp: acquire_def split: if_splits)

lemma release_frame [frames]: "release l s = Inr t \<Longrightarrow> bcache.more t = bcache.more s"
  for s :: "'a bcache_scheme"
  by (auto simp: release_def split: if_splits)

lemma wakeup_frame [frames]: "wakeup c s = Inr t \<Longrightarrow> bcache.more t = bcache.more s"
  for s :: "'a bcache_scheme"
  by (auto simp: wakeup_def wakeup1_def acquire_def release_def split: if_splits)

lemma acquiresleep_frame [frames]: "acquiresleep inner c lk s = Inr (lk', t) \<Longrightarrow> bcache.more t = bcache.more s"
  for s :: "'a bcache_scheme"
  by (auto simp: acquiresleep_def block_on_def acquire_def release_def bind_res_eq_Inr split: if_splits)

lemma releasesleep_frame [frames]: "releasesleep inner c lk s = Inr (lk', t) \<Longrightarrow> bcache.more t = bcache.more s"
  for s :: "'a bcache_scheme"
  by (auto simp: releasesleep_def bind_res_eq_Inr dest!: frames)

lemma holdingsleep_frame [frames]: "holdingsleep inner lk s = Inr (h, t) \<Longrightarrow> bcache.more t = bcache.more s"
  for s :: "'a bcache_scheme"
  by (auto simp: holdingsleep_def bind_res_eq_Inr dest!: frames)

lemma lock_buf_frame [frames]: "lock_buf i s = Inr t \<Longrightarrow> bcache.more t = bcache.more s"
  by (auto simp: lock_buf_def bind_res_eq_Inr dest!: frames)

lemma unlock_buf_frame [frames]: "unlock_buf i s = Inr t \<Longrightarrow> bcache.more t = bcache.more s"
  by (auto simp: unlock_buf_def bind_res_eq_Inr dest!: frames)

lemma holding_buf_frame [frames]: "holding_buf i s = Inr (h, t) \<Longrightarrow> bcache.more t = bcache.more s"
  by (auto simp: holding_buf_def dest!: frames)

lemma link_frame [simp]: "bcache.more (link_front i s) = bcache.more s" "bcache.more (unlink_buf i s) = bcache.more s"
  by (simp_all add: link_front_def unlink_buf_def Let_def)

lemma bget_frame [frames]: "bget dev b s = Inr (i, t) \<Longrightarrow> bcache.more t = bcache.more s"
  by (auto simp: bget_def elim!: bind_res_InrE dest!: frames split: option.splits)

lemma brelse_frame [frames]: "brelse i s = Inr t \<Longrightarrow> bcache.more t = bcache.more s"
  by (auto simp: brelse_def bind_res_eq_Inr Let_def dest!: frames split: if_splits)

lemma iderw_frame: "iderw i s = Inr t \<Longrightarrow> diskst.more t = diskst.more s"
  by (auto simp: iderw_def Let_def set_data_def elim!: bind_res_InrE dest!: frames diskst_more_same split: if_splits)

section \<open>The inode cache through the lower layers\<close>

named_theorems ic_frames \<open>steps that leave the inode cache alone\<close>

lemma more_icache: "bcache.more t = bcache.more s \<Longrightarrow> icache t = icache s"
  and disk_more_icache: "diskst.more t = diskst.more s \<Longrightarrow> icache t = icache s"
  for s t :: "'a fsst_scheme"
  by (cases s; cases t; simp)+

lemmas [ic_frames] = frames[THEN more_icache]

lemma set_data_icache [simp]: "icache (set_data i d s) = icache s" "icache (upd_buf i f s) = icache s"
  by (simp_all add: set_data_def upd_buf_def)

lemma bread_ic [ic_frames]: "bread iderw dev b s = Inr (i, t) \<Longrightarrow> icache t = icache s"
  for s :: "'a fsst_scheme"
  by (auto simp: bread_def elim!: bind_res_InrE dest!: ic_frames iderw_frame[THEN disk_more_icache] split: if_splits)

lemma log_write_ic [ic_frames]: "log_write i s = Inr t \<Longrightarrow> icache t = icache s"
  for s :: "'a fsst_scheme"
  by (auto simp: log_write_def Let_def lh_set_def mark_dirty_def elim!: bind_res_InrE dest!: ic_frames split: if_splits)

lemma readsb_ic [ic_frames]: "readsb iderw dev s = Inr (sb, t) \<Longrightarrow> icache t = icache s"
  for s :: "'a fsst_scheme"
  by (auto simp: readsb_def Let_def elim!: bind_res_InrE dest!: ic_frames)

lemma bzero_ic [ic_frames]: "bzero E dev b s = Inr t \<Longrightarrow> k_rw E = iderw \<Longrightarrow> icache t = icache s"
  by (auto simp: bzero_def elim!: bind_res_InrE dest!: ic_frames)

lemma balloc_loop_ic: "balloc_loop fuel E dev b s = Inr (a, t) \<Longrightarrow> k_rw E = iderw \<Longrightarrow> icache t = icache s"
proof (induction fuel arbitrary: b s)
  case (Suc fuel)
  then show ?case
    by (auto elim!: bind_res_InrE dest!: ic_frames split: if_splits option.splits)
qed simp

lemma balloc_ic [ic_frames]: "balloc E dev s = Inr (a, t) \<Longrightarrow> k_rw E = iderw \<Longrightarrow> icache t = icache s"
  unfolding balloc_def by (rule balloc_loop_ic)

lemma bfree_ic [ic_frames]: "bfree E dev b s = Inr t \<Longrightarrow> k_rw E = iderw \<Longrightarrow> icache t = icache s"
  by (auto simp: bfree_def Let_def elim!: bind_res_InrE dest!: ic_frames)

lemma iupdate_ic [ic_frames]: "iupdate E ip s = Inr t \<Longrightarrow> k_rw E = iderw \<Longrightarrow> icache t = icache s"
  by (auto simp: iupdate_def Let_def elim!: bind_res_InrE dest!: ic_frames)

section \<open>The invariant\<close>

definition in_use :: "inode \<Rightarrow> bool" where
  "in_use n \<longleftrightarrow> 0 < i_ref n"

definition icache_ok :: "'a fsst_scheme \<Rightarrow> bool" where
  "icache_ok s \<longleftrightarrow> length (icache s) = NINODE
     \<and> (\<forall>n\<in>set (icache s). length (d_addrs n) = NDIRECT + 1 \<and> 0 \<le> i_ref n)
     \<and> (\<forall>i<NINODE. \<forall>j<NINODE. in_use (icache s ! i) \<and> in_use (icache s ! j)
          \<and> i_dev (icache s ! i) = i_dev (icache s ! j) \<and> i_inum (icache s ! i) = i_inum (icache s ! j) \<longrightarrow> i = j)"

text \<open>
  What most operations do with the cache: every entry keeps its identity and its count, and its
  thirteen block numbers.
\<close>

definition ids :: "inode \<Rightarrow> int \<times> uint \<times> uint" where
  "ids n = (i_ref n, i_dev n, i_inum n)"

definition wide :: "'a fsst_scheme \<Rightarrow> bool" where
  "wide s \<longleftrightarrow> (\<forall>n\<in>set (icache s). length (d_addrs n) = NDIRECT + 1)"

definition kept :: "'a fsst_scheme \<Rightarrow> 'a fsst_scheme \<Rightarrow> bool" where
  "kept s t \<longleftrightarrow> map ids (icache t) = map ids (icache s) \<and> (wide s \<longrightarrow> wide t)"

lemma kept_refl [simp]: "kept s s"
  by (simp add: kept_def)

lemma kept_trans [trans]: "kept s t \<Longrightarrow> kept t u \<Longrightarrow> kept s u"
  by (simp add: kept_def)

lemma kept_same: "icache t = icache s \<Longrightarrow> kept s t"
  by (simp add: kept_def wide_def)

lemma kept_nth:
  assumes "kept s t" "i < length (icache s)"
  shows "i_ref (icache t ! i) = i_ref (icache s ! i)" "i_dev (icache t ! i) = i_dev (icache s ! i)"
    "i_inum (icache t ! i) = i_inum (icache s ! i)"
proof -
  have m: "map ids (icache t) = map ids (icache s)" using assms(1) by (simp add: kept_def)
  then have "length (icache t) = length (icache s)" by (metis length_map)
  moreover have "map ids (icache t) ! i = map ids (icache s) ! i" using m by simp
  ultimately have "ids (icache t ! i) = ids (icache s ! i)" using assms(2) by simp
  then show "i_ref (icache t ! i) = i_ref (icache s ! i)" "i_dev (icache t ! i) = i_dev (icache s ! i)"
    "i_inum (icache t ! i) = i_inum (icache s ! i)" by (simp_all add: ids_def)
qed

lemma kept_length: "kept s t \<Longrightarrow> length (icache t) = length (icache s)"
  unfolding kept_def by (metis length_map)

lemma kept_ok:
  assumes "icache_ok s" "kept s t"
  shows "icache_ok t"
proof -
  note n = kept_nth[OF assms(2)] and l = kept_length[OF assms(2)]
  have z: "length (icache s) = NINODE" using assms(1) by (simp add: icache_ok_def)
  have "wide t" using assms by (auto simp: kept_def icache_ok_def wide_def)
  moreover have "0 \<le> i_ref (icache s ! i)" if "i < NINODE" for i
    using assms(1) z that by (simp add: icache_ok_def)
  then have "0 \<le> i_ref m" if "m \<in> set (icache t)" for m
    using that n(1) l z by (auto simp: in_set_conv_nth)
  ultimately show ?thesis using assms(1) n l z by (simp add: icache_ok_def wide_def in_use_def)
qed

lemma icache_upd_inode [simp]: "icache (upd_inode ip f s) = (icache s)[ip := f (icache s ! ip)]"
  by (simp add: upd_inode_def)

text \<open>Updates of an entry that keep it in this sense.\<close>

definition keeps :: "(inode \<Rightarrow> inode) \<Rightarrow> bool" where
  "keeps f \<longleftrightarrow> (\<forall>n. ids (f n) = ids n \<and> (length (d_addrs n) = NDIRECT + 1 \<longrightarrow> length (d_addrs (f n)) = NDIRECT + 1))"

lemma keeps_simps [simp, intro]:
  "keeps (\<lambda>n. n\<lparr>i_lock := lk\<rparr>)" "keeps (\<lambda>n. n\<lparr>i_flags := g n\<rparr>)" "keeps (\<lambda>n. n\<lparr>d_size := z\<rparr>)"
  "keeps (\<lambda>n. n\<lparr>d_type := ty\<rparr>)" "keeps (\<lambda>n. n\<lparr>d_addrs := (d_addrs n)[k := a]\<rparr>)"
  "keeps (load_dinode (get_dinode inum d))"
  by (simp_all add: keeps_def ids_def load_dinode_def get_dinode_def decode_dinode_def)

lemma kept_upd [simp]: "keeps f \<Longrightarrow> kept s (upd_inode ip f s)"
proof (cases "ip < length (icache s)")
  case True
  assume f: "keeps f"
  have "wide s \<Longrightarrow> wide (upd_inode ip f s)"
    using f True by (auto simp: wide_def keeps_def dest!: subsetD[OF set_update_subset_insert])
  moreover have "map ids (icache (upd_inode ip f s)) = map ids (icache s)"
    using f by (simp add: map_update keeps_def) (metis list_update_id map_update)
  ultimately show ?thesis by (simp add: kept_def)
qed (rule kept_same, simp add: not_less list_update_beyond)

text \<open>The frames once more, as steps of \<open>kept\<close>.\<close>

named_theorems keeping \<open>operations that keep the entries\<close>

lemmas [keeping] = ic_frames[THEN kept_same]

section \<open>The operations\<close>

lemma kept_upd_trans: "kept s t \<Longrightarrow> keeps f \<Longrightarrow> kept s (upd_inode ip f t)"
  by (rule kept_trans[OF _ kept_upd])

lemma for_res_kept:
  assumes "for_res i n body s = Inr t" "\<And>k u v. body k u = Inr v \<Longrightarrow> kept u v"
  shows "kept s t"
proof -
  have "(\<lambda>_. kept s) (i + n) t"
    by (rule for_res_partial[OF assms(1)]) (auto intro: kept_trans dest: assms(2))
  then show ?thesis .
qed

lemma ilock_kept [keeping]: "ilock E p s = Inr t \<Longrightarrow> k_rw E = iderw \<Longrightarrow> kept s t"
  by (auto simp: ilock_def Let_def elim!: bind_res_InrE dest!: keeping split: option.splits if_splits
      intro!: kept_upd_trans elim!: kept_trans[rotated])

lemma iunlock_kept [keeping]: "iunlock p s = Inr t \<Longrightarrow> kept s t"
  by (auto simp: iunlock_def elim!: bind_res_InrE dest!: keeping split: option.splits
      intro!: kept_upd_trans intro: kept_trans)

lemma kept_from_upd: "kept (upd_inode ip f s) t \<Longrightarrow> keeps f \<Longrightarrow> kept s t"
  by (rule kept_trans[OF kept_upd])

lemma free_direct_kept [keeping]:
  "for_res i n (\<lambda>i s. if d_addrs (icache s ! ip) ! i \<noteq> 0 then
       bind_res (bfree E (i_dev (icache s ! ip)) (d_addrs (icache s ! ip) ! i) s) (\<lambda>s.
       Inr (upd_inode ip (\<lambda>n. n\<lparr>d_addrs := (d_addrs n)[i := 0]\<rparr>) s))
     else Inr s) s = Inr t \<Longrightarrow> k_rw E = iderw \<Longrightarrow> kept s t"
  by (erule for_res_kept) (auto elim!: bind_res_InrE dest!: keeping split: if_splits intro!: kept_upd_trans)

lemma free_indirect_kept [keeping]:
  "for_res i n (\<lambda>j s. if field32 j (d s) \<noteq> 0 then bfree E dev (field32 j (d s)) s else Inr s) s = Inr t \<Longrightarrow>
   k_rw E = iderw \<Longrightarrow> kept s t"
  by (erule for_res_kept) (auto dest!: keeping split: if_splits)

lemma kept_from_data: "kept (set_data i d s) t \<Longrightarrow> kept s t"
  by (erule kept_trans[OF kept_same, rotated]) simp

text \<open>Following a chain of steps from its first state to its last one.\<close>

lemmas chain = kept_from_upd kept_from_data

lemma itrunc_kept [keeping]: "itrunc E ip s = Inr t \<Longrightarrow> k_rw E = iderw \<Longrightarrow> kept s t"
  by (unfold itrunc_def Let_def, elim bind_res_InrE)
    (auto elim!: bind_res_InrE dest!: keeping chain split: if_splits, ((rule kept_trans, assumption)+, rule kept_refl)+)

lemma bmap_kept [keeping]: "bmap E ip bn s = Inr (a, t) \<Longrightarrow> k_rw E = iderw \<Longrightarrow> kept s t"
  by (auto simp: bmap_def Let_def elim!: bind_res_InrE dest!: keeping chain split: if_splits intro!: kept_upd_trans)
    ((rule kept_trans, assumption)+, rule kept_refl)+

declare readi_loop.simps [simp del] writei_loop.simps [simp del]

lemma readi_loop_kept: "readi_loop fuel E ip n tot off acc s = Inr (bs, t) \<Longrightarrow> k_rw E = iderw \<Longrightarrow> kept s t"
proof (induction fuel arbitrary: tot off acc s)
  case (Suc fuel)
  from Suc.prems show ?case
    by (subst (asm) readi_loop.simps)
      (auto simp: Let_def elim!: bind_res_InrE dest!: keeping chain Suc.IH split: if_splits,
        ((rule kept_trans, assumption)+, rule kept_refl)+)
qed (subst (asm) readi_loop.simps, auto split: if_splits)

lemma writei_loop_kept: "writei_loop fuel E ip src n tot off s = Inr (o', t) \<Longrightarrow> k_rw E = iderw \<Longrightarrow> kept s t"
proof (induction fuel arbitrary: tot off s)
  case (Suc fuel)
  from Suc.prems show ?case
    by (subst (asm) writei_loop.simps)
      (auto simp: Let_def elim!: bind_res_InrE dest!: keeping chain Suc.IH split: if_splits,
        ((rule kept_trans, assumption)+, rule kept_refl)+)
qed (subst (asm) writei_loop.simps, auto split: if_splits)

lemma readi_data_kept [keeping]: "readi_data E ip off n s = Inr (r, bs, t) \<Longrightarrow> k_rw E = iderw \<Longrightarrow> kept s t"
  by (auto simp: readi_data_def Let_def elim!: bind_res_InrE dest!: readi_loop_kept split: if_splits)

lemma writei_data_kept [keeping]: "writei_data E ip src off n s = Inr (r, t) \<Longrightarrow> k_rw E = iderw \<Longrightarrow> kept s t"
  by (auto simp: writei_data_def Let_def elim!: bind_res_InrE dest!: keeping chain writei_loop_kept split: if_splits)
    ((rule kept_trans, assumption)+, rule kept_refl)+

section \<open>References\<close>

text \<open>Entry \<open>ip\<close> changes its count or becomes another inode.\<close>

lemma icache_okD:
  assumes "icache_ok s"
  shows "length (icache s) = NINODE" "i < NINODE \<Longrightarrow> length (d_addrs (icache s ! i)) = NDIRECT + 1"
    "i < NINODE \<Longrightarrow> 0 \<le> i_ref (icache s ! i)"
    "\<lbrakk>i < NINODE; j < NINODE; in_use (icache s ! i); in_use (icache s ! j); i_dev (icache s ! i) = i_dev (icache s ! j);
      i_inum (icache s ! i) = i_inum (icache s ! j)\<rbrakk> \<Longrightarrow> i = j"
  using assms by (auto simp: icache_ok_def)

lemma icache_okI:
  assumes "icache_ok s" "icache t = (icache s)[ip := n]" "length (d_addrs n) = NDIRECT + 1" "0 \<le> i_ref n"
    and "\<And>j. \<lbrakk>in_use n; j < NINODE; j \<noteq> ip; in_use (icache s ! j)\<rbrakk> \<Longrightarrow>
      \<not> (i_dev (icache s ! j) = i_dev n \<and> i_inum (icache s ! j) = i_inum n)"
  shows "icache_ok t"
proof -
  note D = icache_okD[OF assms(1)]
  have "length (d_addrs m) = NDIRECT + 1 \<and> 0 \<le> i_ref m" if "m \<in> set (icache t)" for m
    using that assms(1,3,4) unfolding assms(2) by (auto simp: icache_ok_def dest!: subsetD[OF set_update_subset_insert])
  moreover have "i = j" if "i < NINODE" "j < NINODE" "in_use (icache t ! i)" "in_use (icache t ! j)"
    "i_dev (icache t ! i) = i_dev (icache t ! j)" "i_inum (icache t ! i) = i_inum (icache t ! j)" for i j
    using that D(1) D(4)[of i j] assms(5)[of i] assms(5)[of j] unfolding assms(2)
    by (cases "i = ip"; cases "j = ip"; simp)
  ultimately show ?thesis using D(1) assms(2) by (simp add: icache_ok_def)
qed

text \<open>What \<open>iget\<close> returns, and what it does to the cache.\<close>

lemma find_nth:
  "find P [0..<n] = Some k \<Longrightarrow> k < n \<and> P k" "find P [0..<n] = None \<Longrightarrow> k < n \<Longrightarrow> \<not> P k"
  by (auto simp: find_Some_iff find_None_iff)

lemma iget_effect:
  assumes ok: "icache_ok s" and g: "iget dev inum s = Inr (ip, t)"
  shows "ip < NINODE \<and> icache_ok t \<and> in_use (icache t ! ip) \<and> i_dev (icache t ! ip) = dev \<and> i_inum (icache t ! ip) = inum
    \<and> (\<forall>j. j \<noteq> ip \<longrightarrow> icache t ! j = icache s ! j)
    \<and> (in_use (icache s ! ip) \<longrightarrow> icache t ! ip = (icache s ! ip)\<lparr>i_ref := i_ref (icache s ! ip) + 1\<rparr>)
    \<and> (\<not> in_use (icache s ! ip) \<longrightarrow> i_ref (icache t ! ip) = 1 \<and> i_flags (icache t ! ip) = 0)"
proof -
  note D = icache_okD[OF ok]
  obtain u where u: "icache u = icache s" and g: "(case find (\<lambda>k. iget_hit dev inum (icache u ! k)) [0..<length (icache u)] of
       Some ip \<Rightarrow>
         bind_res (release L_icache (upd_inode ip (\<lambda>n. n\<lparr>i_ref := i_ref n + 1\<rparr>) u)) (\<lambda>s. Inr (ip, s))
     | None \<Rightarrow>
         (case find (\<lambda>k. i_ref (icache u ! k) = 0) [0..<length (icache u)] of
            None \<Rightarrow> Inl (Panic ''iget: no inodes'')
          | Some ip \<Rightarrow>
              bind_res (release L_icache (upd_inode ip (\<lambda>n. n\<lparr>i_dev := dev, i_inum := inum,
                  i_ref := 1, i_flags := 0\<rparr>) u)) (\<lambda>s. Inr (ip, s)))) = Inr (ip, t)"
    using g unfolding iget_def by (elim bind_res_InrE) (drule ic_frames, blast)
  show ?thesis
  proof (cases "find (\<lambda>k. iget_hit dev inum (icache u ! k)) [0..<length (icache u)]")
    case (Some k)
    then have k: "ip = k" "icache t = (icache s)[k := (icache s ! k)\<lparr>i_ref := i_ref (icache s ! k) + 1\<rparr>]"
      using g u by (auto elim!: bind_res_InrE dest!: ic_frames)
    have h: "k < NINODE" "iget_hit dev inum (icache s ! k)" using find_nth(1)[OF Some] u D(1) by simp_all
    have hk: "in_use (icache s ! k)" "i_dev (icache s ! k) = dev" "i_inum (icache s ! k) = inum"
      using h(2) by (simp_all add: iget_hit_def in_use_def)
    have un: "\<not> (i_dev (icache s ! j) = dev \<and> i_inum (icache s ! j) = inum)"
      if "j < NINODE" "j \<noteq> k" "in_use (icache s ! j)" for j
      using D(4)[OF that(1) h(1) that(3) hk(1)] hk(2,3) that(2) by auto
    have "icache_ok t" by (rule icache_okI[OF ok k(2)]) (use D(2,3)[OF h(1)] hk un in simp_all)
    then show ?thesis using h(1) hk k D(1) by (simp add: in_use_def)
  next
    case None
    then obtain k where f: "find (\<lambda>k. i_ref (icache u ! k) = 0) [0..<length (icache u)] = Some k"
      using g by (auto split: option.splits)
    then have k: "ip = k" "icache t = (icache s)[k := (icache s ! k)\<lparr>i_dev := dev, i_inum := inum, i_ref := 1, i_flags := 0\<rparr>]"
      using g u None by (auto elim!: bind_res_InrE dest!: ic_frames)
    have h: "k < NINODE" "i_ref (icache s ! k) = 0" using find_nth(1)[OF f] u D(1) by simp_all
    have nh: "\<not> iget_hit dev inum (icache s ! j)" if "j < NINODE" for j using find_nth(2)[OF None] that u D(1) by simp
    have "icache_ok t" by (rule icache_okI[OF ok k(2)]) (use D(2)[OF h(1)] nh in \<open>simp_all add: iget_hit_def in_use_def\<close>)
    then show ?thesis using h k D(1) by (simp add: in_use_def)
  qed
qed

lemma release_icache: "release l s = Inr t \<Longrightarrow> icache t = icache s"
  for s :: "'a fsst_scheme"
  by (rule ic_frames)

text \<open>The holder of a reference may take another one, or drop it.\<close>

lemma idup_ok:
  assumes ok: "icache_ok s" and u: "ip < NINODE" "in_use (icache s ! ip)" and d: "idup ip s = Inr (r, t)"
  shows "r = ip \<and> icache_ok t \<and> icache t = (icache s)[ip := (icache s ! ip)\<lparr>i_ref := i_ref (icache s ! ip) + 1\<rparr>]"
proof -
  note D = icache_okD[OF ok]
  have t: "r = ip" "icache t = (icache s)[ip := (icache s ! ip)\<lparr>i_ref := i_ref (icache s ! ip) + 1\<rparr>]"
    using d by (auto simp: idup_def elim!: bind_res_InrE dest!: ic_frames)
  have un: "\<not> (i_dev (icache s ! j) = i_dev (icache s ! ip) \<and> i_inum (icache s ! j) = i_inum (icache s ! ip))"
    if "j < NINODE" "j \<noteq> ip" "in_use (icache s ! j)" for j
    using D(4)[OF that(1) u(1) that(3) u(2)] that(2) by auto
  have "icache_ok t" by (rule icache_okI[OF ok t(2)]) (use D(2,3)[OF u(1)] un in simp_all)
  then show ?thesis using t by simp
qed

lemma iput_ok:
  assumes ok: "icache_ok s" and u: "ip < NINODE" "in_use (icache s ! ip)" and E: "k_rw E = iderw"
    and p: "iput E ip s = Inr t"
  shows "icache_ok t \<and> i_ref (icache t ! ip) = i_ref (icache s ! ip) - 1"
proof -
  obtain u v where a: "acquire L_icache s = Inr u" and m: "(if i_ref (icache u ! ip) = 1
       \<and> i_flags (icache u ! ip) AND I_VALID \<noteq> 0 \<and> d_nlink (icache u ! ip) = 0 then
         bind_res (release L_icache u) (\<lambda>s.
         bind_res (itrunc E ip s) (\<lambda>s.
         bind_res (iupdate E ip (upd_inode ip (\<lambda>n. n\<lparr>d_type := 0\<rparr>) s)) (\<lambda>s.
         bind_res (acquire L_icache s) (\<lambda>s.
         Inr (upd_inode ip (\<lambda>n. n\<lparr>i_flags := 0\<rparr>) s)))))
       else Inr u) = Inr v" and r: "release L_icache (upd_inode ip (\<lambda>n. n\<lparr>i_ref := i_ref n - 1\<rparr>) v) = Inr t"
    using p unfolding iput_def Let_def by (elim bind_res_InrE)
  have "kept u v"
    using m E by (auto elim!: bind_res_InrE dest!: keeping chain split: if_splits intro!: kept_upd_trans)
      ((rule kept_trans, assumption)+, rule kept_refl)
  then have v: "kept s v" using kept_trans keeping(1)[OF a] by blast
  have okv: "icache_ok v" by (rule kept_ok[OF ok v])
  note D = icache_okD[OF okv]
  have rv: "i_ref (icache v ! ip) = i_ref (icache s ! ip)" using kept_nth(1)[OF v] u(1) icache_okD(1)[OF ok] by simp
  then have use: "in_use (icache v ! ip)" using u(2) by (simp add: in_use_def)
  have t: "icache t = (icache v)[ip := (icache v ! ip)\<lparr>i_ref := i_ref (icache v ! ip) - 1\<rparr>]"
    using release_icache[OF r] by simp
  have un: "\<not> (i_dev (icache v ! j) = i_dev (icache v ! ip) \<and> i_inum (icache v ! j) = i_inum (icache v ! ip))"
    if "j < NINODE" "j \<noteq> ip" "in_use (icache v ! j)" for j
    using D(4)[OF that(1) u(1) that(3) use] that(2) by auto
  have "icache_ok t"
    by (rule icache_okI[OF okv t]) (use D(2)[OF u(1)] un use in \<open>simp_all add: in_use_def\<close>)
  then show ?thesis using t rv u(1) D(1) by simp
qed

lemma ialloc_loop_iget:
  "ialloc_loop n E dev ty inum s = Inr (ip, t) \<Longrightarrow> k_rw E = iderw \<Longrightarrow>
    \<exists>k u. icache u = icache s \<and> iget dev k u = Inr (ip, t)"
proof (induction n arbitrary: inum s)
  case (Suc n)
  from Suc.prems obtain bp u where b: "bread iderw dev (IBLOCK inum (fs_sb s)) s = Inr (bp, u)" by (auto elim!: bind_res_InrE)
  then have u: "icache u = icache s" by (rule ic_frames)
  show ?case
  proof (cases "d_type (get_dinode inum (b_data (bufs u bp))) = 0")
    case True
    then obtain v w where "log_write bp (set_data bp (put_dinode inum (zero_dinode\<lparr>d_type := ty\<rparr>) (b_data (bufs u bp))) u) = Inr v"
      "brelse bp v = Inr w" "iget dev inum w = Inr (ip, t)"
      using Suc.prems b by (auto elim!: bind_res_InrE)
    then show ?thesis using u by (intro exI[of _ inum] exI[of _ w]) (auto dest!: ic_frames)
  next
    case False
    then obtain v where "brelse bp u = Inr v" "ialloc_loop n E dev ty (inum + 1) v = Inr (ip, t)"
      using Suc.prems b by (auto elim!: bind_res_InrE)
    then show ?thesis using Suc.IH[OF _ Suc.prems(2)] u ic_frames by metis
  qed
qed simp

section \<open>Runs\<close>

text \<open>At boot no entry is in use.\<close>

definition icache_init :: "'a fsst_scheme \<Rightarrow> bool" where
  "icache_init s \<longleftrightarrow> length (icache s) = NINODE
     \<and> (\<forall>n\<in>set (icache s). i_ref n = 0 \<and> length (d_addrs n) = NDIRECT + 1)"

text \<open>
  Any operation of the inode layer that returns, called by the holder of a reference where the
  code asks for one, and any step elsewhere in the kernel, which cannot touch the cache.
\<close>

inductive inode_step :: "'a fsst_scheme \<Rightarrow> 'a fsst_scheme \<Rightarrow> bool" where
  get: "iget dev inum s = Inr (ip, t) \<Longrightarrow> inode_step s t"
| dup: "ip < NINODE \<Longrightarrow> in_use (icache s ! ip) \<Longrightarrow> idup ip s = Inr (r, t) \<Longrightarrow> inode_step s t"
| put: "ip < NINODE \<Longrightarrow> in_use (icache s ! ip) \<Longrightarrow> k_rw E = iderw \<Longrightarrow> iput E ip s = Inr t \<Longrightarrow> inode_step s t"
| alloc: "k_rw E = iderw \<Longrightarrow> ialloc E dev ty s = Inr (ip, t) \<Longrightarrow> inode_step s t"
| lock: "k_rw E = iderw \<Longrightarrow> ilock E p s = Inr t \<Longrightarrow> inode_step s t"
| unlock: "iunlock p s = Inr t \<Longrightarrow> inode_step s t"
| update: "k_rw E = iderw \<Longrightarrow> iupdate E ip s = Inr t \<Longrightarrow> inode_step s t"
| find_block: "k_rw E = iderw \<Longrightarrow> bmap E ip bn s = Inr (a, t) \<Longrightarrow> inode_step s t"
| truncate: "k_rw E = iderw \<Longrightarrow> itrunc E ip s = Inr t \<Longrightarrow> inode_step s t"
| load: "k_rw E = iderw \<Longrightarrow> readi_data E ip off n s = Inr (r, bs, t) \<Longrightarrow> inode_step s t"
| store: "k_rw E = iderw \<Longrightarrow> writei_data E ip src off n s = Inr (r, t) \<Longrightarrow> inode_step s t"
| elsewhere: "icache t = icache s \<Longrightarrow> inode_step s t"

lemma inode_step_ok: "inode_step s t \<Longrightarrow> icache_ok s \<Longrightarrow> icache_ok t"
proof (induction rule: inode_step.induct)
  case (get dev inum s ip t)
  then show ?case using iget_effect by blast
next
  case (dup ip s r t)
  then show ?case using idup_ok by blast
next
  case (put ip s E t)
  then show ?case using iput_ok by blast
next
  case (alloc E dev ty s ip t)
  then obtain k u where "icache u = icache s" "iget dev k u = Inr (ip, t)"
    unfolding ialloc_def using ialloc_loop_iget by blast
  then show ?case using alloc.prems kept_ok[OF _ kept_same] iget_effect by blast
qed (auto intro: kept_ok dest: keeping kept_same)

lemma icache_init_ok: "icache_init s \<Longrightarrow> icache_ok s"
  by (auto simp: icache_init_def icache_ok_def in_use_def)

interpretation ic: transition_system icache_init inode_step icache_ok
  by unfold_locales (auto intro: icache_init_ok inode_step_ok)

text \<open>
  C21: in every state that inode operations can reach, each entry of the cache has its thirteen
  block numbers and a count that is not negative, and no inode is cached twice. From such a
  state \<open>iget\<close> returns the one entry of the inode it is asked for, with the reference counted,
  and leaves all other entries alone.
\<close>

theorem icache_reachable:
  fixes s :: "'a fsst_scheme"
  assumes "reach icache_init inode_step s"
  shows "length (icache s) = NINODE
    \<and> (\<forall>i<NINODE. length (d_addrs (icache s ! i)) = NDIRECT + 1 \<and> 0 \<le> i_ref (icache s ! i))
    \<and> (\<forall>i<NINODE. \<forall>j<NINODE. in_use (icache s ! i) \<and> in_use (icache s ! j) \<and> i_dev (icache s ! i) = i_dev (icache s ! j)
         \<and> i_inum (icache s ! i) = i_inum (icache s ! j) \<longrightarrow> i = j)
    \<and> (\<forall>dev inum ip t. iget dev inum s = Inr (ip, t) \<longrightarrow> ip < NINODE \<and> i_dev (icache t ! ip) = dev
         \<and> i_inum (icache t ! ip) = inum
         \<and> i_ref (icache t ! ip) = (if in_use (icache s ! ip) then i_ref (icache s ! ip) else 0) + 1
         \<and> (\<forall>j. j \<noteq> ip \<longrightarrow> icache t ! j = icache s ! j)
         \<and> (\<forall>j<NINODE. in_use (icache s ! j) \<and> i_dev (icache s ! j) = dev \<and> i_inum (icache s ! j) = inum \<longrightarrow> j = ip))"
proof -
  have ok: "icache_ok s" using assms by (rule ic.reachable_inv)
  note D = icache_okD[OF ok]
  have "ip < NINODE \<and> i_dev (icache t ! ip) = dev \<and> i_inum (icache t ! ip) = inum
      \<and> i_ref (icache t ! ip) = (if in_use (icache s ! ip) then i_ref (icache s ! ip) else 0) + 1
      \<and> (\<forall>j. j \<noteq> ip \<longrightarrow> icache t ! j = icache s ! j)
      \<and> (\<forall>j<NINODE. in_use (icache s ! j) \<and> i_dev (icache s ! j) = dev \<and> i_inum (icache s ! j) = inum \<longrightarrow> j = ip)"
    if g: "iget dev inum s = Inr (ip, t)" for dev inum ip t
  proof -
    note G = iget_effect[OF ok g]
    then have okt: "icache_ok t" by blast
    have "j = ip" if j: "j < NINODE" "in_use (icache s ! j)" "i_dev (icache s ! j) = dev" "i_inum (icache s ! j) = inum" for j
    proof (rule ccontr)
      assume "j \<noteq> ip"
      then have "icache t ! j = icache s ! j" using G by blast
      then have "j = ip" using icache_okD(4)[OF okt, of j ip] G j by simp
      then show False using \<open>j \<noteq> ip\<close> by simp
    qed
    moreover have "i_ref (icache t ! ip) = (if in_use (icache s ! ip) then i_ref (icache s ! ip) else 0) + 1"
      using G by (cases "in_use (icache s ! ip)") auto
    ultimately show ?thesis using G by blast
  qed
  then show ?thesis using D by blast
qed

lemma icache_reachable_witness:
  "\<exists>(s :: fsst) ip t. reach icache_init inode_step s \<and> iget 1 17 s = Inr (ip, t) \<and> i_ref (icache t ! ip) = 2
     \<and> (\<forall>j<NINODE. in_use (icache s ! j) \<and> i_dev (icache s ! j) = 1 \<and> i_inum (icache s ! j) = 17 \<longrightarrow> j = ip)"
proof -
  define n where "n = \<lparr>d_type = T_FILE, d_major = 0, d_minor = 0, d_nlink = 1, d_size = 0, d_addrs = replicate 13 0,
    i_dev = 0, i_inum = 0, i_ref = 0, i_lock = initsleeplock ''inode'', i_flags = 0\<rparr>"
  define s0 :: fsst where "s0 = undefined\<lparr>held := {}, icache := replicate NINODE n\<rparr>"
  define m where "m = n\<lparr>i_dev := 1, i_inum := 17, i_ref := 1\<rparr>"
  have i0: "icache s0 = replicate NINODE n" "held s0 = {}" by (simp_all add: s0_def)
  have "icache_init s0" using i0 by (simp add: icache_init_def n_def)
  moreover have f: "find (\<lambda>k. iget_hit 1 17 (replicate NINODE n ! k)) [0..<NINODE] = None"
    "find (\<lambda>k. i_ref (replicate NINODE n ! k) = 0) [0..<NINODE] = Some 0"
    by (auto simp: find_None_iff iget_hit_def n_def) (auto simp: find_Some_iff intro!: exI[of _ 0])
  obtain s1 where s1: "iget 1 17 s0 = Inr (0, s1)" "icache s1 = (replicate NINODE n)[0 := m]" "held s1 = {}"
    using i0 f by (simp add: iget_def upd_inode_def m_def n_def)
  ultimately have r: "reach icache_init inode_step s1" using reach_step reach_init get by metis
  have h: "find (\<lambda>k. iget_hit 1 17 ((replicate NINODE n)[0 := m] ! k)) [0..<NINODE] = Some 0"
    by (auto simp: find_Some_iff iget_hit_def m_def intro!: exI[of _ 0])
  obtain s2 where "iget 1 17 s1 = Inr (0, s2)" using s1(2,3) h by (simp add: iget_def upd_inode_def)
  moreover have "in_use (icache s1 ! 0)" "i_ref (icache s1 ! 0) = 1" by (simp_all add: s1 in_use_def m_def)
  ultimately show ?thesis using icache_reachable[OF r] r by (intro exI[of _ s1] exI[of _ 0] exI[of _ s2]) auto
qed

end
