(* ===== verification/Log_Progress.thy ===== *)
theory Log_Progress
  imports Storage
begin

text \<open>
  Progress of file-system operations that wait for the log: every \<open>end_op\<close> wakes the sleepers,
  and the last one leaves the log in a state that admits an operation.
\<close>

section \<open>Who is woken\<close>

definition asleep_on :: "chan \<Rightarrow> proc \<Rightarrow> bool" where
  "asleep_on c p \<longleftrightarrow> p_state p = SLEEPING \<and> p_chan p = c"

lemma wake_proc_awake: "\<not> asleep_on c (wake_proc c p)"
  by (simp add: asleep_on_def wake_proc_def)

lemma wakeup_wakes: "wakeup c s = Inr t \<Longrightarrow> p \<in> set (ptable t) \<Longrightarrow> \<not> asleep_on c p"
  using wake_proc_awake by (auto simp: wakeup_def wakeup1_def acquire_eq_Inr release_eq_Inr elim!: bind_res_InrE)

text \<open>Whatever the commit does in between, the last thing \<open>end_op\<close> does to the process table is this wakeup.\<close>

lemma end_op_wakes:
  assumes "end_op rw s = Inr t" "p \<in> set (ptable t)"
  shows "\<not> asleep_on Ch_log p"
  using assms by (auto simp: end_op_def Let_def release_eq_Inr elim!: bind_res_InrE split: if_splits)
    (metis wakeup_wakes)+

section \<open>Progress\<close>

text \<open>
  C22: no operation waits forever for the log once the running ones end. \<open>end_op\<close> returns, after it
  no process is asleep on the log, and after the last one the log is empty with nothing
  committing, so that the next \<open>begin_op\<close> is admitted at once.
\<close>

theorem end_op_unblocks:
  assumes "storage_inv s" "locked_bufs s = {}" "1 \<le> lg_outstanding s" "\<not> lg_committing s"
  shows "\<exists>t. end_op iderw s = Inr t \<and> storage_inv t \<and> lg_outstanding t = lg_outstanding s - 1 \<and> \<not> lg_committing t
    \<and> (\<forall>p\<in>set (ptable t). \<not> asleep_on Ch_log p)
    \<and> (lg_outstanding s = 1 \<longrightarrow> lh_n t = 0 \<and> (\<exists>u. begin_op t = Inr u \<and> lg_outstanding u = 1 \<and> storage_inv u))"
proof (cases "lg_outstanding s = 1")
  case True
  obtain t where t: "end_op iderw s = Inr t" "storage_inv t" "lh_n t = 0" "lg_outstanding t = 0" "\<not> lg_committing t"
    using dl.end_op_commits[OF assms(1,2) True assms(4)] by blast
  have "begin_op t = Inr (t\<lparr>lg_outstanding := 1\<rparr>)"
    using dl.begin_op_ok[OF t(2)] t(3-5) by (simp add: log_full_def)
  then show ?thesis using t True end_op_wakes[OF t(1)] dl.outstanding_inv[OF t(2), of 1] by auto
next
  case False
  note e = dl.end_op_more[OF assms(1) False assms(4)]
  let ?s = "s\<lparr>lg_outstanding := lg_outstanding s - 1\<rparr>"
  have i: "storage_inv ?s" by (rule dl.outstanding_inv[OF assms(1)])
  then have "L_ptable \<notin> held ?s" by (simp add: log_inv_def cache_ok_def)
  note w = dl.wakeup_inv[OF i this, of Ch_log]
  show ?thesis using e w False assms(4) end_op_wakes[OF e] by (auto simp: wakeup1_def)
qed

lemma end_op_unblocks_witness:
  "\<exists>t u. end_op iderw booted = Inr t \<and> begin_op t = Inr u \<and> lg_outstanding u = 1"
  using end_op_unblocks[OF booted_inv booted_empty(1)] by (auto simp: booted_fields)

end
