(* ===== verification/Fs_Txn.thy ===== *)
theory Fs_Txn
  imports Inode Storage
begin

text \<open>
  The file system inside a transaction: what the allocation of blocks and the update of inodes
  do to the contents of the disk as readers see them, over the storage stack of theory \<open>Storage\<close>.
\<close>

section \<open>Codecs\<close>

lemma word16_le16 [simp]: "word16 (le16 w) = w"
proof (rule bit_word_eqI)
  fix n assume "n < LENGTH(16)"
  then consider "n < 8" | "8 \<le> n" "n < 16" by fastforce
  then show "bit (word16 (le16 w)) n = bit w n"
    by cases (auto simp: word16_def le16_def bit_simps)
qed

lemma length_le16 [simp]: "length (le16 w) = 2"
  by (simp add: le16_def)

lemma field16_at: "length xs = 2 * k \<Longrightarrow> field16 k (xs @ le16 w @ ys) = w"
  by (simp add: field16_def)

lemma field32_at: "length xs = 4 * k \<Longrightarrow> field32 k (xs @ le32 w @ ys) = w"
  by (simp add: field32_def)

lemma concat_le32: "k < length as \<Longrightarrow> \<exists>xs ys. concat (map le32 as) = xs @ le32 (as ! k) @ ys \<and> length xs = 4 * k"
proof (induction as arbitrary: k)
  case (Cons a as)
  show ?case
  proof (cases k)
    case 0
    then show ?thesis by (intro exI[of _ "[]"] exI[of _ "concat (map le32 as)"]) simp
  next
    case (Suc j)
    then obtain xs ys where "concat (map le32 as) = xs @ le32 (as ! j) @ ys" "length xs = 4 * j"
      using Cons.IH[of j] Cons.prems by auto
    then show ?thesis using Suc by (intro exI[of _ "le32 a @ xs"] exI[of _ ys]) simp
  qed
qed simp

lemma length_concat_le32: "length (concat (map le32 as)) = 4 * length as"
  by (induction as) simp_all

lemma length_encode: "length (d_addrs d) = 13 \<Longrightarrow> length (encode_dinode d) = 64"
  by (simp add: encode_dinode_def length_concat_le32)

definition dinode_of :: "'a dinode_scheme \<Rightarrow> dinode" where
  "dinode_of d = \<lparr>d_type = d_type d, d_major = d_major d, d_minor = d_minor d, d_nlink = d_nlink d,
     d_size = d_size d, d_addrs = d_addrs d\<rparr>"

lemma decode_encode:
  assumes "length (d_addrs d) = 13"
  shows "decode_dinode (encode_dinode d) = dinode_of d"
proof -
  let ?h = "le16 (d_type d) @ le16 (d_major d) @ le16 (d_minor d) @ le16 (d_nlink d)"
  have a: "field32 (3 + k) (encode_dinode d) = d_addrs d ! k" if k: "k < 13" for k
  proof -
    obtain xs ys where x: "concat (map le32 (d_addrs d)) = xs @ le32 (d_addrs d ! k) @ ys" "length xs = 4 * k"
      using concat_le32[of k "d_addrs d"] k assms by auto
    have e: "encode_dinode d = (?h @ le32 (d_size d) @ xs) @ le32 (d_addrs d ! k) @ ys"
      by (simp add: encode_dinode_def x(1))
    show ?thesis unfolding e by (rule field32_at) (simp add: x(2))
  qed
  have "map (\<lambda>k. field32 (3 + k) (encode_dinode d)) [0..<13] = d_addrs d"
    by (rule nth_equalityI) (simp_all add: assms a)
  moreover have "field32 2 (encode_dinode d) = d_size d"
    using field32_at[of ?h 2 "d_size d"] by (simp add: encode_dinode_def)
  moreover have "field16 0 (encode_dinode d) = d_type d"
    using field16_at[of "[]" 0] by (simp add: encode_dinode_def)
  moreover have "field16 1 (encode_dinode d) = d_major d"
    using field16_at[of "le16 (d_type d)" 1] by (simp add: encode_dinode_def)
  moreover have "field16 2 (encode_dinode d) = d_minor d"
    using field16_at[of "le16 (d_type d) @ le16 (d_major d)" 2] by (simp add: encode_dinode_def)
  moreover have "field16 3 (encode_dinode d) = d_nlink d"
    using field16_at[of "le16 (d_type d) @ le16 (d_major d) @ le16 (d_minor d)" 3] by (simp add: encode_dinode_def)
  ultimately show ?thesis by (simp add: decode_dinode_def dinode_of_def)
qed

text \<open>The eight inodes of a block do not overlap.\<close>

lemma slot_small: "64 * unat (i mod IPB) + 64 \<le> BSIZE"
proof -
  have "unat (i mod IPB) < 8" by (simp add: unat_mod)
  then show ?thesis by simp
qed

lemma put_get_dinode:
  assumes "length d = BSIZE" "length (d_addrs di) = 13"
  shows "length (put_dinode i di d) = BSIZE" "get_dinode i (put_dinode i di d) = dinode_of di"
    "i mod IPB \<noteq> j mod IPB \<Longrightarrow> get_dinode j (put_dinode i di d) = get_dinode j d"
proof -
  have le: "64 * unat (i mod IPB) + length (encode_dinode di) \<le> length d"
    using slot_small[of i] by (simp add: length_encode[OF assms(2)] assms(1))
  show "length (put_dinode i di d) = BSIZE" using le assms(1) by (simp add: put_dinode_def)
  show "get_dinode i (put_dinode i di d) = dinode_of di"
    using blit_read[OF le] decode_encode[OF assms(2)]
    by (simp add: get_dinode_def put_dinode_def length_encode[OF assms(2)])
  assume "i mod IPB \<noteq> j mod IPB"
  then have "unat (i mod IPB) \<noteq> unat (j mod IPB)" by (simp add: word_unat_eq_iff)
  then have "64 * unat (j mod IPB) + 64 \<le> 64 * unat (i mod IPB)
      \<or> 64 * unat (i mod IPB) + 64 \<le> 64 * unat (j mod IPB)" by linarith
  then show "get_dinode j (put_dinode i di d) = get_dinode j d"
    using take_drop_blit_other[OF le, of "64 * unat (j mod IPB)" 64] slot_small[of j]
    by (simp add: get_dinode_def put_dinode_def length_encode[OF assms(2)] assms(1))
qed

section \<open>One block of a transaction\<close>

text \<open>
  \<open>in_txn k s\<close>: no buffer is locked, the log has room for \<open>k\<close> more blocks, and an operation is under way
  unless \<open>k\<close> is 0: reading needs none.
\<close>

definition in_txn :: "nat \<Rightarrow> 'a logst_scheme \<Rightarrow> bool" where
  "in_txn k s \<longleftrightarrow> storage_inv s \<and> locked_bufs s = {} \<and> (0 < k \<longrightarrow> 1 \<le> lg_outstanding s) \<and> lh_n s + int k \<le> lg_size s - 1"

definition home :: "'a logst_scheme \<Rightarrow> uint \<Rightarrow> bool" where
  "home s n \<longleftrightarrow> mem_present s ROOTDEV n \<and> n \<notin> log_blocks s"

lemma txn_room:
  assumes "in_txn k s"
  shows "card (dirty_blocks s) + card (locked_bufs s) < NBUF" "int (length (logged s)) = lh_n s"
proof -
  have g: "log_geom (mem_present s) s" and t: "txn_ok (mem_present s) s" and p: "pinned s"
    using assms by (simp_all add: in_txn_def log_inv_def)
  show n: "int (length (logged s)) = lh_n s" using length_logged[OF g t] t by (simp add: txn_ok_def)
  have "card (dirty_blocks s) \<le> length (logged s)" using p by (simp add: pinned_def card_length)
  then show "card (dirty_blocks s) + card (locked_bufs s) < NBUF"
    using n t g assms by (simp add: in_txn_def txn_ok_def log_geom_def)
qed

lemma txn_update:
  assumes t: "in_txn (Suc k) s" and n: "home s n" and e: "length e = BSIZE"
  obtains i t u v where "bread iderw ROOTDEV n s = Inr (i, t)" "b_data (bufs t i) = disk_view s n"
    "log_write i (set_data i e t) = Inr u" "brelse i u = Inr v" "in_txn k v" "home v = home s"
    "disk_view v = (disk_view s)(n := e)" "memdisk v = memdisk s"
    "logst.more v = logst.more s" "logst.more t = logst.more s"
proof -
  have s: "storage_inv s" "locked_bufs s = {}" "1 \<le> lg_outstanding s" "lh_n s < lg_size s - 1"
    using t by (simp_all add: in_txn_def)
  obtain i t' u v where U: "bread iderw ROOTDEV n s = Inr (i, t')" "b_data (bufs t' i) = disk_view s n"
    "log_write i (set_data i e t') = Inr u" "brelse i u = Inr v" "storage_inv v" "locked_bufs v = locked_bufs s"
    "disk_view v = (disk_view s)(n := e)" "memdisk v = memdisk s" "mem_present v = mem_present s"
    "logged v = log_add n (logged s)" "lg_outstanding v = lg_outstanding s" "lg_start v = lg_start s" "lg_size v = lg_size s"
    "logst.more v = logst.more s" "logst.more t' = logst.more s"
    by (rule dl.update_block[OF s(1) _ _ _ _ s(3,4) e, of n]) (use n s(2) txn_room(1)[OF t] in \<open>auto simp: home_def\<close>)
  have "int (length (logged v)) = lh_n v"
    using length_logged[of "mem_present v" v] U(5) by (simp add: log_inv_def txn_ok_def)
  then have "lh_n v \<le> lh_n s + 1" using txn_room(2)[OF t] U(10) by (simp add: log_add_def split: if_splits)
  then have "in_txn k v" using t U s by (simp add: in_txn_def)
  moreover have "home v = home s" using U by (simp add: home_def fun_eq_iff)
  ultimately show thesis using that U by blast
qed

lemma fs_more:
  assumes "logst.more v = logst.more s"
  shows "icache v = icache s" "fs_sb v = fs_sb s"
  using assms by (cases s; cases v; simp)+

lemma set_data_more: "logst.more (set_data i e s) = logst.more s"
  by (simp add: set_data_def upd_buf_def)

text \<open>\<open>home\<close> blocks have \<open>BSIZE\<close> bytes.\<close>

lemma home_length: "in_txn k s \<Longrightarrow> home s n \<Longrightarrow> length (disk_view s n) = BSIZE"
  by (rule view_length) (auto simp: in_txn_def home_def log_inv_def cache_ok_def dest: mem.disk_length)

text \<open>Nothing was written to the disk.\<close>

definition untouched :: "'a diskst_scheme \<Rightarrow> 'a diskst_scheme \<Rightarrow> bool" where
  "untouched s t \<longleftrightarrow> memdisk t = memdisk s \<and> writes t = writes s"

lemma untouched_refl [simp]: "untouched s s"
  by (simp add: untouched_def)

lemma untouched_trans: "untouched s t \<Longrightarrow> untouched t u \<Longrightarrow> untouched s u"
  by (simp add: untouched_def)

text \<open>Reading a block and giving it back changes nothing that shows.\<close>

lemma txn_read:
  assumes t: "in_txn k s" and n: "home s n"
  obtains i t v where "bread iderw ROOTDEV n s = Inr (i, t)" "b_data (bufs t i) = disk_view s n"
    "brelse i t = Inr v" "in_txn k v" "home v = home s" "disk_view v = disk_view s" "memdisk v = memdisk s"
    "logst.more v = logst.more s" "logst.more t = logst.more s" "untouched s v"
proof -
  have s: "storage_inv s" "locked_bufs s = {}" using t by (simp_all add: in_txn_def)
  obtain i t' v where U: "bread iderw ROOTDEV n s = Inr (i, t')" "b_data (bufs t' i) = disk_view s n"
    "brelse i t' = Inr v" "storage_inv v" "locked_bufs v = locked_bufs s" "disk_view v = disk_view s"
    "memdisk v = memdisk s" "writes v = writes s" "mem_present v = mem_present s"
    "diskst.more t' = diskst.more s" "diskst.more v = diskst.more s"
    by (rule dl.read_view[OF s(1), of n]) (use n s(2) txn_room(1)[OF t] in \<open>auto simp: home_def\<close>)
  note lv = log_more_same[OF U(11)]
  have "in_txn k v" using t U(4,5) lv by (simp add: in_txn_def)
  moreover have "home v = home s" using U(9) lv by (simp add: home_def fun_eq_iff)
  moreover have "untouched s v" using U(7,8) by (simp add: untouched_def)
  ultimately show thesis using that U(1-3,6,7) lv(8) log_more_same(8)[OF U(10)] by blast
qed

section \<open>The free map\<close>

lemma bit_used_iff: "bit_used j d \<longleftrightarrow> bit (d ! (j div 8)) (j mod 8)"
  using and_exp_eq_0_iff_not_bit[of "d ! (j div 8)" "j mod 8"] by (simp add: bit_used_def push_bit_eq_mult)

lemma set_bit_used:
  assumes "length d = BSIZE" "k < unat BPB"
  shows "length (set_bit_used k d) = BSIZE" "bit_used j (set_bit_used k d) \<longleftrightarrow> bit_used j d \<or> j = k"
proof -
  show "length (set_bit_used k d) = BSIZE" using assms by (simp add: set_bit_used_def)
  have k: "k div 8 < length d" using assms by simp
  have "bit (push_bit (k mod 8) 1 :: uchar) (j mod 8) \<longleftrightarrow> j mod 8 = k mod 8"
    by (auto simp: bit_simps)
  moreover have "set_bit_used k d ! (j div 8)
      = (if k div 8 = j div 8 then d ! (k div 8) OR push_bit (k mod 8) 1 else d ! (j div 8))"
    unfolding set_bit_used_def by (rule nth_list_update[OF k])
  moreover have "j = k \<longleftrightarrow> k div 8 = j div 8 \<and> j mod 8 = k mod 8"
    by (metis div_mult_mod_eq)
  ultimately show "bit_used j (set_bit_used k d) \<longleftrightarrow> bit_used j d \<or> j = k"
    unfolding bit_used_iff
    by (cases "k div 8 = j div 8") (simp_all only: bit_or_iff if_True if_False simp_thms)
qed

text \<open>The loop's result when the free map is one block.\<close>

lemma balloc_unfold:
  "balloc E dev s =
    (if 0 < sb_size (fs_sb s) then
        bind_res (bread (k_rw E) dev (BBLOCK 0 (fs_sb s)) s) (\<lambda>(bp, s).
        case find (\<lambda>bi. \<not> bit_used bi (b_data (bufs s bp)))
            [0..<min (unat BPB) (unat (sb_size (fs_sb s) - 0))] of
          Some bi \<Rightarrow>
            bind_res (log_write bp (set_data bp (set_bit_used bi (b_data (bufs s bp))) s)) (\<lambda>s.
            bind_res (brelse bp s) (\<lambda>s.
            bind_res (bzero E dev (0 + of_nat bi) s) (\<lambda>s.
            Inr (0 + of_nat bi, s))))
        | None \<Rightarrow>
            bind_res (brelse bp s) (\<lambda>s.
            balloc_loop (2 ^ 20) E dev (0 + BPB) s))
      else Inl (Panic ''balloc: out of blocks''))"
proof -
  have "(2 :: nat) ^ 20 + 1 = Suc (2 ^ 20)" by simp
  then show ?thesis unfolding balloc_def by (simp only: balloc_loop.simps)
qed

lemma balloc_loop_end:
  "\<not> b < sb_size (fs_sb s) \<Longrightarrow> balloc_loop (2 ^ 20) E dev b s = Inl (Panic ''balloc: out of blocks'')"
proof -
  assume b: "\<not> b < sb_size (fs_sb s)"
  have e: "(2 :: nat) ^ 20 = Suc (2 ^ 20 - 1)" by simp
  show ?thesis by (subst e) (simp only: balloc_loop.simps if_False b)
qed

lemma unat_below: "j < unat (z :: uint) \<Longrightarrow> unat (of_nat j :: uint) = j"
proof (rule unat_small)
  have "unat z < 2 ^ LENGTH(32)" by (rule unsigned_less)
  then show "j < unat z \<Longrightarrow> j < 2 ^ LENGTH(32)" by simp
qed

text \<open>The first clear bit below \<open>n\<close>.\<close>

lemma find_upt_iff:
  "find P [0..<n] = None \<longleftrightarrow> (\<forall>j < n. \<not> P j)"
  "find P [0..<n] = Some k \<longleftrightarrow> k < n \<and> P k \<and> (\<forall>j < k. \<not> P j)"
  by (auto simp: find_None_iff find_Some_iff)

lemma bzero_txn:
  assumes "in_txn (Suc k) s" "home s n" "k_rw E = iderw"
  obtains v where "bzero E ROOTDEV n s = Inr v" "in_txn k v" "home v = home s"
    "disk_view v = (disk_view s)(n := replicate BSIZE 0)" "logst.more v = logst.more s"
proof -
  obtain i t u v where U: "bread iderw ROOTDEV n s = Inr (i, t)"
    "log_write i (set_data i (replicate BSIZE 0) t) = Inr u" "brelse i u = Inr v" "in_txn k v" "home v = home s"
    "disk_view v = (disk_view s)(n := replicate BSIZE 0)" "logst.more v = logst.more s"
    by (rule txn_update[OF assms(1,2), of "replicate BSIZE 0"]) simp
  show thesis by (rule that[OF _ U(4-7)]) (simp add: bzero_def assms(3) U(1-3))
qed

text \<open>
  C19: allocation of a block, on a disk of one free-map block. With a free block the first one
  is returned, marked as used in the map and filled with zeros, nothing else changes on the disk,
  and the transaction has two blocks more; when every block is in use \<open>balloc\<close> panics.
\<close>

theorem balloc_first_free:
  fixes s :: "'a fsst_scheme"
  assumes "in_txn (Suc (Suc k)) s" "k_rw E = iderw"
    and m: "m = BBLOCK 0 (fs_sb s)" "home s m"
    and z: "0 < sb_size (fs_sb s)" "sb_size (fs_sb s) \<le> BPB"
    and h: "\<And>n. n < sb_size (fs_sb s) \<Longrightarrow> \<not> bit_used (unat n) (disk_view s m) \<Longrightarrow> home s n \<and> n \<noteq> m"
  shows "if \<forall>n < sb_size (fs_sb s). bit_used (unat n) (disk_view s m)
     then balloc E ROOTDEV s = Inl (Panic ''balloc: out of blocks'')
     else \<exists>n t. balloc E ROOTDEV s = Inr (n, t) \<and> in_txn k t \<and> icache t = icache s \<and> fs_sb t = fs_sb s
       \<and> n < sb_size (fs_sb s) \<and> \<not> bit_used (unat n) (disk_view s m)
       \<and> (\<forall>j < n. bit_used (unat j) (disk_view s m))
       \<and> disk_view t n = replicate BSIZE 0
       \<and> (\<forall>j. bit_used j (disk_view t m) \<longleftrightarrow> bit_used j (disk_view s m) \<or> j = unat n)
       \<and> (\<forall>b. b \<noteq> m \<longrightarrow> b \<noteq> n \<longrightarrow> disk_view t b = disk_view s b)"
proof -
  let ?z = "sb_size (fs_sb s)" and ?d = "disk_view s m"
  have mm: "min (unat BPB) (unat (?z - 0)) = unat ?z" using z(2) by (simp add: word_le_nat_alt)
  have used: "(\<forall>n < ?z. bit_used (unat n) ?d) \<longleftrightarrow> (\<forall>j < unat ?z. bit_used j ?d)"
    by (metis unat_below word_less_nat_alt)
  show ?thesis
  proof (cases "find (\<lambda>bi. \<not> bit_used bi ?d) [0..<unat ?z]")
    case None
    then have all: "\<forall>n < ?z. bit_used (unat n) ?d" by (simp add: used find_upt_iff)
    obtain i t v where U: "bread iderw ROOTDEV m s = Inr (i, t)" "b_data (bufs t i) = ?d"
      "brelse i t = Inr v" "logst.more v = logst.more s" "logst.more t = logst.more s"
      by (rule txn_read[OF assms(1) m(2)])
    note f = fs_more[OF U(4)] fs_more[OF U(5)]
    have "balloc_loop (2 ^ 20) E ROOTDEV (0 + BPB) v = Inl (Panic ''balloc: out of blocks'')"
      by (rule balloc_loop_end) (use z(2) f in \<open>simp add: not_less\<close>)
    then show ?thesis using U None all z m assms(2) f mm by (simp add: balloc_unfold)
  next
    case (Some j)
    then have j: "j < unat ?z" "\<not> bit_used j ?d" "\<forall>i < j. bit_used i ?d" by (simp_all add: find_upt_iff)
    define n :: uint where "n = of_nat j"
    have n: "unat n = j" "n < ?z" using j(1) by (simp_all add: n_def unat_below word_less_nat_alt)
    have hn: "home s n" "n \<noteq> m" using h[OF n(2)] j(2) n(1) by simp_all
    have jb: "j < unat BPB" using j(1) z(2) by (simp add: word_le_nat_alt)
    note B = set_bit_used[OF home_length[OF assms(1) m(2)] jb]
    obtain i t u v where U: "bread iderw ROOTDEV m s = Inr (i, t)" "b_data (bufs t i) = ?d"
      "log_write i (set_data i (set_bit_used j ?d) t) = Inr u" "brelse i u = Inr v" "in_txn (Suc k) v"
      "home v = home s" "disk_view v = (disk_view s)(m := set_bit_used j ?d)" "logst.more v = logst.more s"
      "logst.more t = logst.more s"
      by (rule txn_update[OF assms(1) m(2) B(1)])
    have "home v n" using U(6) hn by simp
    then obtain w where W: "bzero E ROOTDEV n v = Inr w" "in_txn k w"
      "disk_view w = (disk_view v)(n := replicate BSIZE 0)" "logst.more w = logst.more v"
      using bzero_txn[OF U(5) _ assms(2)] by blast
    note f = fs_more[OF U(9)] fs_more[OF U(8)] fs_more[OF W(4)]
    have "balloc E ROOTDEV s = Inr (n, w)"
      using U(1-4) W(1) Some z(1) m(1) assms(2) f mm by (simp add: balloc_unfold n_def)
    moreover have "\<not> (\<forall>n < ?z. bit_used (unat n) ?d)" using j(1,2) used by blast
    moreover have "\<forall>i < n. bit_used (unat i) ?d" using j(3) n(1) by (simp add: word_less_nat_alt)
    ultimately show ?thesis using W U(7) hn n j(2) f B(2) by (auto intro!: exI[of _ n] exI[of _ w])
  qed
qed

section \<open>An example\<close>

text \<open>
  The machine of theory \<open>Storage\<close> with a file system: the inodes start at block 40, the free map is
  block 60, and the cache holds inode 17, a file of 1500 bytes in blocks 200, 201 and 202.
\<close>

definition file17 :: inode where
  "file17 = \<lparr>d_type = T_FILE, d_major = 0, d_minor = 0, d_nlink = 1, d_size = 1500,
     d_addrs = [200, 201, 202] @ replicate 10 0, i_dev = ROOTDEV, i_inum = 17, i_ref = 1,
     i_lock = initsleeplock ''inode'', i_flags = I_VALID\<rparr>"

definition sb1000 :: superblock where
  "sb1000 = \<lparr>sb_size = 1000, sb_nblocks = 900, sb_ninodes = 160, sb_nlog = 30, sb_logstart = 2,
     sb_inodestart = 40, sb_bmapstart = 60\<rparr>"

definition fs_machine :: fsst where
  "fs_machine = booted_with (fsst.fields (file17 # replicate 49 (file17\<lparr>i_ref := 0\<rparr>)) sb1000)"

definition fs_env :: "fsst kenv" where
  "fs_env = \<lparr>k_rw = iderw, k_end = 0, dev_read = \<lambda>_. None, dev_write = \<lambda>_. None\<rparr>"

lemma fs_fields_more: "logst.more s = fsst.fields a b \<Longrightarrow> icache s = a \<and> fs_sb s = b"
  for s :: fsst
  by (cases s) (simp add: fsst.defs)

lemma fs_machine_fields:
  "icache fs_machine = file17 # replicate 49 (file17\<lparr>i_ref := 0\<rparr>)" "fs_sb fs_machine = sb1000" "k_rw fs_env = iderw"
proof -
  have "logst.more (booted_with x) = x" for x :: "unit fsst_ext"
    using log_more_same(8)[OF diskst_more_same, of "booted_with x" "zero_machine_with x"]
    by (simp add: booted_with_def binit_frame zero_machine_with_def)
  then have "logst.more fs_machine = fsst.fields (file17 # replicate 49 (file17\<lparr>i_ref := 0\<rparr>)) sb1000"
    by (simp add: fs_machine_def)
  then show "icache fs_machine = file17 # replicate 49 (file17\<lparr>i_ref := 0\<rparr>)" "fs_sb fs_machine = sb1000"
    using fs_fields_more by blast+
  show "k_rw fs_env = iderw" by (simp add: fs_env_def)
qed

lemma fs_machine_txn: "k \<le> 29 \<Longrightarrow> in_txn k fs_machine"
  by (simp add: in_txn_def fs_machine_def booted_with_inv booted_with_fields booted_with_empty)

lemma fs_machine_home: "home fs_machine n \<longleftrightarrow> n < 1000 \<and> \<not> (2 \<le> n \<and> n < 32)"
  by (simp add: home_def fs_machine_def booted_with_fields booted_with_present log_area_small)

lemma balloc_first_free_witness:
  "\<exists>s n t. in_txn 5 s \<and> \<not> bit_used (unat n) (disk_view s 60) \<and> balloc fs_env ROOTDEV s = Inr (n, t)
     \<and> in_txn 3 t \<and> disk_view t n = replicate BSIZE 0 \<and> bit_used (unat n) (disk_view t 60)"
proof -
  define d :: block where "d = replicate 8 255 @ replicate 504 0"
  have h: "home fs_machine 60" by (simp add: fs_machine_home)
  obtain s where s: "in_txn 5 s" "home s = home fs_machine" "disk_view s = (disk_view fs_machine)(60 := d)"
    "logst.more s = logst.more fs_machine"
    by (rule txn_update[OF fs_machine_txn h, of 5 d]) (simp_all add: d_def)
  have f: "fs_sb s = sb1000" using fs_more(2)[OF s(4)] by (simp add: fs_machine_fields)
  have m: "BBLOCK 0 (fs_sb s) = 60" by (simp add: BBLOCK_def f sb1000_def)
  have "bit (255 :: uchar) k" if "k < 8" for k
    using that bit_mask_iff[of 8 k, where 'a = uchar] by (simp add: mask_eq_exp_minus_1)
  then have "bit_used j d \<longleftrightarrow> j < 64" if "j < 4096" for j
    using that by (simp add: bit_used_iff d_def nth_append less_mult_imp_div_less div_less_iff_less_mult)
  note B = this
  have hf: "home s n \<and> n \<noteq> 60" if "n < 1000" "\<not> bit_used (unat n) d" for n
  proof -
    have "\<not> unat n < 64" using that B[of "unat n"] by (simp add: word_less_nat_alt)
    then show ?thesis using that(1) s(2) by (auto simp: fs_machine_home word_less_nat_alt word_le_nat_alt)
  qed
  have "\<not> (\<forall>n :: uint. n < 1000 \<longrightarrow> bit_used (unat n) d)" using B[of 64] by (intro notI) (drule spec[of _ 64], simp)
  moreover have z: "sb_size (fs_sb s) = 1000" "disk_view s 60 = d" using f s(3) by (simp_all add: sb1000_def)
  ultimately have n: "\<not> (\<forall>n < sb_size (fs_sb s). bit_used (unat n) (disk_view s 60))" by simp
  have t: "in_txn (Suc (Suc 3)) s" "home s 60" using s(1,2) h by simp_all
  note P = balloc_first_free[OF t(1) fs_machine_fields(3) m[symmetric] t(2)]
  obtain n t where "balloc fs_env ROOTDEV s = Inr (n, t)" "in_txn 3 t" "\<not> bit_used (unat n) (disk_view s 60)"
    "disk_view t n = replicate BSIZE 0" "bit_used (unat n) (disk_view t 60)"
    using P[unfolded if_not_P[OF n]] hf z by auto
  then show ?thesis using s(1) by blast
qed

section \<open>Inodes\<close>

text \<open>
  C20: inodes go to the disk and come back. In a transaction with room for one block, \<open>iupdate\<close>
  of a cached inode succeeds; then the inode's slot of the inode area reads back as the fields
  of the cached inode, every other inode reads as before, and so does every other block.
\<close>

theorem iupdate_stores_inode:
  fixes s :: "'a fsst_scheme"
  assumes "in_txn (Suc k) s" "k_rw E = iderw"
    and n: "n = icache s ! ip" "i_dev n = ROOTDEV" "length (d_addrs n) = 13"
    and b: "b = IBLOCK (i_inum n) (fs_sb s)" "home s b"
  shows "\<exists>t. iupdate E ip s = Inr t \<and> in_txn k t \<and> icache t = icache s \<and> fs_sb t = fs_sb s
     \<and> get_dinode (i_inum n) (disk_view t b) = dinode_of n
     \<and> (\<forall>j. j mod IPB \<noteq> i_inum n mod IPB \<longrightarrow> get_dinode j (disk_view t b) = get_dinode j (disk_view s b))
     \<and> (\<forall>m. m \<noteq> b \<longrightarrow> disk_view t m = disk_view s m)"
proof -
  have l: "length (disk_view s b) = BSIZE" by (rule home_length[OF assms(1) b(2)])
  note P = put_get_dinode[OF l n(3), of "i_inum n"]
  let ?e = "put_dinode (i_inum n) n (disk_view s b)"
  obtain i t u v where U: "bread iderw ROOTDEV b s = Inr (i, t)" "b_data (bufs t i) = disk_view s b"
    "log_write i (set_data i ?e t) = Inr u" "brelse i u = Inr v" "in_txn k v" "home v = home s"
    "disk_view v = (disk_view s)(b := ?e)" "memdisk v = memdisk s"
    "logst.more v = logst.more s" "logst.more t = logst.more s"
    by (rule txn_update[OF assms(1) b(2) P(1)])
  have "iupdate E ip s = Inr v"
    using U(1-4) fs_more[OF U(10)] assms(2) n(1,2) b(1) by (simp add: iupdate_def)
  then show ?thesis using U(5,7) fs_more[OF U(9)] P(2,3) by (intro exI[of _ v]) simp
qed

lemma iupdate_stores_inode_witness:
  "\<exists>t. iupdate fs_env 0 fs_machine = Inr t \<and> get_dinode 17 (disk_view t 42) = dinode_of file17
     \<and> disk_view t 43 = disk_view fs_machine 43"
  using iupdate_stores_inode[of 0 fs_machine fs_env file17 0 42] fs_machine_txn[of 1]
  by (auto simp: fs_machine_fields fs_machine_home IBLOCK_def sb1000_def file17_def)

end
