(* ===== verification/Content.thy ===== *)
theory Content
  imports Fs_Txn
begin

text \<open>
  The content of a file: what \<open>readi\<close> returns and \<open>writei\<close> stores, over the blocks that the
  inode and its indirect block list.
\<close>

section \<open>Files\<close>

text \<open>The block of the disk that holds block \<open>k\<close> of the file, and the bytes of the file.\<close>

definition indirect :: "'a fsst_scheme \<Rightarrow> nat \<Rightarrow> uint" where
  "indirect s ip = d_addrs (icache s ! ip) ! NDIRECT"

definition file_block :: "'a fsst_scheme \<Rightarrow> nat \<Rightarrow> nat \<Rightarrow> uint" where
  "file_block s ip k = (if k < NDIRECT then d_addrs (icache s ! ip) ! k
     else field32 (k - NDIRECT) (disk_view s (indirect s ip)))"

abbreviation file_size :: "'a fsst_scheme \<Rightarrow> nat \<Rightarrow> nat" where
  "file_size s ip \<equiv> unat (d_size (icache s ! ip))"

definition file_byte :: "'a fsst_scheme \<Rightarrow> nat \<Rightarrow> nat \<Rightarrow> uchar" where
  "file_byte s ip k = disk_view s (file_block s ip (k div BSIZE)) ! (k mod BSIZE)"

definition content :: "'a fsst_scheme \<Rightarrow> nat \<Rightarrow> uchar list" where
  "content s ip = map (file_byte s ip) [0..<file_size s ip]"

text \<open>Every block of the file is allocated outside the log, and no two are the same block.\<close>

definition mapped_file :: "'a fsst_scheme \<Rightarrow> nat \<Rightarrow> bool" where
  "mapped_file s ip \<longleftrightarrow> i_dev (icache s ! ip) = ROOTDEV \<and> file_size s ip \<le> MAXFILE * BSIZE
     \<and> (\<forall>k. k * BSIZE < file_size s ip \<longrightarrow> file_block s ip k \<noteq> 0 \<and> home s (file_block s ip k)
          \<and> (\<forall>j. j * BSIZE < file_size s ip \<longrightarrow> file_block s ip j = file_block s ip k \<longrightarrow> j = k)
          \<and> (NDIRECT * BSIZE < file_size s ip \<longrightarrow> file_block s ip k \<noteq> indirect s ip))
     \<and> (NDIRECT * BSIZE < file_size s ip \<longrightarrow> indirect s ip \<noteq> 0 \<and> home s (indirect s ip))"

text \<open>\<open>s\<close> and \<open>t\<close> show the same disk and the same inodes.\<close>

definition fs_same :: "'a fsst_scheme \<Rightarrow> 'a fsst_scheme \<Rightarrow> bool" where
  "fs_same s t \<longleftrightarrow> disk_view t = disk_view s \<and> home t = home s \<and> logst.more t = logst.more s \<and> untouched s t"

lemma fs_same_refl [simp]: "fs_same s s" by (simp add: fs_same_def)

lemma fs_same_trans: "fs_same s t \<Longrightarrow> fs_same t u \<Longrightarrow> fs_same s u"
  by (auto simp: fs_same_def intro: untouched_trans)

lemma fs_sameD:
  assumes "fs_same s t"
  shows "icache t = icache s" "fs_sb t = fs_sb s" "indirect t = indirect s" "file_block t = file_block s"
    "file_byte t = file_byte s" "content t = content s" "mapped_file t = mapped_file s"
proof -
  have d: "disk_view t = disk_view s" "home t = home s" using assms by (simp_all add: fs_same_def)
  show i: "icache t = icache s" "fs_sb t = fs_sb s" using assms fs_more[of t s] by (simp_all add: fs_same_def)
  show n: "indirect t = indirect s" by (simp add: indirect_def i fun_eq_iff)
  show b: "file_block t = file_block s" by (simp add: file_block_def i d n fun_eq_iff)
  show y: "file_byte t = file_byte s" by (simp add: file_byte_def b d fun_eq_iff)
  show "content t = content s" by (simp add: content_def y i fun_eq_iff)
  show "mapped_file t = mapped_file s" by (simp add: mapped_file_def fun_eq_iff b d n i)
qed

lemma length_content [simp]: "length (content s ip) = file_size s ip"
  by (simp add: content_def)

lemma mapped_block:
  assumes "mapped_file s ip" "k * BSIZE < file_size s ip"
  shows "file_block s ip k \<noteq> 0" "home s (file_block s ip k)" "k < MAXFILE"
  using assms by (auto simp: mapped_file_def)

text \<open>A piece of the content within one block.\<close>

lemma content_slice:
  assumes "off + m \<le> file_size s ip" "off mod BSIZE + m \<le> BSIZE" "length (disk_view s (file_block s ip (off div BSIZE))) = BSIZE"
  shows "take m (drop (off mod BSIZE) (disk_view s (file_block s ip (off div BSIZE)))) = take m (drop off (content s ip))"
proof (rule nth_equalityI)
  fix i assume "i < length (take m (drop (off mod BSIZE) (disk_view s (file_block s ip (off div BSIZE)))))"
  then have i: "i < m" by simp
  have "(off + i) div BSIZE = off div BSIZE" "(off + i) mod BSIZE = off mod BSIZE + i"
    using i assms(2) div_mult_mod_eq[of off BSIZE] by (intro div_nat_eqI mod_nat_eqI; simp; linarith)+
  then show "take m (drop (off mod BSIZE) (disk_view s (file_block s ip (off div BSIZE)))) ! i
      = take m (drop off (content s ip)) ! i"
    using i assms by (simp add: content_def file_byte_def)
qed (use assms in \<open>auto simp: min_def\<close>)

section \<open>Finding blocks\<close>

lemma bmap_mapped:
  assumes "in_txn k s" "k_rw E = iderw" "mapped_file s ip" "unat bn * BSIZE < file_size s ip"
  obtains v where "bmap E ip bn s = Inr (file_block s ip (unat bn), v)" "in_txn k v" "fs_same s v"
proof (cases "unat bn < NDIRECT")
  case True
  then have "bmap E ip bn s = Inr (file_block s ip (unat bn), s)"
    using mapped_block(1)[OF assms(3,4)] by (simp add: bmap_def file_block_def word_less_nat_alt)
  then show ?thesis using that assms(1) by simp
next
  case False
  have lt: "unat bn < MAXFILE" by (rule mapped_block(3)[OF assms(3,4)])
  have sz: "NDIRECT * BSIZE < file_size s ip" using False assms(4) by linarith
  then have ind: "indirect s ip \<noteq> 0" "home s (indirect s ip)" using assms(3) by (simp_all add: mapped_file_def)
  have dev: "i_dev (icache s ! ip) = ROOTDEV" using assms(3) by (simp add: mapped_file_def)
  have b: "unat (bn - of_nat NDIRECT) = unat bn - NDIRECT" using False by (simp add: unat_sub word_le_nat_alt)
  obtain i t v where U: "bread iderw ROOTDEV (indirect s ip) s = Inr (i, t)"
    "b_data (bufs t i) = disk_view s (indirect s ip)" "brelse i t = Inr v" "in_txn k v" "home v = home s"
    "disk_view v = disk_view s" "logst.more v = logst.more s" "untouched s v"
    by (rule txn_read[OF assms(1) ind(2)])
  have "bmap E ip bn s = Inr (file_block s ip (unat bn), v)"
    using False lt b dev ind U(1-3) mapped_block(1)[OF assms(3,4)] assms(2)
    by (simp add: bmap_def file_block_def indirect_def word_less_nat_alt Let_def)
  then show ?thesis using that[of v] U by (simp add: fs_same_def)
qed

section \<open>The loops\<close>

declare readi_loop.simps [simp del] writei_loop.simps [simp del]

text \<open>One turn moves at least one byte, stays in the block, and no position wraps around.\<close>

lemma chunk_facts:
  assumes "tot < n" "unat off + (unat n - unat tot) \<le> MAXFILE * BSIZE"
  defines "m \<equiv> unat (chunk n tot off)"
  shows "m = min (unat n - unat tot) (BSIZE - unat off mod BSIZE)" "1 \<le> m"
    "unat (tot + chunk n tot off) = unat tot + m" "unat (off + chunk n tot off) = unat off + m"
    "unat off mod BSIZE + m \<le> BSIZE" "m \<le> unat n - unat tot"
proof -
  have lt: "unat tot < unat n" using assms(1) by (simp add: word_less_nat_alt)
  have o: "unat (off mod of_nat BSIZE) = unat off mod BSIZE" by (simp add: unat_mod)
  have "unat off mod BSIZE < BSIZE" by simp
  then have r: "unat (of_nat BSIZE - off mod of_nat BSIZE) = BSIZE - unat off mod BSIZE"
    using o by (simp add: unat_sub word_le_nat_alt)
  have d: "unat (n - tot) = unat n - unat tot" using lt by (simp add: unat_sub word_le_nat_alt)
  show m: "m = min (unat n - unat tot) (BSIZE - unat off mod BSIZE)"
    using r d by (auto simp: m_def chunk_def word_less_nat_alt min_def)
  show "1 \<le> m" using m lt mod_less_divisor[of BSIZE "unat off"] by linarith
  have "m \<le> BSIZE - unat off mod BSIZE" using m by simp
  then show "unat off mod BSIZE + m \<le> BSIZE" using mod_less_divisor[of BSIZE "unat off"] by linarith
  show "m \<le> unat n - unat tot" using m by simp
  moreover have "unat n < 2 ^ LENGTH(32)" by (rule unsigned_less)
  ultimately have "unat tot + m < 2 ^ LENGTH(32)" "unat off + m < 2 ^ LENGTH(32)"
    using lt assms(2) by simp_all
  then show "unat (tot + chunk n tot off) = unat tot + m" "unat (off + chunk n tot off) = unat off + m"
    using unat_add_lem[of tot "chunk n tot off"] unat_add_lem[of off "chunk n tot off"] by (simp_all add: m_def)
qed

text \<open>What a turn of \<open>readi\<close> does with the cache.\<close>

lemma read_turn:
  assumes "in_txn k s" "k_rw E = iderw" "mapped_file s ip" "unat off < file_size s ip"
  defines "b \<equiv> file_block s ip (unat off div BSIZE)"
  obtains v i t u where "bmap E ip (off div of_nat BSIZE) s = Inr (b, v)" "i_dev (icache v ! ip) = ROOTDEV"
    "bread iderw ROOTDEV b v = Inr (i, t)" "b_data (bufs t i) = disk_view s b" "brelse i t = Inr u"
    "in_txn k u" "fs_same s u" "length (disk_view s b) = BSIZE"
proof -
  have bn: "unat (off div of_nat BSIZE) = unat off div BSIZE" by (simp add: unat_div)
  have bs: "unat off div BSIZE * BSIZE < file_size s ip"
    using assms(4) div_times_less_eq_dividend[of "unat off" BSIZE] by linarith
  obtain v where V: "bmap E ip (off div of_nat BSIZE) s = Inr (b, v)" "in_txn k v" "fs_same s v"
    using bmap_mapped[OF assms(1-3), of "off div of_nat BSIZE"] bs unfolding bn b_def by blast
  have hb: "home v b" using mapped_block(2)[OF assms(3) bs] V(3) by (simp add: fs_same_def b_def)
  obtain i t u where U: "bread iderw ROOTDEV b v = Inr (i, t)" "b_data (bufs t i) = disk_view v b"
    "brelse i t = Inr u" "in_txn k u" "home u = home v" "disk_view u = disk_view v" "logst.more u = logst.more v" "untouched v u"
    by (rule txn_read[OF V(2) hb])
  show thesis
    by (rule that[OF V(1) _ U(1) _ U(3,4)])
      (use assms(3) V(3) U home_length[OF V(2) hb] fs_sameD(1)[OF V(3)] untouched_trans[OF _ U(8), of s] in
        \<open>simp_all add: mapped_file_def fs_same_def\<close>)
qed

lemma readi_loop_content:
  assumes "in_txn k s" "k_rw E = iderw" "mapped_file s ip" "tot \<le> n" "unat n - unat tot \<le> fuel"
    "unat off + (unat n - unat tot) \<le> file_size s ip"
  shows "\<exists>t. readi_loop fuel E ip n tot off acc s
      = Inr (acc @ take (unat n - unat tot) (drop (unat off) (content s ip)), t) \<and> in_txn k t \<and> fs_same s t"
  using assms
proof (induction fuel arbitrary: tot off acc s)
  case 0
  then have "\<not> tot < n" by (simp add: word_less_nat_alt)
  then show ?case using 0 by (subst readi_loop.simps) (simp add: word_le_nat_alt word_less_nat_alt)
next
  case (Suc fuel)
  show ?case
  proof (cases "tot < n")
    case False
    then show ?thesis using Suc.prems by (subst readi_loop.simps) (simp add: word_le_nat_alt word_less_nat_alt)
  next
    case True
    then have lt: "unat tot < unat n" by (simp add: word_less_nat_alt)
    have "file_size s ip \<le> MAXFILE * BSIZE" using Suc.prems(3) by (simp add: mapped_file_def)
    then have le: "unat off + (unat n - unat tot) \<le> MAXFILE * BSIZE" using Suc.prems(6) by linarith
    define m where "m = unat (chunk n tot off)"
    note C = chunk_facts[OF True le, folded m_def]
    let ?b = "file_block s ip (unat off div BSIZE)"
    obtain v i t u where U: "bmap E ip (off div of_nat BSIZE) s = Inr (?b, v)" "i_dev (icache v ! ip) = ROOTDEV"
      "bread iderw ROOTDEV ?b v = Inr (i, t)" "b_data (bufs t i) = disk_view s ?b" "brelse i t = Inr u"
      "in_txn k u" "fs_same s u" "length (disk_view s ?b) = BSIZE"
      by (rule read_turn[OF Suc.prems(1-3), of off]) (use lt Suc.prems(6) in linarith)
    note su = U(7)
    have sl: "take m (drop (unat off mod BSIZE) (disk_view s ?b)) = take m (drop (unat off) (content s ip))"
      by (rule content_slice[OF _ _ U(8)]) (use C(5,6) Suc.prems(6) in linarith)+
    let ?acc = "acc @ take m (drop (unat off) (content s ip))"
    let ?tot = "tot + chunk n tot off" and ?off = "off + chunk n tot off"
    have p: "?tot \<le> n" "unat n - unat ?tot \<le> fuel" "unat ?off + (unat n - unat ?tot) \<le> file_size s ip"
      unfolding word_le_nat_alt C(3,4) using C(2,6) Suc.prems(5,6) lt by linarith+
    have "mapped_file u ip" using Suc.prems(3) by (simp add: fs_sameD[OF su])
    from Suc.IH[OF U(6) Suc.prems(2) this p(1,2), of ?off ?acc]
    have "\<exists>w. readi_loop fuel E ip n ?tot ?off ?acc u
        = Inr (?acc @ take (unat n - (unat tot + m)) (drop (unat off + m) (content s ip)), w) \<and> in_txn k w \<and> fs_same u w"
      using p(3) unfolding fs_sameD[OF su] C(3,4) by blast
    then obtain w where W: "readi_loop fuel E ip n (tot + chunk n tot off) (off + chunk n tot off) ?acc u
        = Inr (?acc @ take (unat n - (unat tot + m)) (drop (unat off + m) (content s ip)), w)" "in_txn k w" "fs_same s w"
      using fs_same_trans[OF su] by blast
    have "unat n - unat tot = m + (unat n - (unat tot + m))" using C(1) lt by linarith
    then have j: "?acc @ take (unat n - (unat tot + m)) (drop (unat off + m) (content s ip))
        = acc @ take (unat n - unat tot) (drop (unat off) (content s ip))"
      by (simp add: take_add add.commute)
    have "unat (off mod of_nat BSIZE) = unat off mod BSIZE" by (simp add: unat_mod)
    then have "readi_loop (Suc fuel) E ip n tot off acc s
        = readi_loop fuel E ip n (tot + chunk n tot off) (off + chunk n tot off) ?acc u"
      using True U(1-5) sl Suc.prems(2)
      by (subst readi_loop.simps) (simp add: Let_def flip: m_def)
    then show ?thesis using W j by simp
  qed
qed

section \<open>Writing\<close>

definition file_blocks :: "'a fsst_scheme \<Rightarrow> nat \<Rightarrow> uint set" where
  "file_blocks s ip = {file_block s ip k |k. k * BSIZE < file_size s ip}"

text \<open>From \<open>s\<close> to \<open>t\<close> the bytes \<open>xs\<close> were stored at \<open>off\<close> in the file, and nothing else changed.\<close>

definition wrote :: "nat \<Rightarrow> nat \<Rightarrow> uchar list \<Rightarrow> 'a fsst_scheme \<Rightarrow> 'a fsst_scheme \<Rightarrow> bool" where
  "wrote ip off xs s t \<longleftrightarrow> logst.more t = logst.more s \<and> home t = home s \<and> mapped_file t ip
     \<and> content t ip = blit (content s ip) off xs
     \<and> (\<forall>k. k * BSIZE < file_size s ip \<longrightarrow> file_block t ip k = file_block s ip k)
     \<and> (\<forall>b. b \<notin> file_blocks s ip \<longrightarrow> disk_view t b = disk_view s b)"

lemma blit_blit: "k + length xs \<le> length c \<Longrightarrow> blit (blit c k xs) (k + length xs) ys = blit c k (xs @ ys)"
proof -
  assume a: "k + length xs \<le> length c"
  then have "k \<le> length c" by simp
  then show ?thesis using a by (simp add: blit_def add_ac)
qed

lemma wrote_refl: "mapped_file s ip \<Longrightarrow> wrote ip off [] s s"
  by (simp add: wrote_def)

lemma wrote_trans:
  assumes "wrote ip off xs s t" "wrote ip (off + length xs) ys t u" "off + length xs \<le> file_size s ip"
  shows "wrote ip off (xs @ ys) s u"
proof -
  have z: "file_size t ip = file_size s ip" using assms(1) fs_more[of t s] by (simp add: wrote_def)
  have "file_block t ip k = file_block s ip k" if "k * BSIZE < file_size s ip" for k
    using assms(1) that by (simp add: wrote_def)
  then have b: "file_blocks t ip = file_blocks s ip" unfolding file_blocks_def z by (intro Collect_cong) metis
  show ?thesis using assms blit_blit[of off xs "content s ip" ys] z b by (simp add: wrote_def)
qed

text \<open>Positions of a piece that lies in one block.\<close>

lemma in_block:
  assumes "off mod BSIZE + n \<le> BSIZE"
  shows "off \<le> q \<and> q < off + n \<longleftrightarrow> q div BSIZE = off div BSIZE \<and> off mod BSIZE \<le> q mod BSIZE \<and> q mod BSIZE < off mod BSIZE + n"
proof
  assume q: "off \<le> q \<and> q < off + n"
  define i where "i = q - off"
  have "q = off + i" "i < n" using q unfolding i_def by linarith+
  moreover have "(off + i) div BSIZE = off div BSIZE" "(off + i) mod BSIZE = off mod BSIZE + i"
    using \<open>i < n\<close> assms div_mult_mod_eq[of off BSIZE] by (intro div_nat_eqI mod_nat_eqI; simp; linarith)+
  ultimately show "q div BSIZE = off div BSIZE \<and> off mod BSIZE \<le> q mod BSIZE \<and> q mod BSIZE < off mod BSIZE + n"
    by simp
next
  assume "q div BSIZE = off div BSIZE \<and> off mod BSIZE \<le> q mod BSIZE \<and> q mod BSIZE < off mod BSIZE + n"
  then show "off \<le> q \<and> q < off + n" using div_mult_mod_eq[of off BSIZE] div_mult_mod_eq[of q BSIZE] by linarith
qed

lemma wrote_block:
  assumes m: "mapped_file s ip" and off: "off + length xs \<le> file_size s ip" "off mod BSIZE + length xs \<le> BSIZE" "xs \<noteq> []"
    and b: "b = file_block s ip (off div BSIZE)" "length (disk_view s b) = BSIZE"
    and v: "disk_view t = (disk_view s)(b := blit (disk_view s b) (off mod BSIZE) xs)" "home t = home s"
      "logst.more t = logst.more s"
  shows "wrote ip off xs s t"
proof -
  note f = fs_more[OF v(3)]
  have lt: "off < file_size s ip" using off(1,3) by (simp add: Suc_le_eq flip: length_greater_0_conv)
  have bs: "off div BSIZE * BSIZE < file_size s ip"
    using lt div_times_less_eq_dividend[of off BSIZE] by linarith
  have ind: "indirect t ip = indirect s ip" by (simp add: indirect_def f)
  have fb: "file_block t ip k = file_block s ip k" if "k * BSIZE < file_size s ip" for k
  proof (cases "k < NDIRECT")
    case False
    then have "NDIRECT * BSIZE < file_size s ip \<or> NDIRECT * BSIZE = k * BSIZE" using that by linarith
    then have "indirect s ip \<noteq> b" using m bs that b by (auto simp: mapped_file_def)
    then show ?thesis using False by (simp add: file_block_def ind v(1))
  qed (simp add: file_block_def f)
  have "file_byte t ip q = blit (content s ip) off xs ! q" if q: "q < file_size s ip" for q
  proof -
    have qs: "q div BSIZE * BSIZE < file_size s ip" using q div_times_less_eq_dividend[of q BSIZE] by linarith
    have eq: "file_block s ip (q div BSIZE) = b \<longleftrightarrow> q div BSIZE = off div BSIZE"
      using m qs bs by (auto simp: b mapped_file_def)
    have l: "off mod BSIZE + length xs \<le> length (disk_view s b)" using off(2) b(2) by simp
    have "q mod BSIZE - off mod BSIZE = q - off" if "q div BSIZE = off div BSIZE"
      using that div_mult_mod_eq[of off BSIZE] div_mult_mod_eq[of q BSIZE] by linarith
    then show ?thesis
      using in_block[OF off(2), of q] off(1) q eq l b
      by (auto simp: file_byte_def fb[OF qs] v(1) nth_blit content_def)
  qed
  then have "content t ip = blit (content s ip) off xs"
    by (intro nth_equalityI) (use off(1) in \<open>simp_all add: f content_def\<close>)
  moreover have "mapped_file t ip"
    using m unfolding mapped_file_def f ind v(2) by (auto simp: fb)
  moreover have "disk_view t c = disk_view s c" if "c \<notin> file_blocks s ip" for c
    using that bs by (auto simp: v(1) b file_blocks_def)
  ultimately show ?thesis by (simp add: wrote_def v fb)
qed

text \<open>The number of blocks that \<open>n\<close> bytes at \<open>off\<close> touch.\<close>

definition turns :: "nat \<Rightarrow> nat \<Rightarrow> nat" where
  "turns off n = (if n = 0 then 0 else (off + n - 1) div BSIZE - off div BSIZE + 1)"

lemma turns_step:
  assumes "0 < n" "m = min n (BSIZE - off mod BSIZE)"
  shows "turns off n = Suc (turns (off + m) (n - m))"
proof (cases "n \<le> BSIZE - off mod BSIZE")
  case True
  then have "off mod BSIZE + n \<le> BSIZE" using mod_less_divisor[of BSIZE off] by linarith
  then have "(off + n - 1) div BSIZE = off div BSIZE"
    using in_block[of off n "off + n - 1"] assms(1) by linarith
  then show ?thesis using True assms by (simp add: turns_def)
next
  case False
  then have m: "m = BSIZE - off mod BSIZE" using assms by simp
  have "off + (BSIZE - off mod BSIZE) = off div BSIZE * BSIZE + BSIZE"
  proof -
    have "r < BSIZE \<Longrightarrow> q + r = off \<Longrightarrow> off + (BSIZE - r) = q + BSIZE" for q r by linarith
    then show ?thesis using div_mult_mod_eq[of off BSIZE] by simp
  qed
  then have "off + m = (off div BSIZE + 1) * BSIZE" by (simp add: m)
  then have d: "(off + m) div BSIZE = off div BSIZE + 1" by simp
  have "(off + m) div BSIZE \<le> (off + n - 1) div BSIZE" by (rule div_le_mono) (use False m in linarith)
  moreover have "off + m + (n - m) - 1 = off + n - 1" "n - m \<noteq> 0" using False m by linarith+
  ultimately show ?thesis using d assms(1) by (simp only: turns_def if_False) (simp, linarith)
qed

lemma write_turn:
  assumes "in_txn (Suc k) s" "k_rw E = iderw" "mapped_file s ip"
    and xs: "unat off + length xs \<le> file_size s ip" "unat off mod BSIZE + length xs \<le> BSIZE" "xs \<noteq> []"
  defines "b \<equiv> file_block s ip (unat off div BSIZE)"
  obtains v i t u w where "bmap E ip (off div of_nat BSIZE) s = Inr (b, v)" "i_dev (icache v ! ip) = ROOTDEV"
    "bread iderw ROOTDEV b v = Inr (i, t)"
    "log_write i (set_data i (blit (b_data (bufs t i)) (unat off mod BSIZE) xs) t) = Inr u" "brelse i u = Inr w"
    "in_txn k w" "wrote ip (unat off) xs s w"
proof -
  have bn: "unat (off div of_nat BSIZE) = unat off div BSIZE" by (simp add: unat_div)
  have "0 < length xs" using xs(3) by simp
  then have "unat off < file_size s ip" using xs(1) by linarith
  then have bs: "unat off div BSIZE * BSIZE < file_size s ip"
    using div_times_less_eq_dividend[of "unat off" BSIZE] by linarith
  obtain v where V: "bmap E ip (off div of_nat BSIZE) s = Inr (b, v)" "in_txn (Suc k) v" "fs_same s v"
    using bmap_mapped[OF assms(1-3), of "off div of_nat BSIZE"] bs unfolding bn b_def by blast
  have hb: "home v b" using mapped_block(2)[OF assms(3) bs] V(3) by (simp add: fs_same_def b_def)
  have l: "length (disk_view v b) = BSIZE" by (rule home_length[OF V(2) hb])
  let ?e = "blit (disk_view v b) (unat off mod BSIZE) xs"
  obtain i t u w where U: "bread iderw ROOTDEV b v = Inr (i, t)" "b_data (bufs t i) = disk_view v b"
    "log_write i (set_data i ?e t) = Inr u" "brelse i u = Inr w" "in_txn k w" "home w = home v"
    "disk_view w = (disk_view v)(b := ?e)" "logst.more w = logst.more v"
    by (rule txn_update[OF V(2) hb, of ?e]) (use xs(2) l in simp)
  have "wrote ip (unat off) xs s w"
    by (rule wrote_block[OF assms(3) xs, of b]) (use U V(3) l in \<open>simp_all add: fs_same_def b_def\<close>)
  moreover have "i_dev (icache v ! ip) = ROOTDEV"
    using assms(3) by (simp add: fs_sameD[OF V(3)] mapped_file_def)
  ultimately show thesis using that V(1) U by metis
qed

abbreviation piece :: "(nat \<Rightarrow> uchar) \<Rightarrow> nat \<Rightarrow> nat \<Rightarrow> uchar list" where
  "piece src a m \<equiv> map (\<lambda>i. src (a + i)) [0..<m]"

lemma piece_append: "piece src a m @ piece src (a + m) n = piece src a (m + n)"
  by (rule nth_equalityI) (auto simp: nth_append add.assoc)

lemma writei_loop_content:
  assumes "in_txn (turns (unat off) (unat n - unat tot) + k) s" "k_rw E = iderw" "mapped_file s ip" "tot \<le> n"
    "unat n - unat tot \<le> fuel" "unat off + (unat n - unat tot) \<le> file_size s ip"
  shows "\<exists>t. writei_loop fuel E ip src n tot off s = Inr (off + (n - tot), t) \<and> in_txn k t
    \<and> wrote ip (unat off) (piece src (unat tot) (unat n - unat tot)) s t"
  using assms
proof (induction fuel arbitrary: tot off s)
  case 0
  then have "tot = n" by (simp add: word_le_nat_alt word_unat_eq_iff)
  then show ?case using 0 wrote_refl by (subst writei_loop.simps) (auto simp: turns_def)
next
  case (Suc fuel)
  show ?case
  proof (cases "tot < n")
    case False
    then have "tot = n" using Suc.prems(4) by simp
    then show ?thesis using Suc.prems wrote_refl by (subst writei_loop.simps) (auto simp: turns_def)
  next
    case True
    then have lt: "unat tot < unat n" by (simp add: word_less_nat_alt)
    have "file_size s ip \<le> MAXFILE * BSIZE" using Suc.prems(3) by (simp add: mapped_file_def)
    then have le: "unat off + (unat n - unat tot) \<le> MAXFILE * BSIZE" using Suc.prems(6) by linarith
    define m where "m = unat (chunk n tot off)"
    note C = chunk_facts[OF True le, folded m_def]
    let ?tot = "tot + chunk n tot off" and ?off = "off + chunk n tot off" and ?xs = "piece src (unat tot) m"
      and ?b = "file_block s ip (unat off div BSIZE)"
    have tx: "in_txn (Suc (turns (unat ?off) (unat n - unat ?tot) + k)) s"
      using Suc.prems(1) turns_step[OF _ C(1)] lt unfolding C(3,4) by simp
    have x: "unat off + length ?xs \<le> file_size s ip" "unat off mod BSIZE + length ?xs \<le> BSIZE" "?xs \<noteq> []"
      using C(2,5,6) Suc.prems(6) by simp_all
    obtain v i t u w where U: "bmap E ip (off div of_nat BSIZE) s = Inr (?b, v)" "i_dev (icache v ! ip) = ROOTDEV"
      "bread iderw ROOTDEV ?b v = Inr (i, t)"
      "log_write i (set_data i (blit (b_data (bufs t i)) (unat off mod BSIZE) ?xs) t) = Inr u" "brelse i u = Inr w"
      "in_txn (turns (unat ?off) (unat n - unat ?tot) + k) w" "wrote ip (unat off) ?xs s w"
      by (rule write_turn[OF tx Suc.prems(2,3) x])
    have z: "file_size w ip = file_size s ip" using U(7) fs_more[of w s] by (simp add: wrote_def)
    have p: "?tot \<le> n" "unat n - unat ?tot \<le> fuel" "unat ?off + (unat n - unat ?tot) \<le> file_size w ip"
      unfolding z word_le_nat_alt C(3,4) using C(2,6) Suc.prems(5,6) lt by linarith+
    have "mapped_file w ip" using U(7) by (simp add: wrote_def)
    from Suc.IH[OF U(6) Suc.prems(2) this p]
    obtain y where Y: "writei_loop fuel E ip src n ?tot ?off w = Inr (?off + (n - ?tot), y)" "in_txn k y"
      "wrote ip (unat off + m) (piece src (unat tot + m) (unat n - (unat tot + m))) w y"
      unfolding C(3,4) by blast
    have "m + (unat n - (unat tot + m)) = unat n - unat tot" using C(6) lt by linarith
    then have "wrote ip (unat off) (piece src (unat tot) (unat n - unat tot)) s y"
      using wrote_trans[OF U(7), of "piece src (unat tot + m) (unat n - (unat tot + m))" y] Y(3) x(1) piece_append[of src "unat tot" m]
      by simp
    moreover have "unat (off mod of_nat BSIZE) = unat off mod BSIZE" by (simp add: unat_mod)
    then have "writei_loop (Suc fuel) E ip src n tot off s = writei_loop fuel E ip src n ?tot ?off w"
      using True U(1-5) Suc.prems(2) by (subst writei_loop.simps) (simp add: Let_def flip: m_def)
    ultimately show ?thesis using Y by (simp add: algebra_simps)
  qed
qed

section \<open>Properties\<close>

lemma sint_file: "unat w \<le> MAXFILE * BSIZE \<Longrightarrow> sint (w :: uint) = int (unat w)"
proof -
  assume "unat w \<le> MAXFILE * BSIZE"
  then have "unat w < 2147483648" by simp
  then have "int (unat w) < int 2147483648" by (simp only: of_nat_less_iff)
  then have "uint w < 2 ^ 31" by simp
  moreover have "- (2 ^ 31) \<le> uint w" using unsigned_greater_eq[of w] by (rule order.trans[rotated]) simp
  ultimately have "signed_take_bit 31 (uint w) = uint w" by (intro signed_take_bit_int_eq_self)
  then show ?thesis by (simp add: sint_uint)
qed

lemma readi_data_content:
  assumes "in_txn k s" "k_rw E = iderw" "mapped_file s ip"
  shows "if off > d_size (icache s ! ip) \<or> off + n < off then readi_data E ip off n s = Inr (-1, [], s)
    else \<exists>t. readi_data E ip off n s = Inr (int (min (unat n) (file_size s ip - unat off)),
        take (unat n) (drop (unat off) (content s ip)), t) \<and> in_txn k t \<and> fs_same s t"
proof (cases "off > d_size (icache s ! ip) \<or> off + n < off")
  case False
  define r where "r = (if off + n > d_size (icache s ! ip) then d_size (icache s ! ip) - off else n)"
  have le: "unat off \<le> file_size s ip" using False by (simp add: word_le_nat_alt not_less)
  have "unat (off + n) = unat off + unat n" using False unat_plus_simple[of off n] by (simp add: not_less)
  then have r: "unat r = min (unat n) (file_size s ip - unat off)"
    using le by (auto simp: r_def word_less_nat_alt unat_sub word_le_nat_alt)
  have "\<exists>t. readi_loop (unat r) E ip r 0 off [] s
      = Inr ([] @ take (unat r - unat (0 :: uint)) (drop (unat off) (content s ip)), t) \<and> in_txn k t \<and> fs_same s t"
    by (rule readi_loop_content[OF assms]) (use r le in simp_all)
  then obtain t where t: "readi_loop (unat r) E ip r 0 off [] s = Inr (take (unat r) (drop (unat off) (content s ip)), t)"
    "in_txn k t" "fs_same s t" by auto
  have "file_size s ip \<le> MAXFILE * BSIZE" using assms(3) by (simp add: mapped_file_def)
  then have "sint r = int (unat r)" by (intro sint_file) (use r in linarith)
  moreover have "take (unat r) (drop (unat off) (content s ip)) = take (unat n) (drop (unat off) (content s ip))"
    by (simp add: r min_def)
  ultimately have "readi_data E ip off n s = Inr (int (min (unat n) (file_size s ip - unat off)),
      take (unat n) (drop (unat off) (content s ip)), t)"
    using False t(1) r by (simp add: readi_data_def Let_def flip: r_def)
  then show ?thesis using False t by auto
qed (simp add: readi_data_def)

text \<open>
  C15: \<open>readi\<close> returns the content of the file. An offset beyond the end, or one that wraps
  around with the count, is refused with -1; any other call stores the bytes of the file from
  the offset, up to the end of the file, at the destination, returns their number, and changes
  nothing else that shows.
\<close>

theorem readi_content:
  fixes s :: "'a fsst_scheme" and off n dst :: uint
  assumes "in_txn k s" "k_rw E = iderw" "mapped_file s ip" "d_type (icache s ! ip) \<noteq> T_DEV"
  defines "xs \<equiv> take (unat n) (drop (unat off) (content s ip))"
  shows "if off > d_size (icache s ! ip) \<or> off + n < off
    then readi E ip dst off n s = Inr (-1, s\<lparr>mem := store_bytes (mem s) dst []\<rparr>)
    else \<exists>t. readi E ip dst off n s = Inr (int (length xs), t\<lparr>mem := store_bytes (mem t) dst xs\<rparr>)
      \<and> in_txn k t \<and> fs_same s t"
  using readi_data_content[OF assms(1-3), of off n] assms(4)
  by (auto simp: readi_def xs_def min_def split: if_splits)

text \<open>
  C16: \<open>writei\<close> within a file. In a transaction with room for the blocks it touches, it returns
  the number of bytes; then the content of the file is the old one with the bytes at the offset,
  every block of the disk outside the file is as before, and reading the same range gives
  the bytes back.
\<close>

theorem writei_readi:
  fixes s :: "'a fsst_scheme" and off n src :: uint
  assumes "in_txn (turns (unat off) (unat n) + k) s" "k_rw E = iderw" "mapped_file s ip"
    and "unat off + unat n \<le> file_size s ip" "d_type (icache s ! ip) \<noteq> T_DEV"
  defines "xs \<equiv> load_bytes (mem s) src (unat n)"
  shows "\<exists>t u. writei E ip src off n s = Inr (int (unat n), t) \<and> in_txn k t \<and> icache t = icache s
    \<and> content t ip = blit (content s ip) (unat off) xs \<and> mapped_file t ip
    \<and> (\<forall>b. b \<notin> file_blocks s ip \<longrightarrow> disk_view t b = disk_view s b)
    \<and> readi_data E ip off n t = Inr (int (unat n), xs, u)"
proof -
  have mf: "file_size s ip \<le> MAXFILE * BSIZE" using assms(3) by (simp add: mapped_file_def)
  have o: "unat (off + n) = unat off + unat n" using assms(4) mf unat_add_lem[of off n] by simp
  have g: "\<not> off > d_size (icache s ! ip)" "\<not> off + n < off" "\<not> off + n > of_nat (MAXFILE * BSIZE)"
    "\<not> off + n > d_size (icache s ! ip)"
    using assms(4) mf by (simp_all add: word_less_nat_alt o)
  let ?f = "\<lambda>k. mem s (src + of_nat k)"
  have "\<exists>t. writei_loop (unat n) E ip ?f n 0 off s = Inr (off + (n - 0), t) \<and> in_txn k t
    \<and> wrote ip (unat off) (piece ?f (unat (0 :: uint)) (unat n - unat (0 :: uint))) s t"
    by (rule writei_loop_content) (use assms in simp_all)
  then obtain t where t: "writei_loop (unat n) E ip ?f n 0 off s = Inr (off + n, t)" "in_txn k t"
    "wrote ip (unat off) xs s t" by (auto simp: xs_def load_bytes_def)
  have ic: "icache t = icache s" using t(3) fs_more[of t s] by (simp add: wrote_def)
  have "sint n = int (unat n)" by (rule sint_file) (use assms(4) mf in linarith)
  then have w: "writei E ip src off n s = Inr (int (unat n), t)"
    using g t(1) ic assms(5) by (simp add: writei_def writei_data_def)
  have mt: "mapped_file t ip" "content t ip = blit (content s ip) (unat off) xs" using t(3) by (simp_all add: wrote_def)
  have "take (unat n) (drop (unat off) (content t ip)) = xs"
    using blit_read[of "unat off" xs "content s ip"] assms(4) mt(2) by (simp add: xs_def load_bytes_def)
  moreover have "min (unat n) (file_size s ip - unat off) = unat n" using assms(4) by simp
  ultimately obtain u where "readi_data E ip off n t = Inr (int (unat n), xs, u)"
    using readi_data_content[OF t(2) assms(2) mt(1), of off n] g by (auto simp: ic)
  then show ?thesis using w t mt ic by (auto simp: wrote_def)
qed

text \<open>The file of the example: three blocks, 1500 zero bytes.\<close>

lemma fs_machine_file:
  "mapped_file fs_machine 0" "file_size fs_machine 0 = 1500" "d_type (icache fs_machine ! 0) = T_FILE"
  "200 \<in> file_blocks fs_machine 0"
proof -
  have k: "k * BSIZE < 1500 \<longleftrightarrow> k = 0 \<or> k = 1 \<or> k = 2" for k :: nat by (rule iffI) (linarith, auto)
  have b: "file_block fs_machine 0 0 = 200" "file_block fs_machine 0 1 = 201" "file_block fs_machine 0 2 = 202"
    by (simp_all add: file_block_def fs_machine_fields file17_def)
  show z: "file_size fs_machine 0 = 1500" "d_type (icache fs_machine ! 0) = T_FILE"
    by (simp_all add: fs_machine_fields file17_def)
  show "200 \<in> file_blocks fs_machine 0" using b z(1) by (auto simp: file_blocks_def intro!: exI[of _ 0])
  have "i_dev (icache fs_machine ! 0) = ROOTDEV" by (simp add: fs_machine_fields file17_def)
  then show "mapped_file fs_machine 0"
    using b unfolding mapped_file_def z k by (auto simp: fs_machine_home)
qed

lemma readi_content_witness:
  "(\<exists>t. readi fs_env 0 4096 1400 200 fs_machine = Inr (100, t)) \<and> (\<exists>t. readi fs_env 0 4096 1501 1 fs_machine = Inr (-1, t))"
  using readi_content[OF fs_machine_txn[of 0] fs_machine_fields(3) fs_machine_file(1), of 1400 200 4096]
    readi_content[OF fs_machine_txn[of 0] fs_machine_fields(3) fs_machine_file(1), of 1501 1 4096]
    fs_machine_file(2,3)
  by (auto simp: fs_machine_fields file17_def)

lemma writei_readi_witness:
  "\<exists>t. writei fs_env 0 4096 500 600 fs_machine = Inr (600, t) \<and> length (content t 0) = 1500
     \<and> take 600 (drop 500 (content t 0)) = load_bytes (mem fs_machine) 4096 600"
proof -
  have "in_txn (turns (unat (500 :: uint)) (unat (600 :: uint)) + 0) fs_machine"
    using fs_machine_txn[of 3] by (simp add: turns_def)
  from writei_readi[OF this fs_machine_fields(3) fs_machine_file(1), of 4096] obtain t where
    "writei fs_env 0 4096 500 600 fs_machine = Inr (600, t)"
    "content t 0 = blit (content fs_machine 0) 500 (load_bytes (mem fs_machine) 4096 600)"
    using fs_machine_file(2,3) by auto
  moreover have "length (load_bytes (mem fs_machine) 4096 600) = 600" by (simp add: load_bytes_def)
  ultimately show ?thesis
    using blit_read[of 500 "load_bytes (mem fs_machine) 4096 600" "content fs_machine 0"] fs_machine_file(2)
    by (intro exI[of _ t] conjI) (simp_all add: length_blit del: length_content, simp_all)
qed

end
