(* ===== verification/Room.thy ===== *)
theory Room
  imports Content
begin

text \<open>
  Room in a transaction, counted by the blocks it will write: a block that is written again
  does not need another entry of the log. The steps here also run while one buffer is held, as the
  indirect block is while \<open>bmap\<close> allocates.
\<close>

section \<open>Room\<close>

text \<open>The log has room for the blocks of \<open>B\<close> and for \<open>k\<close> blocks more.\<close>

definition room :: "uint set \<Rightarrow> nat \<Rightarrow> 'a logst_scheme \<Rightarrow> bool" where
  "room B k s \<longleftrightarrow> storage_inv s \<and> 1 \<le> lg_outstanding s \<and> card (locked_bufs s) \<le> 1
     \<and> int (card (set (logged s) \<union> B)) + int k < lg_size s - 1"

text \<open>A held buffer that can be given back: its contents are pinned or are those of the disk.\<close>

definition returnable :: "'a logst_scheme \<Rightarrow> nat \<Rightarrow> uint \<Rightarrow> block \<Rightarrow> bool" where
  "returnable s i n d \<longleftrightarrow> owns s i n d \<and> (b_dirty (bufs s i) \<or> d = memdisk s n)"

lemma device_untouched: "mem.same s t \<Longrightarrow> untouched s t"
  by (simp add: device_same_def untouched_def)

text \<open>The buffers that are held in \<open>s\<close> are held in \<open>t\<close>, with the same contents.\<close>

definition stays :: "'a logst_scheme \<Rightarrow> 'a logst_scheme \<Rightarrow> bool" where
  "stays s t \<longleftrightarrow> locked_bufs t = locked_bufs s \<and> (\<forall>j m d. owns s j m d \<longrightarrow> owns t j m d)
     \<and> (\<forall>j m d. returnable s j m d \<longrightarrow> returnable t j m d) \<and> home t = home s \<and> logst.more t = logst.more s
     \<and> untouched s t"

lemma stays_refl [simp]: "stays s s"
  by (simp add: stays_def)

lemma stays_trans [trans]: "stays s t \<Longrightarrow> stays t u \<Longrightarrow> stays s u"
  by (simp add: stays_def untouched_def)

lemma room_facts:
  assumes "room B k s"
  shows "card (dirty_blocks s) + card (locked_bufs s) < NBUF" "lh_n s < lg_size s - 1" "1 \<le> lg_outstanding s"
    "storage_inv s"
proof -
  have g: "log_geom (mem_present s) s" and t: "txn_ok (mem_present s) s" and p: "pinned s"
    using assms by (simp_all add: room_def log_inv_def)
  have "card (set (logged s)) \<le> card (set (logged s) \<union> B)" by (intro card_mono) simp_all
  then have c: "int (card (set (logged s))) < lg_size s - 1" using assms by (simp add: room_def)
  have "int (length (logged s)) = lh_n s" using length_logged[OF g t] t by (simp add: txn_ok_def)
  moreover have "card (set (logged s)) = length (logged s)" using p by (simp add: pinned_def distinct_card)
  ultimately show "lh_n s < lg_size s - 1" using c by simp
  have "lg_size s \<le> int LOGSIZE" "card (locked_bufs s) \<le> 1" "dirty_blocks s = set (logged s)"
    using g p assms by (simp_all add: log_geom_def pinned_def room_def)
  then show "card (dirty_blocks s) + card (locked_bufs s) < NBUF" using c by simp
qed (use assms in \<open>simp_all add: room_def\<close>)

lemma room_mono: "room B k s \<Longrightarrow> A \<subseteq> B \<Longrightarrow> j \<le> k \<Longrightarrow> room A j s"
proof -
  assume a: "room B k s" "A \<subseteq> B" "j \<le> k"
  have "card (set (logged s) \<union> A) \<le> card (set (logged s) \<union> B)" using a(2) by (intro card_mono) auto
  then show ?thesis using a(1,3) by (simp add: room_def)
qed

text \<open>One of the spare blocks becomes a known one.\<close>

lemma room_insert: "room B (Suc k) s \<Longrightarrow> room (insert n B) k s"
proof -
  assume a: "room B (Suc k) s"
  have "card (set (logged s) \<union> insert n B) \<le> Suc (card (set (logged s) \<union> B))" by (simp add: card_insert_if)
  then show ?thesis using a by (simp add: room_def)
qed

text \<open>A transaction with room in the sense of theory \<open>Fs_Txn\<close>.\<close>

lemma in_txn_room:
  assumes "in_txn n s" "card B + k < n"
  shows "room B k s" "locked_bufs s = {}"
proof -
  have "card (set (logged s) \<union> B) \<le> card (set (logged s)) + card B" by (rule card_Un_le)
  moreover have "card (set (logged s)) \<le> length (logged s)" by (rule card_length)
  ultimately show "room B k s" using assms txn_room(2)[OF assms(1)] by (simp add: in_txn_def room_def)
  show "locked_bufs s = {}" using assms(1) by (simp add: in_txn_def)
qed

lemma room_in_txn:
  assumes "room B k s" "locked_bufs s = {}"
  shows "in_txn (Suc k) s"
proof -
  have g: "log_geom (mem_present s) s" and t: "txn_ok (mem_present s) s" and p: "pinned s"
    using assms by (simp_all add: room_def log_inv_def)
  have "card (set (logged s)) \<le> card (set (logged s) \<union> B)" by (intro card_mono) simp_all
  moreover have "int (length (logged s)) = lh_n s" using length_logged[OF g t] t by (simp add: txn_ok_def)
  moreover have "card (set (logged s)) = length (logged s)" using p by (simp add: pinned_def distinct_card)
  ultimately show ?thesis using assms by (simp add: in_txn_def room_def)
qed

lemma room_same:
  assumes "room B k s" "storage_inv t" "logged t = logged s" "lg_outstanding t = lg_outstanding s" "lg_size t = lg_size s"
    "card (locked_bufs t) \<le> 1"
  shows "room B k t"
  using assms by (simp add: room_def)

lemma room_log_add:
  assumes "room B k s" "n \<in> B" "storage_inv t" "logged t = log_add n (logged s)" "lg_outstanding t = lg_outstanding s"
    "lg_size t = lg_size s" "card (locked_bufs t) \<le> 1"
  shows "room B k t"
proof -
  have "set (logged t) \<union> B = set (logged s) \<union> B" using assms(2,4) by (auto simp: log_add_def)
  then show ?thesis using assms by (simp add: room_def)
qed

section \<open>Steps\<close>

lemma home_same:
  assumes "mem_present t = mem_present s" "lg_start t = lg_start s" "lg_size t = lg_size s"
  shows "home t = home s"
  using assms by (simp add: home_def fun_eq_iff)

lemma owns_stay:
  assumes "others_same i s t" "i \<notin> locked_bufs s" "locked_bufs t = locked_bufs s" "owns s j m d"
  shows "owns t j m d"
proof -
  have "j \<in> locked_bufs s" using assms(4) by (simp add: owns_def)
  then have "j \<noteq> i" using assms(2) by auto
  then show ?thesis using owns_others[OF assms(1), of j m d] assms(4) by blast
qed

lemma returnable_stay:
  assumes "others_same i s t" "i \<notin> locked_bufs s" "locked_bufs t = locked_bufs s" "memdisk t = memdisk s" "returnable s j m d"
  shows "returnable t j m d"
proof -
  have o: "owns s j m d" using assms(5) by (simp add: returnable_def)
  then have "j \<in> locked_bufs s" "j \<noteq> i" using assms(2) by (auto simp: owns_def)
  then have "b_flags (bufs t j) = b_flags (bufs s j)" using others_sameD(1)[OF assms(1), of j] by (simp add: locked_bufs_def)
  then show ?thesis using assms(4,5) owns_stay[OF assms(1-3) o] by (simp add: returnable_def b_dirty_def)
qed

text \<open>A block is read and given back, also while another one is held.\<close>

lemma room_look:
  assumes r: "room B k s" and n: "home s n" "\<And>j. j \<in> locked_bufs s \<Longrightarrow> b_blockno (bufs s j) \<noteq> n"
  obtains i t v where "bread iderw ROOTDEV n s = Inr (i, t)" "b_data (bufs t i) = disk_view s n" "brelse i t = Inr v"
    "room B k v" "stays s v" "disk_view v = disk_view s" "logst.more t = logst.more s"
proof -
  note F = room_facts[OF r]
  obtain i t where T: "bread iderw ROOTDEV n s = Inr (i, t)" "storage_inv t" "mem.same s t" "i \<notin> locked_bufs s"
    "locked_bufs t = insert i (locked_bufs s)" "owns t i n (disk_view s n)" "others_same i s t" "disk_view t = disk_view s"
    "b_dirty (bufs t i) \<or> disk_view s n = memdisk s n"
    by (rule dl.fetch_inv[OF F(4), of n]) (use n F(1) in \<open>auto simp: home_def\<close>)
  have mt: "diskst.more t = diskst.more s" "mem_present t = mem_present s" "memdisk t = memdisk s"
    using T(3) by (simp_all add: device_same_def)
  obtain v where V: "brelse i t = Inr v" "storage_inv v" "mem.same t v" "locked_bufs v = locked_bufs t - {i}"
    "disk_view v = disk_view t" "others_same i t v"
    by (rule dl.return_held[OF T(2,6)]) (use T(9) mt in simp_all)
  have mv: "diskst.more v = diskst.more s" "mem_present v = mem_present s" "memdisk v = memdisk s"
    using V(3) mt by (simp_all add: device_same_def)
  note lm = log_more_same[OF mv(1)]
  have l: "locked_bufs v = locked_bufs s" using V(4) T(4,5) by simp
  have "logged v = logged s" using lm by (simp add: logged_def)
  then have "room B k v" by (rule room_same[OF r V(2)]) (use lm l r in \<open>simp_all add: room_def\<close>)
  moreover have o: "others_same i s v" by (rule others_same_trans[OF T(7) V(6)])
  have "stays s v"
    using owns_stay[OF o T(4) l] returnable_stay[OF o T(4) l mv(3)] home_same[OF mv(2) lm(1,2)] l lm(8)
      untouched_trans[OF device_untouched[OF T(3)] device_untouched[OF V(3)]] by (simp add: stays_def)
  ultimately show thesis using that[OF T(1) _ V(1)] T(6,8) V(5) log_more_same(8)[OF mt(1)] by (simp add: owns_def)
qed

text \<open>A block of \<open>B\<close> is written.\<close>

lemma room_update:
  assumes r: "room B k s" and n: "home s n" "n \<in> B" "\<And>j. j \<in> locked_bufs s \<Longrightarrow> b_blockno (bufs s j) \<noteq> n"
    and e: "length e = BSIZE"
  obtains i t u v where "bread iderw ROOTDEV n s = Inr (i, t)" "b_data (bufs t i) = disk_view s n"
    "log_write i (set_data i e t) = Inr u" "brelse i u = Inr v" "room B k v" "stays s v"
    "disk_view v = (disk_view s)(n := e)" "logst.more t = logst.more s"
proof -
  note F = room_facts[OF r]
  have h: "mem_present s ROOTDEV n" "n \<notin> log_blocks s" using n(1) by (simp_all add: home_def)
  obtain i t u v where U: "bread iderw ROOTDEV n s = Inr (i, t)" "b_data (bufs t i) = disk_view s n"
    "log_write i (set_data i e t) = Inr u" "brelse i u = Inr v" "storage_inv v" "locked_bufs v = locked_bufs s"
    "disk_view v = (disk_view s)(n := e)" "mem_present v = mem_present s"
    "logged v = log_add n (logged s)" "lg_outstanding v = lg_outstanding s" "lg_start v = lg_start s" "lg_size v = lg_size s"
    "logst.more v = logst.more s" "logst.more t = logst.more s" "i \<notin> locked_bufs s" "others_same i s v" "memdisk v = memdisk s" "writes v = writes s"
    by (rule dl.update_block[OF F(4) h n(3) _ F(3,2) e]) (use F(1) in auto)
  have "room B k v" by (rule room_log_add[OF r n(2) U(5,9,10,12)]) (use r U(6) in \<open>simp add: room_def\<close>)
  moreover have "stays s v"
    using owns_stay[OF U(16,15,6)] returnable_stay[OF U(16,15,6,17)] home_same[OF U(8,11,12)] U(6,13,17,18)
    by (simp add: stays_def untouched_def)
  ultimately show thesis using that U(1-4,7,14) by blast
qed

text \<open>A block is taken and held.\<close>

lemma room_take:
  assumes r: "room B k s" and l: "locked_bufs s = {}" and n: "home s n"
  obtains i t where "bread iderw ROOTDEV n s = Inr (i, t)" "room B k t" "locked_bufs t = {i}"
    "owns t i n (disk_view s n)" "disk_view t = disk_view s" "home t = home s" "logst.more t = logst.more s"
    "b_dirty (bufs t i) \<or> disk_view s n = memdisk t n" "untouched s t"
proof -
  note F = room_facts[OF r]
  obtain i t where T: "bread iderw ROOTDEV n s = Inr (i, t)" "storage_inv t" "mem.same s t"
    "locked_bufs t = insert i (locked_bufs s)" "owns t i n (disk_view s n)" "disk_view t = disk_view s"
    "b_dirty (bufs t i) \<or> disk_view s n = memdisk s n"
    by (rule dl.fetch_inv[OF F(4), of n]) (use n l F(1) in \<open>auto simp: home_def\<close>)
  have m: "diskst.more t = diskst.more s" "mem_present t = mem_present s" "memdisk t = memdisk s"
    using T(3) by (simp_all add: device_same_def)
  note lm = log_more_same[OF m(1)]
  have "logged t = logged s" using lm by (simp add: logged_def)
  then have "room B k t" by (rule room_same[OF r T(2)]) (use lm T(4) l in simp_all)
  moreover have "home t = home s" by (rule home_same[OF m(2) lm(1,2)])
  ultimately show thesis using that[OF T(1)] T l lm(8) m(3) device_untouched[OF T(3)] by simp
qed

text \<open>The held block is written and given back, or only given back.\<close>

lemma room_store:
  assumes r: "room B k s" and l: "locked_bufs s = {i}" and o: "owns s i n d" "n \<in> B" "home s n" and e: "length e = BSIZE"
  obtains u v where "log_write i (set_data i e s) = Inr u" "brelse i u = Inr v" "room B k v" "locked_bufs v = {}"
    "disk_view v = (disk_view s)(n := e)" "home v = home s" "logst.more v = logst.more s" "untouched s v"
proof -
  note F = room_facts[OF r]
  have h: "n \<notin> log_blocks s" using o(3) by (simp add: home_def)
  obtain u v where U: "log_write i (set_data i e s) = Inr u" "brelse i u = Inr v"
    "storage_inv v" "locked_bufs v = locked_bufs s - {i}" "disk_view v = (disk_view s)(n := e)"
    "mem_present v = mem_present s" "logged v = log_add n (logged s)" "lg_outstanding v = lg_outstanding s"
    "lg_start v = lg_start s" "lg_size v = lg_size s" "logst.more v = logst.more s" "memdisk v = memdisk s" "writes v = writes s"
    by (rule dl.store_held[OF F(4) o(1) h F(3,2) e])
  have "room B k v" by (rule room_log_add[OF r o(2) U(3,7,8,10)]) (use U(4) l in simp)
  moreover have "home v = home s" by (rule home_same[OF U(6,9,10)])
  ultimately show thesis using that[OF U(1,2)] U(4,5,11-13) l by (simp add: untouched_def)
qed

lemma room_return:
  assumes r: "room B k s" and l: "locked_bufs s = {i}" and o: "owns s i n d" "b_dirty (bufs s i) \<or> d = memdisk s n"
  obtains v where "brelse i s = Inr v" "room B k v" "locked_bufs v = {}" "disk_view v = disk_view s" "home v = home s"
    "logst.more v = logst.more s" "untouched s v"
proof -
  note F = room_facts[OF r]
  obtain v where V: "brelse i s = Inr v" "storage_inv v" "mem.same s v" "locked_bufs v = locked_bufs s - {i}"
    "disk_view v = disk_view s"
    by (rule dl.return_held[OF F(4) o])
  have m: "diskst.more v = diskst.more s" "mem_present v = mem_present s" using V(3) by (simp_all add: device_same_def)
  note lm = log_more_same[OF m(1)]
  have "logged v = logged s" using lm by (simp add: logged_def)
  then have "room B k v" by (rule room_same[OF r V(2)]) (use lm V(4) l in simp_all)
  moreover have "home v = home s" by (rule home_same[OF m(2) lm(1,2)])
  ultimately show thesis using that[OF V(1)] V(4,5) l lm(8) device_untouched[OF V(3)] by simp
qed

end
