(* ===== verification/Alloc.thy ===== *)
theory Alloc
  imports Room
begin

text \<open>
  The free map, and the allocation of a block while a transaction has room for it, also while the
  indirect block of a file is held.
\<close>

section \<open>The free map\<close>

abbreviation bitmap :: "'a fsst_scheme \<Rightarrow> uint" where
  "bitmap s \<equiv> BBLOCK 0 (fs_sb s)"

definition used :: "'a fsst_scheme \<Rightarrow> uint \<Rightarrow> bool" where
  "used s n \<longleftrightarrow> bit_used (unat n) (disk_view s (bitmap s))"

definition free_blocks :: "'a fsst_scheme \<Rightarrow> uint set" where
  "free_blocks s = {n. n < sb_size (fs_sb s) \<and> \<not> used s n}"

text \<open>
  The free map is one block; it marks itself and block 0, whose number stands for no block, and
  the blocks it has free exist and are not in the log.
\<close>

definition free_map :: "'a fsst_scheme \<Rightarrow> bool" where
  "free_map s \<longleftrightarrow> home s (bitmap s) \<and> sb_size (fs_sb s) \<le> BPB \<and> used s 0 \<and> used s (bitmap s)
     \<and> (\<forall>n\<in>free_blocks s. home s n)"

lemma bzero_room:
  assumes "room B k s" "home s n" "n \<in> B" "\<And>j. j \<in> locked_bufs s \<Longrightarrow> b_blockno (bufs s j) \<noteq> n" "k_rw E = iderw"
  obtains v where "bzero E ROOTDEV n s = Inr v" "room B k v" "stays s v"
    "disk_view v = (disk_view s)(n := replicate BSIZE 0)"
proof -
  obtain i t u v where U: "bread iderw ROOTDEV n s = Inr (i, t)"
    "log_write i (set_data i (replicate BSIZE 0) t) = Inr u" "brelse i u = Inr v" "room B k v" "stays s v"
    "disk_view v = (disk_view s)(n := replicate BSIZE 0)"
    by (rule room_update[OF assms(1-4), of "replicate BSIZE 0"]) auto
  show thesis by (rule that[OF _ U(4-6)]) (simp add: bzero_def assms(5) U(1-3))
qed

lemma free_mapD:
  assumes "free_map s" "n \<in> free_blocks s"
  shows "home s n" "n \<noteq> bitmap s" "n \<noteq> 0" "unat n < unat BPB"
  using assms by (auto simp: free_map_def free_blocks_def word_less_nat_alt word_le_nat_alt)

lemma staysD:
  assumes "stays s t"
  shows "locked_bufs t = locked_bufs s" "home t = home s" "logst.more t = logst.more s"
    "icache t = icache s" "fs_sb t = fs_sb s" "untouched s t"
  using assms fs_more[of t s] by (auto simp: stays_def)

lemma locked_blockno:
  assumes "stays s t" "j \<in> locked_bufs s" "b_dev (bufs s j) = ROOTDEV"
  shows "b_blockno (bufs t j) = b_blockno (bufs s j)"
proof -
  have "owns s j (b_blockno (bufs s j)) (b_data (bufs s j))" using assms(2,3) by (simp add: owns_def)
  then have "owns t j (b_blockno (bufs s j)) (b_data (bufs s j))" using assms(1) by (simp add: stays_def)
  then show ?thesis by (simp add: owns_def)
qed

text \<open>\<open>balloc\<close> with a free block, also while a buffer of a used block is held.\<close>

lemma balloc_room:
  fixes s :: "'a fsst_scheme"
  assumes r: "room B (Suc k) s" and f: "free_map s" "free_blocks s \<noteq> {}" and b: "bitmap s \<in> B" and E: "k_rw E = iderw"
    and l: "\<And>j. j \<in> locked_bufs s \<Longrightarrow> b_dev (bufs s j) = ROOTDEV \<and> b_blockno (bufs s j) \<noteq> bitmap s \<and> b_blockno (bufs s j) \<notin> free_blocks s"
  obtains n t where "balloc E ROOTDEV s = Inr (n, t)" "n \<in> free_blocks s" "room (insert n B) k t" "stays s t"
    "disk_view t = (disk_view s)(bitmap s := set_bit_used (unat n) (disk_view s (bitmap s)), n := replicate BSIZE 0)"
    "free_map t" "free_blocks t = free_blocks s - {n}" "\<And>m. used t m \<longleftrightarrow> used s m \<or> m = n"
proof -
  let ?z = "sb_size (fs_sb s)" and ?m = "bitmap s"
  let ?d = "disk_view s ?m"
  have hm: "home s ?m" and z: "?z \<le> BPB" using f(1) by (simp_all add: free_map_def)
  obtain n0 where n0: "n0 < ?z" "\<not> bit_used (unat n0) ?d" using f(2) by (auto simp: free_blocks_def used_def)
  then have z0: "0 < ?z" using word_neq_0_conv by fastforce
  have mm: "min (unat BPB) (unat (?z - 0)) = unat ?z" using z by (simp add: word_le_nat_alt)
  obtain j where F: "find (\<lambda>bi. \<not> bit_used bi ?d) [0..<unat ?z] = Some j"
    using n0 find_upt_iff(1)[of "\<lambda>bi. \<not> bit_used bi ?d" "unat ?z"] by (auto simp: word_less_nat_alt)
  then have j: "j < unat ?z" "\<not> bit_used j ?d" by (simp_all add: find_upt_iff)
  define n :: uint where "n = of_nat j"
  have n: "unat n = j" "n < ?z" using j(1) by (simp_all add: n_def unat_below word_less_nat_alt)
  then have fn: "n \<in> free_blocks s" using j(2) by (simp add: free_blocks_def used_def)
  note D = free_mapD[OF f(1) fn]
  have len: "length ?d = BSIZE"
    by (rule view_length) (use r hm in \<open>auto simp: room_def home_def log_inv_def cache_ok_def dest: mem.disk_length\<close>)
  note S = set_bit_used[OF len D(4)]
  obtain i t u v where U: "bread iderw ROOTDEV ?m s = Inr (i, t)" "b_data (bufs t i) = ?d"
    "log_write i (set_data i (set_bit_used j ?d) t) = Inr u" "brelse i u = Inr v" "room B (Suc k) v" "stays s v"
    "disk_view v = (disk_view s)(?m := set_bit_used j ?d)" "logst.more t = logst.more s"
    by (rule room_update[OF r hm b _ S(1)[unfolded n(1)]]) (use l in auto)
  note sv = staysD[OF U(6)] and ft = fs_more[OF U(8)]
  have lv: "b_blockno (bufs v k) \<noteq> n" if "k \<in> locked_bufs v" for k
    using that l[of k] locked_blockno[OF U(6)] sv(1) fn by auto
  have hn: "home v n" using D(1) sv(2) by simp
  obtain w where W: "bzero E ROOTDEV n v = Inr w" "room (insert n B) k w" "stays v w"
    "disk_view w = (disk_view v)(n := replicate BSIZE 0)"
    by (rule bzero_room[OF room_insert[OF U(5)] hn _ lv E]) auto
  have st: "stays s w" by (rule stays_trans[OF U(6) W(3)])
  note sw = staysD[OF st]
  have e: "balloc E ROOTDEV s = Inr (n, w)"
    using U(1-4) W(1) F z0 E ft mm by (simp add: balloc_unfold n_def)
  have uw: "used w m \<longleftrightarrow> used s m \<or> m = n" for m
    using D(2) S(2)[of "unat m"] by (simp add: used_def W(4) U(7) sw(5) n(1)) (simp add: word_unat_eq_iff n(1))
  have fw: "free_blocks w = free_blocks s - {n}" by (auto simp: free_blocks_def sw(5) uw)
  have "free_map w" using f(1) by (auto simp: free_map_def sw(2,5) uw fw)
  then show thesis using that[OF e fn W(2) st _ _ fw uw] by (simp add: W(4) U(7) n(1))
qed

end
