(* ===== verification/Block_List.thy ===== *)
theory Block_List
  imports Alloc
begin

text \<open>
  The block list of a file as \<open>bmap\<close> extends it: a direct block, the first block behind the
  indirect block, and the following ones.
\<close>

section \<open>Changes of a cached inode\<close>

lemma upd_inode_core [simp]:
  "icache (upd_inode ip f s) = (icache s)[ip := f (icache s ! ip)]" "fs_sb (upd_inode ip f s) = fs_sb s"
  "view d (upd_inode ip f s) = view d s" "locked_bufs (upd_inode ip f s) = locked_bufs s"
  "bufs (upd_inode ip f s) = bufs s" "memdisk (upd_inode ip f s) = memdisk s"
  by (simp_all add: upd_inode_def view_def caches_def locked_bufs_def fun_eq_iff split: option.split)

lemma upd_inode_inv [simp]: "storage_inv (upd_inode ip f s) = storage_inv s"
  by (simp add: upd_inode_def log_inv_def cache_ok_def log_geom_def txn_ok_def pinned_def logged_def
      dirty_blocks_def mem_present_def mem_ready_def has_proc_def binv_def blist_def keys_ok_def buf_ok_def cong: conj_cong)

lemma upd_inode_room [simp]:
  "home (upd_inode ip f s) = home s" "room B k (upd_inode ip f s) = room B k s" "free_map (upd_inode ip f s) = free_map s"
  "free_blocks (upd_inode ip f s) = free_blocks s" "used (upd_inode ip f s) = used s"
proof -
  have "log_blocks (upd_inode ip f s) = log_blocks s" "logged (upd_inode ip f s) = logged s"
    "lg_size (upd_inode ip f s) = lg_size s" "lg_outstanding (upd_inode ip f s) = lg_outstanding s"
    "mem_present (upd_inode ip f s) = mem_present s"
    by (simp_all add: upd_inode_def logged_def mem_present_def fun_eq_iff)
  then show h: "home (upd_inode ip f s) = home s" "room B k (upd_inode ip f s) = room B k s"
    by (simp_all add: home_def room_def fun_eq_iff)
  show u: "used (upd_inode ip f s) = used s" "free_blocks (upd_inode ip f s) = free_blocks s"
    by (simp_all add: used_def free_blocks_def fun_eq_iff)
  show "free_map (upd_inode ip f s) = free_map s" by (simp add: free_map_def h u)
qed

lemma in_txn_upd_inode [simp]: "in_txn k (upd_inode ip f s) = in_txn k s"
  by (simp add: in_txn_def) (simp add: upd_inode_def)

text \<open>Waking the processes that wait for a lock changes nothing of the storage.\<close>

lemma wakeup_view [simp]:
  "view d (wakeup1 c s) = view d s" "locked_bufs (wakeup1 c s) = locked_bufs s" "home (wakeup1 c u) = home u"
  "memdisk (wakeup1 c t) = memdisk t"
  by (simp_all add: wakeup1_def view_def caches_def locked_bufs_def home_def mem_present_def fun_eq_iff split: option.split)

lemma wakeup_fs [simp]: "icache (wakeup1 c s) = icache s" "fs_sb (wakeup1 c s) = fs_sb s"
  by (simp_all add: wakeup1_def)

lemma wakeup_storage [simp]: "storage_inv (wakeup1 c s) = storage_inv s"
proof -
  have p: "has_proc (s\<lparr>ptable := map (wake_proc c) (ptable s)\<rparr>) = has_proc s" by (simp add: has_proc_def)
  show ?thesis
    by (simp add: wakeup1_def p log_inv_def cache_ok_def log_geom_def txn_ok_def pinned_def logged_def dirty_blocks_def
        mem_present_def mem_ready_def binv_def blist_def keys_ok_def buf_ok_def cong: conj_cong)
qed

lemma in_txn_wakeup [simp]: "in_txn k (wakeup1 c s) = in_txn k s"
  by (simp add: in_txn_def) (simp add: wakeup1_def)

lemma in_txn_held: "in_txn k s \<Longrightarrow> held s = {}" "in_txn k s \<Longrightarrow> has_proc s"
  by (simp_all add: in_txn_def log_inv_def cache_ok_def)

lemma free_map_same:
  assumes "disk_view t = disk_view s" "home t = home s" "fs_sb t = fs_sb s"
  shows "used t = used s" "free_blocks t = free_blocks s" "free_map t = free_map s"
proof -
  show u: "used t = used s" "free_blocks t = free_blocks s" using assms by (simp_all add: used_def free_blocks_def fun_eq_iff)
  show "free_map t = free_map s" using assms u by (simp add: free_map_def)
qed

section \<open>An allocation\<close>

text \<open>Between \<open>s\<close> and \<open>t\<close> block \<open>n\<close> was taken, and outside it, the free map and \<open>X\<close> nothing changed.\<close>

definition took :: "uint \<Rightarrow> uint set \<Rightarrow> 'a fsst_scheme \<Rightarrow> 'a fsst_scheme \<Rightarrow> bool" where
  "took n X s t \<longleftrightarrow> n \<in> free_blocks s \<and> free_map t \<and> free_blocks t = free_blocks s - {n} \<and> (\<forall>m. used t m \<longleftrightarrow> used s m \<or> m = n)
     \<and> home t = home s \<and> fs_sb t = fs_sb s \<and> untouched s t \<and> disk_view t n = replicate BSIZE 0
     \<and> (\<forall>b. b \<noteq> n \<longrightarrow> b \<noteq> bitmap s \<longrightarrow> b \<notin> X \<longrightarrow> disk_view t b = disk_view s b)"

lemma untouched_upd_inode [simp]: "untouched s (upd_inode ip f t) = untouched s t" "untouched (upd_inode ip f s) t = untouched s t"
  by (simp_all add: untouched_def upd_inode_def)

lemma took_upd_inode [simp]: "took n X s (upd_inode ip f t) = took n X s t"
  by (simp add: took_def)

lemma balloc_took:
  assumes r: "room B (Suc k) s" "locked_bufs s = {}" and f: "free_map s" "free_blocks s \<noteq> {}" "bitmap s \<in> B" "k_rw E = iderw"
  obtains n t where "balloc E ROOTDEV s = Inr (n, t)" "took n {} s t" "room (insert n B) k t" "locked_bufs t = {}"
    "icache t = icache s"
proof -
  obtain n t where T: "balloc E ROOTDEV s = Inr (n, t)" "n \<in> free_blocks s" "room (insert n B) k t" "stays s t"
    "disk_view t = (disk_view s)(bitmap s := set_bit_used (unat n) (disk_view s (bitmap s)), n := replicate BSIZE 0)"
    "free_map t" "free_blocks t = free_blocks s - {n}" "\<And>m. used t m \<longleftrightarrow> used s m \<or> m = n"
    by (rule balloc_room[OF r(1) f(1-4)]) (use r(2) in simp_all)
  note st = staysD[OF T(4)]
  have "took n {} s t" using T st by (simp add: took_def)
  then show thesis using that T st r(2) by simp
qed

text \<open>Entry \<open>k\<close> of the indirect block is filled, which is held meanwhile.\<close>

lemma entry_took:
  assumes r: "room B (Suc j) s" "locked_bufs s = {}" and f: "free_map s" "free_blocks s \<noteq> {}" "bitmap s \<in> B" and E: "k_rw E = iderw"
    and i: "home s ind" "used s ind" "ind \<noteq> bitmap s" "ind \<in> B" "k < NINDIRECT" "field32 k (disk_view s ind) = 0"
  obtains bp t n u v w where "bread iderw ROOTDEV ind s = Inr (bp, t)" "b_data (bufs t bp) = disk_view s ind"
    "balloc E ROOTDEV t = Inr (n, u)" "b_data (bufs u bp) = disk_view s ind"
    "log_write bp (set_data bp (put32 k n (disk_view s ind)) u) = Inr v" "brelse bp v = Inr w"
    "took n {ind} s w" "disk_view w ind = put32 k n (disk_view s ind)" "room (insert n B) j w" "locked_bufs w = {}"
    "icache w = icache s" "length (disk_view s ind) = BSIZE"
proof -
  have len: "length (disk_view s ind) = BSIZE"
    by (rule view_length) (use r i(1) in \<open>auto simp: room_def home_def log_inv_def cache_ok_def dest: mem.disk_length\<close>)
  obtain bp t where T: "bread iderw ROOTDEV ind s = Inr (bp, t)" "room B (Suc j) t" "locked_bufs t = {bp}"
    "owns t bp ind (disk_view s ind)" "disk_view t = disk_view s" "home t = home s" "logst.more t = logst.more s" "untouched s t"
    by (rule room_take[OF r i(1)])
  note ft = fs_more[OF T(7)]
  note ms = free_map_same[OF T(5,6) ft(2)]
  obtain n u where U: "balloc E ROOTDEV t = Inr (n, u)" "n \<in> free_blocks t" "room (insert n B) j u" "stays t u"
    "disk_view u = (disk_view t)(bitmap t := set_bit_used (unat n) (disk_view t (bitmap t)), n := replicate BSIZE 0)"
    "free_map u" "free_blocks u = free_blocks t - {n}" "\<And>m. used u m \<longleftrightarrow> used t m \<or> m = n"
    by (rule balloc_room[OF T(2), of E]) (use f i(2,3) E T(3,4) ms ft in \<open>auto simp: owns_def free_blocks_def\<close>)
  note su = staysD[OF U(4)]
  have o: "owns u bp ind (disk_view s ind)" using U(4) T(4) by (simp add: stays_def)
  have lu: "locked_bufs u = {bp}" "home u ind" using su T(3,6) i(1) by simp_all
  have ni: "ind \<noteq> n" using U(2) i(2) ms by (auto simp: free_blocks_def)
  obtain v w where W: "log_write bp (set_data bp (put32 k n (disk_view s ind)) u) = Inr v" "brelse bp v = Inr w"
    "room (insert n B) j w" "locked_bufs w = {}" "disk_view w = (disk_view u)(ind := put32 k n (disk_view s ind))"
    "home w = home u" "logst.more w = logst.more u" "untouched u w"
    by (rule room_store[OF U(3) lu(1) o _ lu(2), where e = "put32 k n (disk_view s ind)"]) (use i(4,5) len in auto)
  note fw = fs_more[OF W(7)]
  have bw: "bitmap w = bitmap s" using fw su ft by simp
  have us: "used w m \<longleftrightarrow> used s m \<or> m = n" for m
    using U(8)[of m] i(3) fw(2) su ft ms by (simp add: used_def W(5))
  have fb: "free_blocks w = free_blocks s - {n}" using fw su ft by (auto simp: free_blocks_def us)
  have "free_map w" using f(1) W(6) su T(6) bw fw(2) ft(2) by (auto simp: free_map_def us fb)
  moreover have "untouched s w" by (rule untouched_trans[OF untouched_trans[OF T(8) su(6)] W(8)])
  ultimately have "took n {ind} s w"
    using U(2,5) W(5,6) T(5,6) us fb ni fw su ft ms by (auto simp: took_def)
  then show thesis
    using that[OF T(1) _ U(1) _ W(1,2) _ _ W(3,4)] T(4) o W(5) fw su ft len by (simp add: owns_def)
qed

section \<open>The block list\<close>

text \<open>The blocks of a file of \<open>K\<close> blocks, the indirect block first.\<close>

definition own :: "'a fsst_scheme \<Rightarrow> nat \<Rightarrow> nat \<Rightarrow> uint list" where
  "own s ip K = (if NDIRECT < K then [indirect s ip] else []) @ map (file_block s ip) [0..<K]"

text \<open>\<open>ip\<close> has exactly \<open>K\<close> blocks, no two the same, and all marked as used; the free entries are 0.\<close>

definition grown :: "'a fsst_scheme \<Rightarrow> nat \<Rightarrow> nat \<Rightarrow> bool" where
  "grown s ip K \<longleftrightarrow> ip < length (icache s) \<and> i_dev (icache s ! ip) = ROOTDEV
     \<and> length (d_addrs (icache s ! ip)) = NDIRECT + 1 \<and> K \<le> MAXFILE \<and> distinct (own s ip K)
     \<and> (\<forall>b\<in>set (own s ip K). home s b \<and> used s b \<and> b \<noteq> 0 \<and> b \<noteq> bitmap s)
     \<and> (\<forall>k. K \<le> k \<longrightarrow> k < (if K \<le> NDIRECT then NDIRECT else MAXFILE) \<longrightarrow> file_block s ip k = 0)
     \<and> (K \<le> NDIRECT \<longrightarrow> indirect s ip = 0)"

lemma set_own: "set (own s ip K) = (if NDIRECT < K then {indirect s ip} else {}) \<union> file_block s ip ` {0..<K}"
  by (simp add: own_def)

lemma own_Suc: "own s ip (Suc K) = (if K = NDIRECT then [indirect s ip] else []) @ own s ip K @ [file_block s ip K]"
  by (simp add: own_def)

lemma own_same:
  assumes "\<And>k. k < K \<Longrightarrow> file_block t ip k = file_block s ip k" "NDIRECT < K \<Longrightarrow> indirect t ip = indirect s ip"
  shows "own t ip K = own s ip K"
  using assms by (simp add: own_def)

lemma grown_block:
  assumes "grown s ip K" "k < K"
  shows "file_block s ip k \<in> set (own s ip K)" "home s (file_block s ip k)" "file_block s ip k \<noteq> 0"
    "file_block s ip k \<noteq> bitmap s"
  using assms by (auto simp: grown_def own_def)

lemma grown_indirect:
  assumes "grown s ip K" "NDIRECT < K"
  shows "indirect s ip \<in> set (own s ip K)" "home s (indirect s ip)" "used s (indirect s ip)" "indirect s ip \<noteq> 0"
    "indirect s ip \<noteq> bitmap s"
  using assms by (auto simp: grown_def own_def)

lemma grown_inj:
  assumes "grown s ip K" "k < K"
  shows "j < K \<Longrightarrow> file_block s ip j = file_block s ip k \<longleftrightarrow> j = k" "NDIRECT < K \<Longrightarrow> file_block s ip k \<noteq> indirect s ip"
proof -
  have "inj_on (file_block s ip) {0..<K}" using assms(1) by (simp add: grown_def own_def distinct_map)
  then show "j < K \<Longrightarrow> file_block s ip j = file_block s ip k \<longleftrightarrow> j = k" using assms(2) by (auto dest: inj_onD)
  show "file_block s ip k \<noteq> indirect s ip" if "NDIRECT < K"
  proof -
    have "indirect s ip \<notin> file_block s ip ` {0..<K}" using assms(1) that by (simp add: grown_def own_def)
    then show ?thesis using assms(2) by (metis atLeast0LessThan image_eqI lessThan_iff)
  qed
qed

text \<open>A block of the list is found.\<close>

lemma bmap_old:
  assumes "room B j s" "locked_bufs s = {}" "k_rw E = iderw" "grown s ip K" "unat bn < K"
  obtains v where "bmap E ip bn s = Inr (file_block s ip (unat bn), v)" "room B j v" "locked_bufs v = {}" "fs_same s v"
proof (cases "unat bn < NDIRECT")
  case True
  then have "bmap E ip bn s = Inr (file_block s ip (unat bn), s)"
    using grown_block(3)[OF assms(4,5)] by (simp add: bmap_def file_block_def word_less_nat_alt)
  then show ?thesis using that assms(1,2) by simp
next
  case False
  have lt: "unat bn < MAXFILE" using assms(4,5) by (simp add: grown_def)
  have K: "NDIRECT < K" using False assms(5) by simp
  have dev: "i_dev (icache s ! ip) = ROOTDEV" using assms(4) by (simp add: grown_def)
  have b: "unat (bn - of_nat NDIRECT) = unat bn - NDIRECT" using False by (simp add: unat_sub word_le_nat_alt)
  note I = grown_indirect[OF assms(4) K]
  obtain i t where T: "bread iderw ROOTDEV (indirect s ip) s = Inr (i, t)" "room B j t" "locked_bufs t = {i}"
    "owns t i (indirect s ip) (disk_view s (indirect s ip))" "disk_view t = disk_view s" "home t = home s"
    "logst.more t = logst.more s" "b_dirty (bufs t i) \<or> disk_view s (indirect s ip) = memdisk t (indirect s ip)" "untouched s t"
    by (rule room_take[OF assms(1,2) I(2)])
  obtain v where V: "brelse i t = Inr v" "room B j v" "locked_bufs v = {}" "disk_view v = disk_view t" "home v = home t"
    "logst.more v = logst.more t" "untouched t v"
    by (rule room_return[OF T(2-4,8)])
  have "b_data (bufs t i) = disk_view s (indirect s ip)" using T(4) by (simp add: owns_def)
  then have "bmap E ip bn s = Inr (file_block s ip (unat bn), v)"
    using False lt b dev I(4) T(1) V(1) grown_block(3)[OF assms(4,5)] assms(3)
    by (simp add: bmap_def file_block_def indirect_def word_less_nat_alt Let_def)
  then show ?thesis using that[of v] T V untouched_trans[OF T(9) V(7)] by (simp add: fs_same_def)
qed

section \<open>Growing\<close>

text \<open>The blocks that are allocated to get from \<open>K\<close> to \<open>L\<close> blocks.\<close>

definition need :: "nat \<Rightarrow> nat \<Rightarrow> nat" where
  "need K L = (L - K) + (if K \<le> NDIRECT \<and> NDIRECT < L then 1 else 0)"

lemma need_split: "K \<le> M \<Longrightarrow> M \<le> L \<Longrightarrow> need K L = need K M + need M L"
  by (simp add: need_def)

text \<open>From \<open>s\<close> to \<open>t\<close> the file grows from \<open>K\<close> to \<open>L\<close> blocks.\<close>

definition grows :: "nat \<Rightarrow> nat \<Rightarrow> 'a fsst_scheme \<Rightarrow> nat \<Rightarrow> 'a fsst_scheme \<Rightarrow> bool" where
  "grows ip K s L t \<longleftrightarrow> K \<le> L \<and> grown t ip L \<and> home t = home s \<and> fs_sb t = fs_sb s \<and> untouched s t
     \<and> (\<exists>a. icache t = (icache s)[ip := (icache s ! ip)\<lparr>d_addrs := a\<rparr>])
     \<and> free_map t \<and> free_blocks t \<subseteq> free_blocks s \<and> card (free_blocks s) \<le> card (free_blocks t) + need K L
     \<and> (\<forall>k<K. file_block t ip k = file_block s ip k) \<and> (NDIRECT < K \<longrightarrow> indirect t ip = indirect s ip)
     \<and> (\<forall>m. used s m \<longrightarrow> used t m)
     \<and> set (own t ip L) \<subseteq> set (own s ip K) \<union> free_blocks s
     \<and> (\<forall>b. b \<notin> set (own s ip K) \<longrightarrow> b \<notin> free_blocks s \<longrightarrow> b \<noteq> bitmap s \<longrightarrow> disk_view t b = disk_view s b)"

lemma grows_refl: "grown s ip K \<Longrightarrow> free_map s \<Longrightarrow> grows ip K s K s"
  by (auto simp: grows_def need_def intro: exI[of _ "d_addrs (icache s ! ip)"])

lemma grows_trans:
  assumes g: "grows ip K s M t" "grows ip M t L u" and i: "ip < length (icache s)"
  shows "grows ip K s L u"
proof -
  have st: "K \<le> M" "home t = home s" "fs_sb t = fs_sb s" "free_blocks t \<subseteq> free_blocks s"
    "card (free_blocks s) \<le> card (free_blocks t) + need K M" "set (own t ip M) \<subseteq> set (own s ip K) \<union> free_blocks s"
    "\<And>k. k < K \<Longrightarrow> file_block t ip k = file_block s ip k" "NDIRECT < K \<Longrightarrow> indirect t ip = indirect s ip"
    "\<And>m. used s m \<Longrightarrow> used t m" "\<And>b. b \<notin> set (own s ip K) \<Longrightarrow> b \<notin> free_blocks s \<Longrightarrow> b \<noteq> bitmap s \<Longrightarrow> disk_view t b = disk_view s b"
    using g(1) by (simp_all add: grows_def)
  have tu: "M \<le> L" "grown u ip L" "home u = home t" "fs_sb u = fs_sb t" "free_map u" "free_blocks u \<subseteq> free_blocks t"
    "card (free_blocks t) \<le> card (free_blocks u) + need M L" "set (own u ip L) \<subseteq> set (own t ip M) \<union> free_blocks t"
    "\<And>k. k < M \<Longrightarrow> file_block u ip k = file_block t ip k" "NDIRECT < M \<Longrightarrow> indirect u ip = indirect t ip"
    "\<And>m. used t m \<Longrightarrow> used u m" "\<And>b. b \<notin> set (own t ip M) \<Longrightarrow> b \<notin> free_blocks t \<Longrightarrow> b \<noteq> bitmap t \<Longrightarrow> disk_view u b = disk_view t b"
    using g(2) by (simp_all add: grows_def)
  have qt: "untouched s u" by (rule untouched_trans[of s t]) (use g in \<open>simp_all add: grows_def\<close>)
  obtain a b where "icache t = (icache s)[ip := (icache s ! ip)\<lparr>d_addrs := a\<rparr>]"
    "icache u = (icache t)[ip := (icache t ! ip)\<lparr>d_addrs := b\<rparr>]"
    using g unfolding grows_def by blast
  then have ic: "icache u = (icache s)[ip := (icache s ! ip)\<lparr>d_addrs := b\<rparr>]" using i by simp
  have "need K L = need K M + need M L" by (rule need_split[OF st(1) tu(1)])
  then have ca: "card (free_blocks s) \<le> card (free_blocks u) + need K L" using st(5) tu(7) by linarith
  have di: "disk_view u b = disk_view s b" if "b \<notin> set (own s ip K)" "b \<notin> free_blocks s" "b \<noteq> bitmap s" for b
  proof -
    have "b \<notin> set (own t ip M)" "b \<notin> free_blocks t" using that st(4,6) by blast+
    then show ?thesis using tu(12) st(10)[OF that] that(3) st(3) by simp
  qed
  have ow: "set (own u ip L) \<subseteq> set (own s ip K) \<union> free_blocks s" using st(4,6) tu(8) by blast
  have fb: "file_block u ip k = file_block s ip k" if "k < K" for k using that st(1,7) tu(9) by simp
  have fr: "free_blocks u \<subseteq> free_blocks s" using st(4) tu(6) by blast
  show ?thesis
    unfolding grows_def using ic ca di ow fb fr qt st(1-3,8,9) tu(1-5,10,11) by auto
qed

text \<open>One block is added: what the allocations have to do.\<close>

lemma grows_one:
  fixes s t :: "'a fsst_scheme"
  assumes g: "grown s ip K" "K < MAXFILE"
    and N: "N = {file_block t ip K} \<union> (if K = NDIRECT then {indirect t ip} else {})" "N \<subseteq> free_blocks s"
      "K = NDIRECT \<Longrightarrow> indirect t ip \<noteq> file_block t ip K" "K \<noteq> NDIRECT \<Longrightarrow> indirect t ip = indirect s ip"
    and f: "free_map s" "free_map t" "free_blocks t = free_blocks s - N" "\<And>m. used t m \<longleftrightarrow> used s m \<or> m \<in> N"
    and c: "home t = home s" "fs_sb t = fs_sb s" "icache t = (icache s)[ip := (icache s ! ip)\<lparr>d_addrs := a\<rparr>]"
      "length a = NDIRECT + 1" "untouched s t"
    and b: "\<And>k. k < K \<Longrightarrow> file_block t ip k = file_block s ip k"
      "\<And>k. K < k \<Longrightarrow> k < (if Suc K \<le> NDIRECT then NDIRECT else MAXFILE) \<Longrightarrow> file_block t ip k = 0"
    and d: "\<And>b. b \<notin> N \<Longrightarrow> b \<noteq> bitmap s \<Longrightarrow> NDIRECT < K \<longrightarrow> b \<noteq> indirect s ip \<Longrightarrow> disk_view t b = disk_view s b"
  shows "grows ip K s (Suc K) t" "\<And>k. k < K \<Longrightarrow> disk_view t (file_block s ip k) = disk_view s (file_block s ip k)"
proof -
  have len: "ip < length (icache s)" using g(1) by (simp add: grown_def)
  have o: "own t ip K = own s ip K" by (rule own_same) (use b(1) N(4) in auto)
  have os: "set (own t ip (Suc K)) = N \<union> set (own s ip K)" by (auto simp: own_Suc o N(1))
  have us: "used s m" if "m \<in> set (own s ip K)" for m using g(1) that by (simp add: grown_def)
  have nu: "\<not> used s m" if "m \<in> N" for m using N(2) that by (auto simp: free_blocks_def)
  have dj: "N \<inter> set (own s ip K) = {}" using us nu by blast
  have new: "home s m" "m \<noteq> bitmap s" "m \<noteq> 0" if "m \<in> N" for m using free_mapD[OF f(1), of m] N(2) that by auto
  have di: "distinct (own t ip (Suc K))"
    using g(1) dj N(1,3) by (auto simp: own_Suc o grown_def)
  have "home t m \<and> used t m \<and> m \<noteq> 0 \<and> m \<noteq> bitmap t" if "m \<in> N \<union> set (own s ip K)" for m
    using that new[of m] us[of m] g(1) f(4)[of m] by (auto simp: c(1,2) grown_def)
  moreover have "indirect t ip = 0" if "Suc K \<le> NDIRECT" using that g(1) N(4) by (simp add: grown_def)
  moreover have "ip < length (icache t)" "i_dev (icache t ! ip) = ROOTDEV" "length (d_addrs (icache t ! ip)) = NDIRECT + 1"
    using len c(3,4) g(1) by (simp_all add: grown_def)
  ultimately have "grown t ip (Suc K)"
    using di b(2) g(2) unfolding grown_def os by (simp add: Suc_le_eq)
  moreover have "card N \<le> need K (Suc K)" by (auto simp: N(1) need_def card_insert_if)
  then have "card (free_blocks s) \<le> card (free_blocks t) + need K (Suc K)"
    using card_Diff_subset[OF _ N(2)] card_mono[OF _ N(2)] by (simp add: f(3))
  moreover have "disk_view t x = disk_view s x" if "x \<notin> set (own s ip K)" "x \<notin> free_blocks s" "x \<noteq> bitmap s" for x
    by (rule d) (use that N(2) in \<open>auto simp: set_own\<close>)
  ultimately show "grows ip K s (Suc K) t"
    using f(2-4) N(2,4) c(1-3,5) b(1) unfolding grows_def os by (intro conjI; (blast | simp))
  fix k assume k: "k < K"
  show "disk_view t (file_block s ip k) = disk_view s (file_block s ip k)"
    by (rule d) (use dj grown_block(1,4)[OF g(1) k] grown_inj(2)[OF g(1) k] in auto)
qed

text \<open>The next block of a file is allocated: directly,\<close>

lemma bmap_direct:
  assumes r: "room B (Suc j) s" "locked_bufs s = {}" and E: "k_rw E = iderw" and g: "grown s ip K" "K < NDIRECT" "unat bn = K"
    and f: "free_map s" "bitmap s \<in> B" "free_blocks s \<noteq> {}"
  obtains t where "bmap E ip bn s = Inr (file_block t ip K, t)" "room (insert (file_block t ip K) B) j t" "locked_bufs t = {}"
    "grows ip K s (Suc K) t" "disk_view t (file_block t ip K) = replicate BSIZE 0"
    "\<And>k. k < K \<Longrightarrow> disk_view t (file_block s ip k) = disk_view s (file_block s ip k)"
proof -
  have i: "ip < length (icache s)" "i_dev (icache s ! ip) = ROOTDEV" "length (d_addrs (icache s ! ip)) = NDIRECT + 1"
    "indirect s ip = 0" "\<And>k. K \<le> k \<Longrightarrow> k < NDIRECT \<Longrightarrow> file_block s ip k = 0"
    using g by (simp_all add: grown_def)
  have z: "d_addrs (icache s ! ip) ! K = 0" using i(5)[of K] g(2) by (simp add: file_block_def)
  obtain n u where U: "balloc E ROOTDEV s = Inr (n, u)" "took n {} s u" "room (insert n B) j u" "locked_bufs u = {}"
    "icache u = icache s"
    by (rule balloc_took[OF r f(1,3,2) E])
  let ?a = "(d_addrs (icache s ! ip))[K := n]"
  define t where "t = upd_inode ip (\<lambda>m. m\<lparr>d_addrs := (d_addrs m)[K := n]\<rparr>) u"
  have t: "icache t = (icache s)[ip := (icache s ! ip)\<lparr>d_addrs := ?a\<rparr>]" by (simp add: t_def U(5))
  have fb: "file_block t ip k = (if k = K then n else file_block s ip k)" if "k < NDIRECT" for k
    using that i g(2) by (simp add: file_block_def t nth_list_update)
  have it: "indirect t ip = indirect s ip" using i g(2) by (simp add: indirect_def t nth_list_update)
  have tk: "took n {} s t" using U(2) by (simp add: t_def)
  have G: "grows ip K s (Suc K) t"
    "\<And>k. k < K \<Longrightarrow> disk_view t (file_block s ip k) = disk_view s (file_block s ip k)"
    by (rule grows_one[where N = "{n}" and a = ?a]; use g f i tk fb it t in \<open>auto simp: took_def\<close>)+
  have "bmap E ip bn s = Inr (n, t)" using z g i(2) U(1) by (simp add: bmap_def t_def word_less_nat_alt)
  moreover have "file_block t ip K = n" using fb[OF g(2)] by simp
  moreover have "room (insert n B) j t" "locked_bufs t = {}" using U(3,4) by (simp_all add: t_def)
  ultimately show thesis using that[of t] G tk by (simp add: took_def)
qed

text \<open>or behind the indirect block, which is allocated first when the direct blocks are used up.\<close>

lemma bmap_indirect:
  assumes r: "room B (need K (Suc K) + j) s" "locked_bufs s = {}" and E: "k_rw E = iderw"
    and g: "grown s ip K" "NDIRECT < K" "K < MAXFILE" "unat bn = K"
    and f: "free_map s" "bitmap s \<in> B" "free_blocks s \<noteq> {}" "indirect s ip \<in> B"
  obtains t where "bmap E ip bn s = Inr (file_block t ip K, t)" "room (insert (file_block t ip K) B) j t" "locked_bufs t = {}"
    "grows ip K s (Suc K) t" "disk_view t (file_block t ip K) = replicate BSIZE 0"
    "\<And>k. k < K \<Longrightarrow> disk_view t (file_block s ip k) = disk_view s (file_block s ip k)" "indirect t ip = indirect s ip"
proof -
  let ?i = "indirect s ip" and ?k = "K - NDIRECT"
  have i: "ip < length (icache s)" "i_dev (icache s ! ip) = ROOTDEV" "length (d_addrs (icache s ! ip)) = NDIRECT + 1"
    "\<And>k. K \<le> k \<Longrightarrow> k < MAXFILE \<Longrightarrow> file_block s ip k = 0"
    using g by (simp_all add: grown_def)
  note I = grown_indirect[OF g(1,2)]
  have bn: "unat (bn - of_nat NDIRECT) = ?k" "\<not> bn < of_nat NDIRECT" "bn - of_nat NDIRECT < of_nat NINDIRECT"
    using g(2-4) by (simp_all add: unat_sub word_le_nat_alt word_less_nat_alt)
  have k: "?k < NINDIRECT" using g(2,3) by simp
  have z: "field32 ?k (disk_view s ?i) = 0" using i(4)[of K] g(2,3) by (simp add: file_block_def)
  have r1: "room B (Suc j) s" using r(1) g(2) by (simp add: need_def)
  obtain bp u n v w t where U: "bread iderw ROOTDEV ?i s = Inr (bp, u)" "b_data (bufs u bp) = disk_view s ?i"
    "balloc E ROOTDEV u = Inr (n, v)" "b_data (bufs v bp) = disk_view s ?i"
    "log_write bp (set_data bp (put32 ?k n (disk_view s ?i)) v) = Inr w" "brelse bp w = Inr t"
    "took n {?i} s t" "disk_view t ?i = put32 ?k n (disk_view s ?i)" "room (insert n B) j t" "locked_bufs t = {}"
    "icache t = icache s" "length (disk_view s ?i) = BSIZE"
    by (rule entry_took[OF r1 r(2) f(1,3,2) E I(2,3,5) f(4) k z])
  have it: "indirect t ip = ?i" by (simp add: indirect_def U(11))
  have ni: "n \<noteq> ?i" using U(7) I(3) by (auto simp: took_def free_blocks_def)
  have fb: "file_block t ip k = (if k = K then n else file_block s ip k)" if "k < MAXFILE" for k
  proof (cases "k < NDIRECT \<or> k = K")
    case False
    then have "field32 (k - NDIRECT) (put32 ?k n (disk_view s ?i)) = field32 (k - NDIRECT) (disk_view s ?i)"
      using that g(2,3) U(12) by (intro field32_put32_other) auto
    then show ?thesis using False by (simp add: file_block_def it U(8,11))
  qed (use g(2,3) U(12) in \<open>auto simp: file_block_def it U(8,11)\<close>)
  have G: "grows ip K s (Suc K) t"
    "\<And>k. k < K \<Longrightarrow> disk_view t (file_block s ip k) = disk_view s (file_block s ip k)"
    by (rule grows_one[where N = "{n}" and a = "d_addrs (icache s ! ip)"]; use g f i U(7,11) fb it in \<open>auto simp: took_def\<close>)+
  have "bmap E ip bn s = Inr (n, t)"
    using bn i(2) I(4) U(1-6) z E by (simp add: bmap_def indirect_def)
  moreover have "file_block t ip K = n" using fb[OF g(3)] by simp
  ultimately show thesis using that[of t] G U(7,9,10) it by (simp add: took_def)
qed

lemma bmap_first_indirect:
  assumes r: "room B (Suc (Suc j)) s" "locked_bufs s = {}" and E: "k_rw E = iderw"
    and g: "grown s ip NDIRECT" "unat bn = NDIRECT"
    and f: "free_map s" "bitmap s \<in> B" "2 \<le> card (free_blocks s)"
  obtains t where "bmap E ip bn s = Inr (file_block t ip NDIRECT, t)"
    "room (insert (file_block t ip NDIRECT) (insert (indirect t ip) B)) j t" "locked_bufs t = {}"
    "grows ip NDIRECT s (Suc NDIRECT) t" "disk_view t (file_block t ip NDIRECT) = replicate BSIZE 0"
    "\<And>k. k < NDIRECT \<Longrightarrow> disk_view t (file_block s ip k) = disk_view s (file_block s ip k)"
proof -
  have i: "ip < length (icache s)" "i_dev (icache s ! ip) = ROOTDEV" "length (d_addrs (icache s ! ip)) = NDIRECT + 1"
    "d_addrs (icache s ! ip) ! NDIRECT = 0"
    using g(1) by (simp_all add: grown_def indirect_def)
  have bn: "unat (bn - of_nat NDIRECT) = 0" "\<not> bn < of_nat NDIRECT" "bn - of_nat NDIRECT < of_nat NINDIRECT"
    using g(2) by (simp_all add: unat_sub word_le_nat_alt word_less_nat_alt)
  have "free_blocks s \<noteq> {}" using f(3) by auto
  from balloc_took[OF r f(1) this f(2) E] obtain ind u where U: "balloc E ROOTDEV s = Inr (ind, u)" "took ind {} s u"
    "room (insert ind B) (Suc j) u" "locked_bufs u = {}" "icache u = icache s" by blast
  define a where "a = (d_addrs (icache s ! ip))[NDIRECT := ind]"
  define v where "v = upd_inode ip (\<lambda>m. m\<lparr>d_addrs := (d_addrs m)[NDIRECT := ind]\<rparr>) u"
  have v: "icache v = (icache s)[ip := (icache s ! ip)\<lparr>d_addrs := a\<rparr>]" by (simp add: v_def U(5) a_def)
  have tv: "took ind {} s v" "room (insert ind B) (Suc j) v" "locked_bufs v = {}" using U by (simp_all add: v_def)
  have ik: "home v ind" "used v ind" "ind \<noteq> bitmap v" "ind \<in> free_blocks s" "ind \<noteq> 0"
    using tv(1) free_mapD[OF f(1), of ind] by (auto simp: took_def)
  have fv: "free_map v" "free_blocks v = free_blocks s - {ind}" "fs_sb v = fs_sb s" using tv(1) by (simp_all add: took_def)
  have nv: "free_blocks v \<noteq> {}"
  proof
    assume "free_blocks v = {}"
    then have "card (free_blocks s) \<le> card {ind}" using fv(2) by (intro card_mono) auto
    then show False using f(3) by simp
  qed
  have zv: "disk_view v ind = replicate BSIZE 0" using tv(1) by (simp add: took_def)
  have "field32 0 (disk_view v ind) = 0" by (simp add: zv field32_def word32_def)
  obtain bp w n x y t where T: "bread iderw ROOTDEV ind v = Inr (bp, w)" "b_data (bufs w bp) = disk_view v ind"
    "balloc E ROOTDEV w = Inr (n, x)" "b_data (bufs x bp) = disk_view v ind"
    "log_write bp (set_data bp (put32 0 n (disk_view v ind)) x) = Inr y" "brelse bp y = Inr t"
    "took n {ind} v t" "disk_view t ind = put32 0 n (disk_view v ind)" "room (insert n (insert ind B)) j t"
    "locked_bufs t = {}" "icache t = icache v" "length (disk_view v ind) = BSIZE"
    by (rule entry_took[OF tv(2,3) fv(1) nv _ E ik(1-3), of 0]) (use f(2) fv(3) \<open>field32 0 (disk_view v ind) = 0\<close> in auto)
  have it: "indirect t ip = ind" using i by (simp add: indirect_def T(11) v a_def)
  have tn: "n \<in> free_blocks s" "n \<noteq> ind" using T(7) fv(2) by (auto simp: took_def)
  have fb: "file_block t ip k = (if k < NDIRECT then file_block s ip k else if k = NDIRECT then n else 0)" if "k < MAXFILE" for k
  proof (cases "k < NDIRECT")
    case False
    then have "field32 (k - NDIRECT) (put32 0 n (disk_view v ind)) = (if k = NDIRECT then n else field32 (k - NDIRECT) (disk_view v ind))"
      using that T(12) by (cases "k = NDIRECT") (simp_all add: field32_put32_other)
    moreover have "field32 (k - NDIRECT) (disk_view v ind) = 0" using that by (simp add: zv field32_def word32_def)
    ultimately show ?thesis using False by (simp add: file_block_def it T(8))
  qed (use i in \<open>simp add: file_block_def T(11) v a_def\<close>)
  have us: "used t m \<longleftrightarrow> used s m \<or> m \<in> {n, ind}" for m using T(7) tv(1) by (auto simp: took_def)
  have qt: "untouched s t" by (rule untouched_trans[of s v]) (use T(7) tv(1) in \<open>simp_all add: took_def\<close>)
  have dv: "disk_view t b = disk_view s b" if "b \<notin> {n, ind}" "b \<noteq> bitmap s" for b
    using T(7) tv(1) that fv(3) by (simp add: took_def)
  have G: "grows ip NDIRECT s (Suc NDIRECT) t"
    "\<And>k. k < NDIRECT \<Longrightarrow> disk_view t (file_block s ip k) = disk_view s (file_block s ip k)"
    by (rule grows_one[where N = "{n, ind}" and a = a];
        (use g f i T(7,11) v fb it tn ik us dv fv tv(1) qt in \<open>auto simp: took_def a_def\<close>; fail))+
  have dev: "i_dev (icache v ! ip) = ROOTDEV" using i by (simp add: v)
  have "bmap E ip bn s = Inr (n, t)"
    using bn i(2,4) T(1-6) U(1) E \<open>field32 0 (disk_view v ind) = 0\<close>
    by (simp add: bmap_def flip: v_def)
  moreover have "file_block t ip NDIRECT = n" using fb[of NDIRECT] by simp
  ultimately show thesis using that[of t] G T(7,9,10) it by (simp add: took_def)
qed

text \<open>In each case the blocks that later turns write again are known.\<close>

lemma bmap_new:
  assumes r: "room B (need K (Suc K) + j) s" "locked_bufs s = {}" and E: "k_rw E = iderw"
    and g: "grown s ip K" "K < MAXFILE" "unat bn = K"
    and f: "free_map s" "bitmap s \<in> B" "need K (Suc K) \<le> card (free_blocks s)" "NDIRECT < K \<Longrightarrow> indirect s ip \<in> B"
  obtains B' t where "bmap E ip bn s = Inr (file_block t ip K, t)" "room B' j t" "locked_bufs t = {}" "B \<subseteq> B'"
    "file_block t ip K \<in> B'" "NDIRECT < Suc K \<Longrightarrow> indirect t ip \<in> B'"
    "grows ip K s (Suc K) t" "disk_view t (file_block t ip K) = replicate BSIZE 0"
    "\<And>k. k < K \<Longrightarrow> disk_view t (file_block s ip k) = disk_view s (file_block s ip k)"
proof -
  consider "K < NDIRECT" | "K = NDIRECT" | "NDIRECT < K" by linarith
  then show thesis
  proof cases
    case 1
    then have r1: "room B (Suc j) s" using r(1) by (simp add: need_def)
    have n: "free_blocks s \<noteq> {}" using f(3) 1 by (auto simp: need_def)
    show thesis by (rule bmap_direct[OF r1 r(2) E g(1) 1 g(3) f(1,2) n]; rule that, (assumption | use 1 in force)+)
  next
    case 2
    then have n: "need K (Suc K) = 2" by (simp add: need_def)
    have r2: "room B (Suc (Suc j)) s" using r(1) n by simp
    have c: "2 \<le> card (free_blocks s)" using f(3) n by simp
    show thesis
      by (rule bmap_first_indirect[OF r2 r(2) E g(1,3)[unfolded 2] f(1,2) c]; rule that, unfold 2, (assumption | force)+)
  next
    case 3
    have n: "free_blocks s \<noteq> {}" using f(3) 3 by (auto simp: need_def)
    show thesis
      by (rule bmap_indirect[OF r E g(1) 3 g(2,3) f(1,2) n f(4)[OF 3]]; rule that, (assumption | use f(4)[OF 3] in force)+)
  qed
qed

end
