(* ===== verification/Lookup.thy ===== *)
theory Lookup
  imports Block_List Directory
begin

text \<open>
  Directories as lists of entries: what \<open>dirlookup\<close> finds, in terms of the content of the directory,
  and the elements of a path as \<open>skipelem\<close> splits it.
\<close>

section \<open>Names\<close>

text \<open>The name in a buffer: up to the first 0 byte, at most \<open>DIRSIZ\<close> bytes.\<close>

definition cname :: "uchar list \<Rightarrow> uchar list" where
  "cname xs = take DIRSIZ (takeWhile (\<lambda>c. c \<noteq> 0) xs)"

lemma name_diff_iff:
  "name_diff i n p q = 0 \<longleftrightarrow> take n (takeWhile (\<lambda>c. c \<noteq> 0) (drop i p)) = take n (takeWhile (\<lambda>c. c \<noteq> 0) (drop i q))"
proof (induction n arbitrary: i)
  case (Suc n)
  have d: "takeWhile (\<lambda>c. c \<noteq> 0) (drop i xs)
      = (if char_at xs i = 0 then [] else char_at xs i # takeWhile (\<lambda>c. c \<noteq> 0) (drop (Suc i) xs))" for xs :: "uchar list"
    by (cases "i < length xs") (simp_all add: char_at_def flip: Cons_nth_drop_Suc)
  have "uint a - uint b = 0 \<longleftrightarrow> a = b" for a b :: uchar by (simp add: word_uint_eq_iff)
  then show ?case using Suc.IH[of "Suc i"] by (simp add: d[of p] d[of q])
qed simp

lemma namecmp_iff: "namecmp p q = 0 \<longleftrightarrow> cname p = cname q"
  by (simp add: namecmp_def cname_def name_diff_iff)

lemma cname_copy_name: "cname (copy_name DIRSIZ name) = cname name"
proof -
  have "take n (takeWhile (\<lambda>c. c \<noteq> 0) (copy_name n xs)) = take n (takeWhile (\<lambda>c. c \<noteq> 0) xs)" for n xs
    by (induction n xs rule: copy_name.induct) simp_all
  then show ?thesis by (simp add: cname_def)
qed

section \<open>Entries\<close>

definition entry :: "'a fsst_scheme \<Rightarrow> nat \<Rightarrow> nat \<Rightarrow> dirent" where
  "entry s dp i = decode_dirent (take 16 (drop (16 * i) (content s dp)))"

definition entries :: "'a fsst_scheme \<Rightarrow> nat \<Rightarrow> dirent list" where
  "entries s dp = map (entry s dp) [0..<file_size s dp div 16]"

lemma entries_same: "fs_same s t \<Longrightarrow> entries t = entries s" "fs_same s t \<Longrightarrow> entry t = entry s"
  by (simp_all add: entries_def entry_def fs_sameD fun_eq_iff)

definition names :: "uchar list \<Rightarrow> dirent \<Rightarrow> bool" where
  "names name de \<longleftrightarrow> de_inum de \<noteq> 0 \<and> cname name = cname (de_name de)"

lemma read_dirent_entry:
  assumes "in_txn k s" "k_rw E = iderw" "mapped_file s dp" "d_type (icache s ! dp) \<noteq> T_DEV"
    and "unat off = 16 * i" "16 * i + 16 \<le> file_size s dp"
  obtains t where "read_dirent E dp off s = Inr (entry s dp i, t)" "in_txn k t" "fs_same s t"
proof -
  have "file_size s dp \<le> MAXFILE * BSIZE" using assms(3) by (simp add: mapped_file_def)
  then have "unat (off + 16) = unat off + 16" using assms(5,6) unat_add_lem[of off 16] by simp
  then have "\<not> (off > d_size (icache s ! dp) \<or> off + 16 < off)" using assms(5,6) by (simp add: word_less_nat_alt)
  moreover have "min 16 (file_size s dp - unat off) = 16" using assms(5,6) by simp
  ultimately obtain t where "readi_data E dp off 16 s = Inr (16, take 16 (drop (16 * i) (content s dp)), t)"
    "in_txn k t" "fs_same s t"
    using readi_data_content[OF assms(1-3), of off 16] assms(5) by auto
  then show thesis using that assms(4) by (simp add: read_dirent_def entry_def)
qed

section \<open>Lookup\<close>

text \<open>\<open>iget\<close>: the entry that is in use for the inode, else a free one, else a panic.\<close>

definition placed :: "uint \<Rightarrow> uint \<Rightarrow> 'a fsst_scheme \<Rightarrow> nat \<Rightarrow> 'a fsst_scheme \<Rightarrow> bool" where
  "placed dev inum s ip t \<longleftrightarrow> ip < length (icache s) \<and> t = s\<lparr>icache := (icache s)[ip := icache t ! ip]\<rparr>
     \<and> (if iget_hit dev inum (icache s ! ip) then icache t ! ip = (icache s ! ip)\<lparr>i_ref := i_ref (icache s ! ip) + 1\<rparr>
        else i_ref (icache s ! ip) = 0 \<and> (\<forall>j < length (icache s). \<not> iget_hit dev inum (icache s ! j))
          \<and> icache t ! ip = (icache s ! ip)\<lparr>i_dev := dev, i_inum := inum, i_ref := 1, i_flags := 0\<rparr>)"

lemma iget_placed:
  fixes s :: "'a fsst_scheme"
  assumes "held s = {}"
  shows "if \<exists>j < length (icache s). iget_hit dev inum (icache s ! j) \<or> i_ref (icache s ! j) = 0
    then \<exists>ip t. iget dev inum s = Inr (ip, t) \<and> placed dev inum s ip t
    else iget dev inum s = Inl (Panic ''iget: no inodes'')"
proof -
  let ?u = "s\<lparr>held := {L_icache}\<rparr>"
  let ?h = "\<lambda>k. iget_hit dev inum (icache s ! k)" and ?z = "\<lambda>k. i_ref (icache s ! k) = 0" and ?n = "length (icache s)"
  have a: "acquire L_icache s = Inr ?u" by (simp add: assms)
  have r: "release L_icache (upd_inode ip f ?u) = Inr (s\<lparr>icache := (icache s)[ip := f (icache s ! ip)]\<rparr>)" for ip f
    using assms by (simp add: release_def upd_inode_def)
  show ?thesis
  proof (cases "find ?h [0..<?n]")
    case (Some ip)
    then have h: "ip < ?n" "?h ip" by (simp_all add: find_upt_iff)
    let ?t = "s\<lparr>icache := (icache s)[ip := (icache s ! ip)\<lparr>i_ref := i_ref (icache s ! ip) + 1\<rparr>]\<rparr>"
    have "iget dev inum s = Inr (ip, ?t)" by (simp add: iget_def a r Some)
    moreover have "placed dev inum s ip ?t" using h by (simp add: placed_def)
    ultimately show ?thesis using h by auto
  next
    case None
    then have nh: "\<forall>j < ?n. \<not> ?h j" by (simp add: find_upt_iff)
    show ?thesis
    proof (cases "find ?z [0..<?n]")
      case (Some ip)
      then have z: "ip < ?n" "?z ip" by (simp_all add: find_upt_iff)
      let ?t = "s\<lparr>icache := (icache s)[ip := (icache s ! ip)\<lparr>i_dev := dev, i_inum := inum, i_ref := 1, i_flags := 0\<rparr>]\<rparr>"
      have "iget dev inum s = Inr (ip, ?t)" by (simp add: iget_def a r None Some)
      moreover have "placed dev inum s ip ?t" using z nh by (simp add: placed_def)
      ultimately show ?thesis using z by auto
    next
      case None2: None
      then have "iget dev inum s = Inl (Panic ''iget: no inodes'')" using None by (simp add: iget_def a)
      then show ?thesis using None2 nh by (auto simp: find_upt_iff)
    qed
  qed
qed

text \<open>The first entry with the name, if there is one.\<close>

declare dirlookup_loop.simps [simp del]

lemma dirlookup_loop_entries:
  fixes s :: "'a fsst_scheme"
  assumes "in_txn k s" "k_rw E = iderw" "mapped_file s dp" "d_type (icache s ! dp) \<noteq> T_DEV" "16 dvd file_size s dp"
    and "unat off = 16 * i" "i \<le> file_size s dp div 16" "file_size s dp div 16 - i \<le> fuel"
  shows "\<exists>t. in_txn k t \<and> fs_same s t \<and> dirlookup_loop fuel E dp name off s =
    (case find (\<lambda>j. names name (entries s dp ! j)) [i..<length (entries s dp)] of None \<Rightarrow> Inr (None, t)
     | Some j \<Rightarrow> bind_res (iget (i_dev (icache s ! dp)) (ucast (de_inum (entries s dp ! j))) t) (\<lambda>(ip, s). Inr (Some (ip, of_nat (16 * j)), s)))"
  using assms
proof (induction fuel arbitrary: off i s)
  case 0
  then have "\<not> off < d_size (icache s ! dp)" by (auto simp: word_less_nat_alt)
  then show ?case using 0 by (subst dirlookup_loop.simps) (auto simp: entries_def)
next
  case (Suc fuel)
  show ?case
  proof (cases "off < d_size (icache s ! dp)")
    case False
    then have "i = file_size s dp div 16" using Suc.prems(5-7) by (auto simp: word_less_nat_alt)
    then show ?thesis using Suc.prems(1) False by (subst dirlookup_loop.simps) (auto simp: entries_def)
  next
    case True
    then have i: "i < file_size s dp div 16" "16 * i + 16 \<le> file_size s dp"
      using Suc.prems(5,6) by (auto simp: word_less_nat_alt)
    obtain t where T: "read_dirent E dp off s = Inr (entry s dp i, t)" "in_txn k t" "fs_same s t"
      by (rule read_dirent_entry[OF Suc.prems(1-4,6) i(2)])
    note st = fs_sameD[OF T(3)] entries_same[OF T(3)]
    have l: "length (entries s dp) = file_size s dp div 16" "entries s dp ! i = entry s dp i" using i by (simp_all add: entries_def)
    have up: "[i..<length (entries s dp)] = i # [Suc i..<length (entries s dp)]" using i(1) l(1) by (simp add: upt_conv_Cons)
    show ?thesis
    proof (cases "names name (entry s dp i)")
      case True2: True
      have "off = of_nat (16 * i)" using arg_cong[OF Suc.prems(6), of "of_nat :: nat \<Rightarrow> uint"] by simp
      then show ?thesis
        using True True2 T st l unfolding up by (subst dirlookup_loop.simps) (auto simp: names_def namecmp_iff)
    next
      case False2: False
      have "file_size s dp \<le> MAXFILE * BSIZE" using Suc.prems(3) by (simp add: mapped_file_def)
      then have o: "unat (off + 16) = 16 * Suc i" using Suc.prems(6) i unat_add_lem[of off 16] by simp
      have e: "dirlookup_loop (Suc fuel) E dp name off s = dirlookup_loop fuel E dp name (off + 16) t"
        using True False2 T(1) by (subst dirlookup_loop.simps) (auto simp: names_def namecmp_iff)
      have f: "file_size s dp div 16 - Suc i \<le> fuel" "Suc i \<le> file_size s dp div 16" using Suc.prems(8) i(1) by linarith+
      have "\<exists>u. in_txn k u \<and> fs_same t u \<and> dirlookup_loop fuel E dp name (off + 16) t =
        (case find (\<lambda>j. names name (entries s dp ! j)) [Suc i..<length (entries s dp)] of None \<Rightarrow> Inr (None, u)
         | Some j \<Rightarrow> bind_res (iget (i_dev (icache s ! dp)) (ucast (de_inum (entries s dp ! j))) u) (\<lambda>(ip, s). Inr (Some (ip, of_nat (16 * j)), s)))"
        using Suc.IH[OF T(2) Suc.prems(2), of "off + 16" "Suc i"] Suc.prems(3-5) o f unfolding st by blast
      then show ?thesis using e fs_same_trans[OF T(3)] False2 l unfolding up by auto
    qed
  qed
qed

lemma dirlookup_entries:
  fixes s :: "'a fsst_scheme"
  assumes "in_txn k s" "k_rw E = iderw" "mapped_file s dp" "16 dvd file_size s dp" "d_type (icache s ! dp) = T_DIR"
  obtains t where "in_txn k t" "fs_same s t" "held t = {}" "dirlookup E dp name s =
    (case find (\<lambda>j. names name (entries s dp ! j)) [0..<length (entries s dp)] of None \<Rightarrow> Inr (None, t)
     | Some j \<Rightarrow> bind_res (iget (i_dev (icache s ! dp)) (ucast (de_inum (entries s dp ! j))) t)
         (\<lambda>(ip, s). Inr (Some (ip, of_nat (16 * j)), s)))"
proof -
  have "file_size s dp \<le> MAXFILE * BSIZE" using assms(3) by (simp add: mapped_file_def)
  then have f: "file_size s dp div 16 - 0 \<le> 2 ^ 28" by simp
  have ty: "d_type (icache s ! dp) \<noteq> T_DEV" using assms(5) by simp
  have d: "dirlookup E dp name s = dirlookup_loop (2 ^ 28) E dp name 0 s" using assms(5) by (simp add: dirlookup_def)
  have "held t = {}" if "in_txn k t" for t :: "'a fsst_scheme" using that by (simp add: in_txn_def log_inv_def cache_ok_def)
  then show thesis using that dirlookup_loop_entries[OF assms(1-3) ty assms(4) _ _ f, of 0 name] d by auto
qed

text \<open>
  C11: \<open>dirlookup\<close> finds the first entry of the directory with an inode and the name, compared up to
  the first 0 byte or \<open>DIRSIZ\<close> bytes. It returns the cache entry of that inode with a reference
  more, newly set up when the inode was not in the cache, and the entry's offset; without such an
  entry it returns null. Neither case changes the disk or another inode. It panics when it
  is not given a directory, or when every cache entry is in use.
\<close>

theorem dirlookup_finds:
  fixes s :: "'a fsst_scheme"
  assumes "in_txn k s" "k_rw E = iderw" "mapped_file s dp" "16 dvd file_size s dp" "k' = length (entries s dp)"
  shows "if d_type (icache s ! dp) \<noteq> T_DIR then dirlookup E dp name s = Inl (Panic ''dirlookup not DIR'')
    else case find (\<lambda>j. names name (entries s dp ! j)) [0..<k'] of
      None \<Rightarrow> \<exists>t. dirlookup E dp name s = Inr (None, t) \<and> in_txn k t \<and> fs_same s t
    | Some j \<Rightarrow> (let dev = i_dev (icache s ! dp); inum = ucast (de_inum (entries s dp ! j)) in
        if \<exists>i < length (icache s). iget_hit dev inum (icache s ! i) \<or> i_ref (icache s ! i) = 0
        then \<exists>ip t u. dirlookup E dp name s = Inr (Some (ip, of_nat (16 * j)), u) \<and> placed dev inum t ip u
          \<and> in_txn k t \<and> fs_same s t
        else dirlookup E dp name s = Inl (Panic ''iget: no inodes''))"
proof (cases "d_type (icache s ! dp) = T_DIR")
  case True
  obtain t where t: "in_txn k t" "fs_same s t" "held t = {}" "dirlookup E dp name s =
    (case find (\<lambda>j. names name (entries s dp ! j)) [0..<length (entries s dp)] of None \<Rightarrow> Inr (None, t)
     | Some j \<Rightarrow> bind_res (iget (i_dev (icache s ! dp)) (ucast (de_inum (entries s dp ! j))) t)
         (\<lambda>(ip, s). Inr (Some (ip, of_nat (16 * j)), s)))"
    by (rule dirlookup_entries[OF assms(1-4) True])
  show ?thesis
  proof (cases "find (\<lambda>j. names name (entries s dp ! j)) [0..<k']")
    case None
    then show ?thesis using True t assms(5) by auto
  next
    case (Some j)
    then show ?thesis
      using True t assms(5) iget_placed[OF t(3), of "i_dev (icache s ! dp)" "ucast (de_inum (entries s dp ! j))"] fs_sameD(1)[OF t(2)]
      by (auto simp: Let_def split: if_splits)
  qed
qed (simp add: dirlookup_def)

text \<open>An example: the root directory in block 300 of the machine of theory \<open>Fs_Txn\<close>, with three entries.\<close>

definition root1 :: inode where
  "root1 = \<lparr>d_type = T_DIR, d_major = 0, d_minor = 0, d_nlink = 1, d_size = 48,
     d_addrs = 300 # replicate 12 0, i_dev = ROOTDEV, i_inum = 1, i_ref = 1,
     i_lock = initsleeplock ''inode'', i_flags = I_VALID\<rparr>"

definition root_bytes :: "uchar list" where
  "root_bytes = concat (map encode_dirent
     [\<lparr>de_inum = 1, de_name = copy_name DIRSIZ [46]\<rparr>, \<lparr>de_inum = 1, de_name = copy_name DIRSIZ [46, 46]\<rparr>,
      \<lparr>de_inum = 17, de_name = copy_name DIRSIZ [115, 104]\<rparr>])"

lemma root_example:
  obtains s :: fsst where "in_txn 28 s" "icache s = root1 # replicate 49 (file17\<lparr>i_ref := 0\<rparr>)" "fs_sb s = sb1000"
    "mapped_file s 0" "content s 0 = root_bytes"
    "disk_view s = (disk_view fs_machine)(300 := root_bytes @ replicate 464 0)" "home s = home fs_machine"
proof -
  define s0 where "s0 = upd_inode 0 (\<lambda>_. root1) fs_machine"
  have l: "length (root_bytes @ replicate 464 0) = BSIZE" by code_simp
  have s0: "in_txn (Suc 28) s0" "home s0 300"
    using fs_machine_txn[of 29] by (simp_all add: s0_def fs_machine_home)
  obtain s where s: "in_txn 28 s" "home s = home s0" "disk_view s = (disk_view s0)(300 := root_bytes @ replicate 464 0)"
    "logst.more s = logst.more s0"
    by (rule txn_update[OF s0 l])
  note f = fs_more[OF s(4)]
  have ic: "icache s = root1 # replicate 49 (file17\<lparr>i_ref := 0\<rparr>)" "fs_sb s = sb1000"
    by (simp_all add: f s0_def fs_machine_fields)
  have h: "home s = home fs_machine" by (simp add: s(2) s0_def)
  have z: "file_size s 0 = 48" by (simp add: ic root1_def)
  have b: "file_block s 0 0 = 300" by (simp add: file_block_def ic root1_def)
  have k: "k * BSIZE < 48 \<longleftrightarrow> k = 0" for k :: nat by auto
  have "mapped_file s 0"
    unfolding mapped_file_def z k using b by (simp add: h fs_machine_home) (simp add: ic root1_def)
  moreover have "content s 0 = root_bytes"
  proof (rule nth_equalityI)
    show "length (content s 0) = length root_bytes" unfolding length_content z by code_simp
    fix i assume "i < length (content s 0)"
    then have "i < 48" by (simp add: z)
    moreover have "length root_bytes = 48" by code_simp
    ultimately show "content s 0 ! i = root_bytes ! i"
      by (simp add: content_def z file_byte_def b s(3) nth_append)
  qed
  ultimately show thesis using that s(1,3) ic h by (simp add: s0_def)
qed

lemma dirlookup_finds_witness:
  "\<exists>s ip t u. in_txn 28 s \<and> dirlookup fs_env 0 [115, 104] s = Inr (Some (ip, 32), t) \<and> i_inum (icache t ! ip) = 17
     \<and> dirlookup fs_env 0 [108, 115] s = Inr (None, u) \<and> fs_same s u"
proof -
  obtain s :: fsst where s: "in_txn 28 s" "icache s = root1 # replicate 49 (file17\<lparr>i_ref := 0\<rparr>)" "mapped_file s 0" "content s 0 = root_bytes"
    by (rule root_example) blast
  have ty: "d_type (icache s ! 0) = T_DIR" "file_size s 0 = 48" by (simp_all add: s(2) root1_def)
  have e: "entries s 0 = map (\<lambda>i. decode_dirent (take 16 (drop (16 * i) root_bytes))) [0..<3]"
    by (simp add: entries_def entry_def ty s(4) fun_eq_iff)
  have k3: "3 = length (entries s 0)" by (simp add: e)
  have f: "find (\<lambda>j. names [115, 104] (entries s 0 ! j)) [0..<3] = Some 2"
    "find (\<lambda>j. names [108, 115] (entries s 0 ! j)) [0..<3] = None" "de_inum (entries s 0 ! 2) = 17"
    unfolding e by code_simp+
  have dv: "16 dvd file_size s 0" by (simp add: ty)
  have "i_ref (icache s ! 1) = 0" "1 < length (icache s)" by (simp_all add: s(2))
  then have pl: "\<exists>i < length (icache s). iget_hit d n (icache s ! i) \<or> i_ref (icache s ! i) = 0" for d n by blast
  obtain ip t u where D: "dirlookup fs_env 0 [115, 104] s = Inr (Some (ip, of_nat (16 * 2)), u)"
    "placed (i_dev (icache s ! 0)) 17 t ip u"
    using dirlookup_finds[OF s(1) fs_machine_fields(3) s(3) dv k3, of "[115, 104]"] pl f ty by (auto simp: Let_def split: if_splits)
  have "i_inum (icache u ! ip) = 17" using D(2) by (auto simp: placed_def iget_hit_def split: if_splits)
  moreover obtain v where "dirlookup fs_env 0 [108, 115] s = Inr (None, v)" "fs_same s v"
    using dirlookup_finds[OF s(1) fs_machine_fields(3) s(3) dv k3, of "[108, 115]"] f ty by auto
  ultimately show ?thesis using s(1) D(1) by auto
qed

end
