(* ===== verification/Namei.thy ===== *)
theory Namei
  imports Lookup
begin

text \<open>
  Path names: how \<open>skipelem\<close> splits a path, and \<open>namei\<close> as a walk through the directories that the
  disk holds, whatever the inode cache has of them.
\<close>

section \<open>The elements of a path\<close>

fun split_at :: "'a \<Rightarrow> 'a list \<Rightarrow> 'a list list" where
  "split_at c [] = [[]]"
| "split_at c (x # xs) = (if x = c then [] # split_at c xs else (x # hd (split_at c xs)) # tl (split_at c xs))"

definition elems :: "uchar list \<Rightarrow> uchar list list" where
  "elems path = filter (\<lambda>e. e \<noteq> []) (split_at slash path)"

lemma split_at_ne [simp]: "split_at c xs \<noteq> []"
  by (cases xs) simp_all

lemma split_at_while:
  "split_at c xs = takeWhile (\<lambda>x. x \<noteq> c) xs
     # (case dropWhile (\<lambda>x. x \<noteq> c) xs of [] \<Rightarrow> [] | _ # ys \<Rightarrow> split_at c ys)"
  by (induction xs) simp_all

lemma elems_simps [simp]: "elems [] = []" "elems (slash # path) = elems path"
  by (simp_all add: elems_def)

lemma elems_skip: "elems (dropWhile (\<lambda>c. c = slash) path) = elems path"
  by (induction path) auto

lemma elems_next:
  assumes "path \<noteq> []" "hd path \<noteq> slash"
  shows "elems path = takeWhile (\<lambda>c. c \<noteq> slash) path # elems (dropWhile (\<lambda>c. c \<noteq> slash) path)"
proof -
  have "takeWhile (\<lambda>c. c \<noteq> slash) path \<noteq> []" using assms by (cases path) simp_all
  moreover have "filter (\<lambda>e. e \<noteq> []) (case d of [] \<Rightarrow> [] | _ # ys \<Rightarrow> split_at slash ys) = elems d"
    if "d = [] \<or> hd d = slash" for d
    using that by (cases d) (simp_all add: elems_def)
  moreover have "dropWhile (\<lambda>c. c \<noteq> slash) path = [] \<or> hd (dropWhile (\<lambda>c. c \<noteq> slash) path) = slash"
    using hd_dropWhile[of "\<lambda>c. c \<noteq> slash" path] by blast
  ultimately show ?thesis by (simp add: elems_def[of path] split_at_while[of _ path])
qed

lemma elems_empty: "(path \<noteq> [] \<Longrightarrow> hd path \<noteq> slash) \<Longrightarrow> path = [] \<longleftrightarrow> elems path = []"
proof (cases "path = []")
  case False
  assume "path \<noteq> [] \<Longrightarrow> hd path \<noteq> slash"
  from elems_next[OF False this[OF False]] have "elems path \<noteq> []" by (metis list.distinct(1))
  then show ?thesis using False by simp
qed simp

text \<open>
  \<open>skipelem\<close> takes the first element, cut to the size of the name buffer, and the rest starts
  with the next one.
\<close>

lemma cname_put_name:
  assumes "length name = DIRSIZ" "0 \<notin> set e"
  shows "cname (put_name e name) = take DIRSIZ e" "length (put_name e name) = DIRSIZ"
proof -
  have "takeWhile (\<lambda>c. c \<noteq> 0) xs = xs" if "set xs \<subseteq> set e" for xs
    using that assms(2) by (intro takeWhile_eq_all_conv[THEN iffD2]) auto
  note tw = this[of "take DIRSIZ e"] this[of e]
  have t: "set (take DIRSIZ e) \<subseteq> set e" by (rule set_take_subset)
  show "cname (put_name e name) = take DIRSIZ e"
  proof (cases "length e \<ge> DIRSIZ")
    case True
    then have "put_name e name = take DIRSIZ e" using assms(1) by (simp add: put_name_def blit_def)
    then show ?thesis by (simp only: cname_def tw(1)[OF t]) simp
  next
    case False
    have "takeWhile (\<lambda>c. c \<noteq> 0) (e @ 0 # ys) = e" for ys using assms(2) by (intro takeWhile_tail[THEN trans] tw(2)) auto
    then show ?thesis using False assms(1) by (simp add: put_name_def blit_def cname_def)
  qed
  show "length (put_name e name) = DIRSIZ" using assms(1) by (auto simp: put_name_def blit_def)
qed

lemma skipelem_elems:
  "case elems path of [] \<Rightarrow> skipelem path name = None
   | e # es \<Rightarrow> \<exists>rest. skipelem path name = Some (rest, put_name e name) \<and> elems rest = es \<and> (rest = [] \<longleftrightarrow> es = [])
       \<and> set rest \<subseteq> set path \<and> set e \<subseteq> set path \<and> length rest < length path"
proof -
  let ?p = "dropWhile (\<lambda>c. c = slash) path"
  let ?e = "takeWhile (\<lambda>c. c \<noteq> slash) ?p" and ?d = "dropWhile (\<lambda>c. c \<noteq> slash) ?p"
  let ?r = "dropWhile (\<lambda>c. c = slash) ?d"
  show ?thesis
  proof (cases "?p = []")
    case True
    then have "elems path = []" "skipelem path name = None"
      using elems_skip[of path] by (simp_all only: True elems_simps skipelem_def Let_def if_True)
    then show ?thesis by simp
  next
    case False
    have h: "hd ?p \<noteq> slash" using hd_dropWhile[of "\<lambda>c. c = slash" path] False by simp
    have e: "elems path = ?e # elems ?r"
      using elems_next[OF False h] elems_skip[of path] elems_skip[of ?d] by simp
    have dw: "set (dropWhile P xs) \<subseteq> set xs" and tw: "set (takeWhile P xs) \<subseteq> set xs" for P and xs :: "uchar list"
      by (auto dest: set_dropWhileD set_takeWhileD)
    have "skipelem path name = Some (?r, put_name ?e name)" using False by (simp add: skipelem_def Let_def)
    moreover have "?r = [] \<longleftrightarrow> elems ?r = []"
      by (rule elems_empty) (use hd_dropWhile[of "\<lambda>c. c = slash" ?d] in blast)
    moreover have "set ?r \<subseteq> set path" "set ?e \<subseteq> set path"
      by (intro subset_trans[OF dw] subset_refl) (intro subset_trans[OF tw] dw)
    moreover have "?e \<noteq> []" using False h by (cases ?p) simp_all
    then have "length ?d < length ?p" using arg_cong[OF takeWhile_dropWhile_id[of "\<lambda>c. c \<noteq> slash" ?p], of length]
      by (cases ?e) simp_all
    then have "length ?r < length path"
      using length_dropWhile_le[of "\<lambda>c. c = slash" ?d] length_dropWhile_le[of "\<lambda>c. c = slash" path] by linarith
    ultimately show ?thesis unfolding e by auto
  qed
qed

section \<open>Directories on disk\<close>

text \<open>An inode as the disk has it, and the blocks, bytes and entries of a file as an inode lists them.\<close>

definition din :: "'a fsst_scheme \<Rightarrow> uint \<Rightarrow> dinode" where
  "din s i = get_dinode i (disk_view s (IBLOCK i (fs_sb s)))"

definition dblock :: "(uint \<Rightarrow> block) \<Rightarrow> 'a dinode_scheme \<Rightarrow> nat \<Rightarrow> uint" where
  "dblock v d k = (if k < NDIRECT then d_addrs d ! k else field32 (k - NDIRECT) (v (d_addrs d ! NDIRECT)))"

definition dcontent :: "(uint \<Rightarrow> block) \<Rightarrow> 'a dinode_scheme \<Rightarrow> uchar list" where
  "dcontent v d = map (\<lambda>k. v (dblock v d (k div BSIZE)) ! (k mod BSIZE)) [0..<unat (d_size d)]"

definition dentries :: "(uint \<Rightarrow> block) \<Rightarrow> 'a dinode_scheme \<Rightarrow> dirent list" where
  "dentries v d = map (\<lambda>i. decode_dirent (take 16 (drop (16 * i) (dcontent v d)))) [0..<unat (d_size d) div 16]"

definition dmapped :: "(uint \<Rightarrow> block) \<Rightarrow> (uint \<Rightarrow> bool) \<Rightarrow> 'a dinode_scheme \<Rightarrow> bool" where
  "dmapped v h d \<longleftrightarrow> unat (d_size d) \<le> MAXFILE * BSIZE
     \<and> (\<forall>k. k * BSIZE < unat (d_size d) \<longrightarrow> dblock v d k \<noteq> 0 \<and> h (dblock v d k)
          \<and> (\<forall>j. j * BSIZE < unat (d_size d) \<longrightarrow> dblock v d j = dblock v d k \<longrightarrow> j = k)
          \<and> (NDIRECT * BSIZE < unat (d_size d) \<longrightarrow> dblock v d k \<noteq> d_addrs d ! NDIRECT))
     \<and> (NDIRECT * BSIZE < unat (d_size d) \<longrightarrow> d_addrs d ! NDIRECT \<noteq> 0 \<and> h (d_addrs d ! NDIRECT))"

text \<open>The cached inode says the same when it is a copy of the one on disk.\<close>

lemma cached_dinode:
  assumes "dinode_of (icache s ! ip) = d"
  shows "d_type (icache s ! ip) = d_type d" "d_nlink (icache s ! ip) = d_nlink d" "file_size s ip = unat (d_size d)"
    "entries s ip = dentries (disk_view s) d"
    "i_dev (icache s ! ip) = ROOTDEV \<Longrightarrow> mapped_file s ip \<longleftrightarrow> dmapped (disk_view s) (home s) d"
proof -
  show f: "d_type (icache s ! ip) = d_type d" "d_nlink (icache s ! ip) = d_nlink d" "file_size s ip = unat (d_size d)"
    using assms by (auto simp: dinode_of_def)
  have a: "d_addrs (icache s ! ip) = d_addrs d" using assms by (auto simp: dinode_of_def)
  have i: "indirect s ip = d_addrs d ! NDIRECT" by (simp add: indirect_def a)
  have b: "file_block s ip k = dblock (disk_view s) d k" for k by (simp add: file_block_def dblock_def i a)
  have c: "content s ip = dcontent (disk_view s) d" by (simp add: content_def dcontent_def file_byte_def b f)
  show "entries s ip = dentries (disk_view s) d" by (simp add: entries_def entry_def dentries_def c f)
  show "mapped_file s ip \<longleftrightarrow> dmapped (disk_view s) (home s) d" if "i_dev (icache s ! ip) = ROOTDEV"
    using that by (simp add: mapped_file_def dmapped_def b i f)
qed

text \<open>
  The directory tree: \<open>I\<close> is closed under the entries of its directories, and its inodes are in use
  and well formed.
\<close>

definition tree_ok :: "uint set \<Rightarrow> 'a fsst_scheme \<Rightarrow> bool" where
  "tree_ok I s \<longleftrightarrow> (\<forall>i\<in>I. home s (IBLOCK i (fs_sb s)) \<and> d_type (din s i) \<noteq> 0 \<and> d_nlink (din s i) \<noteq> 0
     \<and> (d_type (din s i) = T_DIR \<longrightarrow> dmapped (disk_view s) (home s) (din s i) \<and> 16 dvd unat (d_size (din s i))
          \<and> (\<forall>de\<in>set (dentries (disk_view s) (din s i)). de_inum de \<noteq> 0 \<longrightarrow> ucast (de_inum de) \<in> I)))"

text \<open>
  The walk along the elements of a path, over the disk alone. With \<open>parent\<close> it stops at the
  directory that would hold the last element.
\<close>

fun walk :: "(uint \<Rightarrow> dinode) \<Rightarrow> (uint \<Rightarrow> block) \<Rightarrow> bool \<Rightarrow> uint \<Rightarrow> uchar list list \<Rightarrow> uint option" where
  "walk D v parent i [] = (if parent then None else Some i)"
| "walk D v parent i (e # es) =
     (if d_type (D i) \<noteq> T_DIR then None
      else if parent \<and> es = [] then Some i
      else case find (names e) (dentries v (D i)) of
          None \<Rightarrow> None
        | Some de \<Rightarrow> walk D v parent (ucast (de_inum de)) es)"

section \<open>The cache\<close>

text \<open>
  Every valid entry in use is a copy of its inode on disk, and exactly the entries of \<open>L\<close> are
  locked.
\<close>

definition coherent :: "nat set \<Rightarrow> 'a fsst_scheme \<Rightarrow> bool" where
  "coherent L s \<longleftrightarrow> (\<forall>ip < length (icache s). let n = icache s ! ip in
     (sl_locked (i_lock n) \<longleftrightarrow> ip \<in> L) \<and> 0 \<le> i_ref n
     \<and> (0 < i_ref n \<longrightarrow> i_dev n = ROOTDEV \<and> (i_flags n AND I_VALID \<noteq> 0 \<longrightarrow> dinode_of n = din s (i_inum n))))"

text \<open>Only the cache changes.\<close>

definition disk_same :: "'a fsst_scheme \<Rightarrow> 'a fsst_scheme \<Rightarrow> bool" where
  "disk_same s t \<longleftrightarrow> disk_view t = disk_view s \<and> home t = home s \<and> fs_sb t = fs_sb s \<and> length (icache t) = length (icache s)"

lemma disk_same_refl [simp]: "disk_same s s" by (simp add: disk_same_def)

lemma disk_same_trans [trans]: "disk_same s t \<Longrightarrow> disk_same t u \<Longrightarrow> disk_same s u" by (simp add: disk_same_def)

lemma disk_sameD:
  assumes "disk_same s t"
  shows "din t = din s" "tree_ok I t = tree_ok I s" "disk_view t = disk_view s" "home t = home s" "fs_sb t = fs_sb s"
    "length (icache t) = length (icache s)"
proof -
  show d: "disk_view t = disk_view s" "home t = home s" "fs_sb t = fs_sb s" "length (icache t) = length (icache s)"
    using assms by (simp_all add: disk_same_def)
  show i: "din t = din s" by (rule ext) (simp add: din_def d)
  show "tree_ok I t = tree_ok I s" by (simp add: tree_ok_def d i)
qed

lemma fs_same_disk: "fs_same s t \<Longrightarrow> disk_same s t"
  using fs_sameD[of s t] by (simp add: fs_same_def disk_same_def)

lemma disk_same_upd [simp]: "disk_same s (upd_inode ip f s)" by (simp add: disk_same_def)

lemma coherent_same: "disk_same s t \<Longrightarrow> icache t = icache s \<Longrightarrow> coherent L t = coherent L s"
  by (simp add: coherent_def disk_sameD)

text \<open>One entry changes.\<close>

lemma coherent_upd:
  assumes "coherent L s" "ip < length (icache s)" "disk_same s t" "icache t = (icache s)[ip := n]"
    and "sl_locked (i_lock n) \<longleftrightarrow> ip \<in> M" "M - {ip} = L - {ip}" "0 \<le> i_ref n"
    and "0 < i_ref n \<Longrightarrow> i_dev n = ROOTDEV" "0 < i_ref n \<Longrightarrow> i_flags n AND I_VALID \<noteq> 0 \<Longrightarrow> dinode_of n = din s (i_inum n)"
  shows "coherent M t"
proof -
  have "j \<in> M \<longleftrightarrow> j \<in> L" if "j \<noteq> ip" for j using assms(6) that by blast
  then show ?thesis using assms(1-5,7-9) by (auto simp: coherent_def disk_sameD nth_list_update Let_def)
qed

section \<open>Locking and putting\<close>

lemma tree_okD:
  assumes "tree_ok I s" "i \<in> I"
  shows "home s (IBLOCK i (fs_sb s))" "d_type (din s i) \<noteq> 0" "d_nlink (din s i) \<noteq> 0"
  using assms by (simp_all add: tree_ok_def)

lemma valid_or [simp]: "(f OR I_VALID) AND I_VALID \<noteq> (0 :: uint)"
proof
  assume "(f OR I_VALID) AND I_VALID = 0"
  then have "bit ((f OR I_VALID) AND I_VALID) 1 = bit (0 :: uint) 1" by (rule arg_cong)
  then show False by (simp only: bit_and_iff bit_or_iff bit_2_iff) simp
qed

lemma ilock_tree:
  fixes s :: "'a fsst_scheme"
  assumes t: "in_txn (Suc k) s" "k_rw E = iderw" and c: "coherent L s" "ip < length (icache s)" "ip \<notin> L" "0 < i_ref (icache s ! ip)"
    and o: "tree_ok I s" "i_inum (icache s ! ip) \<in> I"
  obtains u n where "ilock E (Some ip) s = Inr u" "in_txn (Suc k) u" "disk_same s u" "icache u = (icache s)[ip := n]"
    "i_ref n = i_ref (icache s ! ip)" "i_inum n = i_inum (icache s ! ip)" "i_dev n = ROOTDEV"
    "dinode_of n = din s (i_inum n)" "coherent (insert ip L) u"
proof -
  let ?n = "icache s ! ip"
  let ?lk = "(i_lock ?n)\<lparr>sl_locked := True, sl_pid := curpid s\<rparr>"
  have n: "\<not> sl_locked (i_lock ?n)" "i_dev ?n = ROOTDEV" "i_flags ?n AND I_VALID \<noteq> 0 \<Longrightarrow> dinode_of ?n = din s (i_inum ?n)"
    using c by (auto simp: coherent_def Let_def)
  note T = tree_okD[OF o]
  define s1 where "s1 = upd_inode ip (\<lambda>n. n\<lparr>i_lock := ?lk\<rparr>) s"
  have a: "acquiresleep (L_inode ip) (Ch_inode ip) (i_lock ?n) s = Inr (?lk, s)"
    using n(1) in_txn_held[OF t(1)] by simp
  have s1: "in_txn (Suc k) s1" "icache s1 = (icache s)[ip := ?n\<lparr>i_lock := ?lk\<rparr>]" "fs_sb s1 = fs_sb s" "home s1 = home s"
    "disk_view s1 = disk_view s" "disk_same s s1"
    using t(1) by (simp_all add: s1_def)
  show thesis
  proof (cases "i_flags ?n AND I_VALID = 0")
    case False
    then have "ilock E (Some ip) s = Inr s1" using a c by (simp add: ilock_def s1_def)
    moreover have "coherent (insert ip L) s1" by (rule coherent_upd[OF c(1,2) s1(6,2)]) (use c n False in \<open>auto simp: dinode_of_def\<close>)
    ultimately show thesis using that[OF _ s1(1,6,2)] n(2,3) False by (simp add: dinode_of_def)
  next
    case True
    let ?b = "IBLOCK (i_inum ?n) (fs_sb s)"
    note R = in_txn_room[OF s1(1), of "{}" k, simplified]
    obtain i v where V: "bread iderw ROOTDEV ?b s1 = Inr (i, v)" "room {} k v" "locked_bufs v = {i}"
      "owns v i ?b (disk_view s1 ?b)" "disk_view v = disk_view s1" "home v = home s1" "logst.more v = logst.more s1"
      "b_dirty (bufs v i) \<or> disk_view s1 ?b = memdisk v ?b"
      by (rule room_take[OF R]) (use T(1) s1(4) in simp)
    note fv = fs_more[OF V(7)]
    define v2 where "v2 = upd_inode ip (load_dinode (din s (i_inum ?n))) v"
    have v2: "room {} k v2" "locked_bufs v2 = {i}" "owns v2 i ?b (disk_view s1 ?b)"
      "b_dirty (bufs v2 i) \<or> disk_view s1 ?b = memdisk v2 ?b"
      using V by (simp_all add: v2_def owns_def)
    obtain w where W: "brelse i v2 = Inr w" "room {} k w" "locked_bufs w = {}" "disk_view w = disk_view v2" "home w = home v2"
      "logst.more w = logst.more v2"
      by (rule room_return[OF v2])
    note fw = fs_more[OF W(6)]
    define u where "u = upd_inode ip (\<lambda>n. n\<lparr>i_flags := i_flags n OR I_VALID\<rparr>) w"
    define m where "m = (load_dinode (din s (i_inum ?n)) (?n\<lparr>i_lock := ?lk\<rparr>))\<lparr>i_flags := i_flags ?n OR I_VALID\<rparr>"
    have u: "icache u = (icache s)[ip := m]" "in_txn (Suc k) u" "disk_same s u"
      using W V(5,6) s1 c(2) room_in_txn[OF W(2,3)] fv fw
      by (simp_all add: u_def v2_def m_def disk_same_def) (simp add: load_dinode_def)
    have m: "i_ref m = i_ref ?n" "i_inum m = i_inum ?n" "i_dev m = ROOTDEV" "dinode_of m = din s (i_inum ?n)" "sl_locked (i_lock m)"
      using n(2) by (simp_all add: m_def load_dinode_def dinode_of_def)
    have "b_data (bufs v i) = disk_view s ?b" using V(4) s1(5) by (simp add: owns_def)
    then have "ilock E (Some ip) s = Inr u"
      using a c(2,4) True T(2) V(1) W(1) u(1) t(2) s1(2,3) n(2) fv m
      by (simp add: ilock_def Let_def din_def u_def v2_def flip: s1_def) (simp add: m_def load_dinode_def din_def)
    moreover have "coherent (insert ip L) u" by (rule coherent_upd[OF c(1,2) u(3,1)]) (use c m in auto)
    ultimately show thesis using that u m by simp
  qed
qed

lemma iunlock_tree:
  fixes s :: "'a fsst_scheme"
  assumes t: "in_txn k s" and c: "coherent L s" "ip < length (icache s)" "ip \<in> L" "0 < i_ref (icache s ! ip)"
  obtains u n where "iunlock (Some ip) s = Inr u" "in_txn k u" "disk_same s u" "icache u = (icache s)[ip := n]"
    "i_ref n = i_ref (icache s ! ip)" "i_inum n = i_inum (icache s ! ip)" "coherent (L - {ip}) u"
proof -
  let ?n = "icache s ! ip"
  let ?lk = "(i_lock ?n)\<lparr>sl_locked := False, sl_pid := 0\<rparr>"
  have n: "sl_locked (i_lock ?n)" "i_dev ?n = ROOTDEV" "i_flags ?n AND I_VALID \<noteq> 0 \<Longrightarrow> dinode_of ?n = din s (i_inum ?n)"
    using c by (auto simp: coherent_def Let_def)
  define u where "u = upd_inode ip (\<lambda>n. n\<lparr>i_lock := ?lk\<rparr>) (wakeup1 (Ch_inode ip) s)"
  have u: "iunlock (Some ip) s = Inr u" using n(1) c(4) in_txn_held[OF t] by (simp add: iunlock_def u_def)
  have v: "icache u = (icache s)[ip := ?n\<lparr>i_lock := ?lk\<rparr>]" "in_txn k u" "disk_same s u" using t by (simp_all add: u_def disk_same_def)
  have "coherent (L - {ip}) u" by (rule coherent_upd[OF c(1,2) v(3,1)]) (use n c in \<open>auto simp: dinode_of_def\<close>)
  then show thesis using that[OF u v(2,3,1)] by simp
qed

lemma iput_tree:
  fixes s :: "'a fsst_scheme"
  assumes t: "in_txn k s" and c: "coherent L s" "ip < length (icache s)" "ip \<notin> L" "0 < i_ref (icache s ! ip)"
    and o: "tree_ok I s" "i_inum (icache s ! ip) \<in> I"
  obtains u n where "iput E ip s = Inr u" "in_txn k u" "disk_same s u" "icache u = (icache s)[ip := n]"
    "i_ref n = i_ref (icache s ! ip) - 1" "i_inum n = i_inum (icache s ! ip)" "coherent L u"
proof -
  let ?n = "icache s ! ip"
  have n: "\<not> sl_locked (i_lock ?n)" "i_dev ?n = ROOTDEV" "i_flags ?n AND I_VALID \<noteq> 0 \<Longrightarrow> dinode_of ?n = din s (i_inum ?n)"
    using c by (auto simp: coherent_def Let_def)
  have nl: "\<not> (i_ref ?n = 1 \<and> i_flags ?n AND I_VALID \<noteq> 0 \<and> d_nlink ?n = 0)"
  proof
    assume a: "i_ref ?n = 1 \<and> i_flags ?n AND I_VALID \<noteq> 0 \<and> d_nlink ?n = 0"
    then have "d_nlink (din s (i_inum ?n)) = 0" using cached_dinode(2)[of s ip] n(3) by simp
    then show False using tree_okD(3)[OF o] by simp
  qed
  define u where "u = upd_inode ip (\<lambda>n. n\<lparr>i_ref := i_ref n - 1\<rparr>) s"
  have h: "held s = {}" by (rule in_txn_held(1)[OF t])
  then have "s\<lparr>held := {}\<rparr> = s" by simp
  then have "iput E ip s = Inr u"
    using h by (simp add: iput_def Let_def u_def release_def upd_inode_def nl[THEN eq_False[THEN iffD2]])
  moreover have v: "icache u = (icache s)[ip := ?n\<lparr>i_ref := i_ref ?n - 1\<rparr>]" "in_txn k u" "disk_same s u" using t by (simp_all add: u_def)
  moreover have "coherent L u" by (rule coherent_upd[OF c(1,2) v(3,1)]) (use n c in \<open>auto simp: dinode_of_def\<close>)
  ultimately show thesis using that[OF _ v(2,3,1)] by simp
qed

lemma iunlockput_tree:
  fixes s :: "'a fsst_scheme"
  assumes t: "in_txn k s" and c: "coherent {ip} s" "ip < length (icache s)" "0 < i_ref (icache s ! ip)"
    and o: "tree_ok I s" "i_inum (icache s ! ip) \<in> I"
  obtains u where "iunlockput E ip s = Inr u" "in_txn k u" "disk_same s u" "coherent {} u"
    "\<And>j. j < length (icache s) \<Longrightarrow> i_ref (icache u ! j) = i_ref (icache s ! j) - (if j = ip then 1 else 0)"
    "\<And>j. j < length (icache s) \<Longrightarrow> i_inum (icache u ! j) = i_inum (icache s ! j)"
proof -
  obtain v m where V: "iunlock (Some ip) s = Inr v" "in_txn k v" "disk_same s v" "icache v = (icache s)[ip := m]"
    "i_ref m = i_ref (icache s ! ip)" "i_inum m = i_inum (icache s ! ip)" "coherent ({ip} - {ip}) v"
    by (rule iunlock_tree[OF t c(1,2) _ c(3)]) auto
  have i: "ip < length (icache v)" "0 < i_ref (icache v ! ip)" "i_inum (icache v ! ip) \<in> I" "tree_ok I v" "coherent {} v"
    using V c(2,3) o disk_sameD[OF V(3)] by simp_all
  obtain u n where U: "iput E ip v = Inr u" "in_txn k u" "disk_same v u" "icache u = (icache v)[ip := n]"
    "i_ref n = i_ref (icache v ! ip) - 1" "i_inum n = i_inum (icache v ! ip)" "coherent {} u"
    by (rule iput_tree[OF V(2) i(5,1) _ i(2,4,3)]) auto
  have "iunlockput E ip s = Inr u" using V(1) U(1) by (simp add: iunlockput_def)
  then show thesis
    using that U(2,7) disk_same_trans[OF V(3) U(3)] U(4-6) V(4-6) c(2) by (simp add: nth_list_update)
qed

text \<open>A reference to an inode of the tree is taken.\<close>

lemma iget_tree:
  fixes s :: "'a fsst_scheme"
  assumes t: "in_txn k s" and c: "coherent L s" and f: "j < length (icache s)" "i_ref (icache s ! j) = 0"
  obtains ip u where "iget ROOTDEV inum s = Inr (ip, u)" "in_txn k u" "disk_same s u" "coherent L u"
    "ip < length (icache s)" "i_inum (icache u ! ip) = inum"
    "\<And>j. j < length (icache s) \<Longrightarrow> i_ref (icache u ! j) = i_ref (icache s ! j) + (if j = ip then 1 else 0)"
    "\<And>j. j < length (icache s) \<Longrightarrow> 0 < i_ref (icache s ! j) \<Longrightarrow> i_inum (icache u ! j) = i_inum (icache s ! j)"
proof -
  obtain ip u where U: "iget ROOTDEV inum s = Inr (ip, u)" "placed ROOTDEV inum s ip u"
    using iget_placed[OF in_txn_held(1)[OF t], of ROOTDEV inum] f by (auto split: if_splits)
  have ip: "ip < length (icache s)" using U(2) by (simp add: placed_def)
  have u: "u = upd_inode ip (\<lambda>_. icache u ! ip) s" using U(2) by (simp add: placed_def upd_inode_def)
  have d: "in_txn k u" "disk_same s u" by (subst u, simp add: t)+
  have ic: "icache u = (icache s)[ip := icache u ! ip]" by (subst u) simp
  have n: "(sl_locked (i_lock (icache s ! ip)) \<longleftrightarrow> ip \<in> L)" "0 \<le> i_ref (icache s ! ip)"
    "0 < i_ref (icache s ! ip) \<Longrightarrow> i_dev (icache s ! ip) = ROOTDEV \<and>
       (i_flags (icache s ! ip) AND I_VALID \<noteq> 0 \<longrightarrow> dinode_of (icache s ! ip) = din s (i_inum (icache s ! ip)))"
    using c ip by (auto simp: coherent_def Let_def)
  have m: "i_lock (icache u ! ip) = i_lock (icache s ! ip)" "i_ref (icache u ! ip) = i_ref (icache s ! ip) + 1"
    "i_dev (icache u ! ip) = ROOTDEV" "i_inum (icache u ! ip) = inum"
    "0 < i_ref (icache s ! ip) \<Longrightarrow> i_inum (icache s ! ip) = inum"
    "i_flags (icache u ! ip) AND I_VALID \<noteq> 0 \<Longrightarrow> dinode_of (icache u ! ip) = din s inum"
    using U(2) n(3) by (auto simp: placed_def iget_hit_def dinode_of_def split: if_splits)
  have "coherent L u" by (rule coherent_upd[OF c ip d(2) ic]) (use n m in auto)
  moreover have "i_ref (icache u ! j) = i_ref (icache s ! j) + (if j = ip then 1 else 0)" if "j < length (icache s)" for j
    using that m(2) by (subst ic) (simp add: nth_list_update)
  moreover have "i_inum (icache u ! j) = i_inum (icache s ! j)" if "j < length (icache s)" "0 < i_ref (icache s ! j)" for j
    using that m(4,5) ip by (subst ic) (cases "j = ip"; simp)
  ultimately show thesis using that[OF U(1) d _ ip m(4)] by blast
qed

section \<open>The walk\<close>

text \<open>
  \<open>namex\<close> holds a reference to \<open>ip\<close>, an inode of the tree, besides the references that were there
  before (\<open>r\<close>); two entries of the cache were not in use, so one still is not.
\<close>

definition counts :: "(nat \<Rightarrow> int) \<Rightarrow> nat \<Rightarrow> 'a fsst_scheme \<Rightarrow> bool" where
  "counts r ip s \<longleftrightarrow> (\<forall>j < length (icache s). 0 \<le> r j \<and> i_ref (icache s ! j) = r j + (if j = ip then 1 else 0))
     \<and> (\<exists>a b. a \<noteq> b \<and> a < length (icache s) \<and> b < length (icache s) \<and> r a = 0 \<and> r b = 0)"

definition at_inode :: "uint set \<Rightarrow> (nat \<Rightarrow> int) \<Rightarrow> nat \<Rightarrow> nat \<Rightarrow> 'a fsst_scheme \<Rightarrow> bool" where
  "at_inode I r k ip s \<longleftrightarrow> in_txn (Suc k) s \<and> coherent {} s \<and> tree_ok I s \<and> ip < length (icache s) \<and> i_inum (icache s ! ip) \<in> I
     \<and> counts r ip s"

definition at_locked :: "uint set \<Rightarrow> (nat \<Rightarrow> int) \<Rightarrow> nat \<Rightarrow> nat \<Rightarrow> 'a fsst_scheme \<Rightarrow> bool" where
  "at_locked I r k ip s \<longleftrightarrow> in_txn (Suc k) s \<and> coherent {ip} s \<and> tree_ok I s \<and> ip < length (icache s) \<and> i_inum (icache s ! ip) \<in> I
     \<and> counts r ip s \<and> i_dev (icache s ! ip) = ROOTDEV \<and> dinode_of (icache s ! ip) = din s (i_inum (icache s ! ip))"

definition at_none :: "(nat \<Rightarrow> int) \<Rightarrow> nat \<Rightarrow> 'a fsst_scheme \<Rightarrow> bool" where
  "at_none r k s \<longleftrightarrow> in_txn (Suc k) s \<and> coherent {} s \<and> (\<forall>j < length (icache s). i_ref (icache s ! j) = r j)"

lemma counts_pos: "counts r ip s \<Longrightarrow> ip < length (icache s) \<Longrightarrow> 0 < i_ref (icache s ! ip)"
  by (fastforce simp: counts_def)

lemma counts_ref: "counts r ip s \<Longrightarrow> j < length (icache s) \<Longrightarrow> i_ref (icache s ! j) = r j + (if j = ip then 1 else 0)"
  by (simp add: counts_def)

lemma counts_same:
  assumes "counts r ip s" "length (icache t) = length (icache s)"
    and "\<And>j. j < length (icache s) \<Longrightarrow> i_ref (icache t ! j) = i_ref (icache s ! j) + (if j = q then 1 else 0) - (if j = ip then 1 else 0)"
  shows "counts r q t"
  using assms by (simp add: counts_def)

lemma at_inodeD:
  assumes "at_inode I r k ip s"
  shows "in_txn (Suc k) s" "coherent {} s" "ip < length (icache s)" "0 < i_ref (icache s ! ip)" "tree_ok I s"
    "i_inum (icache s ! ip) \<in> I" "counts r ip s"
  using assms counts_pos[of r ip s] by (simp_all add: at_inode_def)

lemma at_lockedD:
  assumes "at_locked I r k ip s"
  shows "in_txn (Suc k) s" "coherent {ip} s" "ip < length (icache s)" "0 < i_ref (icache s ! ip)" "tree_ok I s"
    "i_inum (icache s ! ip) \<in> I" "counts r ip s" "i_dev (icache s ! ip) = ROOTDEV"
    "dinode_of (icache s ! ip) = din s (i_inum (icache s ! ip))"
  using assms counts_pos[of r ip s] by (simp_all add: at_locked_def)

lemma counts_free:
  assumes "counts r ip s"
  obtains b where "b < length (icache s)" "b \<noteq> ip" "i_ref (icache s ! b) = 0"
proof -
  obtain a b where ab: "a \<noteq> b" "a < length (icache s)" "b < length (icache s)" "r a = 0" "r b = 0"
    using assms unfolding counts_def by blast
  then show thesis
    using that[of a] that[of b] counts_ref[OF assms, of a] counts_ref[OF assms, of b] by (cases "a = ip") auto
qed

lemma find_entry: "find P xs = map_option ((!) xs) (find (\<lambda>j. P (xs ! j)) [0..<length xs])"
proof -
  have "find P (map f ys) = map_option f (find (\<lambda>j. P (f j)) ys)" for f :: "nat \<Rightarrow> 'a" and ys by (induction ys) simp_all
  from this[of "(!) xs" "[0..<length xs]"] show ?thesis by (simp add: map_nth)
qed

text \<open>Locking and unlocking the inode of the walk, and giving it up.\<close>

lemma lock_at:
  fixes s :: "'a fsst_scheme"
  assumes "at_inode I r k ip s" "k_rw E = iderw"
  obtains u where "ilock E (Some ip) s = Inr u" "at_locked I r k ip u" "disk_same s u"
    "i_inum (icache u ! ip) = i_inum (icache s ! ip)"
proof -
  note A = at_inodeD[OF assms(1)]
  obtain u n where U: "ilock E (Some ip) s = Inr u" "in_txn (Suc k) u" "disk_same s u" "icache u = (icache s)[ip := n]"
    "i_ref n = i_ref (icache s ! ip)" "i_inum n = i_inum (icache s ! ip)" "i_dev n = ROOTDEV"
    "dinode_of n = din s (i_inum n)" "coherent {ip} u"
    by (rule ilock_tree[OF A(1) assms(2) A(2,3) _ A(4-6)]) auto
  have "counts r ip u" by (rule counts_same[OF A(7)]) (use U(4,5) A(3) in \<open>simp_all add: nth_list_update\<close>)
  then have "at_locked I r k ip u" using U A disk_sameD[OF U(3)] by (simp add: at_locked_def)
  then show thesis using that U(1,3,4,6) A(3) by simp
qed

lemma unlock_at:
  fixes s :: "'a fsst_scheme"
  assumes "at_locked I r k ip s"
  obtains u where "iunlock (Some ip) s = Inr u" "at_inode I r k ip u" "disk_same s u" "i_inum (icache u ! ip) = i_inum (icache s ! ip)"
proof -
  note A = at_lockedD[OF assms]
  obtain u m where U: "iunlock (Some ip) s = Inr u" "in_txn (Suc k) u" "disk_same s u" "icache u = (icache s)[ip := m]"
    "i_ref m = i_ref (icache s ! ip)" "i_inum m = i_inum (icache s ! ip)" "coherent ({ip} - {ip}) u"
    by (rule iunlock_tree[OF A(1-3) _ A(4)]) auto
  have "counts r ip u" by (rule counts_same[OF A(7)]) (use U(4,5) A(3) in \<open>simp_all add: nth_list_update\<close>)
  then have "at_inode I r k ip u" using U A disk_sameD[OF U(3)] by (simp add: at_inode_def)
  then show thesis using that U(1,3,4,6) A(3) by simp
qed

lemma iput_at:
  fixes s :: "'a fsst_scheme"
  assumes "at_inode I r k ip s"
  obtains t where "iput E ip s = Inr t" "at_none r k t" "disk_same s t"
proof -
  note A = at_inodeD[OF assms]
  obtain t n where T: "iput E ip s = Inr t" "in_txn (Suc k) t" "disk_same s t" "icache t = (icache s)[ip := n]"
    "i_ref n = i_ref (icache s ! ip) - 1" "coherent {} t"
    by (rule iput_tree[OF A(1-3) _ A(4-6)]) auto
  have "at_none r k t" using T(2,4-6) A(3) counts_ref[OF A(7)] by (auto simp: at_none_def nth_list_update)
  then show thesis using that T(1,3) by blast
qed

lemma put_at:
  fixes s :: "'a fsst_scheme"
  assumes "at_locked I r k ip s"
  obtains t where "iunlockput E ip s = Inr t" "at_none r k t" "disk_same s t"
proof -
  obtain u where u: "iunlock (Some ip) s = Inr u" "at_inode I r k ip u" "disk_same s u" by (rule unlock_at[OF assms])
  obtain t where "iput E ip u = Inr t" "at_none r k t" "disk_same u t" by (rule iput_at[OF u(2)])
  then show thesis using that u(1) disk_same_trans[OF u(3)] by (simp add: iunlockput_def)
qed

text \<open>The locked directory is searched and given up for the inode that was found.\<close>

lemma dirlookup_at:
  fixes u :: "'a fsst_scheme"
  assumes a: "at_locked I r k ip u" and E: "k_rw E = iderw" and d: "d_type (icache u ! ip) = T_DIR"
  obtains v where "dirlookup E ip name u = Inr (None, v)" "find (names name) (dentries (disk_view u) (din u (i_inum (icache u ! ip)))) = None"
      "at_locked I r k ip v" "disk_same u v"
  | de q off v w where "dirlookup E ip name u = Inr (Some (q, off), v)" "iunlockput E ip v = Inr w"
      "find (names name) (dentries (disk_view u) (din u (i_inum (icache u ! ip)))) = Some de"
      "at_inode I r k q w" "disk_same u w" "i_inum (icache w ! q) = ucast (de_inum de)"
proof -
  note A = at_lockedD[OF a]
  let ?i = "i_inum (icache u ! ip)"
  let ?ds = "dentries (disk_view u) (din u ?i)"
  note D = cached_dinode[OF A(9)]
  have m: "mapped_file u ip" "16 dvd file_size u ip" "entries u ip = ?ds"
    using D(1,3,5) A(5,6,8) d D(4) by (simp_all add: tree_ok_def)
  obtain t where T: "in_txn (Suc k) t" "fs_same u t" "held t = {}" "dirlookup E ip name u =
    (case find (\<lambda>j. names name (entries u ip ! j)) [0..<length (entries u ip)] of None \<Rightarrow> Inr (None, t)
     | Some j \<Rightarrow> bind_res (iget (i_dev (icache u ! ip)) (ucast (de_inum (entries u ip ! j))) t)
         (\<lambda>(ip, s). Inr (Some (ip, of_nat (16 * j)), s)))"
    by (rule dirlookup_entries[OF A(1) E m(1,2) d])
  note ds = fs_same_disk[OF T(2)] and ict = fs_sameD(1)[OF T(2)]
  note dd = disk_sameD[OF ds]
  have ct: "coherent {ip} t" using coherent_same[OF ds ict] A(2) by simp
  show thesis
  proof (cases "find (\<lambda>j. names name (?ds ! j)) [0..<length ?ds]")
    case None
    have "at_locked I r k ip t" using T(1) ct A dd ict counts_same[OF A(7), of t ip] by (simp add: at_locked_def)
    then show thesis by (intro that(1)[OF _ _ _ ds]) (use T(4) None m(3) find_entry[of "names name" ?ds] in simp_all)
  next
    case (Some j)
    then have j: "j < length ?ds" "names name (?ds ! j)" by (simp_all add: find_upt_iff)
    let ?de = "?ds ! j"
    have di: "ucast (de_inum ?de) \<in> I" using A(5,6) d j D(1) by (auto simp: tree_ok_def names_def)
    obtain b where b: "b < length (icache u)" "b \<noteq> ip" "i_ref (icache u ! b) = 0" by (rule counts_free[OF A(7)])
    then have bt: "b < length (icache t)" "i_ref (icache t ! b) = 0" using ict by simp_all
    obtain q v where V: "iget ROOTDEV (ucast (de_inum ?de)) t = Inr (q, v)" "in_txn (Suc k) v" "disk_same t v" "coherent {ip} v"
      "q < length (icache t)" "i_inum (icache v ! q) = ucast (de_inum ?de)"
      "\<And>j. j < length (icache t) \<Longrightarrow> i_ref (icache v ! j) = i_ref (icache t ! j) + (if j = q then 1 else 0)"
      "\<And>j. j < length (icache t) \<Longrightarrow> 0 < i_ref (icache t ! j) \<Longrightarrow> i_inum (icache v ! j) = i_inum (icache t ! j)"
      by (rule iget_tree[OF T(1) ct bt, where inum = "ucast (de_inum ?de)"]) (rule that)
    note dv = disk_sameD[OF disk_same_trans[OF ds V(3)]]
    have iv: "ip < length (icache v)" "0 < i_ref (icache v ! ip)" "tree_ok I v" "i_inum (icache v ! ip) \<in> I"
      using A(3-6) V(7,8)[of ip] ict dv by (simp_all, simp split: if_splits)
    obtain w where W: "iunlockput E ip v = Inr w" "in_txn (Suc k) w" "disk_same v w" "coherent {} w"
      "\<And>j. j < length (icache v) \<Longrightarrow> i_ref (icache w ! j) = i_ref (icache v ! j) - (if j = ip then 1 else 0)"
      "\<And>j. j < length (icache v) \<Longrightarrow> i_inum (icache w ! j) = i_inum (icache v ! j)"
      by (rule iunlockput_tree[OF V(2,4) iv]) blast
    have uw: "disk_same u w" by (rule disk_same_trans[OF disk_same_trans[OF ds V(3)] W(3)])
    note dw = disk_sameD[OF uw]
    have iq: "i_inum (icache w ! q) = ucast (de_inum ?de)" using W(6)[of q] V(5,6) dv ict by simp
    have "counts r q w" by (rule counts_same[OF A(7)]) (use W(5) V(7) ict dv dw in simp_all)
    then have "at_inode I r k q w" using W(2,4) V(5) A(5) di dw iq ict by (simp add: at_inode_def)
    moreover have "dirlookup E ip name u = Inr (Some (q, of_nat (16 * j)), v)" using T(4) Some m(3) V(1) A(8) by simp
    moreover have "find (names name) ?ds = Some ?de" using Some find_entry[of "names name" ?ds] by simp
    ultimately show thesis using that(2) W(1) uw iq by blast
  qed
qed

declare namex_loop.simps [simp del]

lemma names_put_name:
  assumes "length name = DIRSIZ" "0 \<notin> set e"
  shows "names (put_name e name) = names e"
proof -
  have tw: "takeWhile (\<lambda>c. c \<noteq> 0) e = e" using assms(2) by (intro takeWhile_eq_all_conv[THEN iffD2]) auto
  have "cname e = take DIRSIZ e" by (simp only: cname_def tw)
  then show ?thesis using cname_put_name(1)[OF assms] by (simp add: names_def fun_eq_iff)
qed

text \<open>What a walk returns: a reference more to the inode it reaches, or no reference.\<close>

definition reached :: "uint set \<Rightarrow> (nat \<Rightarrow> int) \<Rightarrow> nat \<Rightarrow> bool \<Rightarrow> uchar list list \<Rightarrow> 'a fsst_scheme \<Rightarrow> uint option \<Rightarrow>
    (nat option \<times> uchar list \<times> 'a fsst_scheme) res \<Rightarrow> bool" where
  "reached I r k parent es s w res \<longleftrightarrow> (case w of
     None \<Rightarrow> \<exists>nm t. res = Inr (None, nm, t) \<and> at_none r k t \<and> disk_same s t
   | Some i \<Rightarrow> \<exists>q nm t. res = Inr (Some q, nm, t) \<and> at_inode I r k q t \<and> disk_same s t \<and> i_inum (icache t ! q) = i
       \<and> (parent \<longrightarrow> cname nm = take DIRSIZ (last es)))"

text \<open>No element is left.\<close>

lemma namex_end:
  fixes s :: "'a fsst_scheme"
  assumes "at_inode I r k ip s" "elems path = []"
  shows "reached I r k parent (elems path) s (walk (din s) (disk_view s) parent (i_inum (icache s ! ip)) (elems path))
    (namex_loop fuel E parent ip path name s)"
proof -
  have sk: "skipelem path name = None" using skipelem_elems[of path name] assms(2) by simp
  obtain t where t: "iput E ip s = Inr t" "at_none r k t" "disk_same s t" by (rule iput_at[OF assms(1)])
  show ?thesis using t assms by (subst namex_loop.simps) (simp add: sk reached_def)
qed

lemma reached_later:
  assumes "reached I r k parent es t w res" "disk_same s t" "parent \<Longrightarrow> last fs = last es"
  shows "reached I r k parent fs s w res"
proof (cases w)
  case None
  then show ?thesis using assms(1) disk_same_trans[OF assms(2)] by (auto simp: reached_def)
next
  case (Some i)
  then obtain q nm u where "res = Inr (Some q, nm, u)" "at_inode I r k q u" "disk_same t u" "i_inum (icache u ! q) = i"
    "parent \<longrightarrow> cname nm = take DIRSIZ (last es)"
    using assms(1) by (auto simp: reached_def)
  then show ?thesis using Some assms(3) disk_same_trans[OF assms(2)] by (auto simp: reached_def)
qed

text \<open>One turn of the loop, for the first element.\<close>

lemma namex_turn:
  assumes a: "at_inode I r k ip s" "k_rw E = iderw" and R: "skipelem path name = Some (rest, nm)" "rest = [] \<longleftrightarrow> es = []"
    and nm: "cname nm = take DIRSIZ e" "names nm = names e"
    and IH: "\<And>q w. at_inode I r k q w \<Longrightarrow> reached I r k parent es w
      (walk (din w) (disk_view w) parent (i_inum (icache w ! q)) es) (namex_loop fuel E parent q rest nm w)"
  shows "reached I r k parent (e # es) s (walk (din s) (disk_view s) parent (i_inum (icache s ! ip)) (e # es))
    (namex_loop (Suc fuel) E parent ip path name s)"
proof -
  obtain u where U: "ilock E (Some ip) s = Inr u" "at_locked I r k ip u" "disk_same s u" "i_inum (icache u ! ip) = i_inum (icache s ! ip)"
    by (rule lock_at[OF a])
  note du = disk_sameD[OF U(3)]
  have ty: "d_type (icache u ! ip) = d_type (din s (i_inum (icache s ! ip)))"
    using cached_dinode(1)[OF at_lockedD(9)[OF U(2)]] U(4) du by simp
  consider "d_type (icache u ! ip) \<noteq> T_DIR" | "d_type (icache u ! ip) = T_DIR" "parent \<and> rest = []"
    | "d_type (icache u ! ip) = T_DIR" "\<not> (parent \<and> rest = [])" by blast
  then show ?thesis
  proof cases
    case 1
    obtain t where t: "iunlockput E ip u = Inr t" "at_none r k t" "disk_same u t" by (rule put_at[OF U(2)])
    show ?thesis
      using 1 t U(1) R(1) ty disk_same_trans[OF U(3) t(3)] by (subst namex_loop.simps) (simp add: reached_def)
  next
    case 2
    obtain v where V: "iunlock (Some ip) u = Inr v" "at_inode I r k ip v" "disk_same u v" "i_inum (icache v ! ip) = i_inum (icache u ! ip)"
      by (rule unlock_at[OF U(2)])
    show ?thesis
      using 2 V U(1,4) R ty nm(1) disk_same_trans[OF U(3) V(3)] by (subst namex_loop.simps) (simp add: reached_def)
  next
    case 3
    have np: "(parent \<and> es = []) = False" using 3(2) R(2) by simp
    show ?thesis
    proof (rule dirlookup_at[OF U(2) a(2) 3(1), of nm])
      fix v assume v: "dirlookup E ip nm u = Inr (None, v)" "at_locked I r k ip v" "disk_same u v"
        "find (names nm) (dentries (disk_view u) (din u (i_inum (icache u ! ip)))) = None"
      obtain t where t: "iunlockput E ip v = Inr t" "at_none r k t" "disk_same v t" by (rule put_at[OF v(2)])
      show ?thesis
        using 3(1) v t U(1,4) R ty nm(2) du disk_same_trans[OF U(3) disk_same_trans[OF v(3) t(3)]]
        by (subst namex_loop.simps) (simp add: reached_def np)
    next
      fix de q off v w
      assume v: "dirlookup E ip nm u = Inr (Some (q, off), v)" "iunlockput E ip v = Inr w"
        "find (names nm) (dentries (disk_view u) (din u (i_inum (icache u ! ip)))) = Some de"
        "at_inode I r k q w" "disk_same u w" "i_inum (icache w ! q) = ucast (de_inum de)"
      have sw: "disk_same s w" by (rule disk_same_trans[OF U(3) v(5)])
      note dw = disk_sameD[OF sw]
      have "reached I r k parent (e # es) s (walk (din s) (disk_view s) parent (ucast (de_inum de)) es) (namex_loop fuel E parent q rest nm w)"
        by (rule reached_later[OF _ sw]) (use IH[OF v(4)] v(6) dw 3(2) R(2) in simp_all)
      moreover have "namex_loop (Suc fuel) E parent ip path name s = namex_loop fuel E parent q rest nm w"
        using 3 U(1) R v(1,2) by (subst namex_loop.simps) auto
      ultimately show ?thesis using 3(1) v(3) U(4) nm(2) ty du by (simp add: np)
    qed
  qed
qed

lemma namex_loop_walk:
  assumes "at_inode I r k ip s" "k_rw E = iderw" "length name = DIRSIZ" "0 \<notin> set path" "length path \<le> fuel"
  shows "reached I r k parent (elems path) s (walk (din s) (disk_view s) parent (i_inum (icache s ! ip)) (elems path))
    (namex_loop fuel E parent ip path name s)"
  using assms
proof (induction fuel arbitrary: ip path name s)
  case 0
  then show ?case by (intro namex_end) auto
next
  case (Suc fuel)
  show ?case
  proof (cases "elems path")
    case Nil
    then show ?thesis using namex_end[OF Suc.prems(1)] by simp
  next
    case (Cons e es)
    obtain rest where R: "skipelem path name = Some (rest, put_name e name)" "elems rest = es" "rest = [] \<longleftrightarrow> es = []"
      "set rest \<subseteq> set path" "set e \<subseteq> set path" "length rest < length path"
      using skipelem_elems[of path name] Cons by auto
    have z: "0 \<notin> set e" "0 \<notin> set rest" "length rest \<le> fuel" using R(4-6) Suc.prems(4,5) by auto
    note N = cname_put_name[OF Suc.prems(3) z(1)] and nm = names_put_name[OF Suc.prems(3) z(1)]
    show ?thesis
      unfolding Cons
      by (rule namex_turn[OF Suc.prems(1,2) R(1,3) N(1) nm]) (use Suc.IH[OF _ Suc.prems(2) N(2) z(2,3)] R(2) in simp)
  qed
qed

text \<open>The start of a walk: the root, or the working directory of the process.\<close>

lemma at_inodeI:
  fixes s :: "'a fsst_scheme"
  assumes "in_txn (Suc k) u" "coherent {} u" "disk_same s u" "tree_ok I s" "ip < length (icache s)" "i_inum (icache u ! ip) \<in> I"
    and "\<And>j. j < length (icache s) \<Longrightarrow> i_ref (icache u ! j) = i_ref (icache s ! j) + (if j = ip then 1 else 0)"
    and "coherent {} s" "a \<noteq> b" "a < length (icache s)" "b < length (icache s)" "i_ref (icache s ! a) = 0" "i_ref (icache s ! b) = 0"
  shows "at_inode I (\<lambda>j. i_ref (icache s ! j)) k ip u"
  unfolding at_inode_def counts_def using assms disk_sameD[OF assms(3)] by (auto simp: coherent_def Let_def)

lemma idup_tree:
  fixes s :: "'a fsst_scheme"
  assumes "in_txn k s" "coherent L s" "ip < length (icache s)" "0 < i_ref (icache s ! ip)"
  obtains u where "idup ip s = Inr (ip, u)" "in_txn k u" "coherent L u" "disk_same s u" "i_inum (icache u ! ip) = i_inum (icache s ! ip)"
    "\<And>j. j < length (icache s) \<Longrightarrow> i_ref (icache u ! j) = i_ref (icache s ! j) + (if j = ip then 1 else 0)"
proof -
  let ?n = "icache s ! ip"
  define u where "u = upd_inode ip (\<lambda>n. n\<lparr>i_ref := i_ref n + 1\<rparr>) s"
  have h: "held s = {}" by (rule in_txn_held(1)[OF assms(1)])
  then have "s\<lparr>held := {}\<rparr> = s" by simp
  then have "idup ip s = Inr (ip, u)" using h by (simp add: idup_def u_def release_def upd_inode_def)
  moreover have v: "icache u = (icache s)[ip := ?n\<lparr>i_ref := i_ref ?n + 1\<rparr>]" "in_txn k u" "disk_same s u"
    using assms(1) by (simp_all add: u_def)
  moreover have "coherent L u"
    by (rule coherent_upd[OF assms(2,3) v(3,1)]) (use assms(2-4) in \<open>auto simp: coherent_def Let_def dinode_of_def\<close>)
  ultimately show thesis using that assms(3) by (simp add: nth_list_update)
qed

lemma namex_start:
  fixes s :: "'a fsst_scheme"
  assumes "in_txn k s" "coherent {} s" "a < length (icache s)" "i_ref (icache s ! a) = 0"
    and "if char_at path 0 = slash then i0 = ROOTINO
      else \<exists>p. myproc s = Inr p \<and> p_cwd p < length (icache s) \<and> 0 < i_ref (icache s ! p_cwd p) \<and> i0 = i_inum (icache s ! p_cwd p)"
  obtains ip u where "namex E path parent name s = namex_loop (length path) E parent ip path name u"
    "in_txn k u" "coherent {} u" "disk_same s u" "ip < length (icache s)" "i_inum (icache u ! ip) = i0"
    "\<And>j. j < length (icache s) \<Longrightarrow> i_ref (icache u ! j) = i_ref (icache s ! j) + (if j = ip then 1 else 0)"
proof (cases "char_at path 0 = slash")
  case True
  then have i0: "i0 = ROOTINO" using assms(5) by simp
  obtain ip u where w: "iget ROOTDEV ROOTINO s = Inr (ip, u)" "in_txn k u" "coherent {} u" "disk_same s u"
    "ip < length (icache s)" "i_inum (icache u ! ip) = i0"
    "\<And>j. j < length (icache s) \<Longrightarrow> i_ref (icache u ! j) = i_ref (icache s ! j) + (if j = ip then 1 else 0)"
    unfolding i0 by (rule iget_tree[OF assms(1-4)]) blast
  show thesis by (rule that[OF _ w(2-7)]) (use True w(1) in \<open>simp_all add: namex_def\<close>)
next
  case False
  then obtain p where p: "myproc s = Inr p" "p_cwd p < length (icache s)" "0 < i_ref (icache s ! p_cwd p)" "i0 = i_inum (icache s ! p_cwd p)"
    using assms(5) by auto
  obtain u where w: "idup (p_cwd p) s = Inr (p_cwd p, u)" "in_txn k u" "coherent {} u" "disk_same s u"
    "i_inum (icache u ! p_cwd p) = i0"
    "\<And>j. j < length (icache s) \<Longrightarrow> i_ref (icache u ! j) = i_ref (icache s ! j) + (if j = p_cwd p then 1 else 0)"
    unfolding p(4) by (rule idup_tree[OF assms(1,2) p(2,3)]) blast
  show thesis by (rule that[OF _ w(2-4) p(2) w(5,6)]) (use False p(1) w(1) in \<open>simp_all add: namex_def\<close>)
qed

text \<open>
  C7: path lookup is a walk through the directories on disk. Let the inodes of the tree be in
  order on the disk, the valid entries of the inode cache copies of them, no inode locked and two
  entries of the cache not in use. Then \<open>namex\<close> returns, from the root or the working directory, the inode
  that the elements of the path lead to, with one reference more and every other count as before; for
  \<open>nameiparent\<close> the directory of the last element, whose name is then in the buffer. It returns null exactly
  when the walk meets an inode that is not a directory or an element that is not there, and then
  keeps no reference. The disk is as before, the cache still agrees with it, and nothing is left locked.
\<close>

theorem namex_walks:
  fixes s :: "'a fsst_scheme"
  assumes "in_txn (Suc k) s" "k_rw E = iderw" "coherent {} s" "tree_ok I s"
    and "length name = DIRSIZ" "0 \<notin> set path"
    and "a \<noteq> b" "a < length (icache s)" "b < length (icache s)" "i_ref (icache s ! a) = 0" "i_ref (icache s ! b) = 0"
    and "if char_at path 0 = slash then i0 = ROOTINO
      else \<exists>p. myproc s = Inr p \<and> p_cwd p < length (icache s) \<and> 0 < i_ref (icache s ! p_cwd p) \<and> i0 = i_inum (icache s ! p_cwd p)"
    and "i0 \<in> I"
  shows "case walk (din s) (disk_view s) parent i0 (elems path) of
      None \<Rightarrow> \<exists>nm t. namex E path parent name s = Inr (None, nm, t)
        \<and> in_txn (Suc k) t \<and> coherent {} t \<and> disk_view t = disk_view s
        \<and> (\<forall>j < length (icache s). i_ref (icache t ! j) = i_ref (icache s ! j))
    | Some i \<Rightarrow> \<exists>q nm t. namex E path parent name s = Inr (Some q, nm, t) \<and> i_inum (icache t ! q) = i
        \<and> in_txn (Suc k) t \<and> coherent {} t \<and> disk_view t = disk_view s
        \<and> (\<forall>j < length (icache s). i_ref (icache t ! j) = i_ref (icache s ! j) + (if j = q then 1 else 0))
        \<and> (parent \<longrightarrow> cname nm = take DIRSIZ (last (elems path)))"
proof -
  obtain ip u where U: "namex E path parent name s = namex_loop (length path) E parent ip path name u"
    "in_txn (Suc k) u" "coherent {} u" "disk_same s u" "ip < length (icache s)" "i_inum (icache u ! ip) = i0"
    "\<And>j. j < length (icache s) \<Longrightarrow> i_ref (icache u ! j) = i_ref (icache s ! j) + (if j = ip then 1 else 0)"
    by (rule namex_start[OF assms(1,3,8,10,12)]) blast
  have a: "at_inode I (\<lambda>j. i_ref (icache s ! j)) k ip u"
    by (rule at_inodeI[OF U(2-4) assms(4) U(5) _ U(7) assms(3,7-11)]) (use U(6) assms(13) in simp)
  note d = disk_sameD[OF U(4)]
  have R: "reached I (\<lambda>j. i_ref (icache s ! j)) k parent (elems path) u (walk (din s) (disk_view s) parent i0 (elems path))
      (namex E path parent name s)"
    using namex_loop_walk[OF a assms(2,5,6) order_refl, of parent] U(1,6) d by simp
  show ?thesis
  proof (cases "walk (din s) (disk_view s) parent i0 (elems path)")
    case None
    then obtain nm t where t: "namex E path parent name s = Inr (None, nm, t)" "at_none (\<lambda>j. i_ref (icache s ! j)) k t" "disk_same u t"
      using R by (auto simp: reached_def)
    then show ?thesis using None disk_sameD(3,6)[OF t(3)] d(3,6) by (simp add: at_none_def)
  next
    case (Some i)
    then obtain q nm t where t: "namex E path parent name s = Inr (Some q, nm, t)" "at_inode I (\<lambda>j. i_ref (icache s ! j)) k q t"
      "disk_same u t" "i_inum (icache t ! q) = i" "parent \<longrightarrow> cname nm = take DIRSIZ (last (elems path))"
      using R by (auto simp: reached_def)
    then show ?thesis using Some disk_sameD(3,6)[OF t(3)] d(3,6) by (auto simp: at_inode_def counts_def)
  qed
qed

text \<open>
  The example of theory \<open>Lookup\<close> with its two inodes stored: the root directory, which is cached, and
  the file \<open>sh\<close>, which is not.
\<close>

lemma tree_example:
  obtains s :: fsst where "in_txn 26 s" "coherent {} s" "tree_ok {1, 17} s" "icache s = root1 # replicate 49 (file17\<lparr>i_ref := 0\<rparr>)"
    "din s 1 = dinode_of root1" "dentries (disk_view s) (dinode_of root1)
      = map (\<lambda>i. decode_dirent (take 16 (drop (16 * i) root_bytes))) [0..<3]"
proof -
  obtain r :: fsst where r: "in_txn 28 r" "icache r = root1 # replicate 49 (file17\<lparr>i_ref := 0\<rparr>)" "fs_sb r = sb1000"
    "mapped_file r 0" "content r 0 = root_bytes" "disk_view r = (disk_view fs_machine)(300 := root_bytes @ replicate 464 0)"
    "home r = home fs_machine"
    by (rule root_example)
  have h: "home r 40" "home r 42" by (simp_all add: r(7) fs_machine_home)
  have la: "length (d_addrs root1) = 13" "length (d_addrs file17) = 13" by (simp_all add: root1_def file17_def)
  note P1 = put_get_dinode[OF home_length[OF r(1) h(1)] la(1), of 1]
  have r27: "in_txn (Suc 27) r" using r(1) by simp
  obtain q where q: "in_txn 27 q" "home q = home r" "disk_view q = (disk_view r)(40 := put_dinode 1 root1 (disk_view r 40))"
    "logst.more q = logst.more r"
    by (rule txn_update[OF r27 h(1) P1(1)])
  have q26: "in_txn (Suc 26) q" "home q 42" using q(1,2) h(2) by simp_all
  note P2 = put_get_dinode[OF home_length[OF q26(1,2)] la(2), of 17]
  obtain s where s: "in_txn 26 s" "home s = home q" "disk_view s = (disk_view q)(42 := put_dinode 17 file17 (disk_view q 42))"
    "logst.more s = logst.more q"
    by (rule txn_update[OF q26 P2(1)])
  have ic: "icache s = root1 # replicate 49 (file17\<lparr>i_ref := 0\<rparr>)" "fs_sb s = sb1000"
    using fs_more[OF s(4)] fs_more[OF q(4)] r(2,3) by simp_all
  have ib: "IBLOCK 1 sb1000 = 40" "IBLOCK 17 sb1000 = 42" by (simp_all add: IBLOCK_def sb1000_def)
  have d: "din s 1 = dinode_of root1" "din s 17 = dinode_of file17"
    using P1(2) P2(2) by (simp_all add: din_def ic ib s(3) q(3))
  have i0: "dinode_of (icache s ! 0) = dinode_of root1" "icache s ! 0 = root1" by (simp_all add: ic)
  note D = cached_dinode[OF i0(1)]
  have b: "file_block s 0 0 = 300" by (simp add: file_block_def ic root1_def)
  have z: "file_size s 0 = 48" by (simp add: ic root1_def)
  have k: "k * BSIZE < 48 \<longleftrightarrow> k = 0" for k :: nat by auto
  have hs: "home s = home fs_machine" using s(2) q(2) r(7) by simp
  have dev: "i_dev (icache s ! 0) = ROOTDEV" by (simp add: ic root1_def)
  have mf: "mapped_file s 0" unfolding mapped_file_def z k using b dev by (simp add: hs fs_machine_home)
  have "file_byte s 0 i = file_byte r 0 i" if "i < 48" for i
    using that b by (simp add: file_byte_def s(3) q(3)) (simp add: file_block_def r(2) root1_def)
  then have c: "content s 0 = root_bytes"
    unfolding r(5)[symmetric] content_def by (intro map_cong) (simp_all add: ic r(2) root1_def)
  have e: "dentries (disk_view s) (dinode_of root1) = map (\<lambda>i. decode_dirent (take 16 (drop (16 * i) root_bytes))) [0..<3]"
    unfolding D(4)[symmetric] by (simp add: entries_def entry_def c z)
  have "\<forall>de\<in>set (map (\<lambda>i. decode_dirent (take 16 (drop (16 * i) root_bytes))) [0..<3]). de_inum de = 1 \<or> de_inum de = 17"
    by code_simp
  then have es: "\<forall>de\<in>set (dentries (disk_view s) (dinode_of root1)). ucast (de_inum de) \<in> {1, 17 :: uint}"
    unfolding e by auto
  have f: "d_type (dinode_of root1) = T_DIR" "d_nlink (dinode_of root1) = 1" "d_size (dinode_of root1) = 48"
    "d_type (dinode_of file17) = T_FILE" "d_nlink (dinode_of file17) = 1"
    by (simp_all add: dinode_of_def root1_def file17_def)
  have "dmapped (disk_view s) (home s) (dinode_of root1)" using mf D(5)[OF dev] by simp
  then have "tree_ok {1, 17} s"
    using es by (simp add: tree_ok_def d f ic ib) (simp add: hs fs_machine_home)
  moreover have "coherent {} s"
    using d(1) by (auto simp: coherent_def Let_def ic nth_Cons root1_def file17_def initsleeplock_def split: nat.splits)
  ultimately show thesis using that s(1) ic(1) d(1) e by blast
qed

lemma namex_walks_witness:
  "\<exists>s q nm t u. in_txn 26 s \<and> namex fs_env [47, 115, 104] False (replicate DIRSIZ 0) s = Inr (Some q, nm, t) \<and> i_inum (icache t ! q) = 17
     \<and> disk_view t = disk_view s \<and> namex fs_env [47, 108, 115] False (replicate DIRSIZ 0) s = Inr (None, u)"
proof -
  obtain s :: fsst where s: "in_txn 26 s" "coherent {} s" "tree_ok {1, 17} s" "icache s = root1 # replicate 49 (file17\<lparr>i_ref := 0\<rparr>)"
    "din s 1 = dinode_of root1" "dentries (disk_view s) (dinode_of root1)
      = map (\<lambda>i. decode_dirent (take 16 (drop (16 * i) root_bytes))) [0..<3]"
    by (rule tree_example)
  have t: "in_txn (Suc 25) s" using s(1) by simp
  have c: "(1 :: nat) \<noteq> 2" "1 < length (icache s)" "2 < length (icache s)" "i_ref (icache s ! 1) = 0" "i_ref (icache s ! 2) = 0"
    by (simp_all add: s(4))
  have n: "length (replicate DIRSIZ 0 :: uchar list) = DIRSIZ" by simp
  have z: "0 \<notin> set [47, 115, 104 :: uchar]" "0 \<notin> set [47, 108, 115 :: uchar]" by simp_all
  have r: "if char_at [47, x, y] 0 = slash then (1 :: uint) = ROOTINO
      else \<exists>p. myproc s = Inr p \<and> p_cwd p < length (icache s) \<and> 0 < i_ref (icache s ! p_cwd p) \<and> 1 = i_inum (icache s ! p_cwd p)" for x y
    by (simp add: char_at_def)
  have m: "(1 :: uint) \<in> {1, 17}" by simp
  have ty: "d_type (dinode_of root1) = T_DIR" by (simp add: dinode_of_def root1_def)
  have e: "elems [47, 115, 104] = [[115, 104]]" "elems [47, 108, 115] = [[108, 115]]" by code_simp+
  have "map_option de_inum (find (names [115, 104]) (map (\<lambda>i. decode_dirent (take 16 (drop (16 * i) root_bytes))) [0..<3])) = Some 17"
    "find (names [108, 115]) (map (\<lambda>i. decode_dirent (take 16 (drop (16 * i) root_bytes))) [0..<3]) = None"
    by code_simp+
  then obtain de where f: "find (names [115, 104]) (dentries (disk_view s) (dinode_of root1)) = Some de" "de_inum de = 17"
    "find (names [108, 115]) (dentries (disk_view s) (dinode_of root1)) = None"
    unfolding s(6) by auto
  have w: "walk (din s) (disk_view s) False 1 (elems [47, 115, 104]) = Some 17"
    "walk (din s) (disk_view s) False 1 (elems [47, 108, 115]) = None"
    unfolding e using f ty s(5) by simp_all
  note P = namex_walks[OF t fs_machine_fields(3) s(2,3) n _ c r m, where parent = False]
  show ?thesis
    using P[OF z(1)] P[OF z(2)] s(1) unfolding w by auto
qed

end
