(* ===== verification/Grow.thy ===== *)
theory Grow
  imports Block_List
begin

text \<open>
  \<open>writei\<close> at and beyond the end of a file: the blocks it allocates, the content of the longer file,
  and the inode that it stores.
\<close>

section \<open>One block\<close>

lemma room_length:
  assumes "room B k s" "home s n"
  shows "length (disk_view s n) = BSIZE"
  by (rule view_length) (use assms in \<open>auto simp: room_def home_def log_inv_def cache_ok_def dest: mem.disk_length\<close>)

text \<open>A block of the file is written.\<close>

lemma block_write:
  assumes r: "room B k s" "locked_bufs s = {}" and g: "grown s ip K" "free_map s" "b < K" "file_block s ip b \<in> B"
    and e: "length e = BSIZE"
  obtains i t u w where "bread iderw ROOTDEV (file_block s ip b) s = Inr (i, t)"
    "b_data (bufs t i) = disk_view s (file_block s ip b)" "log_write i (set_data i e t) = Inr u" "brelse i u = Inr w"
    "room B k w" "locked_bufs w = {}" "grows ip K s K w" "indirect w ip = indirect s ip" "free_blocks w = free_blocks s"
    "\<And>q. q < K * BSIZE \<Longrightarrow> file_byte w ip q = (if q div BSIZE = b then e ! (q mod BSIZE) else file_byte s ip q)"
proof -
  let ?b = "file_block s ip b"
  note F = grown_block[OF g(1,3)]
  obtain i t u w where U: "bread iderw ROOTDEV ?b s = Inr (i, t)" "b_data (bufs t i) = disk_view s ?b"
    "log_write i (set_data i e t) = Inr u" "brelse i u = Inr w" "room B k w" "stays s w"
    "disk_view w = (disk_view s)(?b := e)"
    by (rule room_update[OF r(1) F(2) g(4) _ e]) (use r(2) in auto)
  note st = staysD[OF U(6)]
  have it: "indirect w ip = indirect s ip" by (simp add: indirect_def st)
  have nf: "?b \<notin> free_blocks s" using g(1) F(1) by (auto simp: grown_def free_blocks_def)
  have us: "used w = used s" using F(4) by (simp add: used_def fun_eq_iff st(5) U(7))
  have fr: "free_blocks w = free_blocks s" by (simp add: free_blocks_def st(5) us)
  have fb: "file_block w ip k = file_block s ip k" if "k < NDIRECT \<or> NDIRECT < K" for k
    using that grown_inj(2)[OF g(1,3)] by (auto simp: file_block_def st(4) it U(7))
  have fK: "file_block w ip k = file_block s ip k" if "k < K" for k by (rule fb) (use that in linarith)
  have o: "own w ip K = own s ip K" by (rule own_same[OF fK it])
  have gw: "grown w ip K" using g(1) fb by (auto simp: grown_def o us st it)
  have "free_map w" using g(2) by (simp add: free_map_def st us fr)
  then have gr: "grows ip K s K w"
    using gw F(1) fK it unfolding grows_def o
    by (auto simp: st fr us U(7) intro: exI[of _ "d_addrs (icache s ! ip)"])
  have "file_byte w ip q = (if q div BSIZE = b then e ! (q mod BSIZE) else file_byte s ip q)" if "q < K * BSIZE" for q
  proof -
    have q: "q div BSIZE < K" using that by (simp add: less_mult_imp_div_less)
    then have "file_block w ip (q div BSIZE) = file_block s ip (q div BSIZE)" by (intro fb) linarith
    then show ?thesis using grown_inj(1)[OF g(1,3) q] by (simp add: file_byte_def U(7))
  qed
  then show thesis using that[OF U(1-5) _ gr it fr] st(1) r(2) by simp
qed

section \<open>Turns\<close>

text \<open>Between \<open>s\<close> and \<open>t\<close> the bytes \<open>xs\<close> were stored at \<open>off\<close>; new bytes around them are 0.\<close>

definition stored :: "nat \<Rightarrow> nat \<Rightarrow> uchar list \<Rightarrow> nat \<Rightarrow> 'a fsst_scheme \<Rightarrow> nat \<Rightarrow> 'a fsst_scheme \<Rightarrow> bool" where
  "stored ip off xs K s L t \<longleftrightarrow> grows ip K s L t \<and> (\<forall>q < L * BSIZE. file_byte t ip q =
     (if off \<le> q \<and> q < off + length xs then xs ! (q - off) else if q < K * BSIZE then file_byte s ip q else 0))"

lemma stored_nil: "grown s ip K \<Longrightarrow> free_map s \<Longrightarrow> stored ip off [] K s K s"
  using grows_refl[of s ip K] by (auto simp: stored_def)

lemma stored_trans:
  assumes "stored ip off xs K s M t" "stored ip (off + length xs) ys M t L u" "ip < length (icache s)" "off + length xs \<le> M * BSIZE"
  shows "stored ip off (xs @ ys) K s L u"
proof -
  have "K \<le> M" using assms(1) by (simp add: stored_def grows_def)
  then have "K * BSIZE \<le> M * BSIZE" by simp
  then show ?thesis
    using assms grows_trans[of ip K s M t L u] unfolding stored_def by (auto simp: nth_append)
qed

text \<open>
  The transaction has room for \<open>L\<close> blocks of the file, and the blocks that exist and will be
  written from \<open>off\<close> on are among the known ones.
\<close>

definition ready_to :: "uint set \<Rightarrow> nat \<Rightarrow> nat \<Rightarrow> nat \<Rightarrow> nat \<Rightarrow> nat \<Rightarrow> 'a fsst_scheme \<Rightarrow> bool" where
  "ready_to B ip K L off j s \<longleftrightarrow> room B (need K L + j) s \<and> locked_bufs s = {} \<and> grown s ip K \<and> free_map s \<and> bitmap s \<in> B
     \<and> need K L \<le> card (free_blocks s) \<and> (NDIRECT < K \<longrightarrow> indirect s ip \<in> B)
     \<and> (\<forall>k<K. k < L \<longrightarrow> off div BSIZE \<le> k \<longrightarrow> file_block s ip k \<in> B)"

text \<open>The block of a position, after allocation if need be.\<close>

lemma grow_block:
  assumes r: "ready_to B ip K L off j s" and E: "k_rw E = iderw" and b: "unat bn = off div BSIZE" "off div BSIZE \<le> K"
    "off div BSIZE < L" "L \<le> MAXFILE"
  obtains B' M t where "bmap E ip bn s = Inr (file_block t ip (unat bn), t)" "ready_to B' ip M L off j t" "B \<subseteq> B'"
    "unat bn < M" "M = max K (Suc (unat bn))" "stored ip off [] K s M t"
proof (cases "off div BSIZE < K")
  case True
  obtain v where V: "bmap E ip bn s = Inr (file_block s ip (unat bn), v)" "room B (need K L + j) v" "locked_bufs v = {}" "fs_same s v"
    by (rule bmap_old[of B "need K L + j" s E ip K bn]) (use r E b True in \<open>simp_all add: ready_to_def\<close>)
  note sv = fs_sameD[OF V(4)]
  have f: "used v = used s" "free_blocks v = free_blocks s" "free_map v = free_map s"
    by (rule free_map_same; use V(4) sv in \<open>simp add: fs_same_def\<close>)+
  have o: "own v ip K = own s ip K" by (simp add: own_def sv)
  have "grown v ip K" using r V(4) by (simp add: ready_to_def grown_def o f sv fs_same_def)
  then have "ready_to B ip K L off j v" "stored ip off [] K s K v"
    using r V by (auto simp: ready_to_def stored_def grows_def f sv o fs_same_def intro: exI[of _ "d_addrs (icache s ! ip)"])
  then show thesis using that[of v B K] V(1) b True by (simp add: sv)
next
  case False
  then have K: "unat bn = K" "off div BSIZE = K" "K < L" using b by simp_all
  have nd: "need K L = need K (Suc K) + need (Suc K) L" by (rule need_split) (use K in simp_all)
  obtain B' t where T: "bmap E ip bn s = Inr (file_block t ip K, t)" "room B' (need (Suc K) L + j) t" "locked_bufs t = {}" "B \<subseteq> B'"
    "file_block t ip K \<in> B'" "NDIRECT < Suc K \<Longrightarrow> indirect t ip \<in> B'" "grows ip K s (Suc K) t"
    "disk_view t (file_block t ip K) = replicate BSIZE 0"
    "\<And>k. k < K \<Longrightarrow> disk_view t (file_block s ip k) = disk_view s (file_block s ip k)"
    by (rule bmap_new[of B K "need (Suc K) L + j" s E ip bn])
      (use r E K b(4) nd in \<open>simp_all add: ready_to_def add.assoc\<close>)
  have g: "grown t ip (Suc K)" "free_map t" "fs_sb t = fs_sb s" "card (free_blocks s) \<le> card (free_blocks t) + need K (Suc K)"
    "\<And>k. k < K \<Longrightarrow> file_block t ip k = file_block s ip k"
    using T(7) by (auto simp: grows_def)
  have "need (Suc K) L \<le> card (free_blocks t)" using r g(4) nd unfolding ready_to_def by linarith
  then have "ready_to B' ip (Suc K) L off j t"
    using T(2-6) g r K by (auto simp: ready_to_def less_Suc_eq)
  moreover have "file_byte t ip q = (if q < K * BSIZE then file_byte s ip q else 0)" if "q < Suc K * BSIZE" for q
  proof (cases "q < K * BSIZE")
    case True
    then have "q div BSIZE < K" by (simp add: less_mult_imp_div_less)
    then show ?thesis using True by (simp add: file_byte_def g(5) T(9))
  next
    case False
    then have "q div BSIZE = K" using that by (intro div_nat_eqI) simp_all
    then show ?thesis using False by (simp add: file_byte_def T(8))
  qed
  then have "stored ip off [] K s (Suc K) t" using T(7) by (auto simp: stored_def)
  ultimately show thesis by (intro that[of t B' "Suc K"]) (simp_all only: K T(1,4) lessI max_absorb2 le_simps)
qed

text \<open>One turn of \<open>writei\<close>.\<close>

lemma grow_turn:
  assumes r: "ready_to B ip K L (unat off) j s" and E: "k_rw E = iderw" and o: "unat off \<le> K * BSIZE" "L \<le> MAXFILE"
    and x: "unat off mod BSIZE + length xs \<le> BSIZE" "xs \<noteq> []" "unat off + length xs \<le> L * BSIZE"
  obtains B' M n v i t u w where "bmap E ip (off div of_nat BSIZE) s = Inr (n, v)" "i_dev (icache v ! ip) = ROOTDEV"
    "bread iderw ROOTDEV n v = Inr (i, t)"
    "log_write i (set_data i (blit (b_data (bufs t i)) (unat off mod BSIZE) xs) t) = Inr u" "brelse i u = Inr w"
    "ready_to B' ip M L (unat off + length xs) j w" "unat off + length xs \<le> M * BSIZE" "stored ip (unat off) xs K s M w"
    "M = max K (Suc (unat off div BSIZE))" "B \<subseteq> B'"
proof -
  let ?b = "unat off div BSIZE" and ?m = "unat off mod BSIZE"
  have bn: "unat (off div of_nat BSIZE) = ?b" by (simp add: unat_div)
  have dm: "?b * BSIZE + ?m = unat off" by (rule div_mult_mod_eq)
  have lx: "1 \<le> length xs" using x(2) by (simp add: Suc_le_eq)
  have b: "?b \<le> K" "?b < L"
    using div_le_mono[OF o(1), of BSIZE] less_mult_imp_div_less[of "unat off" L BSIZE] lx x(3) by simp_all
  obtain B1 M v where V: "bmap E ip (off div of_nat BSIZE) s = Inr (file_block v ip ?b, v)" "ready_to B1 ip M L (unat off) j v"
    "?b < M" "M = max K (Suc ?b)" "stored ip (unat off) [] K s M v" "B \<subseteq> B1"
    by (rule grow_block[OF r E bn b o(2), unfolded bn]) auto
  have rv: "room B1 (need M L + j) v" "locked_bufs v = {}" "grown v ip M" "free_map v" "file_block v ip ?b \<in> B1"
    using V(2,3) b(2) by (simp_all add: ready_to_def)
  have l: "length (disk_view v (file_block v ip ?b)) = BSIZE" by (rule room_length[OF rv(1) grown_block(2)[OF rv(3) V(3)]])
  let ?e = "blit (disk_view v (file_block v ip ?b)) ?m xs"
  obtain i t u w where W: "bread iderw ROOTDEV (file_block v ip ?b) v = Inr (i, t)"
    "b_data (bufs t i) = disk_view v (file_block v ip ?b)" "log_write i (set_data i ?e t) = Inr u" "brelse i u = Inr w"
    "room B1 (need M L + j) w" "locked_bufs w = {}" "grows ip M v M w" "indirect w ip = indirect v ip" "free_blocks w = free_blocks v"
    "\<And>q. q < M * BSIZE \<Longrightarrow> file_byte w ip q = (if q div BSIZE = ?b then ?e ! (q mod BSIZE) else file_byte v ip q)"
    by (rule block_write[OF rv(1-4) V(3) rv(5), of ?e]) (use x(1) l in simp, blast)
  have "file_byte w ip q = (if unat off \<le> q \<and> q < unat off + length xs then xs ! (q - unat off) else file_byte v ip q)"
    if q: "q < M * BSIZE" for q
  proof -
    have "q mod BSIZE - ?m = q - unat off" if "q div BSIZE = ?b"
      using that dm div_mult_mod_eq[of q BSIZE] by linarith
    then show ?thesis
      using in_block[OF x(1), of q] W(10)[OF q] l x(1) by (auto simp: nth_blit file_byte_def)
  qed
  then have st: "stored ip (unat off) xs M v M w" using W(7) by (auto simp: stored_def)
  have ip: "ip < length (icache s)" using r by (simp add: ready_to_def grown_def)
  have "K * BSIZE \<le> M * BSIZE" using V(4) by simp
  then have "unat off + length ([] :: uchar list) \<le> M * BSIZE" using o(1) by simp
  then have "stored ip (unat off) ([] @ xs) K s M w" by (intro stored_trans[OF V(5) _ ip]) (use st in simp_all)
  then have "stored ip (unat off) xs K s M w" by simp
  moreover have "Suc ?b * BSIZE \<le> M * BSIZE" using V(3) by (intro mult_le_mono1) simp
  then have "unat off + length xs \<le> M * BSIZE" using x(1) dm unfolding mult_Suc by linarith
  moreover have "ready_to B1 ip M L (unat off + length xs) j w"
    using V(2) W(5-9) div_le_mono[of "unat off" "unat off + length xs" BSIZE] by (auto simp: ready_to_def grows_def)
  ultimately show thesis
    using that[OF V(1) _ W(1) _ W(4)] W(2,3) V(4,6) rv(3) by (simp add: grown_def)
qed

lemma writei_loop_done:
  assumes "ready_to B ip K L (unat off) j s" "unat off \<le> K * BSIZE"
  shows "\<exists>B' M t. writei_loop fuel E ip src n n off s = Inr (off, t) \<and> ready_to B' ip M L (unat off) j t
    \<and> unat off \<le> M * BSIZE \<and> M \<le> max K L \<and> B \<subseteq> B' \<and> stored ip (unat off) [] K s M t"
proof -
  have "writei_loop fuel E ip src n n off s = Inr (off, s)" by (subst writei_loop.simps) simp
  then show ?thesis
    using assms stored_nil[of s ip K] by (intro exI[of _ B] exI[of _ K] exI[of _ s]) (simp add: ready_to_def)
qed

text \<open>The whole loop: the file has blocks up to the last byte written.\<close>

lemma writei_loop_grows:
  assumes "ready_to B ip K L (unat off) j s" "k_rw E = iderw" "unat off \<le> K * BSIZE" "L \<le> MAXFILE" "tot \<le> n"
    "unat n - unat tot \<le> fuel" "unat off + (unat n - unat tot) \<le> L * BSIZE"
  shows "\<exists>B' M t. writei_loop fuel E ip src n tot off s = Inr (off + (n - tot), t)
    \<and> ready_to B' ip M L (unat off + (unat n - unat tot)) j t
    \<and> unat off + (unat n - unat tot) \<le> M * BSIZE \<and> M \<le> max K L \<and> B \<subseteq> B'
    \<and> stored ip (unat off) (piece src (unat tot) (unat n - unat tot)) K s M t"
  using assms
proof (induction fuel arbitrary: tot off s B K)
  case 0
  then have "tot = n" by (simp add: word_le_nat_alt word_unat_eq_iff)
  then show ?case using writei_loop_done[OF 0(1,3)] by simp
next
  case (Suc fuel)
  show ?case
  proof (cases "tot < n")
    case False
    then have "tot = n" using Suc.prems(5) by simp
    then show ?thesis using writei_loop_done[OF Suc.prems(1,3)] by simp
  next
    case True
    then have lt: "unat tot < unat n" by (simp add: word_less_nat_alt)
    have "L * BSIZE \<le> MAXFILE * BSIZE" using Suc.prems(4) by simp
    then have le: "unat off + (unat n - unat tot) \<le> MAXFILE * BSIZE" using Suc.prems(7) by linarith
    define m where "m = unat (chunk n tot off)"
    note C = chunk_facts[OF True le, folded m_def]
    let ?tot = "tot + chunk n tot off" and ?off = "off + chunk n tot off" and ?xs = "piece src (unat tot) m"
    have x: "unat off mod BSIZE + length ?xs \<le> BSIZE" "?xs \<noteq> []" "unat off + length ?xs \<le> L * BSIZE"
      using C(2,5,6) Suc.prems(7) by simp_all
    have lx: "length ?xs = m" by simp
    obtain B1 M b v i t u w where U: "bmap E ip (off div of_nat BSIZE) s = Inr (b, v)" "i_dev (icache v ! ip) = ROOTDEV"
      "bread iderw ROOTDEV b v = Inr (i, t)"
      "log_write i (set_data i (blit (b_data (bufs t i)) (unat off mod BSIZE) ?xs) t) = Inr u" "brelse i u = Inr w"
      "ready_to B1 ip M L (unat off + m) j w" "unat off + m \<le> M * BSIZE" "stored ip (unat off) ?xs K s M w"
      "M = max K (Suc (unat off div BSIZE))" "B \<subseteq> B1"
      by (rule grow_turn[OF Suc.prems(1-4) x, unfolded lx]) (rule that)
    have p: "?tot \<le> n" "unat n - unat ?tot \<le> fuel" "unat ?off + (unat n - unat ?tot) \<le> L * BSIZE"
      unfolding word_le_nat_alt C(3,4) using C(2,6) Suc.prems(6,7) lt by linarith+
    have e: "unat off + m + (unat n - (unat tot + m)) = unat off + (unat n - unat tot)"
      "m + (unat n - (unat tot + m)) = unat n - unat tot" using C(6) lt by linarith+
    have q: "ready_to B1 ip M L (unat ?off) j w" "unat ?off \<le> M * BSIZE" unfolding C(4) by (rule U(6), rule U(7))
    from Suc.IH[OF q(1) Suc.prems(2) q(2) Suc.prems(4) p]
    obtain B2 M' y where Y: "writei_loop fuel E ip src n ?tot ?off w = Inr (?off + (n - ?tot), y)"
      "ready_to B2 ip M' L (unat off + (unat n - unat tot)) j y" "unat off + (unat n - unat tot) \<le> M' * BSIZE"
      "M' \<le> max M L" "B1 \<subseteq> B2"
      "stored ip (unat off + m) (piece src (unat tot + m) (unat n - (unat tot + m))) M w M' y"
      unfolding C(3,4) e(1) by blast
    have ip: "ip < length (icache s)" using Suc.prems(1) by (simp add: ready_to_def grown_def)
    have st: "stored ip (unat off) (piece src (unat tot) (unat n - unat tot)) K s M' y"
      using stored_trans[OF U(8) _ ip, of "piece src (unat tot + m) (unat n - (unat tot + m))" M' y] Y(6) U(7)
        piece_append[of src "unat tot" m "unat n - (unat tot + m)"] e(2) by simp
    have "unat off < L * BSIZE" using C(2) x(3) by simp
    then have "Suc (unat off div BSIZE) \<le> L" by (simp add: Suc_le_eq less_mult_imp_div_less)
    then have "M' \<le> max K L" using Y(4) U(9) by simp
    moreover have "unat (off mod of_nat BSIZE) = unat off mod BSIZE" by (simp add: unat_mod)
    then have "writei_loop (Suc fuel) E ip src n tot off s = writei_loop fuel E ip src n ?tot ?off w"
      using True U(1-5) Suc.prems(2) by (subst writei_loop.simps) (simp add: Let_def flip: m_def)
    ultimately show ?thesis
      using Y(1-3,5) st U(10) by (intro exI[of _ B2] exI[of _ M'] exI[of _ y]) (simp add: algebra_simps)
  qed
qed

section \<open>The stored inode\<close>

definition blocks_of :: "nat \<Rightarrow> nat" where
  "blocks_of z = (z + BSIZE - 1) div BSIZE"

lemma blocks_of_le: "z \<le> K * BSIZE \<longleftrightarrow> blocks_of z \<le> K"
  using div_less_iff_less_mult[of BSIZE "z + BSIZE - 1" "Suc K"] unfolding blocks_of_def by (simp add: less_Suc_eq_le)

lemma blocks_of_mono: "y \<le> z \<Longrightarrow> blocks_of y \<le> blocks_of z"
  unfolding blocks_of_def by (intro div_le_mono) simp

abbreviation inode_block :: "'a fsst_scheme \<Rightarrow> nat \<Rightarrow> uint" where
  "inode_block s ip \<equiv> IBLOCK (i_inum (icache s ! ip)) (fs_sb s)"

text \<open>
  A file in order: it has the blocks of its size, and its inode is stored in a block that belongs
  to no file.
\<close>

definition stored_file :: "'a fsst_scheme \<Rightarrow> nat \<Rightarrow> bool" where
  "stored_file s ip \<longleftrightarrow> grown s ip (blocks_of (file_size s ip)) \<and> free_map s
     \<and> home s (inode_block s ip) \<and> used s (inode_block s ip) \<and> inode_block s ip \<noteq> bitmap s
     \<and> inode_block s ip \<notin> set (own s ip (blocks_of (file_size s ip)))
     \<and> get_dinode (i_inum (icache s ! ip)) (disk_view s (inode_block s ip)) = dinode_of (icache s ! ip)"

lemma grown_mapped:
  assumes "grown s ip (blocks_of (file_size s ip))"
  shows "mapped_file s ip"
proof -
  let ?K = "blocks_of (file_size s ip)"
  have k: "k < ?K" if "k * BSIZE < file_size s ip" for k
    using that blocks_of_le[of "file_size s ip" k] by linarith
  have "file_size s ip \<le> MAXFILE * BSIZE" using assms blocks_of_le[of _ MAXFILE] by (simp add: grown_def)
  moreover have "i_dev (icache s ! ip) = ROOTDEV" using assms by (simp add: grown_def)
  ultimately show ?thesis
    using grown_block[OF assms k] grown_inj[OF assms k] grown_indirect[OF assms k[of NDIRECT]] k
    unfolding mapped_file_def by auto
qed

text \<open>Without a new block the inode is as before.\<close>

lemma grows_addrs:
  assumes "grown s ip K" "grows ip K s K t"
  shows "icache t = icache s"
proof -
  obtain a where t: "icache t = (icache s)[ip := (icache s ! ip)\<lparr>d_addrs := a\<rparr>]" using assms(2) unfolding grows_def by blast
  have g: "grown t ip K" "\<And>k. k < K \<Longrightarrow> file_block t ip k = file_block s ip k" "NDIRECT < K \<Longrightarrow> indirect t ip = indirect s ip"
    using assms(2) by (simp_all add: grows_def)
  have ip: "ip < length (icache s)" using assms(1) by (simp add: grown_def)
  have "file_block t ip k = file_block s ip k" if "k < NDIRECT" for k
    using that g assms(1) by (cases "k < K") (simp_all add: grown_def)
  moreover have "indirect t ip = indirect s ip" using g assms(1) by (cases "NDIRECT < K") (simp_all add: grown_def)
  ultimately have "a ! k = d_addrs (icache s ! ip) ! k" if "k < NDIRECT + 1" for k
    using that ip by (cases "k = NDIRECT") (auto simp: file_block_def indirect_def t split: if_splits)
  moreover have "length a = NDIRECT + 1" "length (d_addrs (icache s ! ip)) = NDIRECT + 1"
    using g(1) assms(1) ip by (simp_all add: grown_def t)
  ultimately have "a = d_addrs (icache s ! ip)" by (intro nth_equalityI) simp_all
  then show ?thesis by (simp add: t)
qed

text \<open>The size and a block outside the file are written.\<close>

lemma grown_resize:
  assumes g: "grown t ip M" and b: "b \<notin> set (own t ip M)" "b \<noteq> bitmap t"
    and w: "disk_view w = (disk_view t)(b := e)" "home w = home t" "fs_sb w = fs_sb t"
      "icache w = (icache t)[ip := (icache t ! ip)\<lparr>d_size := z\<rparr>]"
  shows "grown w ip M" "\<And>q. q < M * BSIZE \<Longrightarrow> file_byte w ip q = file_byte t ip q" "own w ip M = own t ip M"
    "used w = used t" "free_blocks w = free_blocks t" "free_map w = free_map t"
proof -
  have ip: "ip < length (icache t)" using g by (simp add: grown_def)
  have it: "indirect w ip = indirect t ip" by (simp add: indirect_def w(4) ip)
  have fb: "file_block w ip k = file_block t ip k" if "k < NDIRECT \<or> NDIRECT < M" for k
    using that b(1) by (auto simp: file_block_def it w(1,4) ip set_own)
  have fM: "file_block w ip k = file_block t ip k" if "k < M" for k by (rule fb) (use that in linarith)
  show o: "own w ip M = own t ip M" by (rule own_same[OF fM it])
  show u: "used w = used t" using b(2) by (simp add: used_def fun_eq_iff w(1,3))
  show fr: "free_blocks w = free_blocks t" by (simp add: free_blocks_def u w(3))
  show "free_map w = free_map t" by (simp add: free_map_def u fr w(2,3))
  show "grown w ip M" using g fb by (auto simp: grown_def o u w ip it)
  fix q assume "q < M * BSIZE"
  then have k: "q div BSIZE < M" by (simp add: less_mult_imp_div_less)
  have "file_block t ip (q div BSIZE) \<noteq> b" using grown_block(1)[OF g k] b(1) by auto
  then show "file_byte w ip q = file_byte t ip q" by (simp add: file_byte_def fM[OF k] w(1))
qed

text \<open>The blocks that a call of \<open>writei\<close> may write are few.\<close>

definition known :: "nat \<Rightarrow> nat \<Rightarrow> nat \<Rightarrow> 'a fsst_scheme \<Rightarrow> uint set" where
  "known ip off L s = (let K = blocks_of (file_size s ip) in
     {bitmap s, inode_block s ip} \<union> (if NDIRECT < K then {indirect s ip} else {})
     \<union> file_block s ip ` {off div BSIZE..<min K L})"

lemma stored_ready:
  fixes s :: "'a fsst_scheme"
  assumes "in_txn (turns off n + 5) s" "stored_file s ip" "off \<le> file_size s ip"
    and "need (blocks_of (file_size s ip)) (blocks_of (off + n)) \<le> card (free_blocks s)"
  shows "ready_to (known ip off (blocks_of (off + n)) s) ip (blocks_of (file_size s ip)) (blocks_of (off + n)) off 0 s"
    (is "ready_to ?B ip ?K ?L off 0 s")
proof -
  have d: "off div BSIZE \<le> ?K" using assms(3) unfolding blocks_of_def by (intro div_le_mono) simp
  have l: "?L \<le> off div BSIZE + turns off n + 1"
  proof (cases "n = 0")
    case True
    then show ?thesis by (simp add: blocks_of_def turns_def)
  next
    case False
    then have "off + n + BSIZE - 1 = (off + n - 1) + BSIZE" by simp
    then have "?L = (off + n - 1) div BSIZE + 1" by (simp add: blocks_of_def)
    then show ?thesis using False by (simp add: turns_def)
  qed
  have "card ?B \<le> 2 + (if NDIRECT < ?K then 1 else 0) + (min ?K ?L - off div BSIZE)"
  proof -
    have "card ?B \<le> card ({bitmap s, inode_block s ip} \<union> (if NDIRECT < ?K then {indirect s ip} else {}))
        + card (file_block s ip ` {off div BSIZE..<min ?K ?L})"
      unfolding known_def Let_def by (rule card_Un_le)
    moreover have "card (file_block s ip ` {off div BSIZE..<min ?K ?L}) \<le> min ?K ?L - off div BSIZE"
      using card_image_le[of "{off div BSIZE..<min ?K ?L}" "file_block s ip"] by simp
    moreover have "card ({bitmap s, inode_block s ip} \<union> (if NDIRECT < ?K then {indirect s ip} else {}))
        \<le> 2 + (if NDIRECT < ?K then 1 else 0)"
      by (auto simp: card_insert_if)
    ultimately show ?thesis by linarith
  qed
  moreover have "need ?K ?L + (if NDIRECT < ?K then 1 else 0) + (min ?K ?L - off div BSIZE) \<le> turns off n + 2"
    using d l by (auto simp: need_def min_def)
  ultimately have "card ?B + need ?K ?L < turns off n + 5" by linarith
  note R = in_txn_room[OF assms(1) this]
  show ?thesis using R assms(2,4) by (auto simp: ready_to_def stored_file_def known_def Let_def)
qed

text \<open>The content after the write.\<close>

lemma stored_content:
  assumes "stored ip off xs K s M t" "off \<le> file_size s ip" "file_size s ip \<le> K * BSIZE" "off + length xs \<le> M * BSIZE"
  shows "map (file_byte t ip) [0..<max (file_size s ip) (off + length xs)]
    = take off (content s ip) @ xs @ drop (off + length xs) (content s ip)"
proof (rule nth_equalityI)
  fix q assume "q < length (map (file_byte t ip) [0..<max (file_size s ip) (off + length xs)])"
  then have q: "q < max (file_size s ip) (off + length xs)" by simp
  have "K * BSIZE \<le> M * BSIZE" using assms(1) by (simp add: stored_def grows_def)
  then have "q < M * BSIZE" using q assms(3,4) by linarith
  then have "file_byte t ip q = (if off \<le> q \<and> q < off + length xs then xs ! (q - off) else if q < K * BSIZE then file_byte s ip q else 0)"
    using assms(1) by (simp add: stored_def)
  then show "map (file_byte t ip) [0..<max (file_size s ip) (off + length xs)] ! q
      = (take off (content s ip) @ xs @ drop (off + length xs) (content s ip)) ! q"
    using q assms(2,3) by (auto simp: nth_append content_def)
qed (use assms(2) in \<open>simp add: max_def\<close>)

text \<open>\<open>iupdate\<close> of a changed inode, and of a new size.\<close>

lemma inode_stored:
  fixes s :: "'a fsst_scheme" and g :: "inode \<Rightarrow> inode" and ip :: nat
  defines "n \<equiv> g (icache s ! ip)"
  assumes r: "room B k s" "locked_bufs s = {}" "k_rw E = iderw" and ip: "ip < length (icache s)" "length (d_addrs n) = NDIRECT + 1"
    "i_dev n = ROOTDEV" "i_inum n = i_inum (icache s ! ip)" and b: "inode_block s ip \<in> B" "home s (inode_block s ip)"
  obtains w where "iupdate E ip (upd_inode ip g s) = Inr w" "room B k w" "locked_bufs w = {}"
    "disk_view w = (disk_view s)(inode_block s ip := put_dinode (i_inum n) n (disk_view s (inode_block s ip)))"
    "home w = home s" "fs_sb w = fs_sb s" "icache w = (icache s)[ip := n]" "untouched s w"
proof -
  let ?b = "inode_block s ip"
  define s1 where "s1 = upd_inode ip g s"
  have s1: "icache s1 = (icache s)[ip := n]" "fs_sb s1 = fs_sb s" "disk_view s1 = disk_view s" "home s1 = home s"
    "room B k s1" "locked_bufs s1 = {}" using r by (simp_all add: s1_def n_def)
  have l: "length (disk_view s ?b) = BSIZE" by (rule room_length[OF r(1) b(2)])
  have e: "length (put_dinode (i_inum n) n (disk_view s ?b)) = BSIZE" by (rule put_get_dinode(1)[OF l]) (use ip(2) in simp)
  obtain i t u w where U: "bread iderw ROOTDEV ?b s1 = Inr (i, t)" "b_data (bufs t i) = disk_view s1 ?b"
    "log_write i (set_data i (put_dinode (i_inum n) n (disk_view s ?b)) t) = Inr u" "brelse i u = Inr w" "room B k w" "stays s1 w"
    "disk_view w = (disk_view s1)(?b := put_dinode (i_inum n) n (disk_view s ?b))" "logst.more t = logst.more s1"
    by (rule room_update[OF s1(5) _ b(1) _ e]) (use b(2) s1(4,6) in auto)
  note st = staysD[OF U(6)] and ft = fs_more[OF U(8)]
  have "iupdate E ip s1 = Inr w"
    using U(1-4) ip s1(1-3) ft r(3) by (simp add: iupdate_def Let_def)
  then show thesis using that[of w] U(5,7) st s1 by (simp add: s1_def)
qed

lemma size_stored:
  fixes s :: "'a fsst_scheme" and z :: uint
  assumes r: "room B k s" "locked_bufs s = {}" "k_rw E = iderw" and g: "grown s ip M"
    and b: "inode_block s ip \<in> B" "home s (inode_block s ip)"
  defines "n \<equiv> (icache s ! ip)\<lparr>d_size := z\<rparr>"
  obtains w where "iupdate E ip (upd_inode ip (\<lambda>n. n\<lparr>d_size := z\<rparr>) s) = Inr w" "room B k w" "locked_bufs w = {}"
    "disk_view w = (disk_view s)(inode_block s ip := put_dinode (i_inum n) n (disk_view s (inode_block s ip)))"
    "home w = home s" "fs_sb w = fs_sb s" "icache w = (icache s)[ip := n]" "untouched s w"
  by (rule inode_stored[OF r, of ip "\<lambda>n. n\<lparr>d_size := z\<rparr>"]) (use that g b in \<open>simp_all add: grown_def n_def\<close>)

text \<open>The file after the bytes and the size are written, and what is left as it was.\<close>

definition extended :: "nat \<Rightarrow> nat \<Rightarrow> uchar list \<Rightarrow> 'a fsst_scheme \<Rightarrow> 'a fsst_scheme \<Rightarrow> bool" where
  "extended ip off xs s t \<longleftrightarrow> stored_file t ip \<and> file_size t ip = max (file_size s ip) (off + length xs)
    \<and> content t ip = take off (content s ip) @ xs @ drop (off + length xs) (content s ip)
    \<and> (\<forall>j. j \<noteq> ip \<longrightarrow> icache t ! j = icache s ! j)
    \<and> (\<exists>a z. icache t ! ip = (icache s ! ip)\<lparr>d_addrs := a, d_size := z\<rparr>)
    \<and> (\<forall>j. j mod IPB \<noteq> i_inum (icache s ! ip) mod IPB \<longrightarrow>
         get_dinode j (disk_view t (inode_block s ip)) = get_dinode j (disk_view s (inode_block s ip)))
    \<and> (\<forall>b. b \<notin> set (own s ip (blocks_of (file_size s ip))) \<longrightarrow> b \<notin> free_blocks s \<longrightarrow> b \<noteq> bitmap s
         \<longrightarrow> b \<noteq> inode_block s ip \<longrightarrow> disk_view t b = disk_view s b)
    \<and> home t = home s \<and> fs_sb t = fs_sb s \<and> length (icache t) = length (icache s) \<and> untouched s t \<and> free_blocks t \<subseteq> free_blocks s
    \<and> card (free_blocks s) \<le> card (free_blocks t) + need (blocks_of (file_size s ip)) (blocks_of (file_size t ip))
    \<and> set (own t ip (blocks_of (file_size t ip))) \<subseteq> set (own s ip (blocks_of (file_size s ip))) \<union> free_blocks s"

text \<open>The inode block while the file grows.\<close>

lemma grows_inode_block:
  assumes "stored_file s ip" "grows ip (blocks_of (file_size s ip)) s M t"
  shows "inode_block t ip = inode_block s ip" "home t (inode_block s ip)" "inode_block s ip \<notin> set (own t ip M)"
    "used t (inode_block s ip)" "bitmap t = bitmap s" "disk_view t (inode_block s ip) = disk_view s (inode_block s ip)"
    "i_inum (icache t ! ip) = i_inum (icache s ! ip)" "inode_block s ip \<notin> free_blocks t" "file_size t ip = file_size s ip"
proof -
  let ?b = "inode_block s ip"
  have s: "home s ?b" "used s ?b" "?b \<noteq> bitmap s" "?b \<notin> set (own s ip (blocks_of (file_size s ip)))" "ip < length (icache s)"
    using assms(1) by (simp_all add: stored_file_def grown_def)
  have nf: "?b \<notin> free_blocks s" using s(2) by (simp add: free_blocks_def)
  have g: "home t = home s" "fs_sb t = fs_sb s" "free_blocks t \<subseteq> free_blocks s"
    "set (own t ip M) \<subseteq> set (own s ip (blocks_of (file_size s ip))) \<union> free_blocks s"
    "disk_view t ?b = disk_view s ?b"
    using assms(2) s(3,4) nf by (simp_all add: grows_def)
  show n: "i_inum (icache t ! ip) = i_inum (icache s ! ip)" "file_size t ip = file_size s ip"
    using assms(2) s(5) by (auto simp: grows_def)
  show "inode_block t ip = inode_block s ip" "home t ?b" "?b \<notin> set (own t ip M)" "disk_view t ?b = disk_view s ?b"
    "bitmap t = bitmap s" "?b \<notin> free_blocks t"
    using n g s(1,4) nf by auto
  show "used t ?b" using assms(2) s(2) by (simp add: grows_def)
qed

lemma extended_size:
  fixes s :: "'a fsst_scheme" and z :: uint
  assumes sf: "stored_file s ip" and st: "stored ip off xs (blocks_of (file_size s ip)) s M v" and o: "off \<le> file_size s ip"
    and z: "unat z = off + length xs" "file_size s ip < unat z" "M = blocks_of (unat z)"
    and r: "room B k v" "locked_bufs v = {}" "k_rw E = iderw" "inode_block s ip \<in> B"
  obtains w where "iupdate E ip (upd_inode ip (\<lambda>n. n\<lparr>d_size := z\<rparr>) v) = Inr w" "room B k w" "locked_bufs w = {}"
    "extended ip off xs s w"
proof -
  let ?K = "blocks_of (file_size s ip)" and ?b = "inode_block s ip"
  have g: "grows ip ?K s M v" using st by (simp add: stored_def)
  note I = grows_inode_block[OF sf g]
  have gv: "grown v ip M" "free_map v" using g by (simp_all add: grows_def)
  have ip: "ip < length (icache v)" "ip < length (icache s)" "length (d_addrs (icache v ! ip)) = 13"
    using gv(1) sf by (simp_all add: grown_def stored_file_def)
  let ?n = "(icache v ! ip)\<lparr>d_size := z\<rparr>"
  obtain w where W: "iupdate E ip (upd_inode ip (\<lambda>n. n\<lparr>d_size := z\<rparr>) v) = Inr w" "room B k w" "locked_bufs w = {}"
    "disk_view w = (disk_view v)(?b := put_dinode (i_inum ?n) ?n (disk_view v ?b))"
    "home w = home v" "fs_sb w = fs_sb v" "icache w = (icache v)[ip := ?n]" "untouched v w"
    by (rule size_stored[OF r(1-3) gv(1), unfolded I(1), OF r(4) I(2)])
  have bb: "?b \<noteq> bitmap v" using sf I(5) by (simp add: stored_file_def)
  note R = grown_resize[OF gv(1) I(3) bb W(4-7)]
  have l: "length (disk_view v ?b) = BSIZE" by (rule room_length[OF r(1) I(2)])
  have P: "get_dinode (i_inum ?n) (put_dinode (i_inum ?n) ?n (disk_view v ?b)) = dinode_of ?n"
    "\<And>j. i_inum ?n mod IPB \<noteq> j mod IPB \<Longrightarrow> get_dinode j (put_dinode (i_inum ?n) ?n (disk_view v ?b)) = get_dinode j (disk_view v ?b)"
    using put_get_dinode(2,3)[OF l, of ?n "i_inum ?n"] ip(3) by simp_all
  have zw: "file_size w ip = unat z" "inode_block w ip = ?b" using ip I(1,7) W(6) by (simp_all add: W(7))
  have "stored_file w ip"
    unfolding stored_file_def zw using R I gv P(1) z(3) ip W(4-7) bb by simp
  moreover have mz: "max (file_size s ip) (off + length xs) = unat z" using z by simp
  have "content w ip = map (file_byte v ip) [0..<unat z]"
    unfolding content_def zw(1) using R(2) blocks_of_le[of "unat z" M] z(3) by (intro map_cong) auto
  then have "content w ip = take off (content s ip) @ xs @ drop (off + length xs) (content s ip)"
    using stored_content[OF st o] blocks_of_le[of "unat z" M] z mz by (simp add: blocks_of_le)
  moreover have "disk_view w b = disk_view s b"
    if "b \<notin> set (own s ip ?K)" "b \<notin> free_blocks s" "b \<noteq> bitmap s" "b \<noteq> ?b" for b
    using g that W(4) by (simp add: grows_def)
  moreover obtain a where "icache v = (icache s)[ip := (icache s ! ip)\<lparr>d_addrs := a\<rparr>]" using g unfolding grows_def by blast
  then have "icache w ! ip = (icache s ! ip)\<lparr>d_addrs := a, d_size := z\<rparr>" "\<forall>j. j \<noteq> ip \<longrightarrow> icache w ! j = icache s ! j"
    using ip by (simp_all add: W(7))
  moreover have "untouched s w" by (rule untouched_trans[of s v]) (use g W(8) in \<open>simp_all add: grows_def\<close>)
  moreover have "home w = home s" "fs_sb w = fs_sb s" "length (icache w) = length (icache s)" "free_blocks w \<subseteq> free_blocks s"
    "card (free_blocks s) \<le> card (free_blocks w) + need ?K M" "set (own w ip M) \<subseteq> set (own s ip ?K) \<union> free_blocks s"
    using g R(3,5) W(5,6,7) by (auto simp: grows_def)
  ultimately have "extended ip off xs s w"
    using zw(1) mz P(2) I(6,7) W(4) z(3) unfolding extended_def by (intro conjI exI[of _ a] exI[of _ z]) simp_all
  then show thesis using that W(1-3) by blast
qed

text \<open>Within the blocks and the size of the file nothing but the content changes.\<close>

lemma extended_within:
  fixes s :: "'a fsst_scheme"
  assumes sf: "stored_file s ip" and st: "stored ip off xs (blocks_of (file_size s ip)) s (blocks_of (file_size s ip)) v"
    and o: "off + length xs \<le> file_size s ip"
  shows "extended ip off xs s v" "icache v = icache s"
proof -
  let ?K = "blocks_of (file_size s ip)"
  have g: "grows ip ?K s ?K v" using st by (simp add: stored_def)
  note I = grows_inode_block[OF sf g]
  show ic: "icache v = icache s" by (rule grows_addrs[OF _ g]) (use sf in \<open>simp add: stored_file_def\<close>)
  have gv: "grown v ip ?K" "free_map v" using g by (simp_all add: grows_def)
  have bb: "inode_block s ip \<noteq> bitmap v" using sf I(5) by (simp add: stored_file_def)
  have "stored_file v ip"
    using sf gv I bb unfolding stored_file_def by (simp add: ic)
  moreover have mz: "max (file_size s ip) (off + length xs) = file_size s ip" using o by simp
  have "map (file_byte v ip) [0..<max (file_size s ip) (off + length xs)]
      = take off (content s ip) @ xs @ drop (off + length xs) (content s ip)"
    by (rule stored_content[OF st]) (use o in \<open>simp_all add: blocks_of_le blocks_of_mono\<close>)
  then have "content v ip = take off (content s ip) @ xs @ drop (off + length xs) (content s ip)"
    unfolding mz by (simp add: content_def ic)
  moreover have "disk_view v b = disk_view s b" if "b \<notin> set (own s ip ?K)" "b \<notin> free_blocks s" "b \<noteq> bitmap s" for b
    using g that by (simp add: grows_def)
  moreover have "icache s ! ip = (icache s ! ip)\<lparr>d_addrs := d_addrs (icache s ! ip), d_size := d_size (icache s ! ip)\<rparr>" by simp
  then have "\<exists>a z. icache s ! ip = (icache s ! ip)\<lparr>d_addrs := a, d_size := z\<rparr>" by blast
  moreover have "home v = home s" "fs_sb v = fs_sb s" "untouched s v" "free_blocks v \<subseteq> free_blocks s"
    "card (free_blocks s) \<le> card (free_blocks v) + need ?K ?K" "set (own v ip ?K) \<subseteq> set (own s ip ?K) \<union> free_blocks s"
    using g by (simp_all add: grows_def)
  ultimately show "extended ip off xs s v"
    using I(6) mz unfolding extended_def by (simp add: ic)
qed

lemma le_file_word: "off + n \<le> MAXFILE * BSIZE \<Longrightarrow> off = unat (x :: uint) \<Longrightarrow> n = unat (y :: uint) \<Longrightarrow> unat (x + y) = off + n"
  using unat_add_lem[of x y] by simp

text \<open>The call as a whole, up to what its result says about reading.\<close>

lemma writei_data_extended:
  fixes s :: "'a fsst_scheme" and off n :: uint and src :: "nat \<Rightarrow> uchar"
  assumes "in_txn (turns (unat off) (unat n) + 5) s" "k_rw E = iderw" "stored_file s ip"
    and "unat off \<le> file_size s ip" "unat off + unat n \<le> MAXFILE * BSIZE"
    and "need (blocks_of (file_size s ip)) (blocks_of (unat off + unat n)) \<le> card (free_blocks s)"
  defines "xs \<equiv> piece src 0 (unat n)"
  shows "\<exists>B t. writei_data E ip src off n s = Inr (int (unat n), t) \<and> room B 0 t \<and> locked_bufs t = {} \<and> extended ip (unat off) xs s t"
proof -
  let ?K = "blocks_of (file_size s ip)" and ?L = "blocks_of (unat off + unat n)" and ?ib = "inode_block s ip"
  let ?f = src and ?B = "known ip (unat off) (blocks_of (unat off + unat n)) s"
  have g: "grown s ip ?K" "free_map s" "home s ?ib" "used s ?ib" "?ib \<noteq> bitmap s" "?ib \<notin> set (own s ip ?K)"
    "get_dinode (i_inum (icache s ! ip)) (disk_view s ?ib) = dinode_of (icache s ! ip)"
    using assms(3) by (simp_all add: stored_file_def)
  have ip: "ip < length (icache s)" using g(1) by (simp add: grown_def)
  have zK: "file_size s ip \<le> ?K * BSIZE" by (simp add: blocks_of_le)
  note o = le_file_word[OF assms(5) refl refl]
  have lx: "length xs = unat n" "xs = piece ?f (unat (0 :: uint)) (unat n - unat (0 :: uint))"
    by (simp_all add: xs_def)
  have L: "?L \<le> MAXFILE" using assms(5) by (simp flip: blocks_of_le)
  have "\<exists>B M v. writei_loop (unat n) E ip ?f n 0 off s = Inr (off + (n - 0), v)
    \<and> ready_to B ip M ?L (unat off + (unat n - unat (0 :: uint))) 0 v
    \<and> unat off + (unat n - unat (0 :: uint)) \<le> M * BSIZE \<and> M \<le> max ?K ?L \<and> ?B \<subseteq> B
    \<and> stored ip (unat off) (piece ?f (unat (0 :: uint)) (unat n - unat (0 :: uint))) ?K s M v"
    by (rule writei_loop_grows[OF stored_ready[OF assms(1,3,4,6)] assms(2) _ L])
      (use assms(4) zK blocks_of_mono in \<open>simp_all add: blocks_of_le\<close>)
  then obtain B M v where V: "writei_loop (unat n) E ip ?f n 0 off s = Inr (off + n, v)"
    "ready_to B ip M ?L (unat off + unat n) 0 v" "unat off + unat n \<le> M * BSIZE" "M \<le> max ?K ?L" "?B \<subseteq> B"
    "stored ip (unat off) xs ?K s M v" unfolding lx(2) by auto
  have gv: "grows ip ?K s M v" using V(6) by (simp add: stored_def)
  have M: "?K \<le> M" "?L \<le> M" using gv V(3) by (simp_all add: grows_def flip: blocks_of_le)
  have ds: "d_size (icache v ! ip) = d_size (icache s ! ip)" "d_type (icache v ! ip) = d_type (icache s ! ip)"
    using gv ip by (auto simp: grows_def)
  have gd: "\<not> off > d_size (icache s ! ip)" "\<not> off + n < off" "\<not> off + n > of_nat (MAXFILE * BSIZE)"
    using assms(4,5) by (simp_all add: word_less_nat_alt o)
  have sn: "sint n = int (unat n)" by (rule sint_file) (use assms(5) in linarith)
  have rv: "room B 0 v" "locked_bufs v = {}" "inode_block s ip \<in> B"
    using V(2,5) by (auto simp: ready_to_def known_def Let_def elim: room_mono)
  show "\<exists>B t. writei_data E ip src off n s = Inr (int (unat n), t) \<and> room B 0 t \<and> locked_bufs t = {} \<and> extended ip (unat off) xs s t"
  proof (cases "file_size s ip < unat off + unat n")
    case True
    then have leq: "M = blocks_of (unat (off + n))"
      using M V(4) blocks_of_mono[of "file_size s ip" "unat off + unat n"] by (simp add: o)
    have zz: "unat (off + n) = unat off + length xs" "file_size s ip < unat (off + n)" using True by (simp_all add: o lx(1))
    obtain w where w: "iupdate E ip (upd_inode ip (\<lambda>m. m\<lparr>d_size := off + n\<rparr>) v) = Inr w" "room B 0 w" "locked_bufs w = {}"
      "extended ip (unat off) xs s w"
      by (rule extended_size[OF assms(3) V(6) assms(4) zz leq rv(1,2) assms(2) rv(3)])
    have "0 < n" using True assms(4) by (intro word_gt_0[THEN iffD2]) auto
    then have "writei_data E ip src off n s = Inr (int (unat n), w)"
      using V(1) w(1) gd zz(2) ds sn by (simp add: writei_data_def word_less_nat_alt)
    then show ?thesis using w by blast
  next
    case False
    then have "?L \<le> ?K" by (intro blocks_of_mono) simp
    then have MK: "M = ?K" using M V(4) by simp
    have "unat off + length xs \<le> file_size s ip" using False by (simp add: lx(1))
    note X = extended_within[OF assms(3) V(6)[unfolded MK] this]
    have "\<not> off + n > d_size (icache s ! ip)" using False by (simp add: word_less_nat_alt o)
    then have "writei_data E ip src off n s = Inr (int (unat n), v)"
      using V(1) gd ds sn by (simp add: writei_data_def)
    then show ?thesis using X(1) rv by blast
  qed
qed

lemma writei_extended:
  fixes s :: "'a fsst_scheme" and off n src :: uint
  assumes "in_txn (turns (unat off) (unat n) + 5) s" "k_rw E = iderw" "stored_file s ip" "d_type (icache s ! ip) \<noteq> T_DEV"
    and "unat off \<le> file_size s ip" "unat off + unat n \<le> MAXFILE * BSIZE"
    and "need (blocks_of (file_size s ip)) (blocks_of (unat off + unat n)) \<le> card (free_blocks s)"
  shows "\<exists>B t. writei E ip src off n s = Inr (int (unat n), t) \<and> room B 0 t \<and> locked_bufs t = {}
    \<and> extended ip (unat off) (load_bytes (mem s) src (unat n)) s t"
  using writei_data_extended[OF assms(1-3,5-7), of "\<lambda>k. mem s (src + of_nat k)"] assms(4)
  by (simp add: writei_def load_bytes_def)

text \<open>
  C8: \<open>writei\<close> at any place of a file, beyond its end included. In a transaction with room for
  the blocks it touches and a disk with the free blocks that are missing, it returns the
  number of bytes; the file has grown to the last byte written, its content is the old one with the
  bytes at the offset, the block list has no block twice and all of them are marked as used, the inode
  stored on disk is the cached one, the other inodes of its block and every block that was neither the
  file's nor free are as before, and reading the range gives the bytes back.
\<close>

theorem writei_grows:
  fixes s :: "'a fsst_scheme" and off n src :: uint
  assumes "in_txn (turns (unat off) (unat n) + 5) s" "k_rw E = iderw" "stored_file s ip" "d_type (icache s ! ip) \<noteq> T_DEV"
    and "unat off \<le> file_size s ip" "unat off + unat n \<le> MAXFILE * BSIZE"
    and "need (blocks_of (file_size s ip)) (blocks_of (unat off + unat n)) \<le> card (free_blocks s)"
  defines "xs \<equiv> load_bytes (mem s) src (unat n)" and "c \<equiv> content s ip"
  shows "\<exists>t u. writei E ip src off n s = Inr (int (unat n), t) \<and> in_txn 1 t \<and> stored_file t ip
    \<and> file_size t ip = max (file_size s ip) (unat off + unat n)
    \<and> content t ip = take (unat off) c @ xs @ drop (unat off + unat n) c
    \<and> (\<forall>j. j \<noteq> ip \<longrightarrow> icache t ! j = icache s ! j)
    \<and> (\<exists>a z. icache t ! ip = (icache s ! ip)\<lparr>d_addrs := a, d_size := z\<rparr>)
    \<and> (\<forall>j. j mod IPB \<noteq> i_inum (icache s ! ip) mod IPB \<longrightarrow>
         get_dinode j (disk_view t (inode_block s ip)) = get_dinode j (disk_view s (inode_block s ip)))
    \<and> (\<forall>b. b \<notin> set (own s ip (blocks_of (file_size s ip))) \<longrightarrow> b \<notin> free_blocks s \<longrightarrow> b \<noteq> bitmap s
         \<longrightarrow> b \<noteq> inode_block s ip \<longrightarrow> disk_view t b = disk_view s b)
    \<and> readi_data E ip off n t = Inr (int (unat n), xs, u)"
proof -
  have lx: "length xs = unat n" by (simp add: xs_def load_bytes_def)
  have gd: "\<not> off + n < off" using le_file_word[OF assms(6) refl refl] by (simp add: word_less_nat_alt)
  obtain B t where t: "writei E ip src off n s = Inr (int (unat n), t)" "room B 0 t" "locked_bufs t = {}"
    "extended ip (unat off) xs s t"
    using writei_extended[OF assms(1-7), of src] by (auto simp: xs_def)
  have ft: "file_size t ip = max (file_size s ip) (unat off + unat n)" "stored_file t ip"
    "content t ip = take (unat off) c @ xs @ drop (unat off + unat n) c"
    using t(4) by (simp_all add: extended_def lx c_def)
  have tx: "in_txn 1 t" using room_in_txn[OF t(2,3)] by simp
  have mt: "mapped_file t ip" by (rule grown_mapped) (use ft(2) in \<open>simp add: stored_file_def\<close>)
  have "take (unat n) (drop (unat off) (content t ip)) = xs" using assms(5) lx by (simp add: ft(3) c_def)
  moreover have "min (unat n) (file_size t ip - unat off) = unat n" using ft(1) by simp
  moreover have "\<not> (off > d_size (icache t ! ip) \<or> off + n < off)" using ft(1) assms(5) gd by (simp add: word_less_nat_alt)
  ultimately obtain u where "readi_data E ip off n t = Inr (int (unat n), xs, u)"
    using readi_data_content[OF tx assms(2) mt, of off n] by auto
  then show ?thesis
    using t(1,4) tx ft unfolding extended_def by blast
qed

text \<open>
  Free maps for the examples: the first \<open>8 * m\<close> blocks of the machine of theory \<open>Fs_Txn\<close> are in use.
\<close>

definition map_block :: "nat \<Rightarrow> block" where
  "map_block m = replicate m 255 @ replicate (512 - m) 0"

lemma map_example:
  fixes s :: "'a fsst_scheme"
  assumes "disk_view s 60 = map_block m" "fs_sb s = sb1000" "home s = home fs_machine" "8 \<le> m" "m \<le> 64"
  shows "bitmap s = 60" "unat b < 4096 \<Longrightarrow> used s b \<longleftrightarrow> unat b < 8 * m" "free_map s" "13 \<le> card (free_blocks s)"
proof -
  show bm: "bitmap s = 60" by (simp add: assms(2) sb1000_def BBLOCK_def)
  have "bit (255 :: uchar) k" if "k < 8" for k
    using that bit_mask_iff[of 8 k, where 'a = uchar] by (simp add: mask_eq_exp_minus_1)
  then have B: "bit_used j (map_block m) \<longleftrightarrow> j < 8 * m" if "j < 4096" for j
    using that assms(5) by (simp add: bit_used_iff map_block_def nth_append div_less_iff_less_mult mult.commute)
  then show u: "used s b \<longleftrightarrow> unat b < 8 * m" if "unat b < 4096" for b
    using that assms(1) by (simp add: used_def bm)
  have fb: "b \<in> free_blocks s \<longleftrightarrow> 8 * m \<le> unat b \<and> unat b < 1000" for b
    using u[of b] by (auto simp: free_blocks_def assms(2) sb1000_def word_less_nat_alt)
  have hs: "home s b \<longleftrightarrow> b < 1000 \<and> \<not> (2 \<le> b \<and> b < 32)" for b by (simp add: assms(3) fs_machine_home)
  show "free_map s"
    unfolding free_map_def bm using u[of 0] u[of 60] assms(4)
    by (auto simp: fb hs assms(2) sb1000_def word_less_nat_alt word_le_nat_alt)
  have "card ((of_nat :: nat \<Rightarrow> uint) ` {8 * m..<8 * m + 13}) = 13"
    by (subst card_image) (use assms(5) in \<open>auto intro!: inj_onI simp: word_unat_eq_iff unat_of_nat\<close>)
  moreover have "(of_nat :: nat \<Rightarrow> uint) ` {8 * m..<8 * m + 13} \<subseteq> free_blocks s"
    using assms(5) by (auto simp: fb unat_of_nat)
  ultimately show "13 \<le> card (free_blocks s)" by (metis card_mono finite)
qed

text \<open>The map and then an inode are stored.\<close>

lemma store_example:
  fixes r :: "'a fsst_scheme"
  assumes r: "in_txn (Suc (Suc k)) r" "home r = home fs_machine" "fs_sb r = sb1000" and m: "8 \<le> m" "m \<le> 64"
    and n: "inode_block r ip = b" "b < 60" "32 \<le> b" "length (d_addrs (icache r ! ip)) = 13"
  obtains s where "in_txn k s" "home s = home fs_machine" "logst.more s = logst.more r" "disk_view s 60 = map_block m"
    "get_dinode (i_inum (icache s ! ip)) (disk_view s b) = dinode_of (icache s ! ip)"
    "\<And>n. n \<noteq> 60 \<Longrightarrow> n \<noteq> b \<Longrightarrow> disk_view s n = disk_view r n"
proof -
  let ?n = "icache r ! ip"
  have h: "home r 60" "home r b" using n(2,3) by (auto simp: r(2) fs_machine_home word_less_nat_alt word_le_nat_alt)
  have lm: "length (map_block m) = BSIZE" using m by (simp add: map_block_def)
  obtain q where q: "in_txn (Suc k) q" "home q = home r" "disk_view q = (disk_view r)(60 := map_block m)"
    "logst.more q = logst.more r"
    by (rule txn_update[OF r(1) h(1) lm])
  have hq: "home q b" using h(2) q(2) by simp
  note P = put_get_dinode[OF home_length[OF q(1) hq] n(4), of "i_inum ?n"]
  obtain s where s: "in_txn k s" "home s = home q" "disk_view s = (disk_view q)(b := put_dinode (i_inum ?n) ?n (disk_view q b))"
    "logst.more s = logst.more q"
    by (rule txn_update[OF q(1) hq P(1)])
  have "b \<noteq> 60" using n(2) by auto
  moreover have "icache s = icache r" using fs_more[OF s(4)] fs_more[OF q(4)] by simp
  ultimately show thesis using that s q P(2) r(2) by simp
qed

text \<open>The example grows from three to fifteen blocks, over the direct blocks.\<close>

lemma grow_example:
  fixes r :: "'a fsst_scheme"
  assumes r: "in_txn (Suc (Suc k)) r" "home r = home fs_machine" "fs_sb r = sb1000"
    and c: "icache r ! 0 = file17\<lparr>d_nlink := l\<rparr>" "0 < length (icache r)"
  obtains s where "in_txn k s" "stored_file s 0" "logst.more s = logst.more r" "13 \<le> card (free_blocks s)" "home s = home fs_machine"
    "own s 0 (blocks_of (file_size s 0)) = [200, 201, 202]" "\<And>b. b \<noteq> 42 \<Longrightarrow> b \<noteq> 60 \<Longrightarrow> disk_view s b = disk_view r b"
proof -
  have i: "inode_block r 0 = 42" by (simp add: c(1) r(3) sb1000_def IBLOCK_def file17_def)
  obtain s where s: "in_txn k s" "home s = home fs_machine" "logst.more s = logst.more r" "disk_view s 60 = map_block 32"
    "get_dinode (i_inum (icache s ! 0)) (disk_view s 42) = dinode_of (icache s ! 0)"
    "\<And>b. b \<noteq> 60 \<Longrightarrow> b \<noteq> 42 \<Longrightarrow> disk_view s b = disk_view r b"
    by (rule store_example[OF r _ _ i, of 32]) (simp_all add: c(1) file17_def)
  note fs = fs_more[OF s(3)]
  have f: "fs_sb s = sb1000" "icache s ! 0 = file17\<lparr>d_nlink := l\<rparr>" "inode_block s 0 = 42" "0 < length (icache s)"
    using i r c by (simp_all add: fs)
  have m: "8 \<le> (32 :: nat)" "(32 :: nat) \<le> 64" by simp_all
  note M = map_example[OF s(4) f(1) s(2) m]
  have hs: "home s b \<longleftrightarrow> b < 1000 \<and> \<not> (2 \<le> b \<and> b < 32)" for b by (simp add: s(2) fs_machine_home)
  have k3: "blocks_of (file_size s 0) = 3" by (simp add: f(2) file17_def blocks_of_def)
  have ow: "own s 0 3 = [200, 201, 202]"
    by (simp add: own_def upt_rec file_block_def f(2) file17_def)
  have "file_block s 0 k = 0" if "3 \<le> k" "k < NDIRECT" for k
    using that by (simp add: file_block_def f(2) file17_def nth_append)
  then have "grown s 0 3"
    using M(2) f(2,4) by (simp add: grown_def ow hs M(1) indirect_def) (simp add: file17_def)
  then have "stored_file s 0"
    unfolding stored_file_def k3 f(3) M(1) ow using M(2)[of 42] M(3) s(5) by (simp add: hs)
  then show thesis using that s(1-3,6) M(4) ow k3 by simp
qed

lemma writei_grows_witness:
  "\<exists>s t. file_size s 0 = 1500 \<and> writei fs_env 0 4096 1500 6000 s = Inr (6000, t) \<and> file_size t 0 = 7500
     \<and> content t 0 = content s 0 @ load_bytes (mem s) 4096 6000 \<and> stored_file t 0"
proof -
  obtain s :: fsst where s: "in_txn 27 s" "stored_file s 0" "logst.more s = logst.more fs_machine" "13 \<le> card (free_blocks s)"
    by (rule grow_example[where r = fs_machine and k = 27 and l = 1, OF fs_machine_txn refl fs_machine_fields(2)])
      (simp_all add: fs_machine_fields file17_def)
  have s3: "icache s = icache fs_machine" by (rule fs_more(1)[OF s(3)])
  have z: "file_size s 0 = 1500" "d_type (icache s ! 0) \<noteq> T_DEV" by (simp_all add: s3 fs_machine_fields file17_def)
  have t: "in_txn (turns (unat (1500 :: uint)) (unat (6000 :: uint)) + 5) s"
    using s(1) by (simp add: turns_def in_txn_def)
  have n: "need (blocks_of (file_size s 0)) (blocks_of (unat (1500 :: uint) + unat (6000 :: uint))) \<le> card (free_blocks s)"
    using s(4) by (simp add: z need_def blocks_of_def)
  have w: "unat (1500 :: uint) \<le> file_size s 0" "unat (1500 :: uint) + unat (6000 :: uint) \<le> MAXFILE * BSIZE"
    by (simp_all add: z)
  obtain t where "writei fs_env 0 4096 1500 6000 s = Inr (6000, t)" "file_size t 0 = 7500" "stored_file t 0"
    "content t 0 = take 1500 (content s 0) @ load_bytes (mem s) 4096 6000 @ drop 7500 (content s 0)"
    using writei_grows[OF t fs_machine_fields(3) s(2) z(2) w n, of 4096] z(1) by auto
  then show ?thesis using z(1) by (intro exI[of _ s] exI[of _ t]) simp
qed

end
