(* ===== verification/Link.thy ===== *)
theory Link
  imports Lookup Grow
begin

text \<open>
  \<open>dirlink\<close>: a name is added to a directory, in its first free entry or at its end.
\<close>

section \<open>The free entry\<close>

declare free_dirent.simps [simp del]

text \<open>The first entry without an inode, or the number of entries.\<close>

definition free_entry :: "dirent list \<Rightarrow> nat" where
  "free_entry ds = (case find (\<lambda>j. de_inum (ds ! j) = 0) [0..<length ds] of Some j \<Rightarrow> j | None \<Rightarrow> length ds)"

definition put_entry :: "dirent \<Rightarrow> dirent list \<Rightarrow> dirent list" where
  "put_entry de ds = (if free_entry ds < length ds then ds[free_entry ds := de] else ds @ [de])"

lemma free_entry_le: "free_entry ds \<le> length ds"
  by (auto simp: free_entry_def find_upt_iff split: option.split)

lemma free_entry_iff:
  "i < length ds \<Longrightarrow> (\<And>j. j < i \<Longrightarrow> de_inum (ds ! j) \<noteq> 0) \<Longrightarrow> de_inum (ds ! i) = 0 \<Longrightarrow> free_entry ds = i"
  "(\<And>j. j < length ds \<Longrightarrow> de_inum (ds ! j) \<noteq> 0) \<Longrightarrow> free_entry ds = length ds"
proof -
  show "free_entry ds = i" if "i < length ds" "\<And>j. j < i \<Longrightarrow> de_inum (ds ! j) \<noteq> 0" "de_inum (ds ! i) = 0"
  proof -
    have "find (\<lambda>j. de_inum (ds ! j) = 0) [0..<length ds] = Some i" using that by (simp add: find_upt_iff)
    then show ?thesis by (simp add: free_entry_def)
  qed
  show "free_entry ds = length ds" if "\<And>j. j < length ds \<Longrightarrow> de_inum (ds ! j) \<noteq> 0"
  proof -
    have "find (\<lambda>j. de_inum (ds ! j) = 0) [0..<length ds] = None" using that by (simp add: find_upt_iff)
    then show ?thesis by (simp add: free_entry_def)
  qed
qed

lemma free_dirent_entry:
  fixes s :: "'a fsst_scheme"
  assumes "in_txn k s" "k_rw E = iderw" "mapped_file s dp" "d_type (icache s ! dp) \<noteq> T_DEV" "16 dvd file_size s dp"
    and "unat off = 16 * i" "i \<le> file_size s dp div 16" "file_size s dp div 16 - i \<le> fuel"
    and "\<And>j. j < i \<Longrightarrow> de_inum (entries s dp ! j) \<noteq> 0"
  shows "\<exists>t. in_txn k t \<and> fs_same s t \<and> free_dirent fuel E dp off s = Inr (of_nat (16 * free_entry (entries s dp)), t)"
  using assms
proof (induction fuel arbitrary: off i s)
  case 0
  then have i: "i = file_size s dp div 16" by simp
  have "unat off = file_size s dp" using 0(5,6) i by simp
  then have "\<not> off < d_size (icache s ! dp)" by (simp add: word_less_nat_alt)
  moreover have "off = of_nat (16 * i)" using arg_cong[OF 0(6), of "of_nat :: nat \<Rightarrow> uint"] by simp
  moreover have "length (entries s dp) = i" by (simp add: entries_def i)
  then have "free_entry (entries s dp) = i" using free_entry_iff(2)[of "entries s dp"] 0(9) by simp
  ultimately show ?case using 0(1) by (subst free_dirent.simps) auto
next
  case (Suc fuel)
  have off: "off = of_nat (16 * i)" using arg_cong[OF Suc.prems(6), of "of_nat :: nat \<Rightarrow> uint"] by simp
  have len: "length (entries s dp) = file_size s dp div 16" by (simp add: entries_def)
  show ?case
  proof (cases "off < d_size (icache s ! dp)")
    case False
    then have "i = length (entries s dp)" using Suc.prems(5-7) by (auto simp: len word_less_nat_alt)
    then have "free_entry (entries s dp) = i" using free_entry_iff(2)[of "entries s dp"] Suc.prems(9) by simp
    then show ?thesis using Suc.prems(1) False off by (subst free_dirent.simps) auto
  next
    case True
    then have i: "i < length (entries s dp)" "16 * i + 16 \<le> file_size s dp"
      using Suc.prems(5,6) by (auto simp: len word_less_nat_alt)
    obtain t where T: "read_dirent E dp off s = Inr (entry s dp i, t)" "in_txn k t" "fs_same s t"
      by (rule read_dirent_entry[OF Suc.prems(1-4,6) i(2)])
    note st = fs_sameD[OF T(3)] entries_same[OF T(3)]
    have e: "entries s dp ! i = entry s dp i" using i len by (simp add: entries_def)
    show ?thesis
    proof (cases "de_inum (entry s dp i) = 0")
      case True2: True
      then have "free_entry (entries s dp) = i" using free_entry_iff(1)[OF i(1)] Suc.prems(9) e by simp
      then show ?thesis using True True2 T off by (subst free_dirent.simps) auto
    next
      case False2: False
      have "file_size s dp \<le> MAXFILE * BSIZE" using Suc.prems(3) by (simp add: mapped_file_def)
      then have o: "unat (off + 16) = 16 * Suc i" using Suc.prems(6) i unat_add_lem[of off 16] by simp
      have f: "file_size s dp div 16 - Suc i \<le> fuel" "Suc i \<le> file_size s dp div 16" using Suc.prems(8) i(1) len by linarith+
      have nz: "de_inum (entries s dp ! j) \<noteq> 0" if "j < Suc i" for j
        using that Suc.prems(9) False2 e by (cases "j = i") auto
      have "\<exists>u. in_txn k u \<and> fs_same t u \<and> free_dirent fuel E dp (off + 16) t = Inr (of_nat (16 * free_entry (entries s dp)), u)"
        using Suc.IH[OF T(2) Suc.prems(2), of "off + 16" "Suc i"] Suc.prems(3-5) o f nz unfolding st by blast
      moreover have "free_dirent (Suc fuel) E dp off s = free_dirent fuel E dp (off + 16) t"
        using True False2 T(1) by (subst free_dirent.simps) simp
      ultimately show ?thesis using fs_same_trans[OF T(3)] by auto
    qed
  qed
qed

section \<open>Entries as bytes\<close>

lemma decode_encode_dirent: "length (de_name de) = DIRSIZ \<Longrightarrow> decode_dirent (encode_dirent de) = de"
  by (simp add: decode_dirent_def encode_dirent_def)

lemma length_encode_dirent: "length (de_name de) = DIRSIZ \<Longrightarrow> length (encode_dirent de) = 16"
  by (simp add: encode_dirent_def)

lemma length_copy_name [simp]: "length (copy_name n xs) = n"
  by (induction n xs rule: copy_name.induct) simp_all

text \<open>Storing an entry's bytes in a multiple of 16 bytes.\<close>

lemma chunk_stored:
  assumes "length c = 16 * n" "j \<le> n" "length b = 16" "i \<le> n"
  shows "take 16 (drop (16 * i) (take (16 * j) c @ b @ drop (16 * j + 16) c))
    = (if i = j then b else take 16 (drop (16 * i) c))"
proof -
  have l: "length (take (16 * j) c) = 16 * j" using assms(1,2) by simp
  consider "i = j" | "i < j" | "j < i" by linarith
  then show ?thesis
  proof cases
    case 1
    then show ?thesis using l assms(3) by simp
  next
    case 2
    then have "16 * i + 16 \<le> 16 * j" by linarith
    then have "take 16 (drop (16 * i) (take (16 * j) c)) = take 16 (drop (16 * i) c)" by (simp add: drop_take)
    then show ?thesis using 2 l \<open>16 * i + 16 \<le> 16 * j\<close> by simp
  next
    case 3
    then have "16 * i = 16 * j + 16 + 16 * (i - j - 1)" by linarith
    then show ?thesis using 3 l assms(3) by (simp add: add.commute)
  qed
qed

lemma entries_stored:
  fixes s t :: "'a fsst_scheme"
  assumes "16 dvd file_size s dp" "file_size t dp = max (file_size s dp) (16 * j + 16)" "j = free_entry (entries s dp)"
    and "content t dp = take (16 * j) (content s dp) @ encode_dirent de @ drop (16 * j + 16) (content s dp)"
    and "length (de_name de) = DIRSIZ"
  shows "entries t dp = put_entry de (entries s dp)"
proof -
  let ?n = "file_size s dp div 16"
  have n: "length (entries s dp) = ?n" "length (content s dp) = 16 * ?n" using assms(1) by (simp_all add: entries_def)
  have j: "j \<le> ?n" using free_entry_le[of "entries s dp"] assms(3) n by simp
  have m: "length (entries t dp) = max ?n (Suc j)"
  proof -
    obtain q where "file_size s dp = 16 * q" using assms(1) by blast
    then show ?thesis by (simp add: entries_def assms(2) max_def)
  qed
  have e: "entry t dp i = (if i = j then de else entry s dp i)" if "i \<le> ?n" for i
    using chunk_stored[OF n(2) j length_encode_dirent[OF assms(5)] that] decode_encode_dirent[OF assms(5)]
    by (simp add: entry_def assms(4))
  show ?thesis
  proof (rule nth_equalityI)
    show "length (entries t dp) = length (put_entry de (entries s dp))" using j n by (simp add: m put_entry_def flip: assms(3))
    fix i assume i: "i < length (entries t dp)"
    then have "entries t dp ! i = entry t dp i" by (simp add: entries_def)
    moreover have "i \<le> ?n" using i j m by simp
    ultimately have t: "entries t dp ! i = (if i = j then de else entry s dp i)" using e by simp
    have "entries s dp ! i = entry s dp i" if "i < ?n" using that by (simp add: entries_def)
    then show "entries t dp ! i = put_entry de (entries s dp) ! i"
      using i j m n t by (auto simp: put_entry_def nth_append nth_list_update simp flip: assms(3))
  qed
qed

lemma put_entry_found:
  assumes "\<And>j. j < length ds \<Longrightarrow> \<not> names name (ds ! j)" "names name de"
  shows "find (\<lambda>j. names name (put_entry de ds ! j)) [0..<length (put_entry de ds)] = Some (free_entry ds)"
    "put_entry de ds ! free_entry ds = de"
proof -
  have "free_entry ds \<le> length ds" by (rule free_entry_le)
  then show "find (\<lambda>j. names name (put_entry de ds ! j)) [0..<length (put_entry de ds)] = Some (free_entry ds)"
    "put_entry de ds ! free_entry ds = de"
    using assms by (auto simp: find_upt_iff put_entry_def nth_append nth_list_update)
qed

section \<open>A name that is there\<close>

text \<open>The reference that \<open>dirlookup\<close> took is given back, and the inode is kept.\<close>

lemma iput_placed:
  fixes s :: "'a fsst_scheme"
  assumes "placed dev inum s ip t" "held s = {}"
  shows "\<exists>u. iput E ip t = Inr u \<and> u = upd_inode ip (\<lambda>_. icache u ! ip) s
    \<and> i_ref (icache u ! ip) = i_ref (icache s ! ip) \<and> (0 < i_ref (icache s ! ip) \<longrightarrow> icache u ! ip = icache s ! ip)"
proof -
  have ip: "ip < length (icache s)" and t: "t = upd_inode ip (\<lambda>_. icache t ! ip) s"
    using assms(1) by (simp_all add: placed_def upd_inode_def)
  have ht: "held t = {}" by (subst t) (simp add: upd_inode_def assms(2))
  then have "t\<lparr>held := {}\<rparr> = t" by simp
  moreover have "i_ref (icache t ! ip) \<noteq> 1 \<or> i_flags (icache t ! ip) = 0"
    using assms(1) by (auto simp: placed_def iget_hit_def split: if_splits)
  then have nl: "\<not> (i_ref (icache t ! ip) = 1 \<and> i_flags (icache t ! ip) AND I_VALID \<noteq> 0 \<and> d_nlink (icache t ! ip) = 0)"
    by auto
  ultimately have p: "iput E ip t = Inr (upd_inode ip (\<lambda>n. n\<lparr>i_ref := i_ref n - 1\<rparr>) t)"
    using ht by (simp add: iput_def Let_def release_def upd_inode_def nl[THEN eq_False[THEN iffD2]])
  define n where "n = (icache t ! ip)\<lparr>i_ref := i_ref (icache t ! ip) - 1\<rparr>"
  have "upd_inode ip (\<lambda>n. n\<lparr>i_ref := i_ref n - 1\<rparr>) t = upd_inode ip (\<lambda>_. n) s"
    by (subst (1) t) (simp add: upd_inode_def ip n_def)
  moreover have "icache (upd_inode ip (\<lambda>_. n) s) ! ip = n" using ip by (simp add: upd_inode_def)
  moreover have "i_ref n = i_ref (icache s ! ip) \<and> (0 < i_ref (icache s ! ip) \<longrightarrow> n = icache s ! ip)"
    using assms(1) by (auto simp: placed_def iget_hit_def n_def split: if_splits)
  ultimately show ?thesis
    using p by (intro exI[of _ "upd_inode ip (\<lambda>_. n) s"]) simp
qed

section \<open>Linking\<close>

lemma turns_entry: "turns (16 * j) 16 = 1"
proof -
  have "(16 * j + 15) div 512 = (16 * j) div (512 :: nat)"
    using div_mult2_eq[of "16 * j + 15" 16 32] div_mult2_eq[of "16 * j" 16 32] by simp
  then show ?thesis by (simp add: turns_def)
qed

text \<open>The entry is written.\<close>

lemma dirlink_write:
  fixes s :: "'a fsst_scheme"
  assumes s: "in_txn 6 s" "k_rw E = iderw" "stored_file s dp" "16 dvd file_size s dp" "file_size s dp + 16 \<le> MAXFILE * BSIZE"
    and f: "2 \<le> card (free_blocks s)" and de: "length (de_name de) = DIRSIZ"
  shows "\<exists>B t. writei_data E dp (\<lambda>k. encode_dirent de ! k) (of_nat (16 * free_entry (entries s dp))) DESIZE s = Inr (16, t)
    \<and> room B 0 t \<and> locked_bufs t = {} \<and> extended dp (16 * free_entry (entries s dp)) (encode_dirent de) s t
    \<and> entries t dp = put_entry de (entries s dp)"
proof -
  let ?j = "free_entry (entries s dp)"
  have "?j \<le> file_size s dp div 16" using free_entry_le[of "entries s dp"] by (simp add: entries_def)
  then have j: "16 * ?j \<le> file_size s dp" by (simp add: less_eq_div_iff_mult_less_eq mult.commute)
  then have lt: "16 * ?j < 2 ^ 32" using s(5) by simp
  have u: "unat (of_nat (16 * ?j) :: uint) = 16 * ?j" using lt by (simp add: unat_of_nat del: of_nat_mult)
  have n: "unat (16 :: uint) = 16" by simp
  have nd: "need (blocks_of (file_size s dp)) (blocks_of (16 * ?j + 16)) \<le> card (free_blocks s)"
  proof -
    have "blocks_of (16 * ?j + 16) \<le> blocks_of (file_size s dp + 16)" by (rule blocks_of_mono) (use j in simp)
    also have "\<dots> \<le> Suc (blocks_of (file_size s dp))"
      using blocks_of_le[of "file_size s dp" "blocks_of (file_size s dp)", THEN iffD2]
      unfolding blocks_of_le[symmetric, of "file_size s dp + 16"] mult_Suc by simp
    finally show ?thesis using f unfolding need_def by (split if_split) linarith
  qed
  have p: "piece (\<lambda>k. encode_dirent de ! k) 0 16 = encode_dirent de"
    using length_encode_dirent[OF de] by (intro nth_equalityI) simp_all
  obtain B t where t: "writei_data E dp (\<lambda>k. encode_dirent de ! k) (of_nat (16 * ?j)) DESIZE s = Inr (16, t)"
    "room B 0 t" "locked_bufs t = {}" "extended dp (16 * ?j) (encode_dirent de) s t"
    using writei_data_extended[of "of_nat (16 * ?j)" 16 s E dp "\<lambda>k. encode_dirent de ! k", unfolded u n p turns_entry]
      s j nd by auto
  have "entries t dp = put_entry de (entries s dp)"
    by (rule entries_stored[OF s(4) _ refl _ de]) (use t(4) length_encode_dirent[OF de] in \<open>simp_all add: extended_def\<close>)
  then show ?thesis using t by blast
qed

lemma stored_same:
  assumes "stored_file s ip" "fs_same s t"
  shows "stored_file t ip" "free_blocks t = free_blocks s" "own t ip = own s ip"
proof -
  note st = fs_sameD[OF assms(2)]
  have f: "used t = used s" "free_blocks t = free_blocks s" "free_map t = free_map s"
    by (rule free_map_same; use assms(2) st in \<open>simp add: fs_same_def\<close>)+
  show o: "free_blocks t = free_blocks s" "own t ip = own s ip" by (simp_all add: f own_def st fun_eq_iff)
  show "stored_file t ip"
    using assms by (simp add: stored_file_def grown_def o f st fs_same_def)
qed

text \<open>The two outcomes of \<open>dirlookup\<close> in \<open>dirlink\<close>.\<close>

lemma dirlink_there:
  fixes s t :: "'a fsst_scheme"
  assumes D: "dirlookup E dp name s = bind_res (iget dev n t) (\<lambda>(ip, s). Inr (Some (ip, off), s))"
    and t: "in_txn k t" "fs_same s t" "held t = {}" and dp: "dp < length (icache s)" "0 < i_ref (icache s ! dp)"
    and j0: "j0 < length (icache s)" "i_ref (icache s ! j0) = 0"
  shows "\<exists>v. dirlink E dp name inum s = Inr (-1, v) \<and> in_txn k v \<and> disk_view v = disk_view s \<and> entries v dp = entries s dp
    \<and> (\<forall>j < length (icache s). i_ref (icache v ! j) = i_ref (icache s ! j) \<and> (0 < i_ref (icache s ! j) \<longrightarrow> icache v ! j = icache s ! j))"
proof -
  note st = fs_sameD[OF t(2)]
  obtain ip u where u: "iget dev n t = Inr (ip, u)" "placed dev n t ip u"
    using iget_placed[OF t(3), of dev n] j0 st(1) by (auto split: if_splits)
  obtain v where v: "iput E ip u = Inr v" "v = upd_inode ip (\<lambda>_. icache v ! ip) t"
    "i_ref (icache v ! ip) = i_ref (icache t ! ip)" "0 < i_ref (icache t ! ip) \<longrightarrow> icache v ! ip = icache t ! ip"
    using iput_placed[OF u(2) t(3)] by blast
  have "dirlink E dp name inum s = Inr (-1, v)" using D u(1) v(1) by (simp add: dirlink_def)
  moreover have ic: "icache v = (icache t)[ip := icache v ! ip]" by (subst v(2)) simp
  then have r: "i_ref (icache v ! j) = i_ref (icache s ! j) \<and> (0 < i_ref (icache s ! j) \<longrightarrow> icache v ! j = icache s ! j)"
    if "j < length (icache s)" for j
    using that v(3,4) st(1) by (cases "j = ip") (metis nth_list_update_neq)+
  moreover have d: "disk_view v = disk_view s" "in_txn k v"
    using t(1,2) by (subst v(2), simp add: fs_same_def)+
  moreover have "icache v ! dp = icache s ! dp" using r dp by blast
  then have fv: "file_byte v dp = file_byte s dp" "file_size v dp = file_size s dp"
    by (simp_all add: fun_eq_iff file_byte_def file_block_def indirect_def d)
  then have "entries v dp = entries s dp" by (simp add: entries_def entry_def content_def)
  ultimately show ?thesis by blast
qed

lemma dirlink_absent:
  fixes s t :: "'a fsst_scheme" and inum :: uint
  assumes D: "dirlookup E dp name s = Inr (None, t)" and t: "in_txn 6 t" "fs_same s t" and E: "k_rw E = iderw"
    and s: "stored_file s dp" "d_type (icache s ! dp) = T_DIR" "16 dvd file_size s dp"
      "file_size s dp + 16 \<le> MAXFILE * BSIZE" "2 \<le> card (free_blocks s)"
  defines "de \<equiv> \<lparr>de_inum = ucast inum, de_name = copy_name DIRSIZ name\<rparr>" and "j \<equiv> free_entry (entries s dp)"
  shows "\<exists>v. dirlink E dp name inum s = Inr (0, v) \<and> in_txn 1 v \<and> entries v dp = put_entry de (entries s dp)
    \<and> extended dp (16 * j) (encode_dirent de) s v"
proof -
  note st = fs_sameD[OF t(2)] entries_same[OF t(2)]
  have mf: "mapped_file s dp" by (rule grown_mapped) (use s(1) in \<open>simp add: stored_file_def\<close>)
  have "file_size s dp div 16 \<le> 71680 div 16" using s(4) by (intro div_le_mono) simp
  then have f: "file_size t dp div 16 - 0 \<le> 2 ^ 28" using st by simp
  have mt: "mapped_file t dp" "d_type (icache t ! dp) \<noteq> T_DEV" "16 dvd file_size t dp" "0 \<le> file_size t dp div 16"
    using mf s(2,3) st by simp_all
  obtain u where u: "in_txn 6 u" "fs_same t u" "free_dirent (2 ^ 28) E dp 0 t = Inr (of_nat (16 * j), u)"
    using free_dirent_entry[OF t(1) E mt(1-3) _ mt(4) f, of 0] st by (auto simp: j_def)
  have su: "fs_same s u" by (rule fs_same_trans[OF t(2) u(2)])
  note S = fs_sameD[OF su] entries_same[OF su] stored_same[OF s(1) su]
  have l: "length (de_name de) = DIRSIZ" by (simp add: de_def)
  have b: "bitmap u = bitmap s" "inode_block u dp = inode_block s dp" "disk_view u = disk_view s" "home u = home s"
    using su by (simp_all add: S fs_same_def)
  obtain B v where v: "writei_data E dp (\<lambda>k. encode_dirent de ! k) (of_nat (16 * j)) DESIZE u = Inr (16, v)"
    "room B 0 v" "locked_bufs v = {}" "extended dp (16 * j) (encode_dirent de) u v" "entries v dp = put_entry de (entries s dp)"
    using dirlink_write[OF u(1) E, of dp de] s(3-5) l S by (auto simp: j_def)
  have "dirlink E dp name inum s = Inr (0, v)"
    using D u(3) v(1) by (simp add: dirlink_def Let_def flip: de_def)
  moreover have "in_txn 1 v" using room_in_txn[OF v(2,3)] by simp
  moreover have q: "untouched s v = untouched u v" using su by (simp add: fs_same_def untouched_def)
  have "extended dp (16 * j) (encode_dirent de) s v" using v(4) unfolding extended_def S b q .
  ultimately show ?thesis using v(5) by blast
qed

text \<open>
  C10: \<open>dirlink\<close> adds a name to a directory. In a transaction with room for one entry, for a
  directory that can grow, it returns 0 when no entry has the name: the entry with the inode number and the name
  cut to \<open>DIRSIZ\<close> bytes is in the first entry without an inode, or behind the last one; the others are as
  before, the directory is stored, and a lookup of the name finds the new entry. If the name is
  there it returns -1: the disk is as before, and every inode has as many references as before.
\<close>

theorem dirlink_adds:
  fixes s :: "'a fsst_scheme" and inum :: uint and name :: "uchar list"
  assumes "in_txn 6 s" "k_rw E = iderw" "stored_file s dp" "d_type (icache s ! dp) = T_DIR" "0 < i_ref (icache s ! dp)"
    and "16 dvd file_size s dp" "file_size s dp + 16 \<le> MAXFILE * BSIZE" "2 \<le> card (free_blocks s)"
    and "j0 < length (icache s)" "i_ref (icache s ! j0) = 0"
  defines "de \<equiv> \<lparr>de_inum = ucast inum, de_name = copy_name DIRSIZ name\<rparr>" and "ds \<equiv> entries s dp"
  shows "if \<exists>d\<in>set ds. names name d
    then \<exists>t. dirlink E dp name inum s = Inr (-1, t) \<and> in_txn 6 t \<and> disk_view t = disk_view s \<and> entries t dp = ds
      \<and> (\<forall>j < length (icache s). i_ref (icache t ! j) = i_ref (icache s ! j) \<and> (0 < i_ref (icache s ! j) \<longrightarrow> icache t ! j = icache s ! j))
    else \<exists>t. dirlink E dp name inum s = Inr (0, t) \<and> in_txn 1 t \<and> stored_file t dp \<and> entries t dp = put_entry de ds
      \<and> (\<forall>j. j \<noteq> dp \<longrightarrow> icache t ! j = icache s ! j)
      \<and> (\<forall>b. b \<notin> set (own s dp (blocks_of (file_size s dp))) \<longrightarrow> b \<notin> free_blocks s \<longrightarrow> b \<noteq> bitmap s
           \<longrightarrow> b \<noteq> inode_block s dp \<longrightarrow> disk_view t b = disk_view s b)
      \<and> (de_inum de \<noteq> 0 \<longrightarrow> find (\<lambda>j. names name (entries t dp ! j)) [0..<length (entries t dp)] = Some (free_entry ds)
           \<and> entries t dp ! free_entry ds = de)"
proof -
  let ?F = "find (\<lambda>j. names name (entries s dp ! j)) [0..<length (entries s dp)]"
  have mf: "mapped_file s dp" by (rule grown_mapped) (use assms(3) in \<open>simp add: stored_file_def\<close>)
  obtain t where t: "in_txn 6 t" "fs_same s t" "held t = {}" "dirlookup E dp name s = (case ?F of None \<Rightarrow> Inr (None, t)
     | Some j \<Rightarrow> bind_res (iget (i_dev (icache s ! dp)) (ucast (de_inum (entries s dp ! j))) t)
         (\<lambda>(ip, s). Inr (Some (ip, of_nat (16 * j)), s)))"
    by (rule dirlookup_entries[OF assms(1,2) mf assms(6,4)])
  show ?thesis
  proof (cases ?F)
    case (Some j)
    then have "\<exists>d\<in>set ds. names name d" by (auto simp: find_upt_iff ds_def)
    moreover have "dp < length (icache s)" using assms(3) by (simp add: stored_file_def grown_def)
    from dirlink_there[OF _ t(1-3) this assms(5,9,10), of E name] Some t(4)
    have "\<exists>v. dirlink E dp name inum s = Inr (-1, v) \<and> in_txn 6 v \<and> disk_view v = disk_view s \<and> entries v dp = entries s dp
      \<and> (\<forall>j < length (icache s). i_ref (icache v ! j) = i_ref (icache s ! j) \<and> (0 < i_ref (icache s ! j) \<longrightarrow> icache v ! j = icache s ! j))"
      by simp
    ultimately show ?thesis unfolding ds_def by (simp only: if_True)
  next
    case None
    then have nn: "\<not> names name (ds ! j)" if "j < length ds" for j using that by (simp add: find_upt_iff ds_def)
    obtain v where v: "dirlink E dp name inum s = Inr (0, v)" "in_txn 1 v" "entries v dp = put_entry de ds"
      "extended dp (16 * free_entry ds) (encode_dirent de) s v"
      using dirlink_absent[OF _ t(1,2) assms(2-4,6-8), of name inum] None t(4) by (auto simp: de_def ds_def)
    have "names name de" if "de_inum de \<noteq> 0" using that cname_copy_name[of name] by (simp add: names_def de_def)
    moreover have "\<not> (\<exists>d\<in>set ds. names name d)" using nn by (auto simp: in_set_conv_nth)
    ultimately show ?thesis
      using v put_entry_found[of ds name de] nn unfolding extended_def by simp
  qed
qed

text \<open>In the root directory of theory \<open>Lookup\<close>, with its free map and inode stored, a name is added and a name is found.\<close>

lemma link_example:
  obtains s :: fsst where "in_txn 26 s" "stored_file s 0" "icache s = root1 # replicate 49 (file17\<lparr>i_ref := 0\<rparr>)"
    "content s 0 = root_bytes" "2 \<le> card (free_blocks s)"
proof -
  obtain r :: fsst where r: "in_txn 28 r" "icache r = root1 # replicate 49 (file17\<lparr>i_ref := 0\<rparr>)" "fs_sb r = sb1000"
    "content r 0 = root_bytes" "home r = home fs_machine"
    by (rule root_example) blast
  have i: "inode_block r 0 = 40" "icache r ! 0 = root1" by (simp_all add: r(2,3) root1_def IBLOCK_def sb1000_def)
  have r28: "in_txn (Suc (Suc 26)) r" using r(1) by simp
  obtain s where s: "in_txn 26 s" "home s = home fs_machine" "logst.more s = logst.more r" "disk_view s 60 = map_block 40"
    "get_dinode (i_inum (icache s ! 0)) (disk_view s 40) = dinode_of (icache s ! 0)"
    "\<And>n. n \<noteq> 60 \<Longrightarrow> n \<noteq> 40 \<Longrightarrow> disk_view s n = disk_view r n"
    by (rule store_example[OF r28 r(5,3) _ _ i(1), of 40]) (simp_all add: i(2) root1_def)
  note fs = fs_more[OF s(3)]
  have f: "fs_sb s = sb1000" "icache s = icache r" "icache s ! 0 = root1" "inode_block s 0 = 40" "0 < length (icache s)"
    using i r(2,3) by (simp_all add: fs)
  have m: "8 \<le> (40 :: nat)" "(40 :: nat) \<le> 64" by simp_all
  note M = map_example[OF s(4) f(1) s(2) m]
  have hs: "home s b \<longleftrightarrow> b < 1000 \<and> \<not> (2 \<le> b \<and> b < 32)" for b by (simp add: s(2) fs_machine_home)
  have k1: "blocks_of (file_size s 0) = 1" by (simp add: f(3) root1_def blocks_of_def)
  have fb: "file_block s 0 k = (if k = 0 then 300 else 0)" if "k < NDIRECT" for k
    using that by (simp add: file_block_def f(3) root1_def nth_Cons split: nat.split)
  then have ow: "own s 0 1 = [300]" by (simp add: own_def)
  have "grown s 0 1"
    using M(2) f(3,5) fb by (simp add: grown_def ow[unfolded One_nat_def] hs M(1) indirect_def) (simp add: root1_def)
  then have "stored_file s 0"
    unfolding stored_file_def k1 f(4) M(1) ow using M(2)[of 40] M(3) s(5) by (simp add: hs)
  moreover have "file_byte s 0 k = file_byte r 0 k" if "k < 48" for k
    using that fb[of 0] by (simp add: file_byte_def s(6)) (simp add: file_block_def f(2))
  then have "content s 0 = content r 0" by (simp add: content_def f(2) i(2) root1_def)
  ultimately show thesis using that[of s] s(1) r(2,4) f(2) M(4) by simp
qed

lemma dirlink_adds_witness:
  "\<exists>s t u. in_txn 26 s \<and> dirlink fs_env 0 [108, 115] 19 s = Inr (0, t)
     \<and> entries t 0 = entries s 0 @ [\<lparr>de_inum = 19, de_name = copy_name DIRSIZ [108, 115]\<rparr>]
     \<and> dirlink fs_env 0 [115, 104] 19 s = Inr (-1, u) \<and> disk_view u = disk_view s"
proof -
  obtain s :: fsst where s: "in_txn 26 s" "stored_file s 0" "icache s = root1 # replicate 49 (file17\<lparr>i_ref := 0\<rparr>)"
    "content s 0 = root_bytes" "2 \<le> card (free_blocks s)"
    by (rule link_example)
  have s6: "in_txn 6 s" using s(1) by (simp add: in_txn_def)
  have d: "d_type (icache s ! 0) = T_DIR" "0 < i_ref (icache s ! 0)" "16 dvd file_size s 0" "file_size s 0 + 16 \<le> MAXFILE * BSIZE"
    "1 < length (icache s)" "i_ref (icache s ! 1) = 0" "file_size s 0 = 48"
    by (simp_all add: s(3) root1_def)
  have e: "entries s 0 = map (\<lambda>i. decode_dirent (take 16 (drop (16 * i) root_bytes))) [0..<3]"
    by (simp add: entries_def entry_def d(7) s(4) fun_eq_iff)
  have n: "\<not> (\<exists>x\<in>set (entries s 0). names [108, 115] x)" "\<exists>x\<in>set (entries s 0). names [115, 104] x"
    "put_entry x (entries s 0) = entries s 0 @ [x]" for x
    unfolding e by code_simp+
  note D = dirlink_adds[OF s6 fs_machine_fields(3) s(2) d(1-4) s(5) d(5,6), where inum = 19]
  show ?thesis
    using D[of "[108, 115]"] D[of "[115, 104]"] s(1) n by simp blast
qed

end
