(* ===== verification/Rest.thy ===== *)
theory Rest
  imports Icache
begin

text \<open>
  What the operations on files leave alone, whatever they return: the running process, the memory, the size of the disk,
  the number of running operations and the place of the log, the superblock, and the part of the state above the inode cache.
\<close>

named_theorems rest_frames \<open>steps that leave the rest of the state alone\<close>

definition rest :: "'a fsst_scheme \<Rightarrow> nat option \<times> memory \<times> uint \<times> uint \<times> int \<times> int \<times> bool \<times> uint \<times> superblock \<times> 'a" where
  "rest s = (curproc s, mem s, disksize s, lg_start s, lg_size s, lg_outstanding s, lg_committing s, lg_dev s, fs_sb s, fsst.more s)"

lemma rest_simps [simp]:
  "rest (s\<lparr>held := H\<rparr>) = rest s" "rest (s\<lparr>ptable := P\<rparr>) = rest s" "rest (s\<lparr>bufs := B\<rparr>) = rest s"
  "rest (s\<lparr>lh_n := n\<rparr>) = rest s" "rest (s\<lparr>lh_block := bs\<rparr>) = rest s" "rest (s\<lparr>memdisk := d\<rparr>) = rest s"
  "rest (s\<lparr>writes := w\<rparr>) = rest s" "rest (s\<lparr>icache := c\<rparr>) = rest s"
  by (simp_all add: rest_def)

lemma acquire_rest [rest_frames]: "acquire l s = Inr t \<Longrightarrow> rest t = rest s"
  by (auto simp: acquire_def split: if_splits)

lemma release_rest [rest_frames]: "release l s = Inr t \<Longrightarrow> rest t = rest s"
  by (auto simp: release_def split: if_splits)

lemma wakeup_rest [rest_frames]: "wakeup c s = Inr t \<Longrightarrow> rest t = rest s"
  by (auto simp: wakeup_def wakeup1_def acquire_def release_def split: if_splits)

lemma acquiresleep_rest [rest_frames]: "acquiresleep inner c lk s = Inr (lk', t) \<Longrightarrow> rest t = rest s"
  by (auto simp: acquiresleep_def block_on_def acquire_def release_def bind_res_eq_Inr split: if_splits)

lemma releasesleep_rest [rest_frames]: "releasesleep inner c lk s = Inr (lk', t) \<Longrightarrow> rest t = rest s"
  by (auto simp: releasesleep_def bind_res_eq_Inr dest!: rest_frames)

lemma holdingsleep_rest [rest_frames]: "holdingsleep inner lk s = Inr (h, t) \<Longrightarrow> rest t = rest s"
  by (auto simp: holdingsleep_def bind_res_eq_Inr dest!: rest_frames)

lemma rest_upd [simp]: "rest (upd_buf i f s) = rest s" "rest (set_data i d s) = rest s" "rest (mark_dirty i s) = rest s"
  "rest (upd_inode ip g s) = rest s" "rest (link_front i s) = rest s" "rest (unlink_buf i s) = rest s"
  by (simp_all add: upd_buf_def set_data_def mark_dirty_def upd_inode_def link_front_def unlink_buf_def Let_def)

lemma lock_buf_rest [rest_frames]: "lock_buf i s = Inr t \<Longrightarrow> rest t = rest s"
  by (auto simp: lock_buf_def bind_res_eq_Inr dest!: rest_frames)

lemma unlock_buf_rest [rest_frames]: "unlock_buf i s = Inr t \<Longrightarrow> rest t = rest s"
  by (auto simp: unlock_buf_def bind_res_eq_Inr dest!: rest_frames)

lemma holding_buf_rest [rest_frames]: "holding_buf i s = Inr (h, t) \<Longrightarrow> rest t = rest s"
  by (auto simp: holding_buf_def dest!: rest_frames)

lemma bget_rest [rest_frames]: "bget dev b s = Inr (i, t) \<Longrightarrow> rest t = rest s"
  by (auto simp: bget_def elim!: bind_res_InrE dest!: rest_frames split: option.splits)

lemma brelse_rest [rest_frames]: "brelse i s = Inr t \<Longrightarrow> rest t = rest s"
  by (auto simp: brelse_def bind_res_eq_Inr Let_def dest!: rest_frames split: if_splits)

lemma iderw_rest [rest_frames]: "iderw i s = Inr t \<Longrightarrow> rest t = rest s"
  by (auto simp: iderw_def Let_def elim!: bind_res_InrE dest!: rest_frames split: if_splits)

lemma bread_rest [rest_frames]: "bread iderw dev b s = Inr (i, t) \<Longrightarrow> rest t = rest s"
  by (auto simp: bread_def elim!: bind_res_InrE dest!: rest_frames split: if_splits)

lemma log_write_rest [rest_frames]: "log_write i s = Inr t \<Longrightarrow> rest t = rest s"
  by (auto simp: log_write_def Let_def lh_set_def elim!: bind_res_InrE dest!: rest_frames split: if_splits)

section \<open>The log\<close>

lemma for_res_rest:
  assumes "for_res i n body s = Inr t" "\<And>k u v. body k u = Inr v \<Longrightarrow> rest v = rest u"
  shows "rest t = rest s"
proof -
  have "(\<lambda>_ u. rest u = rest s) (i + n) t"
    by (rule for_res_partial[OF assms(1)]) (auto dest: assms(2))
  then show ?thesis .
qed

lemma bwrite_rest [rest_frames]: "bwrite iderw i s = Inr t \<Longrightarrow> rest t = rest s"
  by (auto simp: bwrite_def Let_def elim!: bind_res_InrE dest!: rest_frames split: if_splits)

lemma write_log_rest [rest_frames]: "write_log iderw s = Inr t \<Longrightarrow> rest t = rest s"
  unfolding write_log_def by (erule for_res_rest) (auto simp: Let_def elim!: bind_res_InrE dest!: rest_frames)

lemma install_trans_rest [rest_frames]: "install_trans iderw s = Inr t \<Longrightarrow> rest t = rest s"
  unfolding install_trans_def by (erule for_res_rest) (auto simp: Let_def elim!: bind_res_InrE dest!: rest_frames)

lemma head_loop_rest [rest_frames]:
  "for_res i n (\<lambda>k s. bind_res (lh_get k s) (\<lambda>b. Inr (set_data j (put32 (Suc k) b (b_data (bufs s j))) s))) s = Inr t \<Longrightarrow> rest t = rest s"
  by (erule for_res_rest) (auto elim!: bind_res_InrE)

lemma write_head_rest [rest_frames]: "write_head iderw s = Inr t \<Longrightarrow> rest t = rest s"
  by (auto simp: write_head_def Let_def elim!: bind_res_InrE dest!: rest_frames)

lemma commit_rest [rest_frames]: "commit iderw s = Inr t \<Longrightarrow> rest t = rest s"
  by (auto simp: commit_def elim!: bind_res_InrE dest!: rest_frames split: if_splits)

lemma rest_mem: "rest t = rest s \<Longrightarrow> mem t = mem s \<and> curproc t = curproc s"
  by (simp add: rest_def)

lemma end_op_mem: "end_op iderw s = Inr t \<Longrightarrow> mem t = mem s \<and> curproc t = curproc s"
  for s :: "'a fsst_scheme"
  by (auto simp: end_op_def Let_def elim!: bind_res_InrE dest!: rest_frames rest_mem split: if_splits)

section \<open>The file system\<close>

lemma bzero_rest [rest_frames]: "bzero E dev b s = Inr t \<Longrightarrow> k_rw E = iderw \<Longrightarrow> rest t = rest s"
  by (auto simp: bzero_def elim!: bind_res_InrE dest!: rest_frames)

lemma balloc_loop_rest: "balloc_loop fuel E dev b s = Inr (a, t) \<Longrightarrow> k_rw E = iderw \<Longrightarrow> rest t = rest s"
proof (induction fuel arbitrary: b s)
  case (Suc fuel)
  then show ?case
    by (auto elim!: bind_res_InrE dest!: rest_frames split: if_splits option.splits)
qed simp

lemma balloc_rest [rest_frames]: "balloc E dev s = Inr (a, t) \<Longrightarrow> k_rw E = iderw \<Longrightarrow> rest t = rest s"
  unfolding balloc_def by (rule balloc_loop_rest)

lemma iupdate_rest [rest_frames]: "iupdate E ip s = Inr t \<Longrightarrow> k_rw E = iderw \<Longrightarrow> rest t = rest s"
  by (auto simp: iupdate_def Let_def elim!: bind_res_InrE dest!: rest_frames)

lemma ilock_rest [rest_frames]: "ilock E p s = Inr t \<Longrightarrow> k_rw E = iderw \<Longrightarrow> rest t = rest s"
  by (auto simp: ilock_def Let_def elim!: bind_res_InrE dest!: rest_frames split: option.splits if_splits)

lemma iunlock_rest [rest_frames]: "iunlock p s = Inr t \<Longrightarrow> rest t = rest s"
  by (auto simp: iunlock_def elim!: bind_res_InrE dest!: rest_frames split: option.splits)

lemma bmap_rest [rest_frames]: "bmap E ip bn s = Inr (a, t) \<Longrightarrow> k_rw E = iderw \<Longrightarrow> rest t = rest s"
  by (auto simp: bmap_def Let_def elim!: bind_res_InrE dest!: rest_frames split: if_splits)

lemma readi_loop_rest: "readi_loop fuel E ip n tot off acc s = Inr (bs, t) \<Longrightarrow> k_rw E = iderw \<Longrightarrow> rest t = rest s"
proof (induction fuel arbitrary: tot off acc s)
  case (Suc fuel)
  from Suc.prems show ?case
    by (subst (asm) readi_loop.simps)
      (auto simp: Let_def elim!: bind_res_InrE dest!: rest_frames Suc.IH split: if_splits)
qed (subst (asm) readi_loop.simps, auto split: if_splits)

lemma readi_data_rest [rest_frames]: "readi_data E ip off n s = Inr (r, bs, t) \<Longrightarrow> k_rw E = iderw \<Longrightarrow> rest t = rest s"
  by (auto simp: readi_data_def Let_def elim!: bind_res_InrE dest!: readi_loop_rest split: if_splits)

lemma writei_loop_rest: "writei_loop fuel E ip src n tot off s = Inr (o', t) \<Longrightarrow> k_rw E = iderw \<Longrightarrow> rest t = rest s"
proof (induction fuel arbitrary: tot off s)
  case (Suc fuel)
  from Suc.prems show ?case
    by (subst (asm) writei_loop.simps)
      (auto simp: Let_def elim!: bind_res_InrE dest!: rest_frames Suc.IH split: if_splits)
qed (subst (asm) writei_loop.simps, auto split: if_splits)

lemma writei_data_rest [rest_frames]: "writei_data E ip src off n s = Inr (r, t) \<Longrightarrow> k_rw E = iderw \<Longrightarrow> rest t = rest s"
  by (auto simp: writei_data_def Let_def elim!: bind_res_InrE dest!: rest_frames writei_loop_rest split: if_splits)

lemma writei_rest [rest_frames]:
  "writei E ip src off n s = Inr (r, t) \<Longrightarrow> k_rw E = iderw \<Longrightarrow> d_type (icache s ! ip) \<noteq> T_DEV \<Longrightarrow> rest t = rest s"
  by (auto simp: writei_def dest: rest_frames)

end
