(* ===== verification/Filewrite.thy ===== *)
theory Filewrite
  imports File Grow Rest
begin

text \<open>
  \<open>filewrite\<close> of a file in order, from one idle log to the next: the transactions it makes, what
  each of them stores, and that all of it is on the disk when the call returns.
\<close>

section \<open>Between the transactions\<close>

definition idle_log :: "'a logst_scheme \<Rightarrow> bool" where
  "idle_log s \<longleftrightarrow> storage_inv s \<and> locked_bufs s = {} \<and> lg_outstanding s = 0 \<and> \<not> lg_committing s
     \<and> lh_n s = 0 \<and> 20 \<le> lg_size s"

definition open_inode :: "'a fsst_scheme \<Rightarrow> nat \<Rightarrow> bool" where
  "open_inode s ip \<longleftrightarrow> (let n = icache s ! ip in
     0 < i_ref n \<and> i_flags n AND I_VALID \<noteq> 0 \<and> \<not> sl_locked (i_lock n) \<and> d_type n \<noteq> T_DEV)"

text \<open>The same disk with the same log area.\<close>

definition same_machine :: "'a logst_scheme \<Rightarrow> 'a logst_scheme \<Rightarrow> bool" where
  "same_machine s t \<longleftrightarrow> mem_present t = mem_present s \<and> lg_start t = lg_start s \<and> lg_size t = lg_size s \<and> lg_dev t = lg_dev s"

lemma same_machine_trans: "same_machine s t \<Longrightarrow> same_machine t u \<Longrightarrow> same_machine s u"
  by (simp add: same_machine_def)

lemma restarted_later:
  "same_machine s t \<Longrightarrow> memdisk t = apply_writes (memdisk s) ws \<Longrightarrow> restarted s (ws @ vs) r = restarted t vs r"
  by (simp add: restarted_def same_machine_def)

text \<open>
  The machine may stop after any of the writes \<open>ws\<close>: recovery then succeeds, and outside the log the disk
  is that of a state in \<open>Q\<close>.
\<close>

definition recovers_to :: "'a fsst_scheme \<Rightarrow> (uint \<times> block) list \<Rightarrow> ('a fsst_scheme \<Rightarrow> bool) \<Rightarrow> bool" where
  "recovers_to s ws Q \<longleftrightarrow> (\<forall>vs r. prefix vs ws \<longrightarrow> restarted s vs r \<longrightarrow>
     (\<exists>u w. recover_from_log iderw r = Inr u \<and> storage_inv u \<and> Q w \<and> (\<forall>b. home s b \<longrightarrow> disk_view u b = disk_view w b)))"

lemma recovers_to_append:
  assumes "recovers_to s ws Q" "recovers_to t vs Q" "same_machine s t" "memdisk t = apply_writes (memdisk s) ws" "home t = home s"
  shows "recovers_to s (ws @ vs) Q"
  unfolding recovers_to_def
proof (intro allI impI)
  fix us r assume p: "prefix us (ws @ vs)" and r: "restarted s us r"
  consider "prefix us ws" | vs' where "us = ws @ vs'" "prefix vs' vs" using p by (auto simp: prefix_append)
  then show "\<exists>u w. recover_from_log iderw r = Inr u \<and> storage_inv u \<and> Q w \<and> (\<forall>b. home s b \<longrightarrow> disk_view u b = disk_view w b)"
  proof cases
    case 1
    then show ?thesis using assms(1) r unfolding recovers_to_def by blast
  next
    case 2
    then have "restarted t vs' r" using r restarted_later[OF assms(3,4)] by simp
    then show ?thesis using assms(2,5) 2(2) unfolding recovers_to_def by metis
  qed
qed

lemma recovers_to_mono: "recovers_to s ws P \<Longrightarrow> (\<And>w. P w \<Longrightarrow> Q w) \<Longrightarrow> recovers_to s ws Q"
  unfolding recovers_to_def by blast

text \<open>What the file system sees is the same, but for the lock of inode \<open>ip\<close>.\<close>

definition same_at :: "nat \<Rightarrow> 'a fsst_scheme \<Rightarrow> 'a fsst_scheme \<Rightarrow> bool" where
  "same_at ip s t \<longleftrightarrow> home t = home s \<and> fs_sb t = fs_sb s \<and> (\<forall>b. home s b \<longrightarrow> disk_view t b = disk_view s b)
     \<and> length (icache t) = length (icache s) \<and> (\<forall>j. j \<noteq> ip \<longrightarrow> icache t ! j = icache s ! j)
     \<and> (\<exists>l. icache t ! ip = (icache s ! ip)\<lparr>i_lock := l\<rparr>)"

lemma same_at_refl: "same_at ip s s"
  unfolding same_at_def by (auto intro: exI[of _ "i_lock (icache s ! ip)"])

lemma same_at_trans: "same_at ip s t \<Longrightarrow> same_at ip t u \<Longrightarrow> same_at ip s u"
  unfolding same_at_def by auto

lemma same_at_file:
  fixes s t :: "'a fsst_scheme"
  assumes st: "same_at ip s t" and sf: "stored_file s ip"
  shows "stored_file t ip" "content t ip = content s ip" "file_size t ip = file_size s ip" "bitmap t = bitmap s"
    "inode_block t ip = inode_block s ip" "i_inum (icache t ! ip) = i_inum (icache s ! ip)"
    "own t ip (blocks_of (file_size s ip)) = own s ip (blocks_of (file_size s ip))" "free_blocks t = free_blocks s"
proof -
  let ?K = "blocks_of (file_size s ip)"
  have g: "grown s ip ?K" "free_map s" using sf by (simp_all add: stored_file_def)
  obtain l where l: "icache t ! ip = (icache s ! ip)\<lparr>i_lock := l\<rparr>" using st by (auto simp: same_at_def)
  have h: "home t = home s" "fs_sb t = fs_sb s" "length (icache t) = length (icache s)"
    "\<And>b. home s b \<Longrightarrow> disk_view t b = disk_view s b" using st by (simp_all add: same_at_def)
  show b: "bitmap t = bitmap s" "inode_block t ip = inode_block s ip" "file_size t ip = file_size s ip"
    "i_inum (icache t ! ip) = i_inum (icache s ! ip)" by (simp_all add: h(2) l)
  have "home s (bitmap s)" using g(2) by (simp add: free_map_def)
  then have u: "used t = used s" by (simp add: used_def fun_eq_iff h(2,4))
  then show fr: "free_blocks t = free_blocks s" by (simp add: free_blocks_def h(2))
  have i: "indirect t ip = indirect s ip" by (simp add: indirect_def l)
  have ih: "disk_view t (indirect s ip) = disk_view s (indirect s ip)" if "NDIRECT < ?K"
    using g(1) that h(4) by (simp add: grown_def own_def)
  have fb: "file_block t ip k = file_block s ip k" if "k < NDIRECT \<or> NDIRECT < ?K" for k
    using that ih by (auto simp: file_block_def i l)
  have fk: "file_block t ip k = file_block s ip k" if "k < ?K" for k
    using that fb[of k] by linarith
  show ow: "own t ip ?K = own s ip ?K" by (simp add: own_def i fk)
  have hk: "home s (file_block s ip k)" if "k < ?K" for k using g(1) that by (simp add: grown_def own_def)
  show "content t ip = content s ip"
  proof (rule nth_equalityI)
    fix q assume "q < length (content t ip)"
    then have q: "q < file_size s ip" by (simp add: b(3))
    moreover have "q div BSIZE * BSIZE \<le> q" by (rule div_times_less_eq_dividend)
    ultimately have "q div BSIZE < ?K" using blocks_of_le[of "file_size s ip" "q div BSIZE"] by linarith
    then show "content t ip ! q = content s ip ! q"
      using q b(3) fk hk h(4) by (simp add: content_def file_byte_def)
  qed (simp add: b(3))
  have "file_block t ip k = 0" if "?K \<le> k" "k < (if ?K \<le> NDIRECT then NDIRECT else MAXFILE)" for k
    using g(1) that fb[of k] by (auto simp: grown_def split: if_splits)
  then have "grown t ip ?K"
    using g(1) unfolding grown_def ow i b(1) h(1,3) u by (simp add: l)
  moreover have "free_map t" using g(2) by (simp add: free_map_def h(1,2) fr u)
  ultimately show "stored_file t ip"
    using sf h(4) unfolding stored_file_def b ow by (simp add: h(1,2) u l dinode_of_def)
qed

text \<open>The file \<open>ip\<close> after \<open>xs\<close> is written at \<open>off\<close>; every other file and block is as before.\<close>

definition written :: "nat \<Rightarrow> nat \<Rightarrow> uchar list \<Rightarrow> 'a fsst_scheme \<Rightarrow> 'a fsst_scheme \<Rightarrow> bool" where
  "written ip off xs s t \<longleftrightarrow> stored_file t ip \<and> file_size t ip = max (file_size s ip) (off + length xs)
    \<and> content t ip = take off (content s ip) @ xs @ drop (off + length xs) (content s ip)
    \<and> (\<forall>j. j \<noteq> ip \<longrightarrow> icache t ! j = icache s ! j)
    \<and> (\<exists>a z l. icache t ! ip = (icache s ! ip)\<lparr>d_addrs := a, d_size := z, i_lock := l\<rparr>)
    \<and> (\<forall>j. j mod IPB \<noteq> i_inum (icache s ! ip) mod IPB \<longrightarrow>
         get_dinode j (disk_view t (inode_block s ip)) = get_dinode j (disk_view s (inode_block s ip)))
    \<and> (\<forall>b. home s b \<longrightarrow> b \<notin> set (own s ip (blocks_of (file_size s ip))) \<longrightarrow> b \<notin> free_blocks s \<longrightarrow> b \<noteq> bitmap s
         \<longrightarrow> b \<noteq> inode_block s ip \<longrightarrow> disk_view t b = disk_view s b)
    \<and> home t = home s \<and> fs_sb t = fs_sb s \<and> length (icache t) = length (icache s) \<and> free_blocks t \<subseteq> free_blocks s
    \<and> card (free_blocks s) \<le> card (free_blocks t) + need (blocks_of (file_size s ip)) (blocks_of (file_size t ip))
    \<and> set (own t ip (blocks_of (file_size t ip))) \<subseteq> set (own s ip (blocks_of (file_size s ip))) \<union> free_blocks s"

lemma inode_update_self: "\<exists>a z l. n = n\<lparr>d_addrs := a, d_size := z, i_lock := l\<rparr>" for n :: inode
  by (rule exI[of _ "d_addrs n"], rule exI[of _ "d_size n"], rule exI[of _ "i_lock n"]) simp

lemma written_nil:
  assumes "stored_file s ip" "off \<le> file_size s ip"
  shows "written ip off [] s s"
  using assms inode_update_self[of "icache s ! ip"] unfolding written_def by simp

lemma written_same:
  assumes "same_at ip s b" "stored_file s ip" "extended ip off xs b c" "same_at ip c t"
  shows "written ip off xs s t"
proof -
  have sc: "stored_file c ip" using assms(3) by (simp add: extended_def)
  note B = same_at_file[OF assms(1,2)] and T = same_at_file[OF assms(4) sc]
  have fb: "fs_sb b = fs_sb s" using assms(1) by (simp add: same_at_def)
  note x = assms(3)[unfolded extended_def B fb]
  have h: "home b = home s" "home c = home s" "home t = home s" "fs_sb t = fs_sb s"
    "length (icache t) = length (icache s)" "\<And>j. j \<noteq> ip \<Longrightarrow> icache t ! j = icache s ! j"
    using assms(1,4) x by (simp_all add: same_at_def)
  have d: "\<And>n. home s n \<Longrightarrow> disk_view b n = disk_view s n" "\<And>n. home s n \<Longrightarrow> disk_view t n = disk_view c n"
    using assms(1,4) by (simp_all add: same_at_def h(2)[symmetric])
  obtain l where l: "icache b ! ip = (icache s ! ip)\<lparr>i_lock := l\<rparr>" using assms(1) by (auto simp: same_at_def)
  obtain a z where az: "icache c ! ip = (icache b ! ip)\<lparr>d_addrs := a, d_size := z\<rparr>" using x by blast
  obtain l' where l': "icache t ! ip = (icache c ! ip)\<lparr>i_lock := l'\<rparr>" using assms(4) by (auto simp: same_at_def)
  have n: "\<exists>a z l. icache t ! ip = (icache s ! ip)\<lparr>d_addrs := a, d_size := z, i_lock := l\<rparr>"
    unfolding l' az l by auto
  have ib: "home s (inode_block s ip)" using assms(2) by (simp add: stored_file_def)
  have e: "\<forall>j. j mod IPB \<noteq> i_inum (icache s ! ip) mod IPB \<longrightarrow>
      get_dinode j (disk_view t (inode_block s ip)) = get_dinode j (disk_view s (inode_block s ip))"
    using x unfolding d[OF ib] by blast
  have o: "\<forall>n. home s n \<longrightarrow> n \<notin> set (own s ip (blocks_of (file_size s ip))) \<longrightarrow> n \<notin> free_blocks s \<longrightarrow> n \<noteq> bitmap s
      \<longrightarrow> n \<noteq> inode_block s ip \<longrightarrow> disk_view t n = disk_view s n"
    using x d by simp
  show ?thesis
    unfolding written_def T B using x h n e o T(1) by blast
qed

lemma splice_append:
  "off \<le> length c \<Longrightarrow> take (off + length xs) (take off c @ xs @ drop (off + length xs) c) @ ys
     @ drop (off + length xs + length ys) (take off c @ xs @ drop (off + length xs) c)
   = take off c @ (xs @ ys) @ drop (off + length (xs @ ys)) c"
  by (simp add: min_def add.commute add.left_commute)

lemma writtenD:
  assumes "written ip off xs s t"
  shows "stored_file t ip" "file_size t ip = max (file_size s ip) (off + length xs)"
    "content t ip = take off (content s ip) @ xs @ drop (off + length xs) (content s ip)"
    "j \<noteq> ip \<Longrightarrow> icache t ! j = icache s ! j"
    "\<exists>a z l. icache t ! ip = (icache s ! ip)\<lparr>d_addrs := a, d_size := z, i_lock := l\<rparr>"
    "i mod IPB \<noteq> i_inum (icache s ! ip) mod IPB \<Longrightarrow>
       get_dinode i (disk_view t (inode_block s ip)) = get_dinode i (disk_view s (inode_block s ip))"
    "home s b \<Longrightarrow> b \<notin> set (own s ip (blocks_of (file_size s ip))) \<Longrightarrow> b \<notin> free_blocks s \<Longrightarrow> b \<noteq> bitmap s
       \<Longrightarrow> b \<noteq> inode_block s ip \<Longrightarrow> disk_view t b = disk_view s b"
    "home t = home s" "fs_sb t = fs_sb s" "length (icache t) = length (icache s)" "free_blocks t \<subseteq> free_blocks s"
    "card (free_blocks s) \<le> card (free_blocks t) + need (blocks_of (file_size s ip)) (blocks_of (file_size t ip))"
    "set (own t ip (blocks_of (file_size t ip))) \<subseteq> set (own s ip (blocks_of (file_size s ip))) \<union> free_blocks s"
    "i_inum (icache t ! ip) = i_inum (icache s ! ip)"
  using assms unfolding written_def by (blast, blast, blast, blast, blast, blast, blast, blast, blast, blast, blast, blast, blast, force)

lemma written_trans:
  assumes s: "written ip off xs s t" and t: "written ip (off + length xs) ys t u" and o: "off \<le> file_size s ip"
  shows "written ip off (xs @ ys) s u"
proof -
  let ?K = "blocks_of (file_size s ip)" and ?M = "blocks_of (file_size t ip)" and ?L = "blocks_of (file_size u ip)"
  note S = writtenD[OF s]
  note T = writtenD[OF t, unfolded S(8,9,14)]
  have z: "file_size u ip = max (file_size s ip) (off + length (xs @ ys))" "file_size s ip \<le> file_size t ip" "file_size t ip \<le> file_size u ip"
    using S(2) T(2) by simp_all
  have "content u ip = take off (content s ip) @ (xs @ ys) @ drop (off + length (xs @ ys)) (content s ip)"
    unfolding T(3) S(3) by (rule splice_append) (use o in simp)
  moreover obtain a z l where ic: "icache t ! ip = (icache s ! ip)\<lparr>d_addrs := a, d_size := z, i_lock := l\<rparr>" using S(5) by blast
  have "\<exists>a z l. icache u ! ip = (icache s ! ip)\<lparr>d_addrs := a, d_size := z, i_lock := l\<rparr>" using T(5) by (simp add: ic)
  moreover have "card (free_blocks s) \<le> card (free_blocks u) + need ?K ?L"
    using S(12) T(12) need_split[OF blocks_of_mono[OF z(2)] blocks_of_mono[OF z(3)]] by linarith
  moreover have "disk_view u b = disk_view s b"
    if b: "home s b" "b \<notin> set (own s ip ?K)" "b \<notin> free_blocks s" "b \<noteq> bitmap s" "b \<noteq> inode_block s ip" for b
  proof -
    have "b \<notin> set (own t ip ?M)" "b \<notin> free_blocks t" using b S(11,13) by blast+
    then show ?thesis using T(7) S(7) b by simp
  qed
  moreover have "icache u ! j = icache s ! j" if "j \<noteq> ip" for j using S(4) T(4) that by simp
  moreover have "get_dinode i (disk_view u (inode_block s ip)) = get_dinode i (disk_view s (inode_block s ip))"
    if "i mod IPB \<noteq> i_inum (icache s ! ip) mod IPB" for i using S(6) T(6) that by simp
  moreover have "set (own u ip ?L) \<subseteq> set (own s ip ?K) \<union> free_blocks s" "free_blocks u \<subseteq> free_blocks s"
    using S(11,13) T(11,13) by blast+
  ultimately show ?thesis using z(1) T(1,8,9,10) S(8-10) unfolding written_def by simp
qed

lemma idle_disk:
  assumes "idle_log s"
  shows "memdisk s = disk_view s"
proof -
  have "dirty_blocks s = {}" "binv (mem_present s) (memdisk s) s" "locked_bufs s = {}"
    using assms by (simp_all add: idle_log_def log_inv_def pinned_def logged_def cache_ok_def)
  note v = view_clean[OF this(2) _ unlocked_blockI[OF this(3)]]
  show ?thesis by (rule ext, rule v[symmetric]) (simp add: \<open>dirty_blocks s = {}\<close>)
qed

section \<open>One transaction\<close>

lemma begin_idle:
  assumes "idle_log s"
  shows "begin_op s = Inr (s\<lparr>lg_outstanding := 1\<rparr>)" "in_txn 19 (s\<lparr>lg_outstanding := 1\<rparr>)"
proof -
  have i: "storage_inv s" "locked_bufs s = {}" "lg_outstanding s = 0" "\<not> lg_committing s" "lh_n s = 0" "20 \<le> lg_size s"
    using assms by (simp_all add: idle_log_def)
  show "begin_op s = Inr (s\<lparr>lg_outstanding := 1\<rparr>)" using dl.begin_op_ok[OF i(1)] i by (simp add: log_full_def)
  show "in_txn 19 (s\<lparr>lg_outstanding := 1\<rparr>)"
    using dl.outstanding_inv[OF i(1), of 1] i by (simp add: in_txn_def locked_bufs_def)
qed

lemma ilock_open:
  fixes s :: "'a fsst_scheme"
  assumes t: "in_txn k s" and o: "open_inode s ip" and ip: "ip < length (icache s)"
  obtains u where "ilock E (Some ip) s = Inr u" "in_txn k u" "same_at ip s u" "sl_locked (i_lock (icache u ! ip))" "rest u = rest s" "untouched s u"
proof -
  let ?lk = "(i_lock (icache s ! ip))\<lparr>sl_locked := True, sl_pid := curpid s\<rparr>"
  define u where "u = upd_inode ip (\<lambda>n. n\<lparr>i_lock := ?lk\<rparr>) s"
  have n: "0 < i_ref (icache s ! ip)" "i_flags (icache s ! ip) AND I_VALID \<noteq> 0" "\<not> sl_locked (i_lock (icache s ! ip))"
    using o by (simp_all add: open_inode_def Let_def)
  have a: "acquiresleep (L_inode ip) (Ch_inode ip) (i_lock (icache s ! ip)) s = Inr (?lk, s)"
    using n(3) in_txn_held[OF t] by simp
  have "ilock E (Some ip) s = Inr u" using a n ip by (simp add: ilock_def u_def)
  moreover have "same_at ip s u" using ip by (auto simp: same_at_def u_def nth_list_update)
  ultimately show thesis using that t ip by (simp add: u_def)
qed

lemma iunlock_open:
  fixes s :: "'a fsst_scheme"
  assumes t: "in_txn k s" and l: "sl_locked (i_lock (icache s ! ip))" "0 < i_ref (icache s ! ip)" and ip: "ip < length (icache s)"
  obtains u where "iunlock (Some ip) s = Inr u" "in_txn k u" "same_at ip s u" "\<not> sl_locked (i_lock (icache u ! ip))" "rest u = rest s" "untouched s u"
proof -
  let ?lk = "(i_lock (icache s ! ip))\<lparr>sl_locked := False, sl_pid := 0\<rparr>"
  define u where "u = upd_inode ip (\<lambda>n. n\<lparr>i_lock := ?lk\<rparr>) (wakeup1 (Ch_inode ip) s)"
  have u: "iunlock (Some ip) s = Inr u" using l in_txn_held[OF t] by (simp add: iunlock_def u_def)
  have "same_at ip s u" using ip by (auto simp: same_at_def u_def nth_list_update)
  moreover have "untouched s u" by (simp add: u_def) (simp add: untouched_def wakeup1_def)
  ultimately show thesis using that[OF u] iunlock_rest[OF u] t ip by (simp add: u_def)
qed

lemma fsst_more: "logst.more t = logst.more s \<Longrightarrow> fsst.more t = fsst.more s"
  for s t :: "'a fsst_scheme"
  by (cases s; cases t; simp)

text \<open>The last operation commits, and the disk is what the cache showed.\<close>

lemma end_idle:
  fixes s :: "'a fsst_scheme"
  assumes t: "in_txn k s" and o: "lg_outstanding s = 1" "\<not> lg_committing s" "20 \<le> lg_size s"
  obtains u where "end_op iderw s = Inr u" "idle_log u" "same_at ip s u" "icache u = icache s" "fsst.more u = fsst.more s"
    "mem u = mem s" "curproc u = curproc s" "same_machine s u"
    "\<exists>ws. writes u = writes s @ ws \<and> memdisk u = apply_writes (memdisk s) ws
       \<and> (\<forall>v. memdisk v = memdisk s \<longrightarrow> same_machine v s \<longrightarrow> home v = home s \<longrightarrow> memdisk v = disk_view v \<longrightarrow> recovers_to v ws (\<lambda>w. w = v \<or> w = u))"
proof -
  have i: "storage_inv s" "locked_bufs s = {}" using t by (simp_all add: in_txn_def)
  let ?cw = "commit_writes (lg_start s) (logged s) (disk_view s) (memdisk s (lg_start s))"
  let ?ws = "if logged s = [] then [] else ?cw"
  obtain u where U: "end_op iderw s = Inr u" "storage_inv u" "locked_bufs u = {}" "logged u = []" "lh_n u = 0" "lg_outstanding u = 0"
    "\<not> lg_committing u" "lg_start u = lg_start s" "lg_size u = lg_size s" "logst.more u = logst.more s" "mem_present u = mem_present s"
    "\<And>b. b \<notin> log_blocks s \<Longrightarrow> disk_view u b = disk_view s b" "writes u = writes s @ ?ws" "memdisk u = apply_writes (memdisk s) ?ws"
    using dl.end_op_commits[OF i o(1,2)] by blast
  have h: "home u = home s" using U(8,9,11) by (simp add: home_def fun_eq_iff)
  have d: "disk_view u b = disk_view s b" if "home s b" for b using U(12) that by (simp add: home_def)
  have "lg_dev u = lg_dev s" using U(2) i(1) by (simp add: log_inv_def log_geom_def)
  then have m: "same_machine s u" using U(8,9,11) by (simp add: same_machine_def)
  have "recovers_to v ?ws (\<lambda>w. w = v \<or> w = u)"
    if v: "memdisk v = memdisk s" "same_machine v s" "home v = home s" "memdisk v = disk_view v" for v
    unfolding recovers_to_def
  proof (intro allI impI)
    fix vs r assume p: "prefix vs ?ws" and r: "restarted v vs r"
    have p': "prefix vs ?cw" using p by (auto split: if_splits)
    have r': "restarted s vs r" using restarted_later[OF v(2), of "[]" vs r] v(1) r by simp
    obtain x where x: "recover_from_log iderw r = Inr x" "storage_inv x"
      "(\<forall>b. b \<notin> log_blocks s \<longrightarrow> disk_view x b = memdisk s b) \<or> (\<forall>b. b \<notin> log_blocks s \<longrightarrow> disk_view x b = disk_view s b)"
      using restarted_recovers[OF i p' r'] by blast
    have "(\<forall>b. home v b \<longrightarrow> disk_view x b = disk_view v b) \<or> (\<forall>b. home v b \<longrightarrow> disk_view x b = disk_view u b)"
      using x(3) v(1,3,4) d by (auto simp: home_def)
    then show "\<exists>x w. recover_from_log iderw r = Inr x \<and> storage_inv x \<and> (w = v \<or> w = u) \<and> (\<forall>b. home v b \<longrightarrow> disk_view x b = disk_view w b)"
      using x(1,2) by blast
  qed
  moreover have "fsst.more u = fsst.more s" by (rule fsst_more[OF U(10)])
  moreover have "idle_log u" using U(2,3,5-7,9) o(3) by (simp add: idle_log_def)
  moreover have "same_at ip s u"
    using h d fs_more[OF U(10)] same_at_refl[of ip s] by (simp add: same_at_def)
  ultimately show thesis using that[OF U(1)] fs_more[OF U(10)] end_op_mem[OF U(1)] m U(13,14) by blast
qed

text \<open>The table of open files is no part of the storage.\<close>

lemma upd_file_simps [simp]:
  "held (upd_file f g s) = held s" "icache (upd_file f g s) = icache s" "fs_sb (upd_file f g s) = fs_sb s"
  "mem (upd_file f g s) = mem s" "memdisk (upd_file f g s) = memdisk s" "view d (upd_file f g s) = view d s"
  "locked_bufs (upd_file f g s) = locked_bufs s" "lg_outstanding (upd_file f g s) = lg_outstanding s"
  "lg_committing (upd_file f g s) = lg_committing s" "lg_size (upd_file f g s) = lg_size s" "lg_start (upd_file f g s) = lg_start s"
  "home (upd_file f g s) = home s" "ftable (upd_file f g s) = (ftable s)[f := g (ftable s ! f)]" "pipes (upd_file f g s) = pipes s"
  by (simp_all add: upd_file_def view_def caches_def locked_bufs_def home_def mem_present_def fun_eq_iff split: option.split)

lemma upd_file_txn [simp]: "in_txn k (upd_file f g s) = in_txn k s"
proof -
  have "storage_inv (upd_file f g s) = storage_inv s"
    by (simp add: upd_file_def log_inv_def cache_ok_def log_geom_def txn_ok_def pinned_def logged_def dirty_blocks_def
        mem_present_def mem_ready_def has_proc_def binv_def blist_def keys_ok_def buf_ok_def cong: conj_cong)
  then show ?thesis by (simp add: in_txn_def) (simp add: upd_file_def)
qed

lemma upd_file_same: "same_at ip (upd_file f g s) t = same_at ip s t" "same_at ip s (upd_file f g t) = same_at ip s t"
  by (simp_all add: same_at_def)

lemma file_more:
  assumes "fsst.more t = fsst.more s"
  shows "ftable t = ftable s" "pipes t = pipes s" "filest.more t = filest.more s"
  using assms by (cases s; cases t; simp)+

lemma restD:
  assumes "rest t = rest s"
  shows "mem t = mem s" "lg_size t = lg_size s" "lg_outstanding t = lg_outstanding s" "lg_committing t = lg_committing s"
    "fsst.more t = fsst.more s" "same_machine s t" "curproc t = curproc s"
  using assms by (simp_all add: rest_def same_machine_def, simp add: mem_present_def fun_eq_iff)

text \<open>
  The bytes \<open>xs\<close> were written in pieces of \<open>write_max\<close> bytes and the log is idle again. A machine that stops in
  between recovers to the file with some of the pieces, or all of them.
\<close>

definition partly :: "nat \<Rightarrow> nat \<Rightarrow> uchar list \<Rightarrow> 'a fsst_scheme \<Rightarrow> 'a fsst_scheme \<Rightarrow> bool" where
  "partly ip off xs s w \<longleftrightarrow> (\<exists>j \<le> length xs. (j = length xs \<or> nat write_max dvd j) \<and> written ip off (take j xs) s w)"

definition same_process :: "'a filest_scheme \<Rightarrow> 'a filest_scheme \<Rightarrow> bool" where
  "same_process s t \<longleftrightarrow> pipes t = pipes s \<and> mem t = mem s \<and> curproc t = curproc s \<and> filest.more t = filest.more s"

definition through :: "nat \<Rightarrow> nat \<Rightarrow> uchar list \<Rightarrow> 'a filest_scheme \<Rightarrow> 'a filest_scheme \<Rightarrow> bool" where
  "through ip off xs s t \<longleftrightarrow> written ip off xs s t \<and> idle_log t \<and> open_inode t ip \<and> same_process s t \<and> same_machine s t
     \<and> (\<exists>ws. writes t = writes s @ ws \<and> memdisk t = apply_writes (memdisk s) ws \<and> recovers_to s ws (partly ip off xs s))"

lemma throughD:
  assumes "through ip off xs s t"
  shows "written ip off xs s t" "idle_log t" "open_inode t ip" "pipes t = pipes s" "mem t = mem s" "same_machine s t"
    "\<exists>ws. writes t = writes s @ ws \<and> memdisk t = apply_writes (memdisk s) ws \<and> recovers_to s ws (partly ip off xs s)"
    "curproc t = curproc s" "filest.more t = filest.more s"
  using assms by (simp_all add: through_def same_process_def)

lemma throughI:
  assumes "written ip off xs s t" "idle_log t" "open_inode t ip" "same_process s t" "same_machine s t"
    "writes t = writes s @ ws" "memdisk t = apply_writes (memdisk s) ws" "recovers_to s ws (partly ip off xs s)"
  shows "through ip off xs s t"
  unfolding through_def using assms by (intro conjI exI[of _ ws])

lemma idle_recovers:
  assumes "idle_log s" "Q s"
  shows "recovers_to s [] Q"
  unfolding recovers_to_def
proof (intro allI impI)
  fix vs r assume "prefix vs ([] :: (uint \<times> block) list)" and r: "restarted s vs r"
  then have p: "prefix vs (commit_writes (lg_start s) (logged s) (disk_view s) (memdisk s (lg_start s)))" by simp
  have i: "storage_inv s" "locked_bufs s = {}" using assms(1) by (simp_all add: idle_log_def)
  show "\<exists>u w. recover_from_log iderw r = Inr u \<and> storage_inv u \<and> Q w \<and> (\<forall>b. home s b \<longrightarrow> disk_view u b = disk_view w b)"
    using restarted_recovers[OF i p r] idle_disk[OF assms(1)] assms(2) unfolding home_def by metis
qed

lemma partly_here: "stored_file s ip \<Longrightarrow> off \<le> file_size s ip \<Longrightarrow> partly ip off xs s s"
  using written_nil[of s ip off] unfolding partly_def by (intro exI[of _ 0]) simp

lemma partly_all: "written ip off xs s t \<Longrightarrow> partly ip off xs s t"
  unfolding partly_def by (intro exI[of _ "length xs"]) simp

lemma partly_later:
  assumes "written ip off xs s t" "partly ip (off + length xs) ys t w" "off \<le> file_size s ip" "length xs = nat write_max \<or> ys = []"
  shows "partly ip off (xs @ ys) s w"
proof -
  obtain j where j: "j \<le> length ys" "j = length ys \<or> nat write_max dvd j" "written ip (off + length xs) (take j ys) t w"
    using assms(2) unfolding partly_def by blast
  have "written ip off (take (length xs + j) (xs @ ys)) s w" using written_trans[OF assms(1) j(3) assms(3)] by simp
  moreover have "length xs + j = length (xs @ ys) \<or> nat write_max dvd length xs + j" using j(1,2) assms(4) by auto
  moreover have "length xs + j \<le> length (xs @ ys)" using j(1) by simp
  ultimately show ?thesis unfolding partly_def by blast
qed

lemma through_nil:
  assumes "idle_log s" "open_inode s ip" "stored_file s ip" "off \<le> file_size s ip"
  shows "through ip off [] s s"
proof -
  have "recovers_to s [] (partly ip off [] s)" by (rule idle_recovers[where Q = "partly ip off [] s", OF assms(1) partly_here[OF assms(3,4)]])
  then show ?thesis using assms written_nil[OF assms(3,4)] by (simp add: through_def same_machine_def same_process_def)
qed

lemma through_trans:
  assumes s: "through ip off xs s t" and t: "through ip (off + length xs) ys t u" and o: "off \<le> file_size s ip"
    and l: "length xs = nat write_max \<or> ys = []"
  shows "through ip off (xs @ ys) s u"
proof -
  note S = throughD[OF s] and T = throughD[OF t]
  note W = written_trans[OF S(1) T(1) o] and h = writtenD(8)[OF S(1)]
  obtain ws where V: "writes t = writes s @ ws" "memdisk t = apply_writes (memdisk s) ws" "recovers_to s ws (partly ip off xs s)"
    using S(7) by blast
  obtain vs where U: "writes u = writes t @ vs" "memdisk u = apply_writes (memdisk t) vs"
    "recovers_to t vs (partly ip (off + length xs) ys t)"
    using T(7) by blast
  have "partly ip off (xs @ ys) s v" if "partly ip off xs s v" for v
  proof -
    obtain j where j: "j \<le> length xs" "j = length xs \<or> nat write_max dvd j" "written ip off (take j xs) s v"
      using \<open>partly ip off xs s v\<close> unfolding partly_def by blast
    have "j = length (xs @ ys) \<or> nat write_max dvd j" using j(2) l by auto
    then show ?thesis using j(1,3) unfolding partly_def by (intro exI[of _ j]) simp
  qed
  then have "recovers_to s ws (partly ip off (xs @ ys) s)" by (rule recovers_to_mono[OF V(3)])
  moreover have "recovers_to t vs (partly ip off (xs @ ys) s)"
    by (rule recovers_to_mono[OF U(3)]) (rule partly_later[OF S(1) _ o l])
  ultimately have "recovers_to s (ws @ vs) (partly ip off (xs @ ys) s)" by (rule recovers_to_append[OF _ _ S(6) V(2) h])
  then show ?thesis
    using throughI[OF W T(2,3) _ same_machine_trans[OF S(6) T(6)]] S(4,5,8,9) T(4,5,8,9) V(1,2) U(1,2)
    by (simp add: apply_writes_def same_process_def)
qed

lemma turns_piece: "n \<le> 13 * BSIZE \<Longrightarrow> turns off n \<le> 14"
  unfolding turns_def by (auto simp: div_le_mono)

text \<open>The transaction of a turn, up to its \<open>end_op\<close>.\<close>

lemma filewrite_txn:
  fixes s :: "'a filest_scheme"
  assumes i: "idle_log s" and E: "k_rw E = iderw" and f: "f < length (ftable s)" and o: "open_inode s ip" and sf: "stored_file s ip"
    and off: "off = f_off (ftable s ! f)" "unat off \<le> file_size s ip"
    and n: "unat n \<le> 13 * BSIZE" "unat off + unat n \<le> MAXFILE * BSIZE"
    and fr: "need (blocks_of (file_size s ip)) (blocks_of (unat off + unat n)) \<le> card (free_blocks s)"
  obtains a b c d where "begin_op s = Inr a" "ilock E (Some ip) a = Inr b" "ftable b = ftable s"
    "writei E ip src off n b = Inr (int (unat n), c)"
    "iunlock (Some ip) (upd_file f (\<lambda>x. x\<lparr>f_off := f_off x + n\<rparr>) c) = Inr d"
    "in_txn 1 d" "lg_outstanding d = 1" "\<not> lg_committing d" "20 \<le> lg_size d" "same_at ip s b"
    "extended ip (unat off) (load_bytes (mem s) src (unat n)) b c" "same_at ip c d" "open_inode d ip"
    "untouched s d" "home d = home s" "same_machine s d" "same_process s d"
    "ftable d = (ftable s)[f := (ftable s ! f)\<lparr>f_off := off + n\<rparr>]"
proof -
  have ip: "ip < length (icache s)" using sf by (simp add: stored_file_def grown_def)
  define a where "a = s\<lparr>lg_outstanding := 1\<rparr>"
  have A: "begin_op s = Inr a" "in_txn 19 a" using begin_idle[OF i] by (simp_all add: a_def)
  have a: "same_at ip s a" "open_inode a ip" "mem a = mem s" "lg_outstanding a = 1" "\<not> lg_committing a" "20 \<le> lg_size a"
    "fsst.more a = fsst.more s" "icache a = icache s" "untouched s a" "same_machine s a" "curproc a = curproc s"
    using i same_at_refl[of ip s] o
    by (simp_all add: a_def same_at_def home_def mem_present_def view_def caches_def fun_eq_iff idle_log_def open_inode_def
        untouched_def same_machine_def cong: option.case_cong)
  obtain b where B: "ilock E (Some ip) a = Inr b" "in_txn 19 b" "same_at ip a b" "sl_locked (i_lock (icache b ! ip))" "rest b = rest a"
    "untouched a b"
    by (rule ilock_open[OF A(2) a(2)]) (use ip a(8) in simp_all)
  have sb: "same_at ip s b" by (rule same_at_trans[OF a(1) B(3)])
  note F = same_at_file[OF sb sf] and rb = restD[OF B(5)]
  obtain l where l: "icache b ! ip = (icache s ! ip)\<lparr>i_lock := l\<rparr>" using sb by (auto simp: same_at_def)
  have on: "0 < i_ref (icache s ! ip)" "i_flags (icache s ! ip) AND I_VALID \<noteq> 0" "d_type (icache s ! ip) \<noteq> T_DEV"
    using o by (simp_all add: open_inode_def Let_def)
  have tx: "in_txn (turns (unat off) (unat n) + 5) b" using B(2) turns_piece[OF n(1), of "unat off"] by (simp add: in_txn_def)
  obtain R c where C: "writei E ip src off n b = Inr (int (unat n), c)" "room R 0 c" "locked_bufs c = {}"
    "extended ip (unat off) (load_bytes (mem b) src (unat n)) b c"
    using writei_extended[OF tx E F(1), of src] off(2) n(2) fr on(3) F(3,8) l by auto
  have rc: "rest c = rest b" by (rule writei_rest[OF C(1) E]) (use on(3) l in simp)
  let ?c = "upd_file f (\<lambda>x. x\<lparr>f_off := f_off x + n\<rparr>) c"
  obtain x z where xz: "icache c ! ip = (icache b ! ip)\<lparr>d_addrs := x, d_size := z\<rparr>" using C(4) by (auto simp: extended_def)
  have lc: "length (icache c) = length (icache s)" using C(4) sb by (simp add: extended_def same_at_def)
  have tc: "in_txn 1 ?c" using room_in_txn[OF C(2,3)] by simp
  obtain d where D: "iunlock (Some ip) ?c = Inr d" "in_txn 1 d" "same_at ip ?c d" "\<not> sl_locked (i_lock (icache d ! ip))" "rest d = rest ?c"
    "untouched ?c d"
    by (rule iunlock_open[OF tc]) (use B(4) on(1) xz l lc ip in simp_all)
  note r = restD[OF rc] restD[OF D(5)]
  have c: "same_machine c ?c" "untouched c ?c" "curproc ?c = curproc c" "filest.more ?c = filest.more c"
    by (simp_all add: same_machine_def mem_present_def fun_eq_iff upd_file_def untouched_def)
  have h: "untouched b c" "home d = home s" using C(4) D(3) sb by (simp_all add: extended_def same_at_def)
  have ud: "untouched s d" by (rule untouched_trans[OF a(9) untouched_trans[OF B(6) untouched_trans[OF h(1) untouched_trans[OF c(2) D(6)]]]])
  have sd: "same_machine s d"
    by (rule same_machine_trans[OF a(10) same_machine_trans[OF rb(6) same_machine_trans[OF restD(6)[OF rc]
          same_machine_trans[OF c(1) restD(6)[OF D(5)]]]]])
  obtain l' where "icache d ! ip = (icache c ! ip)\<lparr>i_lock := l'\<rparr>" using D(3) by (auto simp: same_at_def)
  then have od: "open_inode d ip" using on xz l D(4) by (simp add: open_inode_def Let_def)
  note fb = file_more[of b s] file_more[of c s] file_more[of d "?c"]
  have ft: "ftable b = ftable s" "ftable d = (ftable s)[f := (ftable s ! f)\<lparr>f_off := off + n\<rparr>]" "same_process s d"
    using fb r rb a(3,7,11) c(3,4) off(1) by (simp_all add: same_process_def)
  have e: "extended ip (unat off) (load_bytes (mem s) src (unat n)) b c" using C(4) rb(1) a(3) by simp
  show thesis
    by (rule that[OF A(1) B(1) ft(1) C(1) D(1,2) _ _ _ sb e D(3)[unfolded upd_file_same] od ud h(2) sd ft(3,2)])
      (use r rb a in simp_all)
qed

lemma filewrite_turn:
  fixes s :: "'a filest_scheme"
  assumes "idle_log s" "k_rw E = iderw" "f < length (ftable s)" "open_inode s ip" "stored_file s ip"
    and "off = f_off (ftable s ! f)" "unat off \<le> file_size s ip" "unat n \<le> 13 * BSIZE" "unat off + unat n \<le> MAXFILE * BSIZE"
    and "need (blocks_of (file_size s ip)) (blocks_of (unat off + unat n)) \<le> card (free_blocks s)"
  obtains a b c d t where "begin_op s = Inr a" "ilock E (Some ip) a = Inr b" "ftable b = ftable s"
    "writei E ip src off n b = Inr (int (unat n), c)"
    "iunlock (Some ip) (upd_file f (\<lambda>x. x\<lparr>f_off := f_off x + n\<rparr>) c) = Inr d"
    "end_op iderw d = Inr t" "through ip (unat off) (load_bytes (mem s) src (unat n)) s t"
    "ftable t = (ftable s)[f := (ftable s ! f)\<lparr>f_off := off + n\<rparr>]"
proof -
  obtain a b c d where D: "begin_op s = Inr a" "ilock E (Some ip) a = Inr b" "ftable b = ftable s"
    "writei E ip src off n b = Inr (int (unat n), c)"
    "iunlock (Some ip) (upd_file f (\<lambda>x. x\<lparr>f_off := f_off x + n\<rparr>) c) = Inr d"
    "in_txn 1 d" "lg_outstanding d = 1" "\<not> lg_committing d" "20 \<le> lg_size d" "same_at ip s b"
    "extended ip (unat off) (load_bytes (mem s) src (unat n)) b c" "same_at ip c d" "open_inode d ip"
    "untouched s d" "home d = home s" "same_machine s d" "same_process s d"
    "ftable d = (ftable s)[f := (ftable s ! f)\<lparr>f_off := off + n\<rparr>]"
    by (rule filewrite_txn[OF assms])
  obtain t where T: "end_op iderw d = Inr t" "idle_log t" "same_at ip d t" "icache t = icache d" "fsst.more t = fsst.more d"
    "mem t = mem d" "curproc t = curproc d" "same_machine d t" "\<exists>ws. writes t = writes d @ ws \<and> memdisk t = apply_writes (memdisk d) ws
       \<and> (\<forall>v. memdisk v = memdisk d \<longrightarrow> same_machine v d \<longrightarrow> home v = home d \<longrightarrow> memdisk v = disk_view v \<longrightarrow> recovers_to v ws (\<lambda>w. w = v \<or> w = t))"
    by (rule end_idle[OF D(6-9)])
  have u: "memdisk d = memdisk s" "writes d = writes s" using D(14) by (simp_all add: untouched_def)
  obtain ws where ws: "writes t = writes d @ ws" "memdisk t = apply_writes (memdisk d) ws"
    "\<forall>v. memdisk v = memdisk d \<longrightarrow> same_machine v d \<longrightarrow> home v = home d \<longrightarrow> memdisk v = disk_view v \<longrightarrow> recovers_to v ws (\<lambda>w. w = v \<or> w = t)"
    using T(9) by blast
  have R: "recovers_to s ws (\<lambda>w. w = s \<or> w = t)"
    using ws(3)[rule_format, OF u(1)[symmetric] D(16) D(15)[symmetric] idle_disk[OF assms(1)]] .
  let ?xs = "load_bytes (mem s) src (unat n)"
  have w: "written ip (unat off) ?xs s t" by (rule written_same[OF D(10) assms(5) D(11) same_at_trans[OF D(12) T(3)]])
  have P: "recovers_to s ws (partly ip (unat off) ?xs s)"
    by (rule recovers_to_mono[OF R]) (use partly_here[OF assms(5,7)] partly_all[OF w] in blast)
  note ft = file_more[OF T(5)]
  have o: "open_inode t ip" "same_process s t" using D(13,17) T(4,6,7) ft(2,3) by (simp_all add: open_inode_def same_process_def)
  have "through ip (unat off) ?xs s t"
    by (rule throughI[OF w T(2) o same_machine_trans[OF D(16) T(8)] ws(1,2)[unfolded u] P])
  then show thesis by (rule that[OF D(1-5) T(1) _ trans[OF ft(1) D(18)]])
qed

section \<open>The whole call\<close>

lemma piece_word: "0 < m \<Longrightarrow> m \<le> 6656 \<Longrightarrow> int (unat (of_int m :: uint)) = m"
  by (cases m) (simp_all add: unat_of_nat take_bit_nat_eq_self)

lemma load_bytes_add: "load_bytes m a (j + k) = load_bytes m a j @ load_bytes m (a + of_nat j) k"
  by (rule nth_equalityI) (auto simp: load_bytes_def nth_append add.assoc of_nat_diff)

lemma length_load_bytes [simp]: "length (load_bytes m a k) = k"
  by (simp add: load_bytes_def)

lemma need_mono: "L \<le> M \<Longrightarrow> need K L \<le> need K M"
  by (auto simp: need_def)

lemma need_rest:
  assumes "written ip off xs s t" "off + length xs \<le> z"
    and "need (blocks_of (file_size s ip)) (blocks_of z) \<le> card (free_blocks s)"
  shows "need (blocks_of (file_size t ip)) (blocks_of z) \<le> card (free_blocks t)"
proof (cases "file_size s ip \<le> z")
  case True
  have m: "file_size s ip \<le> file_size t ip" "file_size t ip \<le> z" using writtenD(2)[OF assms(1)] assms(2) True by simp_all
  show ?thesis using need_split[OF blocks_of_mono[OF m(1)] blocks_of_mono[OF m(2)]] writtenD(12)[OF assms(1)] assms(3) by linarith
next
  case False
  then have "blocks_of z \<le> blocks_of (file_size t ip)" using writtenD(2)[OF assms(1)] by (intro blocks_of_mono) simp
  then show ?thesis by (simp add: need_def)
qed

lemma filewrite_loop_writes:
  fixes s :: "'a filest_scheme"
  assumes "idle_log s" "k_rw E = iderw" "f < length (ftable s)" "f_ip (ftable s ! f) = ip" "open_inode s ip" "stored_file s ip"
    and "off = f_off (ftable s ! f)" "unat off \<le> file_size s ip" "0 \<le> i" "i \<le> n" "nat (n - i) \<le> fuel"
    and "unat off + nat (n - i) \<le> MAXFILE * BSIZE"
    and "need (blocks_of (file_size s ip)) (blocks_of (unat off + nat (n - i))) \<le> card (free_blocks s)"
  shows "\<exists>t. filewrite_loop fuel E f addr n i s = Inr (n, t)
    \<and> through ip (unat off) (load_bytes (mem s) (addr + of_int i) (nat (n - i))) s t
    \<and> ftable t = (ftable s)[f := (ftable s ! f)\<lparr>f_off := off + of_int (n - i)\<rparr>]"
  using assms
proof (induction fuel arbitrary: i s off)
  case (0 i s off)
  then show ?case using through_nil[of s ip "unat off"] by (subst filewrite_loop.simps) (auto simp: load_bytes_def)
next
  case (Suc fuel i s off)
  show ?case
  proof (cases "i < n")
    case False
    then show ?thesis using Suc.prems through_nil[of s ip "unat off"] by (subst filewrite_loop.simps) (auto simp: load_bytes_def)
  next
    case True
    define m where "m = (if n - i > write_max then write_max else n - i)"
    define w :: uint where "w = of_int m"
    have wm: "write_max = 6656" by (simp add: write_max_def)
    have m: "0 < m" "m \<le> 6656" "m \<le> n - i" "m = write_max \<or> m = n - i" using True by (simp_all add: m_def wm)
    have w: "int (unat w) = m" using piece_word[OF m(1,2)] by (simp add: w_def)
    then have nw: "unat w = nat m" by (metis nat_int)
    have z: "nat (n - i) = nat m + nat (n - (i + m))" using m by simp
    have pre: "unat w \<le> 13 * BSIZE" "unat off + unat w \<le> MAXFILE * BSIZE" using Suc.prems(12) m nw by simp_all
    have fr: "need (blocks_of (file_size s ip)) (blocks_of (unat off + unat w)) \<le> card (free_blocks s)"
    proof (rule order_trans[OF need_mono Suc.prems(13)])
      show "blocks_of (unat off + unat w) \<le> blocks_of (unat off + nat (n - i))" by (rule blocks_of_mono) (simp only: z nw)
    qed
    let ?xs = "load_bytes (mem s) (addr + of_int i) (unat w)"
    obtain a b c d t where T: "begin_op s = Inr a" "ilock E (Some ip) a = Inr b" "ftable b = ftable s"
      "writei E ip (addr + of_int i) off w b = Inr (int (unat w), c)"
      "iunlock (Some ip) (upd_file f (\<lambda>x. x\<lparr>f_off := f_off x + w\<rparr>) c) = Inr d"
      "end_op iderw d = Inr t" "through ip (unat off) ?xs s t" "ftable t = (ftable s)[f := (ftable s ! f)\<lparr>f_off := off + w\<rparr>]"
      by (rule filewrite_turn[OF Suc.prems(1-3,5-8) pre fr])
    have l: "filewrite_loop (Suc fuel) E f addr n i s = filewrite_loop fuel E f addr n (i + m) t"
      using True T(1-6) m w Suc.prems(2,4,7)
      by (subst filewrite_loop.simps) (simp add: Let_def m_def[symmetric] w_def[symmetric])
    have t: "idle_log t" "open_inode t ip" "mem t = mem s" "written ip (unat off) ?xs s t"
      using throughD[OF T(7)] by simp_all
    note W = writtenD[OF t(4)]
    have o: "unat (off + w) = unat off + unat w" by (rule le_file_word[OF pre(2) refl refl])
    let ?ys = "load_bytes (mem t) (addr + of_int (i + m)) (nat (n - (i + m)))"
    have "\<exists>u. filewrite_loop fuel E f addr n (i + m) t = Inr (n, u) \<and> through ip (unat (off + w)) ?ys t u
        \<and> ftable u = (ftable t)[f := (ftable t ! f)\<lparr>f_off := (off + w) + of_int (n - (i + m))\<rparr>]"
    proof (rule Suc.IH[OF t(1) Suc.prems(2) _ _ t(2) W(1)])
      show "need (blocks_of (file_size t ip)) (blocks_of (unat (off + w) + nat (n - (i + m)))) \<le> card (free_blocks t)"
        by (rule need_rest[OF t(4)]) (use Suc.prems(13) z nw o in \<open>simp_all add: add.assoc\<close>)
      show "nat (n - (i + m)) \<le> fuel" using Suc.prems(11) m by linarith
    qed (use Suc.prems(3,4,9,10,12) T(8) W(2) m z nw o in simp_all)
    then obtain u where U: "filewrite_loop fuel E f addr n (i + m) t = Inr (n, u)" "through ip (unat (off + w)) ?ys t u"
      "ftable u = (ftable t)[f := (ftable t ! f)\<lparr>f_off := (off + w) + of_int (n - (i + m))\<rparr>]" by blast
    have x: "load_bytes (mem s) (addr + of_int i) (nat (n - i)) = ?xs @ ?ys"
      unfolding z nw[symmetric] load_bytes_add t(3) by (simp add: w_def add.assoc)
    have "through ip (unat off) (?xs @ ?ys) s u"
      by (rule through_trans[OF T(7) _ Suc.prems(8)]) (use U(2) o m(4) nw in \<open>auto simp: load_bytes_def\<close>)
    moreover have "ftable u = (ftable s)[f := (ftable s ! f)\<lparr>f_off := off + of_int (n - i)\<rparr>]"
      using U(3) T(8) Suc.prems(3) by (simp add: w_def algebra_simps)
    ultimately show ?thesis using l U(1) x by auto
  qed
qed

text \<open>
  C5: \<open>filewrite\<close> of a file in order, from an idle log. If the bytes fit under the largest file size
  and the disk has the blocks that are missing, the call makes all its transactions and returns
  \<open>n\<close>; the file's content is the old one with the \<open>n\<close> bytes of memory at the offset, the offset
  has moved behind them, the inode on disk is the cached one, all other inodes and all blocks that
  were neither the file's nor free are as before, and all of it is on the disk: the log is empty and no
  block of the cache differs from the disk.
\<close>

theorem filewrite_stores:
  fixes s :: "'a filest_scheme"
  assumes "idle_log s" "k_rw E = iderw" "f < length (ftable s)" "f_type (ftable s ! f) = FD_INODE" "f_writable (ftable s ! f)"
    and "f_ip (ftable s ! f) = ip" "open_inode s ip" "stored_file s ip" "0 \<le> n"
  defines "off \<equiv> f_off (ftable s ! f)" and "c \<equiv> content s ip"
  assumes "unat off \<le> file_size s ip" "unat off + nat n \<le> MAXFILE * BSIZE"
    and "need (blocks_of (file_size s ip)) (blocks_of (unat off + nat n)) \<le> card (free_blocks s)"
  shows "\<exists>t. filewrite E f addr n s = Inr (Done n, t) \<and> idle_log t \<and> memdisk t = disk_view t \<and> stored_file t ip \<and> open_inode t ip
    \<and> file_size t ip = max (file_size s ip) (unat off + nat n)
    \<and> content t ip = take (unat off) c @ load_bytes (mem s) addr (nat n) @ drop (unat off + nat n) c
    \<and> ftable t = (ftable s)[f := (ftable s ! f)\<lparr>f_off := off + of_int n\<rparr>] \<and> pipes t = pipes s \<and> mem t = mem s
    \<and> (\<forall>j. j \<noteq> ip \<longrightarrow> icache t ! j = icache s ! j)
    \<and> (\<forall>j. j mod IPB \<noteq> i_inum (icache s ! ip) mod IPB \<longrightarrow>
         get_dinode j (memdisk t (inode_block s ip)) = get_dinode j (memdisk s (inode_block s ip)))
    \<and> (\<forall>b. home s b \<longrightarrow> b \<notin> set (own s ip (blocks_of (file_size s ip))) \<longrightarrow> b \<notin> free_blocks s \<longrightarrow> b \<noteq> bitmap s
         \<longrightarrow> b \<noteq> inode_block s ip \<longrightarrow> memdisk t b = memdisk s b)"
proof -
  obtain t where T: "filewrite_loop (nat n) E f addr n 0 s = Inr (n, t)" "through ip (unat off) (load_bytes (mem s) addr (nat n)) s t"
    "ftable t = (ftable s)[f := (ftable s ! f)\<lparr>f_off := off + of_int n\<rparr>]"
    using filewrite_loop_writes[of s E f ip off 0 n "nat n" addr] assms by auto
  note W = throughD[OF T(2)]
  note t = W(2,2-5) T(3) W(1)
  have "filewrite E f addr n s = Inr (Done n, t)" using T(1) assms(4,5) by (simp add: filewrite_def)
  then show ?thesis
    using t(2-6) writtenD[OF t(7)] idle_disk[OF assms(1)] idle_disk[OF t(2)] unfolding c_def by auto
qed

text \<open>An open file over the machine of theory \<open>Fs_Txn\<close>, at the end of its 1500 bytes.\<close>

lemma uncommitting_inv:
  assumes "in_txn k s"
  shows "in_txn k (s\<lparr>lg_outstanding := 1, lg_committing := False\<rparr>)"
proof -
  have "storage_inv (s\<lparr>lg_outstanding := 1, lg_committing := False\<rparr>) = storage_inv s"
    by (simp add: log_inv_def cache_ok_def log_geom_def txn_ok_def pinned_def logged_def dirty_blocks_def
        mem_present_def mem_ready_def has_proc_def binv_def blist_def keys_ok_def buf_ok_def cong: conj_cong)
  then show ?thesis using assms by (simp add: in_txn_def locked_bufs_def)
qed

definition fd17 :: ofile where
  "fd17 = \<lparr>f_type = FD_INODE, f_ref = 1, f_readable = True, f_writable = True, f_pipe = 0, f_ip = 0, f_off = 1500\<rparr>"

definition file_machine :: "'a filest_scheme \<Rightarrow> 'a filest_scheme" where
  "file_machine x = booted_with (logst.more (fsst.extend fs_machine (fsst.more (x\<lparr>ftable := [fd17, fd17], pipes := \<lambda>_. None\<rparr>))))"

definition file_env :: "'a filest_scheme kenv" where
  "file_env = \<lparr>k_rw = iderw, k_end = 0, dev_read = \<lambda>_. None, dev_write = \<lambda>_. None\<rparr>"

lemma file_example:
  obtains s :: "'a filest_scheme" where "idle_log s" "stored_file s 0" "icache s = icache fs_machine" "ftable s = [fd17, fd17]"
    "13 \<le> card (free_blocks s)" "filest.more s = filest.more x"
proof -
  let ?r = "fsst.extend fs_machine (fsst.more (x\<lparr>ftable := [fd17, fd17], pipes := \<lambda>_. None\<rparr>))"
  let ?m = "file_machine x"
  have m: "logst.more ?m = logst.more ?r"
    using log_more_same(8)[OF diskst_more_same, of "booted_with y" "zero_machine_with y" for y]
    by (simp add: file_machine_def booted_with_def binit_frame zero_machine_with_def)
  have m': "fsst.more ?m = fsst.more (x\<lparr>ftable := [fd17, fd17], pipes := \<lambda>_. None\<rparr>)"
    using fsst_more[OF m] by (simp add: fsst.defs)
  have f: "icache ?m = icache fs_machine" "fs_sb ?m = sb1000" "ftable ?m = [fd17, fd17]" "filest.more ?m = filest.more x"
    using fs_more[OF m] file_more(1,3)[OF m'] by (simp_all add: fs_machine_fields fsst.defs)
  have t: "in_txn 29 ?m"
    by (simp add: in_txn_def file_machine_def booted_with_inv booted_with_fields booted_with_empty)
  have h: "home ?m = home fs_machine"
    by (simp only: fun_eq_iff fs_machine_home)
      (simp add: home_def file_machine_def booted_with_fields booted_with_present log_area_small)
  obtain r where r: "in_txn 27 r" "stored_file r 0" "logst.more r = logst.more ?m" "13 \<le> card (free_blocks r)"
    by (rule grow_example[where r = ?m and k = 27 and l = 1, OF _ h f(2)])
      (use t f(1) in \<open>simp_all add: fs_machine_fields file17_def\<close>)
  define q where "q = r\<lparr>lg_outstanding := 1, lg_committing := False\<rparr>"
  have q: "in_txn 27 q" "same_at 0 r q" "lg_outstanding q = 1" "\<not> lg_committing q" "20 \<le> lg_size q" "fsst.more q = fsst.more r" "icache q = icache r"
    using uncommitting_inv[OF r(1)] same_at_refl[of 0 r] r(1)
    by (simp_all add: q_def same_at_def home_def mem_present_def view_def caches_def fun_eq_iff in_txn_def log_inv_def txn_ok_def cong: option.case_cong)
  obtain s where s: "end_op iderw q = Inr s" "idle_log s" "same_at 0 q s" "icache s = icache q" "fsst.more s = fsst.more q"
    by (rule end_idle[OF q(1,3-5)])
  note F = same_at_file[OF same_at_trans[OF q(2) s(3)] r(2)]
  show thesis using that[OF s(2) F(1)] F(8) r(4) s(4,5) q(6,7) f fs_more(1)[OF r(3)] file_more(1)[OF fsst_more[OF r(3)]]
      file_more(3)[OF fsst_more[OF r(3)]] file_more(1,3)[of s q] file_more(1,3)[of q r] by simp
qed

lemma filewrite_stores_witness:
  "\<exists>(s :: filest) t. file_size s 0 = 1500 \<and> filewrite file_env 0 4096 6000 s = Inr (Done 6000, t) \<and> file_size t 0 = 7500
     \<and> content t 0 = content s 0 @ load_bytes (mem s) 4096 6000 \<and> memdisk t = disk_view t"
proof -
  obtain s :: filest where s: "idle_log s" "stored_file s 0" "icache s = icache fs_machine" "ftable s = [fd17, fd17]" "13 \<le> card (free_blocks s)"
    by (rule file_example)
  have z: "file_size s 0 = 1500" by (simp add: s(3) fs_machine_fields file17_def)
  have f: "0 < length (ftable s)" "f_type (ftable s ! 0) = FD_INODE" "f_writable (ftable s ! 0)" "f_ip (ftable s ! 0) = 0"
    "unat (f_off (ftable s ! 0)) = 1500" by (simp_all add: s(4) fd17_def)
  have o: "open_inode s 0" by (simp add: open_inode_def s(3) fs_machine_fields file17_def initsleeplock_def)
  have n: "need (blocks_of (file_size s 0)) (blocks_of (unat (f_off (ftable s ! 0)) + nat 6000)) \<le> card (free_blocks s)"
    using s(5) by (simp add: z f(5) need_def blocks_of_def)
  have E: "k_rw file_env = iderw" by (simp add: file_env_def)
  obtain t where "filewrite file_env 0 4096 6000 s = Inr (Done 6000, t)" "file_size t 0 = 7500" "memdisk t = disk_view t"
    "content t 0 = take 1500 (content s 0) @ load_bytes (mem s) 4096 6000 @ drop 7500 (content s 0)"
    using filewrite_stores[OF s(1) E f(1-4) o s(2) _ _ _ n, of 4096] z f(5) by auto
  then show ?thesis using z by (intro exI[of _ s] exI[of _ t]) simp
qed

end
