(* ===== verification/Fileread.thy ===== *)
theory Fileread
  imports Filewrite
begin

text \<open>
  \<open>fileread\<close> of a file in order, inside a transaction or outside, and reading back through one descriptor
  what was written through another.
\<close>

text \<open>User memory is no part of the storage.\<close>

lemma mem_upd_simps [simp]:
  "held (s\<lparr>mem := m\<rparr>) = held s" "icache (u\<lparr>mem := m\<rparr>) = icache u" "fs_sb (u\<lparr>mem := m\<rparr>) = fs_sb u"
  "view d (b\<lparr>mem := m\<rparr>) = view d b" "locked_bufs (b\<lparr>mem := m\<rparr>) = locked_bufs b" "home (l\<lparr>mem := m\<rparr>) = home l"
  by (simp_all add: view_def caches_def locked_bufs_def home_def mem_present_def fun_eq_iff cong: option.case_cong)

lemma mem_upd_txn [simp]: "in_txn k (s\<lparr>mem := m\<rparr>) = in_txn k s"
proof -
  have "storage_inv (s\<lparr>mem := m\<rparr>) = storage_inv s"
    by (simp add: log_inv_def cache_ok_def log_geom_def txn_ok_def pinned_def logged_def dirty_blocks_def
        mem_present_def mem_ready_def has_proc_def binv_def blist_def keys_ok_def buf_ok_def cong: conj_cong)
  then show ?thesis by (simp add: in_txn_def)
qed

lemma mem_upd_same: "same_at ip (s\<lparr>mem := m\<rparr>) t = same_at ip s t"
  by (simp add: same_at_def)

lemma fs_same_at: "fs_same s t \<Longrightarrow> same_at ip s t"
  using fs_sameD[of s t] same_at_refl[of ip s] by (simp add: same_at_def fs_same_def)

lemma store_bytes_Nil [simp]: "store_bytes m a [] = m"
  by (simp add: store_bytes_def)

lemma int_word: "0 \<le> n \<Longrightarrow> n < 2 ^ 31 \<Longrightarrow> unat (of_int n :: uint) = nat n"
  by (cases n) (simp_all add: unat_of_nat take_bit_nat_eq_self)

lemma fileread_reads:
  fixes s :: "'a filest_scheme"
  assumes t: "in_txn k s" and E: "k_rw E = iderw" and f: "f < length (ftable s)" "f_type (ftable s ! f) = FD_INODE"
      "f_readable (ftable s ! f)" "f_ip (ftable s ! f) = ip"
    and o: "open_inode s ip" and ip: "stored_file s ip" and n: "0 \<le> n" "n < 2 ^ 31" and off: "unat (f_off (ftable s ! f)) \<le> file_size s ip"
  defines "xs \<equiv> take (nat n) (drop (unat (f_off (ftable s ! f))) (content s ip))"
  obtains u where "fileread E f dst n s = Inr (Done (int (length xs)), u)" "in_txn k u" "same_at ip s u" "open_inode u ip"
    "mem u = store_bytes (mem s) dst xs" "ftable u = (ftable s)[f := (ftable s ! f)\<lparr>f_off := f_off (ftable s ! f) + of_nat (length xs)\<rparr>]"
    "pipes u = pipes s" "lg_outstanding u = lg_outstanding s" "lg_committing u = lg_committing s"
    "curproc u = curproc s" "filest.more u = filest.more s"
proof -
  let ?off = "f_off (ftable s ! f)"
  have il: "ip < length (icache s)" using ip by (simp add: stored_file_def grown_def)
  obtain b where B: "ilock E (Some ip) s = Inr b" "in_txn k b" "same_at ip s b" "sl_locked (i_lock (icache b ! ip))" "rest b = rest s"
    by (rule ilock_open[OF t o il])
  note F = same_at_file[OF B(3) ip] and rb = restD[OF B(5)]
  note fb = file_more[OF rb(5)]
  obtain l where l: "icache b ! ip = (icache s ! ip)\<lparr>i_lock := l\<rparr>" using B(3) by (auto simp: same_at_def)
  have on: "0 < i_ref (icache s ! ip)" "d_type (icache s ! ip) \<noteq> T_DEV" using o by (simp_all add: open_inode_def Let_def)
  have mf: "mapped_file b ip" by (rule grown_mapped) (use F(1) in \<open>simp add: stored_file_def\<close>)
  have w: "unat (of_int n :: uint) = nat n" by (rule int_word[OF n])
  have z: "file_size s ip \<le> MAXFILE * BSIZE" using mf F(3) by (simp add: mapped_file_def)
  have "unat (?off + of_nat (nat n)) = unat ?off + nat n" by (rule unat_add_small) (use z off n in simp)
  then have "unat (?off + of_int n) = unat ?off + nat n" using n(1) by simp
  then have gd: "\<not> (?off > d_size (icache b ! ip) \<or> ?off + of_int n < ?off)"
    using off F(3) by (simp add: word_less_nat_alt)
  have len: "length xs = min (nat n) (file_size s ip - unat ?off)" by (simp add: xs_def)
  obtain c where C: "readi_data E ip ?off (of_int n) b = Inr (int (length xs), xs, c)" "in_txn k c" "fs_same b c"
    using readi_data_content[OF B(2) E mf, of ?off "of_int n"] gd unfolding if_not_P[OF gd] w F(2,3) xs_def[symmetric] len[symmetric] by blast
  note rc = restD[OF readi_data_rest[OF C(1) E]]
  note fc = file_more[OF rc(5)]
  let ?c = "c\<lparr>mem := store_bytes (mem s) dst xs\<rparr>"
  let ?d = "upd_file f (\<lambda>x. x\<lparr>f_off := f_off x + of_nat (length xs)\<rparr>) ?c"
  have rd: "readi E ip dst ?off (of_int n) b = Inr (int (length xs), ?c)"
    using C(1) on(2) l rc(1) rb(1) by (simp add: readi_def)
  have ic: "icache c = icache b" using fs_sameD(1)[OF C(3)] .
  have lb: "length (icache b) = length (icache s)" using B(3) by (simp add: same_at_def)
  have tx: "in_txn k ?d" using C(2) by simp
  obtain u where U: "iunlock (Some ip) ?d = Inr u" "in_txn k u" "same_at ip ?d u" "\<not> sl_locked (i_lock (icache u ! ip))" "rest u = rest ?d"
    by (rule iunlock_open[OF tx]) (use B(4) on(1) l ic il lb in simp_all)
  note ru = restD[OF U(5)]
  note fu = file_more[OF ru(5)]
  have m: "curproc ?d = curproc c" "filest.more ?d = filest.more c" by (simp_all add: upd_file_def)
  have d: "(if (0 :: int) < int (length xs) then upd_file f (\<lambda>x. x\<lparr>f_off := f_off x + of_int (int (length xs))\<rparr>) ?c else ?c) = ?d"
    by (cases xs) (simp_all add: upd_file_def)
  have e: "fileread E f dst n s = Inr (Done (int (length xs)), u)"
    unfolding fileread_def Let_def using f B(1) rd U(1) fb d by simp
  have sm: "same_at ip s u"
    using same_at_trans[OF B(3) same_at_trans[OF fs_same_at[OF C(3)] U(3)[unfolded upd_file_same mem_upd_same]]] .
  then obtain l' where "icache u ! ip = (icache s ! ip)\<lparr>i_lock := l'\<rparr>" by (auto simp: same_at_def)
  then have ou: "open_inode u ip" using o U(4) by (simp add: open_inode_def Let_def)
  show thesis
    by (rule that[OF e U(2) sm ou]) (use ru fu rc rb fc fb m in simp_all)
qed

text \<open>
  C12: written bytes are read back. If \<open>filewrite\<close> stores \<open>n\<close> bytes through one descriptor, as in
  the property of theory \<open>Filewrite\<close>, then \<open>fileread\<close> of \<open>n\<close> bytes through another descriptor of the same inode, whose
  offset is where the first one was, returns \<open>n\<close>, puts the same bytes into memory at its destination, moves
  its own offset only, and leaves the content of the file as it is.
\<close>

theorem filewrite_fileread:
  fixes s :: "'a filest_scheme" and addr :: uint
  assumes "idle_log s" "k_rw E = iderw" "f < length (ftable s)" "f_type (ftable s ! f) = FD_INODE" "f_writable (ftable s ! f)"
    and "f_ip (ftable s ! f) = ip" "open_inode s ip" "stored_file s ip" "0 \<le> n"
    and "g < length (ftable s)" "g \<noteq> f" "f_type (ftable s ! g) = FD_INODE" "f_readable (ftable s ! g)" "f_ip (ftable s ! g) = ip"
  defines "off \<equiv> f_off (ftable s ! f)" and "xs \<equiv> load_bytes (mem s) addr (nat n)"
  assumes "f_off (ftable s ! g) = off" "unat off \<le> file_size s ip" "unat off + nat n \<le> MAXFILE * BSIZE"
    and "need (blocks_of (file_size s ip)) (blocks_of (unat off + nat n)) \<le> card (free_blocks s)"
  shows "\<exists>t u. filewrite E f addr n s = Inr (Done n, t) \<and> fileread E g dst n t = Inr (Done n, u)
    \<and> mem u = store_bytes (mem s) dst xs \<and> content u ip = take (unat off) (content s ip) @ xs @ drop (unat off + nat n) (content s ip)
    \<and> ftable u = (ftable s)[f := (ftable s ! f)\<lparr>f_off := off + of_int n\<rparr>, g := (ftable s ! g)\<lparr>f_off := off + of_int n\<rparr>]"
proof -
  obtain t where T: "filewrite_loop (nat n) E f addr n 0 s = Inr (n, t)" "through ip (unat off) xs s t"
    "ftable t = (ftable s)[f := (ftable s ! f)\<lparr>f_off := off + of_int n\<rparr>]"
    using filewrite_loop_writes[of s E f ip off 0 n "nat n" addr] assms by auto
  note t = T(1) throughD(2,3)[OF T(2)] T(3) throughD(4,5,1)[OF T(2)]
  note W = writtenD[OF t(7)]
  have w: "filewrite E f addr n s = Inr (Done n, t)" using t(1) assms(4,5) by (simp add: filewrite_def)
  have tx: "in_txn 0 t" using t(2) by (simp add: idle_log_def in_txn_def)
  have lx: "length xs = nat n" by (simp add: xs_def)
  have g: "ftable t ! g = ftable s ! g" "f_off (ftable t ! g) = off" using t(4) assms(11,17) by simp_all
  have sl: "take (nat n) (drop (unat off) (content t ip)) = xs" using assms(18) lx by (simp add: W(3))
  obtain u where "fileread E g dst n t = Inr (Done n, u)" "same_at ip t u" "mem u = store_bytes (mem t) dst xs"
    "ftable u = (ftable t)[g := (ftable t ! g)\<lparr>f_off := off + of_int n\<rparr>]"
    by (rule fileread_reads[OF tx assms(2) _ _ _ _ t(3) W(1) assms(9), of g dst, unfolded g(2) sl])
      (use assms t(4) g lx W(2) in simp_all)
  then show ?thesis
    using w t(4,6) same_at_file(2)[OF _ W(1)] W(3) lx g(1) by (intro exI[of _ t] exI[of _ u]) simp
qed

text \<open>Two descriptors of the file of theory \<open>Filewrite\<close>.\<close>

lemma filewrite_fileread_witness:
  "\<exists>(s :: filest) t u. filewrite file_env 0 4096 6000 s = Inr (Done 6000, t) \<and> fileread file_env 1 65536 6000 t = Inr (Done 6000, u)
     \<and> mem u = store_bytes (mem s) 65536 (load_bytes (mem s) 4096 6000)"
proof -
  obtain s :: filest where s: "idle_log s" "stored_file s 0" "icache s = icache fs_machine" "ftable s = [fd17, fd17]" "13 \<le> card (free_blocks s)"
    by (rule file_example)
  have z: "file_size s 0 = 1500" by (simp add: s(3) fs_machine_fields file17_def)
  have f: "0 < length (ftable s)" "f_type (ftable s ! 0) = FD_INODE" "f_writable (ftable s ! 0)" "f_ip (ftable s ! 0) = 0"
    "1 < length (ftable s)" "(1 :: nat) \<noteq> 0" "f_type (ftable s ! 1) = FD_INODE" "f_readable (ftable s ! 1)" "f_ip (ftable s ! 1) = 0"
    "f_off (ftable s ! 1) = f_off (ftable s ! 0)" "unat (f_off (ftable s ! 0)) = 1500" by (simp_all add: s(4) fd17_def)
  have o: "open_inode s 0" by (simp add: open_inode_def s(3) fs_machine_fields file17_def initsleeplock_def)
  have n: "need (blocks_of (file_size s 0)) (blocks_of (unat (f_off (ftable s ! 0)) + nat 6000)) \<le> card (free_blocks s)"
    using s(5) by (simp add: z f(11) need_def blocks_of_def)
  have E: "k_rw file_env = iderw" by (simp add: file_env_def)
  have le: "unat (f_off (ftable s ! 0)) \<le> file_size s 0" "unat (f_off (ftable s ! 0)) + nat 6000 \<le> MAXFILE * BSIZE" "(0 :: int) \<le> 6000"
    by (simp_all add: z f(11))
  obtain t u where "filewrite file_env 0 4096 6000 s = Inr (Done 6000, t)" "fileread file_env 1 65536 6000 t = Inr (Done 6000, u)"
    "mem u = store_bytes (mem s) 65536 (load_bytes (mem s) 4096 (nat 6000))"
    using filewrite_fileread[OF s(1) E f(1-4) o s(2) le(3) f(5-10) le(1,2) n, of 4096 65536] by blast
  then show ?thesis by (intro exI[of _ s] exI[of _ t] exI[of _ u]) simp
qed

end
