(* ===== verification/Truncate.thy ===== *)
theory Truncate
  imports Grow
begin

text \<open>
  Truncation and deletion: \<open>bfree\<close> and \<open>itrunc\<close> give the blocks of a file back to the free map, and the
  \<open>iput\<close> that drops the last reference to an inode without a name deletes the file.
\<close>

section \<open>Freeing one block\<close>

lemma clear_bit_used:
  assumes "length d = BSIZE" "k < unat BPB"
  shows "length (clear_bit_used k d) = BSIZE" "bit_used j (clear_bit_used k d) \<longleftrightarrow> bit_used j d \<and> j \<noteq> k"
proof -
  show "length (clear_bit_used k d) = BSIZE" using assms by (simp add: clear_bit_used_def)
  have k: "k div 8 < length d" using assms by simp
  have "bit (NOT (push_bit (k mod 8) 1) :: uchar) (j mod 8) \<longleftrightarrow> j mod 8 \<noteq> k mod 8"
    by (auto simp: bit_simps)
  moreover have "clear_bit_used k d ! (j div 8)
      = (if k div 8 = j div 8 then d ! (k div 8) AND NOT (push_bit (k mod 8) 1) else d ! (j div 8))"
    unfolding clear_bit_used_def by (rule nth_list_update[OF k])
  moreover have "j = k \<longleftrightarrow> k div 8 = j div 8 \<and> j mod 8 = k mod 8"
    by (metis div_mult_mod_eq)
  ultimately show "bit_used j (clear_bit_used k d) \<longleftrightarrow> bit_used j d \<and> j \<noteq> k"
    unfolding bit_used_iff
    by (cases "k div 8 = j div 8") (auto simp only: bit_and_iff if_True if_False simp_thms)
qed

text \<open>The superblock on disk is the one in memory, and it is no block of the free map.\<close>

definition sb_stored :: "'a fsst_scheme \<Rightarrow> bool" where
  "sb_stored s \<longleftrightarrow> home s 1 \<and> decode_sb (disk_view s 1) = fs_sb s \<and> bitmap s \<noteq> 1"

text \<open>Between \<open>s\<close> and \<open>t\<close> the blocks of \<open>F\<close> were freed; only the free map changed, and what is held stays held.\<close>

definition freed :: "uint set \<Rightarrow> 'a fsst_scheme \<Rightarrow> 'a fsst_scheme \<Rightarrow> bool" where
  "freed F s t \<longleftrightarrow> home t = home s \<and> fs_sb t = fs_sb s \<and> locked_bufs t = locked_bufs s
     \<and> (\<forall>j m d. returnable s j m d \<longrightarrow> returnable t j m d) \<and> (\<forall>m. used t m \<longleftrightarrow> used s m \<and> m \<notin> F)
     \<and> (\<forall>b. b \<noteq> bitmap s \<longrightarrow> disk_view t b = disk_view s b)"

lemma freed_refl: "freed {} s s"
  by (simp add: freed_def)

lemma freed_trans: "freed F s t \<Longrightarrow> freed G t u \<Longrightarrow> freed (F \<union> G) s u"
  by (auto simp: freed_def)

lemma freedD:
  assumes "freed F s t"
  shows "home t = home s" "fs_sb t = fs_sb s" "locked_bufs t = locked_bufs s" "returnable s j m d \<Longrightarrow> returnable t j m d"
    "used t b \<longleftrightarrow> used s b \<and> b \<notin> F" "b \<noteq> bitmap s \<Longrightarrow> disk_view t b = disk_view s b"
  using assms by (simp_all add: freed_def)

lemma freed_upd_inode [simp]: "freed F s (upd_inode ip f t) = freed F s t"
  by (simp add: freed_def returnable_def owns_def)

lemma freed_sb: "freed F s t \<Longrightarrow> sb_stored s \<Longrightarrow> sb_stored t"
  by (simp add: freed_def sb_stored_def)

lemma bfree_room:
  fixes s :: "'a fsst_scheme"
  assumes r: "room B k s" and sb: "sb_stored s" and m: "home s (bitmap s)" "bitmap s \<in> B" and b: "used s b" "b < BPB"
    and E: "k_rw E = iderw" and l: "\<And>j. j \<in> locked_bufs s \<Longrightarrow> b_blockno (bufs s j) \<noteq> 1 \<and> b_blockno (bufs s j) \<noteq> bitmap s"
    and o: "\<And>j. j \<in> locked_bufs s \<Longrightarrow> b_dev (bufs s j) = ROOTDEV"
  obtains v where "bfree E ROOTDEV b s = Inr v" "room B k v" "freed {b} s v" "icache v = icache s"
proof -
  let ?m = "bitmap s" and ?d = "disk_view s (bitmap s)"
  obtain i t v where V: "bread iderw ROOTDEV 1 s = Inr (i, t)" "b_data (bufs t i) = disk_view s 1" "brelse i t = Inr v"
    "room B k v" "stays s v" "disk_view v = disk_view s" "logst.more t = logst.more s"
    by (rule room_look[OF r]) (use sb l in \<open>auto simp: sb_stored_def\<close>)
  note sv = staysD[OF V(5)]
  have "readsb iderw ROOTDEV s = Inr (fs_sb s, v)" using V(1-3) sb by (simp add: readsb_def sb_stored_def)
  moreover have id: "v\<lparr>fs_sb := fs_sb s\<rparr> = v" using sv(5) by (cases v) simp
  moreover have bm: "BBLOCK b (fs_sb s) = ?m" "unat (b mod BPB) = unat b" using b(2) by (simp_all add: BBLOCK_def word_less_nat_alt mod_word_less div_word_less)
  moreover have hm: "home v ?m" using m(1) sv(2) by simp
  have len: "length ?d = BSIZE"
    by (rule view_length) (use r m(1) in \<open>auto simp: room_def home_def log_inv_def cache_ok_def dest: mem.disk_length\<close>)
  have ub: "unat b < unat BPB" using b(2) by (simp add: word_less_nat_alt)
  note C = clear_bit_used[OF len ub]
  have lv: "b_blockno (bufs v j) \<noteq> ?m" if "j \<in> locked_bufs v" for j
    using that l[of j] o[of j] locked_blockno[OF V(5), of j] sv(1) by simp
  obtain i' t' u' w where W: "bread iderw ROOTDEV ?m v = Inr (i', t')" "b_data (bufs t' i') = disk_view v ?m"
    "log_write i' (set_data i' (clear_bit_used (unat b) ?d) t') = Inr u'" "brelse i' u' = Inr w" "room B k w" "stays v w"
    "disk_view w = (disk_view v)(?m := clear_bit_used (unat b) ?d)"
    by (rule room_update[OF V(4) hm m(2) lv C(1)])
  ultimately have e: "bfree E ROOTDEV b s = Inr w"
    using b(1) E V(6) by (simp add: bfree_def Let_def used_def id sv(5))
  note st = stays_trans[OF V(5) W(6)]
  have "used w x \<longleftrightarrow> used s x \<and> x \<noteq> b" for x
    using C(2)[of "unat x"] staysD(5)[OF st] by (simp add: used_def W(7) V(6) word_unat_eq_iff)
  then have "freed {b} s w" using st staysD[OF st] W(7) V(6) by (simp add: freed_def stays_def)
  then show thesis using that e W(5) staysD(4)[OF st] by blast
qed

section \<open>The loops of \<open>itrunc\<close>\<close>

text \<open>A loop over the entries \<open>a k\<close> that frees those that are not 0.\<close>

definition entries_to :: "(nat \<Rightarrow> uint) \<Rightarrow> nat \<Rightarrow> uint set" where
  "entries_to a k = a ` {0..<k} - {0}"

lemma entries_to_Suc: "entries_to a (Suc k) = (if a k = 0 then entries_to a k else entries_to a k \<union> {a k})"
  by (auto simp: entries_to_def atLeast0_lessThan_Suc)

definition to_free :: "(nat \<Rightarrow> uint) \<Rightarrow> nat \<Rightarrow> 'a fsst_scheme \<Rightarrow> bool" where
  "to_free a n s \<longleftrightarrow> (\<forall>k<n. a k \<noteq> 0 \<longrightarrow> used s (a k) \<and> a k < BPB \<and> (\<forall>j<k. a j \<noteq> a k))"

lemma free_entry:
  fixes u :: "'a fsst_scheme"
  assumes f: "to_free a n s" "freed (entries_to a k) s u" "k < n" "a k \<noteq> 0"
    and r: "room B j u" "sb_stored s" "home s (bitmap s)" "bitmap s \<in> B" "k_rw E = iderw"
    and l: "\<And>j. j \<in> locked_bufs u \<Longrightarrow> b_dev (bufs u j) = ROOTDEV \<and> b_blockno (bufs u j) \<noteq> 1 \<and> b_blockno (bufs u j) \<noteq> bitmap s"
  obtains v where "bfree E ROOTDEV (a k) u = Inr v" "room B j v" "freed (entries_to a (Suc k)) s v" "icache v = icache u"
proof -
  note F = freedD[OF f(2)]
  have "a j \<noteq> a k" if "j < k" for j using f(1,3,4) that by (simp add: to_free_def)
  then have "a k \<notin> entries_to a k" by (force simp: entries_to_def)
  then have k: "used u (a k)" "a k < BPB" using f(1,3,4) by (simp_all add: to_free_def F(5))
  obtain v where V: "bfree E ROOTDEV (a k) u = Inr v" "room B j v" "freed {a k} u v" "icache v = icache u"
    by (rule bfree_room[OF r(1) freed_sb[OF f(2) r(2)] _ _ k r(5)]) (use r l F(1,2) in auto)
  then show thesis using that freed_trans[OF f(2) V(3)] f(4) by (simp add: entries_to_Suc)
qed

text \<open>The direct blocks,\<close>

lemma free_direct:
  fixes s :: "'a fsst_scheme" and ip :: nat
  defines "n \<equiv> icache s ! ip"
  defines "a \<equiv> \<lambda>k. d_addrs n ! k"
  assumes f: "to_free a NDIRECT s" and ip: "ip < length (icache s)" "length (d_addrs n) = NDIRECT + 1" "i_dev n = ROOTDEV"
    and r: "room B j s" "locked_bufs s = {}" "sb_stored s" "home s (bitmap s)" "bitmap s \<in> B" "k_rw E = iderw"
  obtains t where "for_res 0 NDIRECT (\<lambda>i s.
         if d_addrs (icache s ! ip) ! i \<noteq> 0 then
           bind_res (bfree E (i_dev (icache s ! ip)) (d_addrs (icache s ! ip) ! i) s) (\<lambda>s.
           Inr (upd_inode ip (\<lambda>n. n\<lparr>d_addrs := (d_addrs n)[i := 0]\<rparr>) s))
         else Inr s) s = Inr t" "room B j t" "freed (entries_to a NDIRECT) s t"
    "icache t = (icache s)[ip := n\<lparr>d_addrs := replicate NDIRECT 0 @ [a NDIRECT]\<rparr>]"
proof -
  let ?I = "\<lambda>k u. room B j u \<and> freed (entries_to a k) s u \<and> icache u = (icache s)[ip := n\<lparr>d_addrs := replicate k 0 @ drop k (d_addrs n)\<rparr>]"
  let ?body = "\<lambda>i s. if d_addrs (icache s ! ip) ! i \<noteq> 0 then
           bind_res (bfree E (i_dev (icache s ! ip)) (d_addrs (icache s ! ip) ! i) s) (\<lambda>s.
           Inr (upd_inode ip (\<lambda>n. n\<lparr>d_addrs := (d_addrs n)[i := 0]\<rparr>) s))
         else Inr s"
  have "\<exists>t. for_res 0 NDIRECT ?body s = Inr t \<and> ?I (0 + NDIRECT) t"
  proof (rule for_res_rule)
    show "?I 0 s" using r(1) freed_refl[of s] by (simp add: entries_to_def n_def)
    fix k and u :: "'a fsst_scheme" assume k: "k < 0 + NDIRECT" and I: "?I k u"
    have dk: "drop k (d_addrs n) = a k # drop (Suc k) (d_addrs n)" using k ip(2) by (simp add: a_def Cons_nth_drop_Suc)
    have u: "d_addrs (icache u ! ip) ! k = a k" "i_dev (icache u ! ip) = ROOTDEV"
      using I ip(1,3) by (simp_all add: dk nth_append)
    show "\<exists>v. ?body k u = Inr v \<and> ?I (Suc k) v"
    proof (cases "a k = 0")
      case True
      then show ?thesis using I u by (simp add: entries_to_Suc dk replicate_append_same[symmetric])
    next
      case False
      have lu: "locked_bufs u = {}" using I r(2) freedD(3) by blast
      obtain v where V: "bfree E ROOTDEV (a k) u = Inr v" "room B j v" "freed (entries_to a (Suc k)) s v" "icache v = icache u"
        by (rule free_entry[OF f _ _ False _ r(3-6)]) (use I k lu in auto)
      let ?v = "upd_inode ip (\<lambda>n. n\<lparr>d_addrs := (d_addrs n)[k := 0]\<rparr>) v"
      have "icache ?v = (icache s)[ip := n\<lparr>d_addrs := replicate (Suc k) 0 @ drop (Suc k) (d_addrs n)\<rparr>]"
        using I V(4) ip(1) by (simp add: dk list_update_append replicate_append_same[symmetric])
      then show ?thesis using V u False by simp
    qed
  qed
  then obtain t where "for_res 0 NDIRECT ?body s = Inr t" "?I NDIRECT t" by auto
  moreover have "drop NDIRECT (d_addrs n) = [a NDIRECT]" using ip(2) by (simp add: a_def list_eq_iff_nth_eq)
  ultimately show thesis using that by simp
qed

text \<open>and the blocks that the indirect block lists, which is held meanwhile and freed last.\<close>

lemma freed_unlocked:
  assumes "locked_bufs s = {}" "locked_bufs t = {}" "home t = home s" "fs_sb t = fs_sb s"
    "\<And>m. used t m \<longleftrightarrow> used s m \<and> m \<notin> F" "\<And>b. b \<noteq> bitmap s \<Longrightarrow> disk_view t b = disk_view s b"
  shows "freed F s t"
  using assms by (auto simp: freed_def returnable_def owns_def)

lemma free_indirect:
  fixes s :: "'a fsst_scheme" and ind :: uint
  defines "a \<equiv> \<lambda>j. field32 j (disk_view s ind)"
  assumes f: "to_free a NINDIRECT s"
    and i: "used s ind" "ind < BPB" "ind \<notin> entries_to a NINDIRECT" "ind \<noteq> 1" "ind \<noteq> bitmap s" "home s ind"
    and r: "room B k s" "locked_bufs s = {}" "sb_stored s" "home s (bitmap s)" "bitmap s \<in> B" "k_rw E = iderw"
  obtains bp t u v w where "bread iderw ROOTDEV ind s = Inr (bp, t)" "icache t = icache s"
    "for_res 0 NINDIRECT (\<lambda>j s. if field32 j (b_data (bufs s bp)) \<noteq> 0 then bfree E ROOTDEV (field32 j (b_data (bufs s bp))) s
             else Inr s) t = Inr u"
    "brelse bp u = Inr v" "bfree E ROOTDEV ind v = Inr w" "room B k w" "freed (entries_to a NINDIRECT \<union> {ind}) s w" "icache w = icache s"
proof -
  let ?D = "disk_view s ind"
  obtain bp t where T: "bread iderw ROOTDEV ind s = Inr (bp, t)" "room B k t" "locked_bufs t = {bp}" "owns t bp ind ?D"
    "disk_view t = disk_view s" "home t = home s" "logst.more t = logst.more s" "b_dirty (bufs t bp) \<or> ?D = memdisk t ind"
    by (rule room_take[OF r(1,2) i(6)])
  note ft = fs_more[OF T(7)]
  note ms = free_map_same[OF T(5,6) ft(2)]
  have ret: "returnable t bp ind ?D" using T(4,8) by (simp add: returnable_def)
  have sbt: "sb_stored t" using r(3) T(5,6) ft(2) by (simp add: sb_stored_def)
  have ft': "to_free a NINDIRECT t" using f ms(1) by (simp add: to_free_def)
  let ?body = "\<lambda>j s. if field32 j (b_data (bufs s bp)) \<noteq> 0 then bfree E ROOTDEV (field32 j (b_data (bufs s bp))) s else Inr s"
  let ?I = "\<lambda>j u. room B k u \<and> freed (entries_to a j) t u \<and> icache u = icache s"
  have "\<exists>u. for_res 0 NINDIRECT ?body t = Inr u \<and> ?I (0 + NINDIRECT) u"
  proof (rule for_res_rule)
    show "?I 0 t" using T(2) ft freed_refl[of t] by (simp add: entries_to_def)
    fix j and u :: "'a fsst_scheme" assume j: "j < 0 + NINDIRECT" and I: "?I j u"
    have Iu: "freed (entries_to a j) t u" "room B k u" using I by simp_all
    have lu: "locked_bufs u = {bp}" "returnable u bp ind ?D" using I ret T(3) freedD(3,4) by blast+
    then have u: "b_data (bufs u bp) = ?D" "b_blockno (bufs u bp) = ind" "b_dev (bufs u bp) = ROOTDEV"
      by (simp_all add: returnable_def owns_def)
    show "\<exists>v. ?body j u = Inr v \<and> ?I (Suc j) v"
    proof (cases "a j = 0")
      case True
      then show ?thesis using I u by (simp add: entries_to_Suc a_def)
    next
      case False
      obtain v where V: "bfree E ROOTDEV (a j) u = Inr v" "room B k v" "freed (entries_to a (Suc j)) t v" "icache v = icache u"
        by (rule free_entry[OF ft' Iu(1) _ False Iu(2) sbt _ _ r(6)]) (use j lu(1) u i(4,5) r(4,5) T(6) ft(2) in auto)
      then show ?thesis using I u False by (simp add: a_def)
    qed
  qed
  then obtain u where U: "for_res 0 NINDIRECT ?body t = Inr u" "room B k u" "freed (entries_to a NINDIRECT) t u" "icache u = icache s" by auto
  note fu = freedD[OF U(3)]
  have ru: "owns u bp ind ?D" "b_dirty (bufs u bp) \<or> ?D = memdisk u ind" using fu(4)[OF ret] by (simp_all add: returnable_def)
  obtain v where V: "brelse bp u = Inr v" "room B k v" "locked_bufs v = {}" "disk_view v = disk_view u" "home v = home u"
    "logst.more v = logst.more u"
    by (rule room_return[OF U(2) _ ru]) (use fu(3) T(3) in simp)
  note fv = fs_more[OF V(6)]
  have uv: "used v m \<longleftrightarrow> used s m \<and> m \<notin> entries_to a NINDIRECT" for m
    using free_map_same(1)[OF V(4,5) fv(2)] fu(5) ms(1) by simp
  have sv: "freed (entries_to a NINDIRECT) s v"
    by (rule freed_unlocked[OF r(2) V(3) _ _ uv]) (use fu T(5,6) ft V(4,5) fv in auto)
  obtain w where W: "bfree E ROOTDEV ind v = Inr w" "room B k w" "freed {ind} v w" "icache w = icache v"
    by (rule bfree_room[OF V(2) freed_sb[OF sv r(3)] _ _ _ i(2) r(6)]) (use uv i(1,3) V(3) freedD[OF sv] r(4,5) in auto)
  show thesis by (rule that[OF T(1) ft(1) U(1) V(1) W(1,2) freed_trans[OF sv W(3)]]) (use W(4) fv(1) U(4) in simp)
qed

section \<open>Truncation\<close>

text \<open>A file whose blocks can be freed: they are blocks of the map and not the superblock.\<close>

definition freeable :: "'a fsst_scheme \<Rightarrow> nat \<Rightarrow> bool" where
  "freeable s ip \<longleftrightarrow> stored_file s ip \<and> sb_stored s
     \<and> (\<forall>b\<in>set (own s ip (blocks_of (file_size s ip))). b < sb_size (fs_sb s) \<and> b \<noteq> 1)"

lemma direct_entries:
  assumes "grown s ip K"
  shows "entries_to (\<lambda>k. d_addrs (icache s ! ip) ! k) NDIRECT = file_block s ip ` {0..<min K NDIRECT}"
    "k < NDIRECT \<Longrightarrow> d_addrs (icache s ! ip) ! k = (if k < K then file_block s ip k else 0)"
proof -
  have z: "file_block s ip k = 0" if "K \<le> k" "k < NDIRECT" for k using assms that by (auto simp: grown_def)
  have a: "d_addrs (icache s ! ip) ! k = (if k < K then file_block s ip k else 0)" if "k < NDIRECT" for k
    using z[of k] that by (auto simp: file_block_def not_less)
  then show "k < NDIRECT \<Longrightarrow> d_addrs (icache s ! ip) ! k = (if k < K then file_block s ip k else 0)" by simp
  show "entries_to (\<lambda>k. d_addrs (icache s ! ip) ! k) NDIRECT = file_block s ip ` {0..<min K NDIRECT}"
    using a grown_block(3)[OF assms] unfolding entries_to_def by (auto simp: image_iff)
qed

lemma indirect_entries:
  assumes "grown s ip K" "NDIRECT < K"
  shows "entries_to (\<lambda>j. field32 j (disk_view s (indirect s ip))) NINDIRECT = file_block s ip ` {NDIRECT..<K}"
    "j < NINDIRECT \<Longrightarrow> field32 j (disk_view s (indirect s ip)) = (if NDIRECT + j < K then file_block s ip (NDIRECT + j) else 0)"
proof -
  have K: "K \<le> MAXFILE" using assms by (simp add: grown_def)
  have f: "field32 j (disk_view s (indirect s ip)) = file_block s ip (NDIRECT + j)" for j by (simp add: file_block_def)
  have z: "file_block s ip k = 0" if "K \<le> k" "k < MAXFILE" for k using assms that by (auto simp: grown_def)
  show a: "field32 j (disk_view s (indirect s ip)) = (if NDIRECT + j < K then file_block s ip (NDIRECT + j) else 0)" if "j < NINDIRECT" for j
    using z[of "NDIRECT + j"] that by (auto simp: f not_less)
  show "entries_to (\<lambda>j. field32 j (disk_view s (indirect s ip))) NINDIRECT = file_block s ip ` {NDIRECT..<K}"
  proof (intro set_eqI iffI)
    fix b assume "b \<in> file_block s ip ` {NDIRECT..<K}"
    then obtain k where k: "NDIRECT \<le> k" "k < K" "b = file_block s ip k" by auto
    then show "b \<in> entries_to (\<lambda>j. field32 j (disk_view s (indirect s ip))) NINDIRECT"
      using a[of "k - NDIRECT"] K grown_block(3)[OF assms(1) k(2)] by (auto simp: entries_to_def intro!: image_eqI[of _ _ "k - NDIRECT"])
  next
    fix b assume "b \<in> entries_to (\<lambda>j. field32 j (disk_view s (indirect s ip))) NINDIRECT"
    then show "b \<in> file_block s ip ` {NDIRECT..<K}" using a by (auto simp: entries_to_def split: if_splits)
  qed
qed

lemma freed_blocks:
  assumes "freed F s t" "free_map s" "\<And>b. b \<in> F \<Longrightarrow> used s b \<and> home s b \<and> b < sb_size (fs_sb s) \<and> b \<noteq> 0 \<and> b \<noteq> bitmap s"
  shows "free_blocks t = free_blocks s \<union> F" "free_map t"
proof -
  note f = freedD[OF assms(1)]
  show fb: "free_blocks t = free_blocks s \<union> F" using assms(3) by (auto simp: free_blocks_def f(2,5))
  show "free_map t" using assms(2,3) by (auto simp: free_map_def fb f(1,2,5))
qed

lemma to_free_direct:
  assumes "grown s ip K" "\<forall>b\<in>set (own s ip K). b < BPB"
  shows "to_free (\<lambda>k. d_addrs (icache s ! ip) ! k) NDIRECT s"
  unfolding to_free_def
proof (intro allI impI conjI)
  fix k assume k: "k < NDIRECT" "d_addrs (icache s ! ip) ! k \<noteq> 0"
  note d = direct_entries(2)[OF assms(1)]
  have K: "k < K" "d_addrs (icache s ! ip) ! k = file_block s ip k" using k d[OF k(1)] by (simp_all split: if_splits)
  note g = grown_block[OF assms(1) K(1)]
  show "used s (d_addrs (icache s ! ip) ! k)" "d_addrs (icache s ! ip) ! k < BPB"
    using assms g(1) K(2) by (simp_all add: grown_def)
  fix j assume j: "j < k"
  then show "d_addrs (icache s ! ip) ! j \<noteq> d_addrs (icache s ! ip) ! k"
    using d[of j] k K grown_inj(1)[OF assms(1) K(1), of j] by simp
qed

lemma to_free_indirect:
  assumes "grown s ip K" "NDIRECT < K" "\<forall>b\<in>set (own s ip K). b < BPB"
  shows "to_free (\<lambda>j. field32 j (disk_view s (indirect s ip))) NINDIRECT s"
  unfolding to_free_def
proof (intro allI impI conjI)
  let ?a = "\<lambda>j. field32 j (disk_view s (indirect s ip))"
  fix j assume j: "j < NINDIRECT" "?a j \<noteq> 0"
  note d = indirect_entries(2)[OF assms(1,2)]
  have K: "NDIRECT + j < K" "?a j = file_block s ip (NDIRECT + j)" using j d[OF j(1)] by (simp_all split: if_splits)
  note g = grown_block[OF assms(1) K(1)]
  show "used s (?a j)" "?a j < BPB" using assms(1,3) g(1) unfolding K(2) by (simp_all add: grown_def)
  fix i assume i: "i < j"
  have "?a i = file_block s ip (NDIRECT + i)" using d[of i] j(1) i K(1) by simp
  then show "?a i \<noteq> ?a j" using grown_inj(1)[OF assms(1) K(1), of "NDIRECT + i"] i K by simp
qed

lemma itrunc_blocks:
  fixes s :: "'a fsst_scheme"
  assumes r: "room B k s" "locked_bufs s = {}" "bitmap s \<in> B" and E: "k_rw E = iderw" and fr: "freeable s ip"
  defines "K \<equiv> blocks_of (file_size s ip)"
  obtains t where "itrunc E ip s = iupdate E ip (upd_inode ip (\<lambda>n. n\<lparr>d_size := 0\<rparr>) t)" "room B k t" "freed (set (own s ip K)) s t"
    "icache t = (icache s)[ip := (icache s ! ip)\<lparr>d_addrs := replicate NDIRECT 0 @ [0]\<rparr>]"
proof -
  let ?n = "icache s ! ip" and ?d = "\<lambda>k. d_addrs (icache s ! ip) ! k"
  have g: "grown s ip K" "free_map s" and sb: "sb_stored s" and rng: "\<forall>b\<in>set (own s ip K). b < sb_size (fs_sb s) \<and> b \<noteq> 1"
    using fr by (simp_all add: freeable_def stored_file_def K_def)
  have bm: "home s (bitmap s)" "sb_size (fs_sb s) \<le> BPB" using g(2) by (simp_all add: free_map_def)
  have bb: "\<forall>b\<in>set (own s ip K). b < BPB" using rng bm(2) by auto
  have ip: "ip < length (icache s)" "length (d_addrs ?n) = NDIRECT + 1" "i_dev ?n = ROOTDEV" using g(1) by (simp_all add: grown_def)
  let ?F = "file_block s ip ` {0..<min K NDIRECT}"
  obtain t where T: "for_res 0 NDIRECT (\<lambda>i s.
         if d_addrs (icache s ! ip) ! i \<noteq> 0 then
           bind_res (bfree E (i_dev (icache s ! ip)) (d_addrs (icache s ! ip) ! i) s) (\<lambda>s.
           Inr (upd_inode ip (\<lambda>n. n\<lparr>d_addrs := (d_addrs n)[i := 0]\<rparr>) s))
         else Inr s) s = Inr t" "room B k t" "freed ?F s t" "icache t = (icache s)[ip := ?n\<lparr>d_addrs := replicate NDIRECT 0 @ [indirect s ip]\<rparr>]"
    by (rule free_direct[OF to_free_direct[OF g(1) bb] ip r(1,2) sb bm(1) r(3) E])
      (simp add: direct_entries(1)[OF g(1)] indirect_def)
  note f = freedD[OF T(3)]
  show thesis
  proof (cases "NDIRECT < K")
    case False
    then have "indirect s ip = 0" "set (own s ip K) = ?F" using g(1) by (simp_all add: grown_def set_own)
    moreover have "itrunc E ip s = iupdate E ip (upd_inode ip (\<lambda>n. n\<lparr>d_size := 0\<rparr>) t)"
      using T(1,4) ip(1) calculation(1) by (simp add: itrunc_def Let_def nth_append)
    ultimately show thesis using that T(2-4) by simp
  next
    case True
    let ?i = "indirect s ip"
    note I = grown_indirect[OF g(1) True]
    have iF: "?i \<notin> file_block s ip ` {0..<K}" using grown_inj(2)[OF g(1) _ True] by force
    have dv: "disk_view t ?i = disk_view s ?i" by (rule f(6)) (use I(5) in simp)
    have lt: "locked_bufs t = {}" using f(3) r(2) by simp
    have nF: "field32 j (disk_view s ?i) \<notin> ?F" if "j < NINDIRECT" "field32 j (disk_view s ?i) \<noteq> 0" for j
    proof -
      have j: "NDIRECT + j < K" "field32 j (disk_view s ?i) = file_block s ip (NDIRECT + j)"
        using that indirect_entries(2)[OF g(1) True that(1)] by (simp_all split: if_splits)
      have "x = NDIRECT + j" if "x < K" "file_block s ip x = file_block s ip (NDIRECT + j)" for x
        using grown_inj(1)[OF g(1) j(1) that(1)] that(2) by simp
      then show ?thesis unfolding j(2) by force
    qed
    have tf: "to_free (\<lambda>j. field32 j (disk_view t ?i)) NINDIRECT t"
      using to_free_indirect[OF g(1) True bb] nF f(5) unfolding dv to_free_def by simp
    have e: "entries_to (\<lambda>j. field32 j (disk_view t ?i)) NINDIRECT = file_block s ip ` {NDIRECT..<K}"
      unfolding dv by (rule indirect_entries(1)[OF g(1) True])
    have nD: "?i \<notin> ?F" and nI: "?i \<notin> file_block s ip ` {NDIRECT..<K}" using iF by auto
    have pre: "used t ?i" "?i < BPB" "?i \<notin> entries_to (\<lambda>j. field32 j (disk_view t ?i)) NINDIRECT" "?i \<noteq> 1" "?i \<noteq> bitmap t" "home t ?i"
      unfolding e f(1,2,5) using I nD nI bb rng by simp_all
    have mt: "home t (bitmap t)" "bitmap t \<in> B" using bm(1) r(3) f(1,2) by simp_all
    obtain bp t' u v w where W: "bread iderw ROOTDEV ?i t = Inr (bp, t')" "icache t' = icache t"
      "for_res 0 NINDIRECT (\<lambda>j s. if field32 j (b_data (bufs s bp)) \<noteq> 0 then bfree E ROOTDEV (field32 j (b_data (bufs s bp))) s
             else Inr s) t' = Inr u"
      "brelse bp u = Inr v" "bfree E ROOTDEV ?i v = Inr w" "room B k w" "freed (file_block s ip ` {NDIRECT..<K} \<union> {?i}) t w" "icache w = icache t"
      by (rule free_indirect[OF tf pre T(2) lt freed_sb[OF T(3) sb] mt E, unfolded e]) blast
    let ?w = "upd_inode ip (\<lambda>n. n\<lparr>d_addrs := (d_addrs n)[NDIRECT := 0]\<rparr>) w"
    have "itrunc E ip s = iupdate E ip (upd_inode ip (\<lambda>n. n\<lparr>d_size := 0\<rparr>) ?w)"
      using T(1,4) W(1,3-5) ip I(4) E by (simp add: itrunc_def Let_def nth_append cong: if_cong)
    moreover have "{0..<K} = {0..<min K NDIRECT} \<union> {NDIRECT..<K}" using True by auto
    then have "set (own s ip K) = ?F \<union> (file_block s ip ` {NDIRECT..<K} \<union> {?i})" using True by (simp add: set_own image_Un)
    then have "freed (set (own s ip K)) s ?w" using freed_trans[OF T(3) W(7)] by simp
    moreover have "icache ?w = (icache s)[ip := ?n\<lparr>d_addrs := replicate NDIRECT 0 @ [0]\<rparr>]"
      using W(8) T(4) ip by (simp add: list_update_append)
    ultimately show thesis using that W(6) by simp
  qed
qed

text \<open>The inode after truncation, in memory and on disk.\<close>

definition truncated :: "'a fsst_scheme \<Rightarrow> nat \<Rightarrow> inode" where
  "truncated s ip = (icache s ! ip)\<lparr>d_addrs := replicate NDIRECT 0 @ [0], d_size := 0\<rparr>"

lemma itrunc_room:
  fixes s :: "'a fsst_scheme"
  assumes r: "room B k s" "locked_bufs s = {}" "bitmap s \<in> B" "inode_block s ip \<in> B" and E: "k_rw E = iderw" and fr: "freeable s ip"
  obtains t where "itrunc E ip s = Inr t" "room B k t" "locked_bufs t = {}" "home t = home s" "fs_sb t = fs_sb s"
    "icache t = (icache s)[ip := truncated s ip]" "free_map t"
    "free_blocks t = free_blocks s \<union> set (own s ip (blocks_of (file_size s ip)))"
    "\<And>b. b \<noteq> bitmap s \<Longrightarrow> b \<noteq> inode_block s ip \<Longrightarrow> disk_view t b = disk_view s b"
    "disk_view t (inode_block s ip) = put_dinode (i_inum (icache s ! ip)) (truncated s ip) (disk_view s (inode_block s ip))"
proof -
  let ?O = "set (own s ip (blocks_of (file_size s ip)))" and ?b = "inode_block s ip" and ?n = "icache s ! ip"
  have sf: "stored_file s ip" using fr by (simp add: freeable_def)
  then have g: "grown s ip (blocks_of (file_size s ip))" "free_map s" and ib: "home s ?b" "?b \<noteq> bitmap s" by (simp_all add: stored_file_def)
  have ip: "ip < length (icache s)" "i_dev ?n = ROOTDEV" using g(1) by (simp_all add: grown_def)
  obtain u where U: "itrunc E ip s = iupdate E ip (upd_inode ip (\<lambda>n. n\<lparr>d_size := 0\<rparr>) u)" "room B k u" "freed ?O s u"
    "icache u = (icache s)[ip := ?n\<lparr>d_addrs := replicate NDIRECT 0 @ [0]\<rparr>]"
    by (rule itrunc_blocks[OF r(1-3) E fr])
  note f = freedD[OF U(3)]
  have lu: "locked_bufs u = {}" using f(3) r(2) by simp
  have iu: "inode_block u ip = ?b" "i_inum (icache u ! ip) = i_inum ?n" using ip by (simp_all add: U(4) f(2))
  obtain t where T: "iupdate E ip (upd_inode ip (\<lambda>n. n\<lparr>d_size := 0\<rparr>) u) = Inr t" "room B k t" "locked_bufs t = {}"
    "disk_view t = (disk_view u)(?b := put_dinode (i_inum ?n) (truncated s ip) (disk_view u ?b))"
    "home t = home u" "fs_sb t = fs_sb u" "icache t = (icache u)[ip := truncated s ip]"
    by (rule inode_stored[OF U(2) lu E, of ip "\<lambda>n. n\<lparr>d_size := 0\<rparr>", unfolded iu])
      (use ip U(4) r(4) ib(1) f(1,2) in \<open>simp_all add: truncated_def\<close>)
  have F: "used s b \<and> home s b \<and> b < sb_size (fs_sb s) \<and> b \<noteq> 0 \<and> b \<noteq> bitmap s" if "b \<in> ?O" for b
    using that g(1) fr by (simp add: grown_def freeable_def)
  note fb = freed_blocks[OF U(3) g(2) F]
  have us: "used t = used u" using ib(2) by (simp add: used_def fun_eq_iff T(4,6) f(2))
  have ft: "free_blocks t = free_blocks u" by (simp add: free_blocks_def us T(6))
  have "free_map t" using fb(2) by (simp add: free_map_def us ft T(5,6))
  moreover have "disk_view t b = disk_view s b" if "b \<noteq> bitmap s" "b \<noteq> ?b" for b using that f(6) by (simp add: T(4))
  moreover have "disk_view u ?b = disk_view s ?b" using f(6) ib(2) by simp
  ultimately show thesis
    using that[of t] U(1,4) T fb(1) ft f(1,2) ip by simp
qed

section \<open>Deletion\<close>

text \<open>
  C9 (deletion). The \<open>iput\<close> that drops the last reference to a file without a name, in a transaction
  with room for two blocks: it succeeds, exactly the blocks of the file become free, its inode is free on
  disk and has no blocks and no size, its cache entry is free, and every other cached inode, inode of the
  same disk block and block of the disk is as before.
\<close>

theorem iput_deletes:
  fixes s :: "'a fsst_scheme"
  assumes "in_txn 3 s" "k_rw E = iderw" "freeable s ip" "i_ref (icache s ! ip) = 1" "i_flags (icache s ! ip) AND I_VALID \<noteq> 0"
    and "d_nlink (icache s ! ip) = 0"
  defines "inum \<equiv> i_inum (icache s ! ip)"
  shows "\<exists>t. iput E ip s = Inr t \<and> in_txn 1 t \<and> home t = home s \<and> fs_sb t = fs_sb s
    \<and> i_ref (icache t ! ip) = 0 \<and> i_flags (icache t ! ip) = 0 \<and> (\<forall>j. j \<noteq> ip \<longrightarrow> icache t ! j = icache s ! j)
    \<and> (let di = get_dinode inum (disk_view t (inode_block s ip)) in d_type di = 0 \<and> d_size di = 0 \<and> (\<forall>b\<in>set (d_addrs di). b = 0))
    \<and> free_map t \<and> free_blocks t = free_blocks s \<union> set (own s ip (blocks_of (file_size s ip)))
    \<and> (\<forall>j. j mod IPB \<noteq> inum mod IPB \<longrightarrow>
         get_dinode j (disk_view t (inode_block s ip)) = get_dinode j (disk_view s (inode_block s ip)))
    \<and> (\<forall>b. b \<noteq> bitmap s \<longrightarrow> b \<noteq> inode_block s ip \<longrightarrow> disk_view t b = disk_view s b)"
proof -
  let ?B = "{bitmap s, inode_block s ip}" and ?b = "inode_block s ip" and ?n = "(truncated s ip)\<lparr>d_type := 0\<rparr>"
  have sf: "stored_file s ip" using assms(3) by (simp add: freeable_def)
  then have ib: "home s ?b" "?b \<noteq> bitmap s" "ip < length (icache s)" "i_dev (icache s ! ip) = ROOTDEV"
    by (simp_all add: stored_file_def grown_def)
  have c: "card ?B + 0 < 3" by (simp add: card_insert_if)
  note R = in_txn_room[OF assms(1) c]
  obtain u where U: "itrunc E ip s = Inr u" "room ?B 0 u" "locked_bufs u = {}" "home u = home s" "fs_sb u = fs_sb s"
    "icache u = (icache s)[ip := truncated s ip]" "free_map u"
    "free_blocks u = free_blocks s \<union> set (own s ip (blocks_of (file_size s ip)))"
    "\<And>b. b \<noteq> bitmap s \<Longrightarrow> b \<noteq> ?b \<Longrightarrow> disk_view u b = disk_view s b"
    "disk_view u ?b = put_dinode (i_inum (icache s ! ip)) (truncated s ip) (disk_view s ?b)"
    by (rule itrunc_room[OF R _ _ assms(2,3)]) (simp, simp, blast)
  have iu: "inode_block u ip = ?b" using ib(3) U(5,6) by (simp add: truncated_def)
  obtain v where V: "iupdate E ip (upd_inode ip (\<lambda>n. n\<lparr>d_type := 0\<rparr>) u) = Inr v" "room ?B 0 v" "locked_bufs v = {}"
    "disk_view v = (disk_view u)(?b := put_dinode inum ?n (disk_view u ?b))"
    "home v = home u" "fs_sb v = fs_sb u" "icache v = (icache s)[ip := ?n]"
    by (rule inode_stored[OF U(2,3) assms(2), of ip "\<lambda>n. n\<lparr>d_type := 0\<rparr>", unfolded iu])
      (use ib U(4,6) in \<open>simp_all add: truncated_def inum_def\<close>)
  define t where "t = upd_inode ip (\<lambda>n. n\<lparr>i_ref := i_ref n - 1\<rparr>) (upd_inode ip (\<lambda>n. n\<lparr>i_flags := 0\<rparr>) v)"
  have h: "held s = {}" "held v = {}" using in_txn_held(1)[OF assms(1)] in_txn_held(1)[OF room_in_txn[OF V(2,3)]] by simp_all
  have "s\<lparr>held := {}\<rparr> = s" "v\<lparr>held := {}\<rparr> = v" using h by simp_all
  then have e: "iput E ip s = Inr t"
    using h assms(4-6) U(1) V(1) by (simp add: iput_def Let_def t_def release_def upd_inode_def)
  have tv: "disk_view t = disk_view v" "home t = home s" "fs_sb t = fs_sb s" "in_txn 1 t"
    "icache t = (icache s)[ip := ?n\<lparr>i_flags := 0, i_ref := 0\<rparr>]"
    using V(5-7) U(4,5) room_in_txn[OF V(2,3)] ib(3) assms(4) by (simp_all add: t_def truncated_def)
  have us: "used t = used u" using ib(2) by (simp add: used_def fun_eq_iff tv(1,3) V(4) U(5))
  have fb: "free_blocks t = free_blocks u" by (simp add: free_blocks_def us tv(3) U(5))
  have fm: "free_map t" using U(7) by (simp add: free_map_def us fb tv(2,3) U(4,5))
  have lu: "length (disk_view s ?b) = BSIZE" "length (disk_view u ?b) = BSIZE"
    using room_length[OF R(1) ib(1)] room_length[OF U(2), of ?b] ib(1) U(4) by simp_all
  note P = put_get_dinode[OF lu(1), of "truncated s ip" inum] put_get_dinode[OF lu(2), of ?n inum]
  have di: "get_dinode inum (disk_view t ?b) = dinode_of ?n"
    using P(5) by (simp add: tv(1) V(4) truncated_def)
  have nb: "get_dinode j (disk_view t ?b) = get_dinode j (disk_view s ?b)" if "j mod IPB \<noteq> inum mod IPB" for j
    using that P(3)[of j] P(6)[of j] U(10) by (simp add: tv(1) V(4) truncated_def inum_def)
  have fd: "let di = get_dinode inum (disk_view t ?b) in d_type di = 0 \<and> d_size di = 0 \<and> (\<forall>b\<in>set (d_addrs di). b = 0)"
    by (simp add: di Let_def truncated_def dinode_of_def)
  have "disk_view t b = disk_view s b" if "b \<noteq> bitmap s" "b \<noteq> ?b" for b using that U(9) by (simp add: tv(1) V(4))
  then show ?thesis
    using e tv(2-4) fm fb nb fd ib(3) U(8) by (intro exI[of _ t] conjI) (simp_all add: tv(5))
qed

text \<open>The machine of theory \<open>Fs_Txn\<close> with its superblock on disk, and its file without a name.\<close>

definition sb_block :: block where
  "sb_block = put32 0 1000 (put32 1 900 (put32 2 160 (put32 3 30 (put32 4 2 (put32 5 40 (put32 6 60 (replicate 512 0)))))))"

lemma iput_deletes_witness:
  "\<exists>(s :: fsst) t. own s 0 (blocks_of (file_size s 0)) = [200, 201, 202] \<and> iput fs_env 0 s = Inr t \<and> i_ref (icache t ! 0) = 0
     \<and> free_blocks t = free_blocks s \<union> {200, 201, 202}"
proof -
  define r0 where "r0 = upd_inode 0 (\<lambda>n. n\<lparr>d_nlink := 0\<rparr>) fs_machine"
  have r0: "in_txn (Suc 28) r0" "home r0 = home fs_machine" "icache r0 ! 0 = file17\<lparr>d_nlink := 0\<rparr>" "0 < length (icache r0)" "fs_sb r0 = sb1000"
    using fs_machine_txn[of 29] by (simp_all add: r0_def fs_machine_fields)
  have h1: "home r0 1" by (simp add: r0(2) fs_machine_home word_le_nat_alt)
  have l: "length sb_block = BSIZE" by (simp add: sb_block_def)
  have d: "decode_sb sb_block = sb1000" by (simp add: decode_sb_def sb_block_def sb1000_def)
  obtain r where r: "in_txn 28 r" "home r = home r0" "disk_view r = (disk_view r0)(1 := sb_block)" "logst.more r = logst.more r0"
    by (rule txn_update[OF r0(1) h1 l])
  note fr = fs_more[OF r(4)]
  obtain s where s: "in_txn 26 s" "stored_file s 0" "logst.more s = logst.more r" "13 \<le> card (free_blocks s)" "home s = home fs_machine"
    "own s 0 (blocks_of (file_size s 0)) = [200, 201, 202]" "\<And>b. b \<noteq> 42 \<Longrightarrow> b \<noteq> 60 \<Longrightarrow> disk_view s b = disk_view r b"
    by (rule grow_example[where r = r and k = 26 and l = 0]) (use r(1,2) r0 fr in simp_all)
  note fs = fs_more[OF s(3)]
  have i: "icache s ! 0 = file17\<lparr>d_nlink := 0\<rparr>" "fs_sb s = sb1000" using fs fr r0 by simp_all
  have "sb_stored s" unfolding sb_stored_def using s(7)[of 1] r(3) d
    by (simp add: s(5) fs_machine_home i(2) word_le_nat_alt) (simp add: sb1000_def BBLOCK_def)
  then have f: "freeable s 0" using s(2,6) by (simp add: freeable_def i(2)) (simp add: sb1000_def)
  have t: "in_txn 3 s" using s(1) by (simp add: in_txn_def)
  have n: "i_ref (icache s ! 0) = 1" "i_flags (icache s ! 0) AND I_VALID \<noteq> 0" "d_nlink (icache s ! 0) = 0"
    by (simp_all add: i(1) file17_def)
  obtain t where "iput fs_env 0 s = Inr t" "i_ref (icache t ! 0) = 0"
    "free_blocks t = free_blocks s \<union> set (own s 0 (blocks_of (file_size s 0)))"
    using iput_deletes[OF t fs_machine_fields(3) f n] by blast
  then show ?thesis using s(6) by (intro exI[of _ s] exI[of _ t]) simp
qed

end
