(* ===== verification/Crash.thy ===== *)
theory Crash
  imports Filewrite
begin

text \<open>
  What is left of a file when the machine stops in the middle of \<open>filewrite\<close>: the file as the disk alone
  shows it, and its content after recovery.
\<close>

section \<open>A file on the disk\<close>

text \<open>
  The inode with number \<open>inum\<close>, its blocks and the content of its file, read from the blocks \<open>D\<close> of the disk as
  \<open>ilock\<close>, \<open>bmap\<close> and \<open>readi\<close> would, with no help of the inode cache.
\<close>

definition disk_inode :: "superblock \<Rightarrow> (uint \<Rightarrow> block) \<Rightarrow> uint \<Rightarrow> dinode" where
  "disk_inode sb D inum = get_dinode inum (D (IBLOCK inum sb))"

definition dinode_block :: "(uint \<Rightarrow> block) \<Rightarrow> dinode \<Rightarrow> nat \<Rightarrow> uint" where
  "dinode_block D n k = (if k < NDIRECT then d_addrs n ! k else field32 (k - NDIRECT) (D (d_addrs n ! NDIRECT)))"

definition disk_content :: "superblock \<Rightarrow> (uint \<Rightarrow> block) \<Rightarrow> uint \<Rightarrow> uchar list" where
  "disk_content sb D inum = (let n = disk_inode sb D inum in
     map (\<lambda>q. D (dinode_block D n (q div BSIZE)) ! (q mod BSIZE)) [0..<unat (d_size n)])"

lemma dinode_of_simps [simp]: "d_addrs (dinode_of n) = d_addrs n" "d_size (dinode_of n) = d_size n"
  by (simp_all add: dinode_of_def)

lemma stored_on_disk:
  assumes w: "stored_file w ip" and D: "\<And>b. home w b \<Longrightarrow> D b = disk_view w b"
  shows "disk_content (fs_sb w) D (i_inum (icache w ! ip)) = content w ip"
proof -
  let ?i = "i_inum (icache w ! ip)"
  have n: "disk_inode (fs_sb w) D ?i = dinode_of (icache w ! ip)"
    using w D unfolding disk_inode_def stored_file_def by simp
  have m: "mapped_file w ip" by (rule grown_mapped) (use w in \<open>simp add: stored_file_def\<close>)
  have b: "dinode_block D (dinode_of (icache w ! ip)) k = file_block w ip k" if k: "k * BSIZE < file_size w ip" for k
  proof (cases "k < NDIRECT")
    case False
    then have "NDIRECT * BSIZE < file_size w ip" using k mult_le_mono1[of NDIRECT k BSIZE] by linarith
    then have "D (indirect w ip) = disk_view w (indirect w ip)" using m D unfolding mapped_file_def by blast
    then show ?thesis using False by (simp add: dinode_block_def file_block_def indirect_def)
  qed (simp add: dinode_block_def file_block_def)
  have "D (dinode_block D (dinode_of (icache w ! ip)) (q div BSIZE)) ! (q mod BSIZE) = file_byte w ip q" if q: "q < file_size w ip" for q
  proof -
    have k: "q div BSIZE * BSIZE < file_size w ip" using q div_times_less_eq_dividend[of q BSIZE] by linarith
    then show ?thesis using b[OF k] m D unfolding mapped_file_def file_byte_def by simp
  qed
  then show ?thesis by (simp add: disk_content_def n content_def Let_def)
qed

section \<open>A machine that stops during a write\<close>

text \<open>What recovery finds after some of the pieces, in terms of the disk before the call.\<close>

lemma partly_disk:
  assumes p: "written ip off ys s w" and s: "idle_log s"
    and D: "\<And>b. home s b \<Longrightarrow> D b = disk_view w b"
  shows "disk_content (fs_sb s) D (i_inum (icache s ! ip)) = take off (content s ip) @ ys @ drop (off + length ys) (content s ip)"
    "home s b \<Longrightarrow> b \<notin> set (own s ip (blocks_of (file_size s ip))) \<Longrightarrow> b \<notin> free_blocks s \<Longrightarrow> b \<noteq> bitmap s
       \<Longrightarrow> b \<noteq> inode_block s ip \<Longrightarrow> D b = memdisk s b"
    "j mod IPB \<noteq> i_inum (icache s ! ip) mod IPB \<Longrightarrow> home s (inode_block s ip) \<Longrightarrow>
       get_dinode j (D (inode_block s ip)) = get_dinode j (memdisk s (inode_block s ip))"
proof -
  note W = writtenD[OF p] and d = idle_disk[OF s]
  have i: "i_inum (icache w ! ip) = i_inum (icache s ! ip)" using p by (auto simp: written_def)
  show "disk_content (fs_sb s) D (i_inum (icache s ! ip)) = take off (content s ip) @ ys @ drop (off + length ys) (content s ip)"
    using stored_on_disk[OF W(1), of D] D W(8,9) i W(3) by simp
  show "home s b \<Longrightarrow> b \<notin> set (own s ip (blocks_of (file_size s ip))) \<Longrightarrow> b \<notin> free_blocks s \<Longrightarrow> b \<noteq> bitmap s
       \<Longrightarrow> b \<noteq> inode_block s ip \<Longrightarrow> D b = memdisk s b"
    using W(7) D d by simp
  show "j mod IPB \<noteq> i_inum (icache s ! ip) mod IPB \<Longrightarrow> home s (inode_block s ip) \<Longrightarrow>
       get_dinode j (D (inode_block s ip)) = get_dinode j (memdisk s (inode_block s ip))"
    using W(6) D d by simp
qed

text \<open>
  C3: \<open>filewrite\<close> is safe against a crash. The call makes several transactions and returns with all bytes
  written. Let the machine stop after any prefix of the block writes the whole call makes, and restart: recovery
  succeeds, and the file that the recovered disk shows has the first \<open>j\<close> of the \<open>n\<close> bytes at the offset and its old
  bytes everywhere else, where \<open>j\<close> is a number of whole pieces of \<open>write_max\<close> bytes, or all of \<open>n\<close>, and all of \<open>n\<close> if
  every write was made. No piece is ever seen in part. Blocks outside the log that were neither the file's nor free, and the
  other inodes in the inode's block, are as before the call.
\<close>

theorem filewrite_crash_safe:
  fixes s :: "'a filest_scheme" and addr :: uint
  assumes "idle_log s" "k_rw E = iderw" "f < length (ftable s)" "f_type (ftable s ! f) = FD_INODE" "f_writable (ftable s ! f)"
    and "f_ip (ftable s ! f) = ip" "open_inode s ip" "stored_file s ip" "0 \<le> n"
  defines "off \<equiv> unat (f_off (ftable s ! f))" and "inum \<equiv> i_inum (icache s ! ip)" and "c \<equiv> content s ip"
    and "xs \<equiv> load_bytes (mem s) addr (nat n)"
  assumes "off \<le> file_size s ip" "off + nat n \<le> MAXFILE * BSIZE"
    and "need (blocks_of (file_size s ip)) (blocks_of (off + nat n)) \<le> card (free_blocks s)"
  shows "\<exists>t ws. filewrite E f addr n s = Inr (Done n, t) \<and> writes t = writes s @ ws \<and> memdisk t = apply_writes (memdisk s) ws
    \<and> (\<forall>vs r. prefix vs ws \<longrightarrow> restarted s vs r \<longrightarrow> (\<exists>u j. recover_from_log iderw r = Inr u \<and> storage_inv u
         \<and> j \<le> nat n \<and> (j = nat n \<or> nat write_max dvd j) \<and> (vs = ws \<longrightarrow> j = nat n)
         \<and> disk_content (fs_sb s) (disk_view u) inum = take off c @ take j xs @ drop (off + j) c
         \<and> (\<forall>i. i mod IPB \<noteq> inum mod IPB \<longrightarrow>
              get_dinode i (disk_view u (IBLOCK inum (fs_sb s))) = get_dinode i (memdisk s (IBLOCK inum (fs_sb s))))
         \<and> (\<forall>b. home s b \<longrightarrow> b \<notin> set (own s ip (blocks_of (file_size s ip))) \<longrightarrow> b \<notin> free_blocks s \<longrightarrow> b \<noteq> bitmap s
              \<longrightarrow> b \<noteq> IBLOCK inum (fs_sb s) \<longrightarrow> disk_view u b = memdisk s b)))"
proof -
  obtain t where T: "filewrite_loop (nat n) E f addr n 0 s = Inr (n, t)" "through ip off xs s t"
    using filewrite_loop_writes[of s E f ip "f_off (ftable s ! f)" 0 n "nat n" addr] assms by auto
  note W = throughD[OF T(2)]
  have w: "filewrite E f addr n s = Inr (Done n, t)" using T(1) assms(4,5) by (simp add: filewrite_def)
  obtain ws where ws: "writes t = writes s @ ws" "memdisk t = apply_writes (memdisk s) ws" "recovers_to s ws (partly ip off xs s)"
    using W(7) by blast
  have lx: "length xs = nat n" by (simp add: xs_def)
  have hb: "home s (IBLOCK inum (fs_sb s))" using assms(8) by (simp add: stored_file_def inum_def)
  have "\<exists>u j v. recover_from_log iderw r = Inr u \<and> storage_inv u \<and> j \<le> nat n \<and> (j = nat n \<or> nat write_max dvd j)
      \<and> (vs = ws \<longrightarrow> j = nat n) \<and> written ip off (take j xs) s v \<and> (\<forall>b. home s b \<longrightarrow> disk_view u b = disk_view v b)"
    if p: "prefix vs ws" and r: "restarted s vs r" for vs r
  proof (cases "vs = ws")
    case True
    then have "restarted t [] r" using restarted_later[OF W(6) ws(2), of "[]" r] r by simp
    then obtain u v where "recover_from_log iderw r = Inr u" "storage_inv u" "v = t" "\<forall>b. home t b \<longrightarrow> disk_view u b = disk_view v b"
      using idle_recovers[where Q = "\<lambda>v. v = t", OF W(2) refl] unfolding recovers_to_def by blast
    then show ?thesis using W(1) writtenD(8)[OF W(1)] lx by (intro exI[of _ u] exI[of _ "nat n"] exI[of _ t]) simp
  next
    case False
    obtain u v where U: "recover_from_log iderw r = Inr u" "storage_inv u" "partly ip off xs s v"
      "\<forall>b. home s b \<longrightarrow> disk_view u b = disk_view v b"
      using ws(3) p r unfolding recovers_to_def by blast
    then show ?thesis using False lx unfolding partly_def by metis
  qed
  note R = this
  have "\<exists>u j. recover_from_log iderw r = Inr u \<and> storage_inv u
         \<and> j \<le> nat n \<and> (j = nat n \<or> nat write_max dvd j) \<and> (vs = ws \<longrightarrow> j = nat n)
         \<and> disk_content (fs_sb s) (disk_view u) inum = take off c @ take j xs @ drop (off + j) c
         \<and> (\<forall>i. i mod IPB \<noteq> inum mod IPB \<longrightarrow>
              get_dinode i (disk_view u (IBLOCK inum (fs_sb s))) = get_dinode i (memdisk s (IBLOCK inum (fs_sb s))))
         \<and> (\<forall>b. home s b \<longrightarrow> b \<notin> set (own s ip (blocks_of (file_size s ip))) \<longrightarrow> b \<notin> free_blocks s \<longrightarrow> b \<noteq> bitmap s
              \<longrightarrow> b \<noteq> IBLOCK inum (fs_sb s) \<longrightarrow> disk_view u b = memdisk s b)"
    if p: "prefix vs ws" and r: "restarted s vs r" for vs r
  proof -
    obtain u j v where U: "recover_from_log iderw r = Inr u" "storage_inv u" "j \<le> nat n" "j = nat n \<or> nat write_max dvd j"
      "vs = ws \<longrightarrow> j = nat n" "written ip off (take j xs) s v" "\<forall>b. home s b \<longrightarrow> disk_view u b = disk_view v b"
      using R[OF p r] by blast
    note P = partly_disk[OF U(6) assms(1), of "disk_view u", OF U(7)[rule_format]]
    show ?thesis using U(1-5) P[folded inum_def c_def] hb lx by (intro exI[of _ u] exI[of _ j]) (simp add: min_absorb2)
  qed
  then show ?thesis using w ws(1,2) by (intro exI[of _ t] exI[of _ ws]) blast
qed

lemma idle_restarted: "idle_log s \<Longrightarrow> restarted s [] s"
  by (simp add: restarted_def idle_log_def log_inv_def pinned_def logged_def log_geom_def)

text \<open>The file of theory \<open>Filewrite\<close>, on a machine that stops before the first write and on one that stops after the last.\<close>

lemma filewrite_crash_safe_witness:
  "\<exists>(s :: filest) t u v. filewrite file_env 0 4096 6000 s = Inr (Done 6000, t) \<and> recover_from_log iderw s = Inr u \<and> recover_from_log iderw t = Inr v
     \<and> (disk_content (fs_sb s) (disk_view u) 17 = content s 0
        \<or> disk_content (fs_sb s) (disk_view u) 17 = content s 0 @ load_bytes (mem s) 4096 6000)
     \<and> disk_content (fs_sb s) (disk_view v) 17 = content s 0 @ load_bytes (mem s) 4096 6000"
proof -
  obtain s :: filest where s: "idle_log s" "stored_file s 0" "icache s = icache fs_machine" "ftable s = [fd17, fd17]" "13 \<le> card (free_blocks s)"
    by (rule file_example)
  have z: "file_size s 0 = 1500" by (simp add: s(3) fs_machine_fields file17_def)
  have f: "0 < length (ftable s)" "f_type (ftable s ! 0) = FD_INODE" "f_writable (ftable s ! 0)" "f_ip (ftable s ! 0) = 0"
    "unat (f_off (ftable s ! 0)) = 1500" by (simp_all add: s(4) fd17_def)
  have o: "open_inode s 0" by (simp add: open_inode_def s(3) fs_machine_fields file17_def initsleeplock_def)
  have n: "need (blocks_of (file_size s 0)) (blocks_of (unat (f_off (ftable s ! 0)) + nat 6000)) \<le> card (free_blocks s)"
    using s(5) by (simp add: z f(5) need_def blocks_of_def)
  have E: "k_rw file_env = iderw" by (simp add: file_env_def)
  have i: "i_inum (icache s ! 0) = 17" by (simp add: s(3) fs_machine_fields file17_def)
  have le: "unat (f_off (ftable s ! 0)) \<le> file_size s 0" "unat (f_off (ftable s ! 0)) + nat 6000 \<le> MAXFILE * BSIZE" "(0 :: int) \<le> 6000"
    by (simp_all add: z f(5))
  have c: "take 1500 (content s 0) @ take j xs @ drop (1500 + j) (content s 0) = content s 0 @ take j xs" for j and xs :: "uchar list"
    by (simp add: z)
  obtain t ws where t: "filewrite file_env 0 4096 6000 s = Inr (Done 6000, t)" "memdisk t = apply_writes (memdisk s) ws"
    and R: "\<And>vs r. prefix vs ws \<Longrightarrow> restarted s vs r \<Longrightarrow> \<exists>u j. recover_from_log iderw r = Inr u
      \<and> j \<le> nat 6000 \<and> (j = nat 6000 \<or> nat write_max dvd j) \<and> (vs = ws \<longrightarrow> j = nat 6000)
      \<and> disk_content (fs_sb s) (disk_view u) 17 = content s 0 @ take j (load_bytes (mem s) 4096 (nat 6000))"
    using filewrite_crash_safe[OF s(1) E f(1-4) o s(2) le(3) le(1,2) n, of 4096, unfolded i f(5) c] by metis
  obtain t' where T: "filewrite_loop (nat 6000) file_env 0 4096 6000 0 s = Inr (6000, t')" "through 0 1500 (load_bytes (mem s) 4096 6000) s t'"
    using filewrite_loop_writes[OF s(1) E f(1,4) o s(2) refl le(1), of 0 6000 "nat 6000" 4096] le n f(5) by auto
  have "t' = t" using T(1) t(1) f(2,3) by (simp add: filewrite_def)
  then have t': "idle_log t" "same_machine s t" using throughD(2,6)[OF T(2)] by simp_all
  have "restarted s ws t" using idle_restarted[OF t'(1)] restarted_later[OF t'(2) t(2), of "[]" t] by simp
  then obtain v where v: "recover_from_log iderw t = Inr v"
    "disk_content (fs_sb s) (disk_view v) 17 = content s 0 @ load_bytes (mem s) 4096 6000"
    using R[of ws t] by auto
  obtain u j where u: "recover_from_log iderw s = Inr u" "j \<le> 6000" "j = 6000 \<or> nat write_max dvd j"
    "disk_content (fs_sb s) (disk_view u) 17 = content s 0 @ take j (load_bytes (mem s) 4096 6000)"
    using R[OF _ idle_restarted[OF s(1)]] by auto
  have "j = 6000 \<or> j = 0" using u(2,3) by (auto simp: write_max_def dest: dvd_imp_le)
  then show ?thesis using t(1) u(1,4) v by (intro exI[of _ s] exI[of _ t] exI[of _ u] exI[of _ v]) auto
qed

end
