(* ===== verification/Calls.thy ===== *)
theory Calls
  imports Trap Fileread
begin

text \<open>
  \<open>read\<close> and \<open>write\<close> from the trap frame of the calling process down to the disk: the arguments that
  \<open>syscall\<close> fetches from user memory, the checks, and what the whole call does.
\<close>

section \<open>The arguments of a call\<close>

text \<open>Argument \<open>i\<close> on the user stack, whether its slot is in the process, and the arguments of \<open>read\<close> and \<open>write\<close>.\<close>

definition arg_addr :: "uproc \<Rightarrow> nat \<Rightarrow> uint" where
  "arg_addr u i = tf_esp (u_tf u) + 4 + of_nat (4 * i)"

definition has_arg :: "uproc \<Rightarrow> nat \<Rightarrow> bool" where
  "has_arg u i \<longleftrightarrow> unat (arg_addr u i) + 4 \<le> unat (u_sz u)"

definition arg_word :: "memory \<Rightarrow> uproc \<Rightarrow> nat \<Rightarrow> uint" where
  "arg_word m u i = rd32 m (arg_addr u i)"

definition fd_arg :: "memory \<Rightarrow> uproc \<Rightarrow> nat option" where
  "fd_arg m u = (if has_arg u 0 \<and> unat (arg_word m u 0) < NOFILE then u_ofile u ! unat (arg_word m u 0) else None)"

definition buffer_arg :: "memory \<Rightarrow> uproc \<Rightarrow> bool" where
  "buffer_arg m u \<longleftrightarrow> has_arg u 1 \<and> has_arg u 2 \<and> 0 \<le> sint (arg_word m u 2)
     \<and> unat (arg_word m u 1) < unat (u_sz u) \<and> unat (arg_word m u 1) + unat (arg_word m u 2) \<le> unat (u_sz u)"

lemma sint_small_nat: "unat w < 2 ^ 31 \<Longrightarrow> sint w = int (unat w)" for w :: uint
proof -
  assume "unat w < 2 ^ 31"
  then have "int (unat w) < 2 ^ 31" by (simp del: of_nat_unat)
  then show ?thesis unfolding sint_uint uint_nat by (intro signed_take_bit_int_eq_self) (simp_all del: of_nat_unat)
qed

lemma sint_nonneg: "0 \<le> sint w \<longleftrightarrow> unat w < 2 ^ 31" for w :: uint
proof -
  have "unat w < 2 ^ 32" using unsigned_less[of w] by simp
  then have "unat w div 2 ^ 31 < 2" by (simp add: less_mult_imp_div_less)
  moreover have "odd q \<longleftrightarrow> 1 \<le> q" if "q < 2" for q :: nat using that by presburger
  ultimately have "odd (unat w div 2 ^ 31) \<longleftrightarrow> 1 \<le> unat w div 2 ^ 31" by blast
  also have "\<dots> \<longleftrightarrow> 2 ^ 31 \<le> unat w" by (simp add: Suc_le_eq div_greater_zero_iff)
  finally show ?thesis
    unfolding sint_uint uint_nat signed_take_bit_nonnegative_iff bit_of_nat_iff_bit unfolding bit_iff_odd by auto
qed

lemma small_word: "\<not> (sint w < 0 \<or> sint w \<ge> int NOFILE) \<longleftrightarrow> unat w < NOFILE" for w :: uint
proof (cases "unat w < 2 ^ 31")
  case True
  have "\<not> sint w < 0" using sint_nonneg[of w] True by linarith
  then show ?thesis unfolding sint_small_nat[OF True] of_nat_le_iff by (simp add: not_le del: of_nat_unat)
next
  case False
  then have "\<not> unat w < NOFILE" by simp
  moreover have "sint w < 0" using sint_nonneg[of w] False by linarith
  ultimately show ?thesis by blast
qed

lemma nonneg_unat: "0 \<le> sint w \<Longrightarrow> sint w = int (unat w)" for w :: uint
  using sint_nonneg[of w] sint_small_nat[of w] by blast

lemma argint_arg:
  assumes "myu s = Inr u" "u_sz u \<le> KBASE"
  shows "argint (int i) s = Inr (if has_arg u i then Some (arg_word (mem s) u i) else None)"
  using argint_exact[OF assms, of "int i"] by (simp add: has_arg_def arg_word_def arg_addr_def)

lemma argfd_arg:
  assumes "myu s = Inr u" "u_sz u \<le> KBASE"
  shows "argfd 0 s = Inr (map_option (Pair (unat (arg_word (mem s) u 0))) (fd_arg (mem s) u))"
proof -
  have A: "argint 0 s = Inr (if has_arg u 0 then Some (arg_word (mem s) u 0) else None)"
    using argint_arg[OF assms, of 0] by simp
  show ?thesis
    using small_word[of "arg_word (mem s) u 0"] by (auto simp: argfd_def A assms(1) fd_arg_def)
qed

lemma argptr_arg:
  assumes "myu s = Inr u" "u_sz u \<le> KBASE" "has_arg u 2"
  shows "argptr 1 (sint (arg_word (mem s) u 2)) s = Inr (if buffer_arg (mem s) u then Some (arg_word (mem s) u 1) else None)"
proof -
  let ?n = "arg_word (mem s) u 2" and ?p = "arg_word (mem s) u 1"
  have A: "argint 1 s = Inr (if has_arg u 1 then Some ?p else None)"
    using argint_arg[OF assms(1,2), of 1] by simp
  show ?thesis
  proof (cases "0 \<le> sint ?n")
    case True
    then have n: "unat ?n < 2 ^ 31" "of_int (sint ?n) = (of_nat (unat ?n) :: uint)" using sint_nonneg[of ?n] by simp_all
    have "\<not> (?p \<ge> u_sz u \<or> ?p + of_int (sint ?n) > u_sz u) \<longleftrightarrow> unat ?p < unat (u_sz u) \<and> unat ?p + unat ?n \<le> unat (u_sz u)"
      unfolding n(2) by (rule range_check[OF assms(2) n(1)])
    then show ?thesis using True assms(1,3) unfolding argptr_def A buffer_arg_def by auto
  qed (use assms(1) in \<open>auto simp: argptr_def A buffer_arg_def\<close>)
qed

text \<open>What \<open>sys_read\<close> and \<open>sys_write\<close> do before they get to the file.\<close>

lemma sys_read_args:
  assumes "myu s = Inr u" "u_sz u \<le> KBASE"
  shows "sys_read E s = (case fd_arg (mem s) u of Some f \<Rightarrow>
      if buffer_arg (mem s) u then fileread E f (arg_word (mem s) u 1) (int (unat (arg_word (mem s) u 2))) s else failed s
    | None \<Rightarrow> failed s)"
proof -
  have "argint 2 s = Inr (if has_arg u 2 then Some (arg_word (mem s) u 2) else None)"
    using argint_arg[OF assms, of 2] by simp
  then show ?thesis
    using argptr_arg[OF assms] nonneg_unat[of "arg_word (mem s) u 2"]
    by (auto simp: sys_read_def argfd_arg[OF assms] buffer_arg_def split: option.split)
qed

lemma sys_write_args:
  assumes "myu s = Inr u" "u_sz u \<le> KBASE"
  shows "sys_write E s = (case fd_arg (mem s) u of Some f \<Rightarrow>
      if buffer_arg (mem s) u then filewrite E f (arg_word (mem s) u 1) (int (unat (arg_word (mem s) u 2))) s else failed s
    | None \<Rightarrow> failed s)"
proof -
  have "argint 2 s = Inr (if has_arg u 2 then Some (arg_word (mem s) u 2) else None)"
    using argint_arg[OF assms, of 2] by simp
  then show ?thesis
    using argptr_arg[OF assms] nonneg_unat[of "arg_word (mem s) u 2"]
    by (auto simp: sys_write_def argfd_arg[OF assms] buffer_arg_def split: option.split)
qed

lemma syscall_number:
  "syscalls E P 5 = Some (sys_read E)" "syscalls E P 16 = Some (sys_write E)"
  by (simp_all add: syscalls_def)

text \<open>
  C14: bad arguments are harmless. If the descriptor of \<open>read\<close> or \<open>write\<close> is not one of the
  process's open files, if an argument is outside the process, or the count is negative or the buffer not entirely
  inside the process, then the call returns -1 in \<open>eax\<close> and changes nothing else at all: no memory, no file, no disk.
\<close>

theorem syscall_bad_buffer:
  assumes "myu s = Inr u" "u_sz u \<le> KBASE" "sint (tf_eax (u_tf u)) = 5 \<or> sint (tf_eax (u_tf u)) = 16"
    and "fd_arg (mem s) u = None \<or> \<not> buffer_arg (mem s) u"
  shows "syscall E P s = Inr (Done (-1), set_eax (-1) s)"
proof -
  have "sys_read E s = failed s" "sys_write E s = failed s"
    using assms(4) by (auto simp: sys_read_args[OF assms(1,2)] sys_write_args[OF assms(1,2)] split: option.split)
  then show ?thesis using assms(1,3) by (auto simp: syscall_def syscall_number)
qed

text \<open>
  C6: \<open>write\<close> from the trap frame to the disk. A process asks for \<open>write(fd, p, n)\<close> with a descriptor of a file in
  order, open for writing, and a buffer inside the process; the file may grow and the disk has the blocks. Then \<open>syscall\<close> returns \<open>n\<close> in
  \<open>eax\<close>, and when it returns the bytes of user memory from \<open>p\<close> on are in the file at the old offset and on the disk, the log is empty,
  and the process, the memory and the other open files are as before.
\<close>

theorem syscall_write_stores:
  fixes s :: "'a kernst_scheme"
  assumes "myu s = Inr u" "u_sz u \<le> KBASE" "sint (tf_eax (u_tf u)) = 16" "fd_arg (mem s) u = Some f" "buffer_arg (mem s) u"
    and "idle_log s" "k_rw E = iderw" "f < length (ftable s)" "f_type (ftable s ! f) = FD_INODE" "f_writable (ftable s ! f)"
    and "f_ip (ftable s ! f) = ip" "open_inode s ip" "stored_file s ip"
  defines "p \<equiv> arg_word (mem s) u 1" and "n \<equiv> unat (arg_word (mem s) u 2)" and "off \<equiv> unat (f_off (ftable s ! f))"
  assumes "off \<le> file_size s ip" "off + n \<le> MAXFILE * BSIZE"
    and "need (blocks_of (file_size s ip)) (blocks_of (off + n)) \<le> card (free_blocks s)"
  shows "\<exists>t. syscall E P s = Inr (Done (int n), set_eax (of_nat n) t) \<and> idle_log t \<and> memdisk t = disk_view t
    \<and> stored_file t ip \<and> open_inode t ip
    \<and> content t ip = take off (content s ip) @ load_bytes (mem s) p n @ drop (off + n) (content s ip)
    \<and> ftable t = (ftable s)[f := (ftable s ! f)\<lparr>f_off := f_off (ftable s ! f) + of_nat n\<rparr>]
    \<and> mem t = mem s \<and> uarea t = uarea s \<and> curproc t = curproc s \<and> pipes t = pipes s"
proof -
  obtain t where T: "filewrite_loop n E f p (int n) 0 s = Inr (int n, t)" "through ip off (load_bytes (mem s) p n) s t"
    "ftable t = (ftable s)[f := (ftable s ! f)\<lparr>f_off := f_off (ftable s ! f) + of_nat n\<rparr>]"
    using filewrite_loop_writes[OF assms(6-8,11-13) refl _ order_refl _ order_refl, of "int n" p] assms(17-19)
    unfolding off_def by auto
  note W = throughD[OF T(2)]
  have "filewrite E f p (int n) s = Inr (Done (int n), t)" using T(1) assms(9,10) by (simp add: filewrite_def)
  then have "sys_write E s = Inr (Done (int n), t)" using assms(4,5) by (simp add: sys_write_args[OF assms(1,2)] p_def n_def)
  then have "syscall E P s = Inr (Done (int n), set_eax (of_nat n) t)"
    using assms(1,3) by (simp add: syscall_def syscall_number)
  moreover have "uarea t = uarea s" using W(9) by (cases s; cases t) simp
  ultimately show ?thesis using W(2-6,8) writtenD(1,3)[OF W(1)] idle_disk[OF W(2)] T(3) by auto
qed

text \<open>
  C13: \<open>read\<close> from the disk to user memory. For a descriptor of a file in order, open for reading, and a buffer inside
  the process, \<open>syscall\<close> returns in \<open>eax\<close> how many of the \<open>n\<close> bytes the file has behind the offset, and has put exactly those into user
  memory from \<open>p\<close> on. Besides memory and \<open>eax\<close> only the descriptor's offset has changed.
\<close>

theorem syscall_read_delivers:
  fixes s :: "'a kernst_scheme"
  assumes "myu s = Inr u" "u_sz u \<le> KBASE" "sint (tf_eax (u_tf u)) = 5" "fd_arg (mem s) u = Some f" "buffer_arg (mem s) u"
    and "in_txn k s" "k_rw E = iderw" "f < length (ftable s)" "f_type (ftable s ! f) = FD_INODE" "f_readable (ftable s ! f)"
    and "f_ip (ftable s ! f) = ip" "open_inode s ip" "stored_file s ip"
  defines "p \<equiv> arg_word (mem s) u 1" and "n \<equiv> unat (arg_word (mem s) u 2)" and "off \<equiv> unat (f_off (ftable s ! f))"
  assumes "off \<le> file_size s ip"
  defines "xs \<equiv> take n (drop off (content s ip))"
  shows "\<exists>t. syscall E P s = Inr (Done (int (length xs)), set_eax (of_nat (length xs)) t) \<and> length xs = min n (file_size s ip - off)
    \<and> mem t = store_bytes (mem s) p xs \<and> in_txn k t \<and> stored_file t ip \<and> open_inode t ip \<and> content t ip = content s ip
    \<and> (\<forall>b. home s b \<longrightarrow> disk_view t b = disk_view s b)
    \<and> ftable t = (ftable s)[f := (ftable s ! f)\<lparr>f_off := f_off (ftable s ! f) + of_nat (length xs)\<rparr>]
    \<and> uarea t = uarea s \<and> curproc t = curproc s \<and> pipes t = pipes s"
proof -
  have "n < 2 ^ 31" using assms(5) sint_nonneg[of "arg_word (mem s) u 2"] by (simp add: buffer_arg_def n_def)
  then have n: "0 \<le> int n" "int n < 2 ^ 31" by simp_all
  obtain t where T: "fileread E f p (int n) s = Inr (Done (int (length xs)), t)" "in_txn k t" "same_at ip s t" "open_inode t ip"
    "mem t = store_bytes (mem s) p xs"
    "ftable t = (ftable s)[f := (ftable s ! f)\<lparr>f_off := f_off (ftable s ! f) + of_nat (length xs)\<rparr>]"
    "pipes t = pipes s" "curproc t = curproc s" "filest.more t = filest.more s"
    using fileread_reads[OF assms(6-13) n, of p] assms(17) unfolding xs_def off_def nat_int by blast
  have "sys_read E s = Inr (Done (int (length xs)), t)" using T(1) assms(4,5) by (simp add: sys_read_args[OF assms(1,2)] p_def n_def)
  then have "syscall E P s = Inr (Done (int (length xs)), set_eax (of_nat (length xs)) t)"
    using assms(1,3) by (simp add: syscall_def syscall_number)
  moreover have "uarea t = uarea s" using T(9) by (cases s; cases t) simp
  moreover have "length xs = min n (file_size s ip - off)" by (simp add: xs_def)
  moreover have "\<forall>b. home s b \<longrightarrow> disk_view t b = disk_view s b" using T(3) by (simp add: same_at_def)
  ultimately show ?thesis using T(2,4-8) same_at_file(1,2)[OF T(3) assms(13)] by (intro exI[of _ t]) simp
qed

section \<open>A process with an open file\<close>

text \<open>The machine of theory \<open>Filewrite\<close>, with other user memory and process data.\<close>

lemma user_upd:
  fixes s :: "'a kernst_scheme"
  shows "idle_log (s\<lparr>mem := m, uarea := a\<rparr>) = idle_log s" "same_at ip s (s\<lparr>mem := m, uarea := a\<rparr>)"
proof -
  let ?t = "s\<lparr>mem := m, uarea := a\<rparr>"
  have "storage_inv ?t = storage_inv s"
    by (simp add: log_inv_def cache_ok_def log_geom_def txn_ok_def pinned_def logged_def dirty_blocks_def
        mem_present_def mem_ready_def has_proc_def binv_def blist_def keys_ok_def buf_ok_def cong: conj_cong)
  then show "idle_log ?t = idle_log s" by (simp add: idle_log_def locked_bufs_def)
  show "same_at ip s ?t"
    using same_at_refl[of ip s]
    by (simp add: same_at_def home_def mem_present_def view_def caches_def fun_eq_iff cong: option.case_cong)
qed

definition user_mem :: memory where
  "user_mem = (\<lambda>_. 0)(9 := 16, 12 := 112, 13 := 23)"

definition user_proc :: "uint \<Rightarrow> uproc" where
  "user_proc num = \<lparr>u_sz = 65536, u_ofile = Some 0 # replicate 15 None,
     u_tf = \<lparr>tf_edi = 0, tf_esi = 0, tf_ebp = 0, tf_oesp = 0, tf_ebx = 0, tf_edx = 0, tf_ecx = 0, tf_eax = num, tf_gs = 0,
       tf_fs = 0, tf_es = 0, tf_ds = 0, tf_trapno = 64, tf_err = 0, tf_eip = 0, tf_cs = 0, tf_eflags = 0, tf_esp = 0, tf_ss = 0\<rparr>,
     u_pgdir = 0\<rparr>"

lemma user_args:
  "fd_arg user_mem (user_proc num) = Some 0" "buffer_arg user_mem (user_proc num)" "arg_word user_mem (user_proc num) 1 = 4096"
  "arg_word user_mem (user_proc num) 2 = 6000" "u_sz (user_proc num) \<le> KBASE" "tf_eax (u_tf (user_proc num)) = num"
proof -
  have w: "arg_word user_mem (user_proc num) 0 = 0" "arg_word user_mem (user_proc num) 1 = 4096" "arg_word user_mem (user_proc num) 2 = 6000"
    by (simp_all add: arg_word_def arg_addr_def user_mem_def user_proc_def rd32_def word32_def)
  have a: "has_arg (user_proc num) 0" "has_arg (user_proc num) 1" "has_arg (user_proc num) 2"
    by (simp_all add: has_arg_def arg_addr_def user_proc_def)
  show "fd_arg user_mem (user_proc num) = Some 0" by (simp add: fd_arg_def a w) (simp add: user_proc_def)
  show "buffer_arg user_mem (user_proc num)" 
    using a sint_small_nat[of 6000] unfolding buffer_arg_def w by (simp add: user_proc_def)
qed (simp_all add: user_proc_def arg_word_def arg_addr_def user_mem_def rd32_def word32_def)

lemma process_example:
  obtains s :: kernst where "myu s = Inr (user_proc num)" "mem s = user_mem" "idle_log s" "stored_file s 0" "open_inode s 0"
    "ftable s = [fd17, fd17]" "file_size s 0 = 1500" "13 \<le> card (free_blocks s)"
proof -
  obtain r :: kernst where r: "idle_log r" "stored_file r 0" "icache r = icache fs_machine" "ftable r = [fd17, fd17]"
    "13 \<le> card (free_blocks r)"
    by (rule file_example)
  obtain i where i: "curproc r = Some i" using r(1) by (auto simp: idle_log_def log_inv_def cache_ok_def mem_ready_def has_proc_def)
  let ?s = "r\<lparr>mem := user_mem, uarea := replicate (Suc i) (user_proc num)\<rparr>"
  note F = same_at_file[OF user_upd(2)[where m = user_mem and a = "replicate (Suc i) (user_proc num)"] r(2)]
  have "replicate (Suc i) (user_proc num) ! i = user_proc num" by (rule nth_replicate) simp
  then have m: "myu ?s = Inr (user_proc num)" using i by (simp add: myu_def del: replicate_Suc)
  show thesis
    by (rule that[of ?s, OF m])
      (use user_upd(1)[where s = r] r F in \<open>simp_all add: open_inode_def fs_machine_fields file17_def initsleeplock_def\<close>)
qed

lemma syscall_write_stores_witness:
  "\<forall>P :: kernst procops. \<exists>(s :: kernst) t. syscall file_env P s = Inr (Done 6000, set_eax 6000 t) \<and> file_size s 0 = 1500
     \<and> content t 0 = content s 0 @ load_bytes user_mem 4096 6000 \<and> memdisk t = disk_view t"
proof
  fix P :: "kernst procops"
  obtain s :: kernst where s: "myu s = Inr (user_proc 16)" "mem s = user_mem" "idle_log s" "stored_file s 0" "open_inode s 0"
    "ftable s = [fd17, fd17]" "file_size s 0 = 1500" "13 \<le> card (free_blocks s)"
    by (rule process_example)
  have a: "fd_arg (mem s) (user_proc 16) = Some 0" "buffer_arg (mem s) (user_proc 16)" "sint (tf_eax (u_tf (user_proc 16))) = 16"
    by (simp_all add: s(2) user_args)
  have f: "0 < length (ftable s)" "f_type (ftable s ! 0) = FD_INODE" "f_writable (ftable s ! 0)" "f_ip (ftable s ! 0) = 0"
    "unat (f_off (ftable s ! 0)) = 1500" by (simp_all add: s(6) fd17_def)
  have E: "k_rw file_env = iderw" by (simp add: file_env_def)
  show "\<exists>(s :: kernst) t. syscall file_env P s = Inr (Done 6000, set_eax 6000 t) \<and> file_size s 0 = 1500
     \<and> content t 0 = content s 0 @ load_bytes user_mem 4096 6000 \<and> memdisk t = disk_view t"
    using syscall_write_stores[OF s(1) user_args(5) a(3,1,2) s(3) E f(1-4) s(5,4), of P] s(7,8) f(5)
    unfolding s(2) user_args(3,4) by (auto simp: need_def blocks_of_def)
qed

text \<open>Reading the file from its beginning.\<close>

lemma syscall_read_delivers_witness:
  "\<forall>P :: kernst procops. \<exists>s :: kernst. \<exists>t. syscall file_env P s = Inr (Done 1500, set_eax 1500 t)
     \<and> mem t = store_bytes user_mem 4096 (content s 0)"
proof
  fix P :: "kernst procops"
  obtain r :: kernst where r: "myu r = Inr (user_proc 5)" "mem r = user_mem" "idle_log r" "stored_file r 0" "open_inode r 0"
    "ftable r = [fd17, fd17]" "file_size r 0 = 1500" "13 \<le> card (free_blocks r)"
    by (rule process_example)
  define s where "s = upd_file 0 (\<lambda>x. x\<lparr>f_off := 0\<rparr>) r"
  have fs: "ftable s = [fd17\<lparr>f_off := 0\<rparr>, fd17]" by (simp add: s_def upd_file_def r(6))
  have t: "in_txn 0 s" using r(3) by (simp add: s_def idle_log_def in_txn_def[of 0 r])
  have "uarea s = uarea r" "curproc s = curproc r" by (simp_all add: s_def upd_file_def)
  then have "myu s = myu r" by (simp add: myu_def split: option.split)
  then have s: "myu s = Inr (user_proc 5)" "mem s = user_mem" "open_inode s 0" "stored_file s 0" "file_size s 0 = 1500"
    using r same_at_file(1)[OF _ r(4), of s] same_at_refl[of 0 s]
    by (simp_all add: s_def[symmetric]) (simp_all add: s_def open_inode_def upd_file_same)
  have a: "fd_arg (mem s) (user_proc 5) = Some 0" "buffer_arg (mem s) (user_proc 5)" "sint (tf_eax (u_tf (user_proc 5))) = 5"
    by (simp_all add: s(2) user_args)
  have f: "0 < length (ftable s)" "f_type (ftable s ! 0) = FD_INODE" "f_readable (ftable s ! 0)" "f_ip (ftable s ! 0) = 0"
    "f_off (ftable s ! 0) = 0" by (simp_all add: fs fd17_def)
  have E: "k_rw file_env = iderw" by (simp add: file_env_def)
  have l: "length (content s 0) = 1500" by (simp add: s(5))
  obtain t where "syscall file_env P s = Inr (Done 1500, set_eax 1500 t)" "mem t = store_bytes user_mem 4096 (content s 0)"
    using syscall_read_delivers[OF s(1) user_args(5) a(3,1,2) t E f(1-4) s(3,4), of P, unfolded f(5) s(2) user_args(3,4)] l by auto
  then show "\<exists>s :: kernst. \<exists>t. syscall file_env P s = Inr (Done 1500, set_eax 1500 t) \<and> mem t = store_bytes user_mem 4096 (content s 0)"
    by blast
qed

text \<open>The process reads from descriptor 1, which is not open.\<close>

lemma syscall_bad_buffer_witness:
  "\<forall>(E :: kernst kenv) P. \<exists>s. syscall E P s = Inr (Done (-1), set_eax (-1) s)"
proof (intro allI)
  fix E :: "kernst kenv" and P
  obtain s :: kernst where s: "myu s = Inr (user_proc 5)" "mem s = user_mem" "idle_log s" "stored_file s 0" "open_inode s 0"
    "ftable s = [fd17, fd17]" "file_size s 0 = 1500" "13 \<le> card (free_blocks s)"
    by (rule process_example)
  let ?u = "(user_proc 5)\<lparr>u_ofile := replicate 16 None\<rparr>"
  define t where "t = set_myu (\<lambda>_. ?u) s"
  have "myu t = Inr ?u" using s(1) by (auto simp: t_def myu_def set_myu_def split: option.splits if_splits)
  moreover have "fd_arg (mem t) ?u = None" by (simp add: fd_arg_def nth_replicate)
  ultimately have "syscall E P t = Inr (Done (-1), set_eax (-1) t)"
    by (intro syscall_bad_buffer[of t ?u]) (use user_args[of 5] in simp_all)
  then show "\<exists>s. syscall E P s = Inr (Done (-1), set_eax (-1) s)" by blast
qed

end
