(* ===== verification/Spec2Isabelle.thy ===== *)
theory Spec2Isabelle
  imports Storage Spinlock Trap Boot Devices Ide Line_Discipline Kbd User_Files Shell_Parser Umalloc Mkfs Icache Log_Progress Namei Link Fileread Truncate Crash Calls
begin

text \<open>
  A verification development for ztl_os, a rewrite of the xv6 teaching kernel (C, 32-bit x86)
  with its user programs and the tool that builds its disk image. File names below are those of
  \<open>src/src/\<close>.

  \<^bold>\<open>The parts and how they interact.\<close>
  System calls (\<open>syscall.c\<close>, \<open>sysproc.c\<close>, \<open>sysfile.c\<close>, entered through \<open>trap.c\<close>) work on open files
  (\<open>file.c\<close>), which are pipes (\<open>pipe.c\<close>), devices or inodes. Inodes, directories and path names
  (\<open>fs.c\<close>) live in disk blocks that are changed only inside transactions of the write-ahead log
  (\<open>log.c\<close>); the log reads and writes through the buffer cache (\<open>bio.c\<close>), and the cache through a
  disk driver, \<open>memide.c\<close> or \<open>ide.c\<close>. Beside this stack stand the page allocator (\<open>kalloc.c\<close>), the
  page tables (\<open>vm.c\<close>), spin locks and sleep locks (\<open>spinlock.c\<close>, \<open>sleeplock.c\<close>), the process table
  (\<open>proc.c\<close>), the console with keyboard and serial port (\<open>console.c\<close>, \<open>kbd.c\<close>, \<open>uart.c\<close>), the interrupt
  controllers, and the user programs over their library.

  \<^bold>\<open>State and outcomes.\<close>
  A component's variables are a record that extends the record of the component below it, in
  the order \<open>kcore\<close> (process table, held locks), \<open>kmem\<close>, \<open>bcache\<close>, \<open>diskst\<close>, \<open>logst\<close>, \<open>fsst\<close>, \<open>filest\<close>,
  \<open>kernst\<close>; operations are polymorphic in the rest of the record, so a lower operation runs
  unchanged in the larger states. A pointer to an element of a fixed array is its index; pages, page tables
  and user memory are addresses of the byte memory \<open>mem\<close>. An operation returns a value of
  \<open>'a res\<close>: \<open>Inr\<close> of the result and the new state, or \<open>Inl\<close> of \<open>Panic\<close>, \<open>Blocks\<close> (the caller sleeps
  or spins) or \<open>Fault\<close>. Reads of the console and of pipes that go to sleep return \<open>Asleep\<close> with
  the place where they stopped. Unsigned integers, and the signed ones that come from a process, have their C width
  (theory \<open>Prelude\<close>). The signed counters of the kernel (\<open>ref\<close> of inodes and files, \<open>outstanding\<close> and \<open>lh.n\<close> of the log, \<open>ncli\<close>)
  and the results of calls are unbounded integers: they count entries of tables and open calls, and their overflow is not modelled.

  \<^bold>\<open>Theories.\<close>
  \<^item> \<open>Prelude\<close>, \<open>Machine\<close>, \<open>Dll\<close>, \<open>Memory\<close>, \<open>Format\<close>: outcomes and loops, step relations with the locale of
    their invariants, circular lists, byte memory, integers as text.
  \<^item> \<open>Proc\<close>, \<open>Sleeplock\<close>, \<open>Spinlock\<close>: \<open>proc.c\<close> and the locks. \<open>Spinlock\<close> runs any number of CPUs whose single
    steps interleave, shows mutual exclusion of every reachable state, and that a call without
    interference refines adding to and removing from the set of held locks, which is
    how all other theories see a spin lock.
  \<^item> \<open>Cstring\<close>, \<open>Mmu\<close>, \<open>Kalloc\<close>, \<open>Vm\<close>: \<open>string.c\<close>, \<open>mmu.h\<close>, \<open>kalloc.c\<close>, \<open>vm.c\<close>. The page table is related to a map
    from pages to entries; \<open>mappages\<close> adds to this map, and \<open>setupkvm\<close> is shown never to succeed.
  \<^item> \<open>Bio\<close>, \<open>Block_Driver\<close>, \<open>Memide\<close>: the cache, the locale \<open>block_driver\<close> of what it needs of \<open>iderw\<close> with the
    cache's specification proved from it (\<open>view\<close> is the disk that readers see), and the in-memory disk, which
    interprets the locale.
  \<^item> \<open>Superblock\<close>, \<open>Log\<close>, \<open>Log_Disk\<close>, \<open>Log_Commit\<close>, \<open>Log_Ops\<close>, \<open>Storage\<close>: \<open>log.c\<close>; a commit and a recovery as lists of
    block writes and the atomicity of every prefix; the operations over any driver; and the properties
    of the whole stack over the in-memory disk, among them a commit that stops anywhere, and a recovery that is itself stopped
    any number of times.
    \<open>Log_Progress\<close> shows that \<open>end_op\<close> wakes the operations that wait for the log.
  \<^item> \<open>Inode\<close>, \<open>Directory\<close>, \<open>File\<close>: \<open>fs.c\<close> and \<open>file.c\<close>. \<open>Fs_Txn\<close> says what allocation and inode updates do to
    the view of the disk inside a transaction, \<open>Icache\<close> that the inode cache is well formed in every state its
    operations reach, and \<open>Content\<close> sees files as lists of bytes.
  \<^item> \<open>Room\<close>, \<open>Alloc\<close>, \<open>Block_List\<close>, \<open>Grow\<close>: a file that \<open>writei\<close> extends: the log space that is left, the free map, the
    blocks that belong to the file, and the loop of \<open>writei\<close> with the new size and inode.
    \<open>Rest\<close> collects what the operations below leave alone, and \<open>Filewrite\<close> takes \<open>filewrite\<close> through its
    transactions: when the call returns, all that it wrote is on the disk. \<open>Fileread\<close> reads the bytes back through
    another descriptor, \<open>Crash\<close> stops the machine at any write of \<open>filewrite\<close> and finds the file with a whole number
    of its pieces after recovery, and \<open>Truncate\<close> shows that the last \<open>iput\<close> of a file without a name frees exactly its blocks.
  \<^item> \<open>Lookup\<close>, \<open>Link\<close>, \<open>Namei\<close>: directories as lists of entries, in which \<open>dirlookup\<close> finds a name and to which
    \<open>dirlink\<close> adds one, and \<open>namei\<close> as a walk through the directories that are on the disk.
  \<^item> \<open>Pipe\<close>: \<open>pipe.c\<close>, each operation, and the interleavings of one writer and one reader as a step relation.
  \<^item> \<open>Syscall\<close>, \<open>Sysfile\<close>, \<open>Trap\<close>: argument checks, the calls, \<open>exec.c\<close> and \<open>trap.c\<close>. \<open>Calls\<close> follows \<open>read\<close> and \<open>write\<close>
    from the trap frame down to the disk, for good arguments and for bad ones.
  \<^item> \<open>Ports\<close>, \<open>Devices\<close>, \<open>Ide\<close>, \<open>Console\<close>, \<open>Line_Discipline\<close>, \<open>Kbd\<close>, \<open>Boot\<close>: the drivers over port instructions whose
    answers are arbitrary, with the writes kept as a trace; the console's input ring refines a line
    editor over two lists.
  \<^item> \<open>Ulib\<close>, \<open>Grep\<close>, \<open>Umalloc\<close>: the user library and \<open>printf.c\<close>, the matcher of \<open>grep.c\<close>, \<open>umalloc.c\<close>.
  \<^item> \<open>User_Calls\<close>, \<open>User_Files\<close>, \<open>Shell\<close>, \<open>Shell_Parser\<close>: user programs as trees of system calls; \<open>cat.c\<close>, \<open>wc.c\<close>, \<open>grep.c\<close>
    and \<open>ls.c\<close> in an environment of files, with what they print; \<open>sh.c\<close>.
  \<^item> \<open>Mkfs\<close>: \<open>mkfs.c\<close>, the image as a function from sectors to bytes.

  \<^bold>\<open>Bounds and fuel.\<close>
  Loops over arrays recurse on the number of elements left. \<open>scan\<close> over the buffer list takes
  \<open>NBUF + 1\<close> steps, enough for a well-formed list of \<open>NBUF\<close> buffers. \<open>mappages\<close> has \<open>2 ^ 20 + 1\<close> turns: there
  are \<open>2 ^ 20\<close> pages, so a longer run meets a page it has mapped and panics. \<open>balloc\<close> has \<open>2 ^ 20 + 1\<close>
  turns because a disk has at most \<open>2 ^ 20\<close> blocks of the free map (the properties about allocation are for a disk with one, as
  \<open>mkfs.c\<close> makes it); \<open>readi\<close> and \<open>writei\<close> have as many turns
  as bytes, and each turn moves at least one. The parser of the shell has fuel
  in the length of the line, and theory \<open>Shell_Parser\<close> shows that it suffices. User programs that read
  files have a number of reads, larger than the files; the tree ends in \<open>More\<close> beyond it. Loops that wait for a
  device have an explicit bound after which the model answers \<open>Blocks\<close>.

  \<^bold>\<open>Parameters.\<close>
  The disk driver of the cache and log (\<open>iderw\<close>), the linker's symbols \<open>end\<close> and \<open>data\<close>, the functions that
  devices register in \<open>devsw\<close>, and the functions that the sources call and do not define
  (\<open>fork\<close>, \<open>exit\<close>, \<open>wait\<close>, \<open>kill\<close>, \<open>allocuvm\<close>, \<open>loaduvm\<close>, \<open>clearpteu\<close>, \<open>copyout\<close>, \<open>switchuvm\<close>, \<open>freevm\<close>, \<open>safestrcpy\<close>) are arguments
  of the definitions. So are operations that are modelled over other records than their caller's: \<open>iunlock\<close> and \<open>ilock\<close> for the
  console, \<open>cmostime\<close> and the interrupt handlers for the system calls and traps. The properties of files and of the log are over \<open>memide.c\<close>, so nothing is assumed
  of a driver.

  \<^bold>\<open>Not modelled.\<close>
  Assembly (\<open>*.S\<close>) and the stack switch, which \<open>proc.c\<close> does not have yet either: \<open>sched\<close> returns and
  so do calls that would sleep. The check of the interrupt flag in \<open>sched\<close>, and a \<open>malloc\<close> that fails in the shell. The task state segment, segment registers and caches of the
  processor. \<open>microdelay\<close>, some console messages, and the hardware behind the ports. \<open>mp.c\<close> (stubs),
  and the test program \<open>usertests.c\<close>. The directory
  \<open>fmt/\<close> is a formatted print-out of the upstream sources.
\<close>

end
